(* ===== verification/Prelude.thy ===== *)
theory Prelude
  imports Main "HOL-Library.Word" "HOL-Library.Monad_Syntax" "HOL-Library.Signed_Division"
begin

text \<open>
  Shared vocabulary of the development: the machine integer types of the kernel sources, the
  error numbers of \<^verbatim>\<open>kernel/include/errno.h\<close> the models return, the type used where C code may
  run into undefined behaviour, and the generic facts on lists, words and options that the
  component theories use.

  Conventions used by every component theory:
  \<^item> a \<open>uintN_t\<close> value is an \<open>N word\<close>, so that addition, subtraction and multiplication
    wrap as they do in C; a C \<open>int\<close> whose range does not matter is an \<open>int\<close>;
  \<^item> a C array of fixed size is a list, indexed with \<open>!\<close> only under a bound that the code or
    the model checks;
  \<^item> a function that dereferences pointers or indexes arrays returns \<open>'a ub\<close>: \<open>None\<close> stands for
    undefined behaviour (a null or wild dereference, an index outside the array), so that a
    theorem which states the result is \<open>Some \<dots>\<close> also states that the code is memory safe;
  \<^item> spin locks are not part of the state: every definition is the body of one critical
    section, and interleavings are sequences of such sections.
\<close>

unbundle bit_operations_syntax

type_synonym u8 = "8 word"
type_synonym u16 = "16 word"
type_synonym u32 = "32 word"
type_synonym u64 = "64 word"

text \<open>Results of code that may hit undefined behaviour: \<open>None\<close> is undefined behaviour.\<close>

type_synonym 'a ub = "'a option"

text \<open>Addresses: the 64-bit values the kernel uses as pointers; 0 is the null pointer.\<close>

type_synonym addr = u64

abbreviation NULL :: addr where "NULL \<equiv> 0"

abbreviation EINTR :: int where "EINTR \<equiv> 4"
abbreviation ECHILD :: int where "ECHILD \<equiv> 10"
abbreviation EACCES :: int where "EACCES \<equiv> 13"
abbreviation EFAULT :: int where "EFAULT \<equiv> 14"
abbreviation EINVAL :: int where "EINVAL \<equiv> 22"
abbreviation EPIPE :: int where "EPIPE \<equiv> 32"

named_theorems eval_defs "definitions that witnesses unfold on concrete inputs"
named_theorems step_inv "preservation of a component's invariant by one of its operations"

subsection \<open>Lists\<close>

lemma list_update_same_length [simp]: "length (xs[i := f (xs ! i)]) = length xs"
  by simp

lemma ball_set_list_update:
  "(\<forall>x \<in> set xs. P x) \<Longrightarrow> P y \<Longrightarrow> \<forall>x \<in> set (xs[i := y]). P x"
  using set_update_subset_insert [of xs i y] by blast

lemma find_index_first:
  assumes "i < length xs" and "P (xs ! i)"
  obtains k where "k \<le> i" and "P (xs ! k)" and "\<forall>j < k. \<not> P (xs ! j)"
proof -
  let ?k = "LEAST j. P (xs ! j)"
  have "P (xs ! ?k)" using assms(2) by (rule LeastI)
  moreover have "?k \<le> i" using assms(2) by (rule Least_le)
  moreover have "\<forall>j < ?k. \<not> P (xs ! j)" using not_less_Least by blast
  ultimately show thesis using that by blast
qed

lemma row_major_inj:
  assumes "n * k + a = n * k' + (a' :: nat)" and "a < n" and "a' < n"
  shows "k = k' \<and> a = a'"
  using arg_cong [OF assms(1), of "\<lambda>x. x div n"] arg_cong [OF assms(1), of "\<lambda>x. x mod n"] assms(2,3)
  by simp

subsection \<open>Words\<close>

lemma unat_le_word: "(x :: 'a::len word) \<le> y \<longleftrightarrow> unat x \<le> unat y"
  by (rule word_le_nat_alt)

lemma unat_less_word: "(x :: 'a::len word) < y \<longleftrightarrow> unat x < unat y"
  by (rule word_less_nat_alt)

lemmas word_to_nat = unat_le_word unat_less_word

lemma unat_plus_le:
  "unat (x :: 'a::len word) + unat y < 2 ^ LENGTH('a) \<Longrightarrow> unat (x + y) = unat x + unat y"
  by (simp add: unat_word_ariths)

lemma unat_pred: "(w :: 'a::len word) \<noteq> 0 \<Longrightarrow> unat w = Suc (unat (w - 1))"
  using unat_minus_one [of w] unsigned_eq_0_iff [of w, where ?'a = nat] by linarith

lemma unat_bound: "unat (x :: 'a::len word) < 2 ^ LENGTH('a)"
  by (rule unsigned_less)

lemma unat_ucast_up:
  "LENGTH('a) \<le> LENGTH('b) \<Longrightarrow> unat (ucast (x :: 'a::len word) :: 'b::len word) = unat x"
  by (simp add: unsigned_ucast_eq take_bit_nat_eq_self_iff)
    (meson less_le_trans one_le_numeral power_increasing unat_bound)

lemma and_exp_eq_0: "(w :: 'a::len word) AND 2 ^ n = 0 \<longleftrightarrow> \<not> bit w n"
proof -
  have "w AND 2 ^ n = of_bool (bit w n) * 2 ^ n"
    by (rule bit_word_eqI) (auto simp: bit_simps)
  then show ?thesis by (auto dest: bit_imp_le_length)
qed

lemma unat_drop_bit: "unat (drop_bit n (x :: 'a::len word)) = unat x div 2 ^ n"
  unfolding unsigned_drop_bit_eq by (simp add: drop_bit_eq_div take_bit_nat_eq_self unat_bound)

lemma unat_and_mask: "unat ((x :: 'a::len word) AND mask n) = unat x mod 2 ^ n"
  unfolding take_bit_eq_mask [symmetric] unsigned_take_bit_eq by (simp add: take_bit_eq_mod)

lemma unat_and_not_mask:
  "unat ((x :: 'a::len word) AND NOT (mask n)) = 2 ^ n * (unat x div 2 ^ n)"
proof (cases "n < LENGTH('a)")
  case True
  have "x AND NOT (mask n) = drop_bit n x * 2 ^ n"
    unfolding push_bit_eq_mult [symmetric] by (rule bit_word_eqI) (auto simp: bit_simps not_less)
  moreover have "unat x div 2 ^ n * 2 ^ n < 2 ^ LENGTH('a)"
    using unat_bound [of x] by (meson div_times_less_eq_dividend le_less_trans)
  moreover have "unat (2 ^ n :: 'a word) = 2 ^ n" 
    using unsigned_of_nat [of "2 ^ n", where ?'a = nat and ?'b = 'a] True
    by (simp add: take_bit_nat_eq_self)
  ultimately show ?thesis by (simp add: unat_word_ariths unat_drop_bit mult.commute)
next
  case False
  then have "x AND NOT (mask n) = 0" by (intro bit_word_eqI) (auto simp: bit_simps)
  moreover have "unat x < 2 ^ n"
    using unat_bound [of x] False by (meson le_less_trans less_le_trans not_less one_le_numeral power_increasing)
  ultimately show ?thesis by simp
qed

subsection \<open>Little-endian byte strings\<close>

text \<open>The \<open>n\<close> low bytes of a word, least significant first, and the value of such a string:
  what a C cast between an integer and its bytes does on this machine.\<close>

fun le_bytes :: "nat \<Rightarrow> 'a::len word \<Rightarrow> u8 list" where
  "le_bytes 0 w = []"
| "le_bytes (Suc n) w = ucast w # le_bytes n (drop_bit 8 w)"

fun le_val :: "u8 list \<Rightarrow> 'a::len word" where
  "le_val [] = 0"
| "le_val (b # bs) = ucast b OR push_bit 8 (le_val bs)"

lemma length_le_bytes [simp]: "length (le_bytes n w) = n"
  by (induction n arbitrary: w) simp_all

lemma le_val_le_bytes: "le_val (le_bytes n w) = take_bit (8 * n) (w :: 'a::len word)"
proof (induction n arbitrary: w)
  case (Suc n)
  have "ucast (ucast w :: u8) OR push_bit 8 (take_bit (8 * n) (drop_bit 8 w)) =
      take_bit (8 * Suc n) w"
    by (rule bit_word_eqI) (auto simp: bit_simps)
  with Suc show ?case by simp
qed simp

lemma le_val_le_bytes_u64 [simp]: "le_val (le_bytes 8 w) = (w :: u64)"
  by (simp add: le_val_le_bytes take_bit_word_eq_self)

lemma le_bytes_le_val:
  "8 * length bs \<le> LENGTH('a) \<Longrightarrow> le_bytes (length bs) (le_val bs :: 'a::len word) = bs"
proof (induction bs)
  case (Cons b bs)
  let ?v = "le_val bs :: 'a word"
  have small: "take_bit (LENGTH('a) - 8) ?v = ?v"
  proof -
    have "?v = take_bit (8 * length bs) ?v"
      using le_val_le_bytes [of "length bs" ?v] Cons by simp
    moreover have "8 * length bs \<le> LENGTH('a) - 8" using Cons.prems by simp
    ultimately show ?thesis by (metis min.absorb2 take_bit_take_bit)
  qed
  have "ucast (ucast b OR push_bit 8 ?v) = b"
    using Cons.prems by (intro bit_word_eqI) (auto simp: bit_simps)
  moreover have "drop_bit 8 (ucast b OR push_bit 8 ?v) = ?v"
  proof (rule bit_word_eqI)
    fix n assume "n < LENGTH('a)"
    have "bit ?v n \<Longrightarrow> n < LENGTH('a) - 8" using small by (metis bit_take_bit_iff)
    then show "bit (drop_bit 8 (ucast b OR push_bit 8 ?v)) n = bit ?v n"
      by (auto simp: bit_simps dest: bit_imp_le_length)
  qed
  ultimately show ?case using Cons by simp
qed simp

end
