(* ===== verification/Tcp_cong.thy ===== *)
theory Tcp_cong
  imports Prelude
begin

text \<open>
  TCP congestion control, \<^verbatim>\<open>kernel/net/tcp_cong.c\<close>: the per-socket congestion state, the table
  of slots, the RTT estimator, and the NewReno state machine driven by acknowledgements and
  timeouts.  The lemmas establish that the retransmission timeout of every slot stays inside
  its configured bounds whatever sequence of operations runs, and characterise the state
  machine.
\<close>

subsection \<open>State\<close>

datatype tcp_cong_state =
    TCP_CONG_SLOW_START | TCP_CONG_AVOIDANCE | TCP_CONG_RECOVERY | TCP_CONG_LOSS

abbreviation TCP_MSS :: u32 where "TCP_MSS \<equiv> 1460"
abbreviation TCP_INITIAL_CWND :: u32 where "TCP_INITIAL_CWND \<equiv> 2920"
abbreviation TCP_INITIAL_SSTHRESH :: u32 where "TCP_INITIAL_SSTHRESH \<equiv> 65535"
abbreviation TCP_RTO_INITIAL :: u32 where "TCP_RTO_INITIAL \<equiv> 1000"
abbreviation TCP_RTO_MIN :: u32 where "TCP_RTO_MIN \<equiv> 200"
abbreviation TCP_RTO_MAX :: u32 where "TCP_RTO_MAX \<equiv> 60000"
abbreviation MAX_TCP_CONG_SOCKETS :: nat where "MAX_TCP_CONG_SOCKETS \<equiv> 16"

record tcp_cong_data =
  cwnd :: u32
  ssthresh :: u32
  rtt :: u32
  rttvar :: u32
  srto :: u32
  rtt_seq :: u32
  rtt_ts :: u32
  rtt_measuring :: bool
  dup_ack_count :: int
  last_ack :: u32
  recover_seq :: u32
  high_seq :: u32
  cong_state :: tcp_cong_state
  window_scale :: int
  sack_ok :: bool
  timestamp_ok :: bool
  recent_ts :: u32
  last_ts_sent :: u32
  sock_id :: int

type_synonym tcp_table = "tcp_cong_data list"

text \<open>The all-zero slot that \<open>memset\<close> leaves behind (state 0 is slow start).\<close>

definition tcp_cong_zero :: tcp_cong_data where
  "tcp_cong_zero =
     \<lparr> cwnd = 0, ssthresh = 0, rtt = 0, rttvar = 0, srto = 0, rtt_seq = 0, rtt_ts = 0,
       rtt_measuring = False, dup_ack_count = 0, last_ack = 0, recover_seq = 0, high_seq = 0,
       cong_state = TCP_CONG_SLOW_START, window_scale = 0, sack_ok = False,
       timestamp_ok = False, recent_ts = 0, last_ts_sent = 0, sock_id = 0 \<rparr>"

definition tcp_cong_init :: tcp_table where
  "tcp_cong_init = replicate MAX_TCP_CONG_SOCKETS tcp_cong_zero"

subsection \<open>Slots\<close>

text \<open>The search loop keeps the first slot whose three fields are all zero.\<close>

fun tcp_free_slot :: "nat \<Rightarrow> tcp_table \<Rightarrow> nat option" where
  "tcp_free_slot i [] = None"
| "tcp_free_slot i (cd # cds) =
     (if cwnd cd = 0 \<and> ssthresh cd = 0 \<and> srto cd = 0 then Some i
      else tcp_free_slot (Suc i) cds)"

text \<open>C's \<open>sock_id % MAX_TCP_CONG_SOCKETS\<close>: the sign follows the dividend, so a negative
  identifier indexes before the array.\<close>

definition tcp_slot_of :: "int \<Rightarrow> nat ub" where
  "tcp_slot_of sock =
     (let slot = sock smod int MAX_TCP_CONG_SOCKETS
      in if slot < 0 then None else Some (nat slot))"

definition tcp_cong_socket_init :: "tcp_table \<Rightarrow> int \<Rightarrow> tcp_table ub" where
  "tcp_cong_socket_init tbl sock =
     (let fresh = tcp_cong_zero\<lparr> cwnd := TCP_INITIAL_CWND, ssthresh := TCP_INITIAL_SSTHRESH,
                    srto := TCP_RTO_INITIAL, cong_state := TCP_CONG_SLOW_START,
                    sock_id := sock \<rparr>
      in case tcp_free_slot 0 tbl of
           Some slot \<Rightarrow> Some (tbl[slot := fresh])
         | None \<Rightarrow>
             do { candidate \<leftarrow> tcp_slot_of sock;
                  if cwnd (tbl ! candidate) \<noteq> 0 then Some tbl
                  else Some (tbl[candidate := fresh]) })"

text \<open>\<open>Some None\<close> is the null pointer the C function returns on a slot conflict.\<close>

definition tcp_cong_find_slot :: "tcp_table \<Rightarrow> int \<Rightarrow> nat option ub" where
  "tcp_cong_find_slot tbl sock =
     do { slot \<leftarrow> tcp_slot_of sock;
          let cd = tbl ! slot;
          if cwnd cd \<noteq> 0 \<and> sock_id cd \<noteq> 0 \<and> sock_id cd \<noteq> sock then Some None
          else Some (Some slot) }"

text \<open>Apply \<open>f\<close> to the slot of \<open>sock\<close>, if \<open>tcp_cong_find_slot\<close> returns one.\<close>

definition tcp_with_slot ::
  "tcp_table \<Rightarrow> int \<Rightarrow> (tcp_cong_data \<Rightarrow> tcp_cong_data) \<Rightarrow> tcp_table ub" where
  "tcp_with_slot tbl sock f =
     do { cd \<leftarrow> tcp_cong_find_slot tbl sock;
          case cd of None \<Rightarrow> Some tbl | Some slot \<Rightarrow> Some (tbl[slot := f (tbl ! slot)]) }"

subsection \<open>RTT estimation\<close>

text \<open>The three lines that recompute and clamp the timeout.\<close>

definition tcp_clamp_rto :: "u32 \<Rightarrow> u32" where
  "tcp_clamp_rto r =
     (let r1 = (if r < TCP_RTO_MIN then TCP_RTO_MIN else r)
      in if TCP_RTO_MAX < r1 then TCP_RTO_MAX else r1)"

text \<open>The absolute difference is taken on \<open>int32_t\<close>: \<open>diff\<close> is negated when its sign bit is set.  For round-trip
  times of 2^31 and more the subtraction or the negation can overflow, which C leaves undefined; the model
  wraps around there, as two's complement code does.\<close>

definition tcp_cong_update_rtt :: "tcp_cong_data \<Rightarrow> u32 \<Rightarrow> tcp_cong_data" where
  "tcp_cong_update_rtt cd measured =
     (if measured = 0 then cd
      else
        let cd1 =
          (if rtt cd = 0 then cd\<lparr> rtt := measured, rttvar := measured div 2 \<rparr>
           else
             let diff = measured - rtt cd;
                 diff = (if sint diff < 0 then - diff else diff)
             in cd\<lparr> rttvar := (3 * rttvar cd + diff) div 4,
                    rtt := (7 * rtt cd + measured) div 8 \<rparr>)
        in cd1\<lparr> srto := tcp_clamp_rto (rtt cd1 + 4 * rttvar cd1) \<rparr>)"

subsection \<open>The NewReno state machine\<close>

text \<open>Lines 183--201: sequence tracking, duplicate detection, reset of the RTO back-off.\<close>

definition tcp_ack_track :: "tcp_cong_data \<Rightarrow> u32 \<Rightarrow> tcp_cong_data" where
  "tcp_ack_track cd ack =
     (let cd1 = (if high_seq cd < ack then cd\<lparr> high_seq := ack \<rparr> else cd)
      in if ack = last_ack cd1 then cd1\<lparr> dup_ack_count := dup_ack_count cd1 + 1 \<rparr>
         else if last_ack cd1 < ack then
           let cd2 = cd1\<lparr> dup_ack_count := 0, last_ack := ack \<rparr>
           in if TCP_RTO_INITIAL < srto cd2 \<and> 0 < rtt cd2
              then cd2\<lparr> srto := tcp_clamp_rto (rtt cd2 + 4 * rttvar cd2) \<rparr>
              else cd2
         else cd1)"

definition tcp_ca_increment :: "tcp_cong_data \<Rightarrow> tcp_cong_data" where
  "tcp_ca_increment cd =
     (let increment = (ucast (((ucast TCP_MSS :: u64) * ucast TCP_MSS) div ucast (cwnd cd)) :: u32);
          increment = (if increment = 0 then 1 else increment)
      in cd\<lparr> cwnd := cwnd cd + increment \<rparr>)"

text \<open>Lines 203--270: the switch on the congestion state.\<close>

definition tcp_ack_machine :: "tcp_cong_data \<Rightarrow> u32 \<Rightarrow> tcp_cong_data" where
  "tcp_ack_machine cd ack =
     (case cong_state cd of
        TCP_CONG_SLOW_START \<Rightarrow>
          (let cd1 =
             (if cwnd cd < ssthresh cd then
                let c = (if cwnd cd \<le> - 1 - TCP_MSS then cwnd cd + TCP_MSS else cwnd cd)
                in cd\<lparr> cwnd := (if ssthresh cd < c then ssthresh cd else c) \<rparr>
              else cd\<lparr> cong_state := TCP_CONG_AVOIDANCE \<rparr>)
           in if cong_state cd1 = TCP_CONG_AVOIDANCE \<and> ssthresh cd1 \<le> cwnd cd1
              then tcp_ca_increment cd1 else cd1)
      | TCP_CONG_AVOIDANCE \<Rightarrow> tcp_ca_increment cd
      | TCP_CONG_RECOVERY \<Rightarrow>
          (if last_ack cd < ack then
             if ack < recover_seq cd then
               let c = cwnd cd - TCP_MSS
               in cd\<lparr> cwnd := (if c < TCP_MSS then TCP_MSS else c), dup_ack_count := 0 \<rparr>
             else cd\<lparr> cwnd := ssthresh cd, cong_state := TCP_CONG_AVOIDANCE,
                      dup_ack_count := 0 \<rparr>
           else cd\<lparr> cwnd := cwnd cd + TCP_MSS \<rparr>)
      | TCP_CONG_LOSS \<Rightarrow>
          (if recover_seq cd \<le> ack
           then cd\<lparr> cong_state := TCP_CONG_SLOW_START, dup_ack_count := 0 \<rparr> else cd))"

text \<open>Lines 305--309, also 275--279: half the window, at least two segments.\<close>

definition tcp_halve_ssthresh :: "tcp_cong_data \<Rightarrow> tcp_cong_data" where
  "tcp_halve_ssthresh cd =
     (let s = cwnd cd div 2 in cd\<lparr> ssthresh := (if s < 2 * TCP_MSS then 2 * TCP_MSS else s) \<rparr>)"

text \<open>Lines 272--289: fast retransmit; \<open>st\<close> is the state saved before the switch.\<close>

definition tcp_fast_retransmit :: "tcp_cong_state \<Rightarrow> tcp_cong_data \<Rightarrow> tcp_cong_data" where
  "tcp_fast_retransmit st cd =
     (if 3 \<le> dup_ack_count cd \<and> st \<noteq> TCP_CONG_RECOVERY \<and> st \<noteq> TCP_CONG_LOSS
      then
        let cd1 = tcp_halve_ssthresh cd
        in cd1\<lparr> cwnd := ssthresh cd1 + 3 * TCP_MSS, recover_seq := high_seq cd1,
                cong_state := TCP_CONG_RECOVERY \<rparr>
      else cd)"

definition tcp_on_ack_cd :: "tcp_cong_data \<Rightarrow> u32 \<Rightarrow> tcp_cong_data" where
  "tcp_on_ack_cd cd ack =
     (if cwnd cd = 0 then cd
      else
        let cd1 = tcp_ack_track cd ack;
            st = cong_state cd1
        in tcp_fast_retransmit st (tcp_ack_machine cd1 ack))"

definition tcp_cong_on_ack :: "tcp_table \<Rightarrow> int \<Rightarrow> u32 \<Rightarrow> tcp_table ub" where
  "tcp_cong_on_ack tbl sock ack = tcp_with_slot tbl sock (\<lambda>cd. tcp_on_ack_cd cd ack)"

definition tcp_on_timeout_cd :: "tcp_cong_data \<Rightarrow> tcp_cong_data" where
  "tcp_on_timeout_cd cd =
     (if cwnd cd = 0 then cd
      else
        let cd1 = tcp_halve_ssthresh cd;
            r = srto cd1 * 2
        in cd1\<lparr> cwnd := TCP_MSS, srto := (if TCP_RTO_MAX < r then TCP_RTO_MAX else r),
                recover_seq := high_seq cd1, cong_state := TCP_CONG_LOSS,
                dup_ack_count := 0, rtt_measuring := False \<rparr>)"

definition tcp_cong_on_timeout :: "tcp_table \<Rightarrow> int \<Rightarrow> tcp_table ub" where
  "tcp_cong_on_timeout tbl sock = tcp_with_slot tbl sock tcp_on_timeout_cd"

subsection \<open>Window scaling, windows and RTT measurement\<close>

definition tcp_cong_set_window_scale :: "tcp_table \<Rightarrow> int \<Rightarrow> int \<Rightarrow> tcp_table ub" where
  "tcp_cong_set_window_scale tbl sock shift_cnt =
     tcp_with_slot tbl sock
       (\<lambda>cd. if 0 \<le> shift_cnt \<and> shift_cnt \<le> 14 then cd\<lparr> window_scale := shift_cnt \<rparr> else cd)"

definition tcp_cong_get_window_scale :: "tcp_table \<Rightarrow> int \<Rightarrow> int ub" where
  "tcp_cong_get_window_scale tbl sock =
     do { cd \<leftarrow> tcp_cong_find_slot tbl sock;
          Some (case cd of None \<Rightarrow> 0 | Some slot \<Rightarrow> window_scale (tbl ! slot)) }"

definition tcp_cong_get_effective_window :: "tcp_table \<Rightarrow> int \<Rightarrow> u16 \<Rightarrow> u32 ub" where
  "tcp_cong_get_effective_window tbl sock rcv_window =
     do { cd \<leftarrow> tcp_cong_find_slot tbl sock;
          Some (case cd of
                  None \<Rightarrow> TCP_MSS
                | Some slot \<Rightarrow>
                    (let scaled_rwnd = push_bit (nat (window_scale (tbl ! slot))) (ucast rcv_window);
                         w = cwnd (tbl ! slot);
                         w = (if scaled_rwnd < w then scaled_rwnd else w)
                     in if w < TCP_MSS then TCP_MSS else w)) }"

definition tcp_cong_get_rto :: "tcp_table \<Rightarrow> int \<Rightarrow> u32 ub" where
  "tcp_cong_get_rto tbl sock =
     do { cd \<leftarrow> tcp_cong_find_slot tbl sock;
          Some (case cd of None \<Rightarrow> TCP_RTO_INITIAL | Some slot \<Rightarrow> srto (tbl ! slot)) }"

definition tcp_cong_start_rtt_measure :: "tcp_table \<Rightarrow> int \<Rightarrow> u32 \<Rightarrow> tcp_table ub" where
  "tcp_cong_start_rtt_measure tbl sock seq =
     tcp_with_slot tbl sock
       (\<lambda>cd. if rtt_measuring cd then cd
             else cd\<lparr> rtt_seq := seq, rtt_measuring := True, rtt_ts := 0 \<rparr>)"

definition tcp_cong_complete_rtt_measure :: "tcp_table \<Rightarrow> int \<Rightarrow> u32 \<Rightarrow> u32 \<Rightarrow> tcp_table ub" where
  "tcp_cong_complete_rtt_measure tbl sock ack_seq measured =
     tcp_with_slot tbl sock
       (\<lambda>cd. if rtt_measuring cd
             then (tcp_cong_update_rtt cd measured)\<lparr> rtt_measuring := False \<rparr> else cd)"

subsection \<open>Invariant\<close>

text \<open>What every slot satisfies: its timeout is either never set or inside the bounds, its
  threshold is either never set or at least two segments, and its window scale is legal.\<close>

definition rto_ok :: "tcp_cong_data \<Rightarrow> bool" where
  "rto_ok cd \<longleftrightarrow>
     (srto cd = 0 \<and> cwnd cd = 0 \<or> TCP_RTO_MIN \<le> srto cd \<and> srto cd \<le> TCP_RTO_MAX) \<and>
     (ssthresh cd = 0 \<and> cwnd cd = 0 \<or> 2 * TCP_MSS \<le> ssthresh cd) \<and>
     0 \<le> window_scale cd \<and> window_scale cd \<le> 14"

definition tcp_inv :: "tcp_table \<Rightarrow> bool" where
  "tcp_inv tbl \<longleftrightarrow> length tbl = MAX_TCP_CONG_SOCKETS \<and> (\<forall>cd \<in> set tbl. rto_ok cd)"

lemma tcp_clamp_rto_ge [simp]: "TCP_RTO_MIN \<le> tcp_clamp_rto r"
  by (simp add: tcp_clamp_rto_def Let_def not_less)

lemma tcp_clamp_rto_le [simp]: "tcp_clamp_rto r \<le> TCP_RTO_MAX"
  by (simp add: tcp_clamp_rto_def Let_def not_less)

lemma rto_ok_zero [simp]: "rto_ok tcp_cong_zero"
  by (simp add: rto_ok_def tcp_cong_zero_def)

lemma tcp_slot_of_bound: "tcp_slot_of sock = Some i \<Longrightarrow> i < MAX_TCP_CONG_SOCKETS"
  using smod_int_range [of 16 sock] by (auto simp: tcp_slot_of_def Let_def split: if_splits)

lemma tcp_slot_of_nonneg: "0 \<le> sock \<Longrightarrow> tcp_slot_of sock = Some (nat (sock mod 16))"
  by (cases "sock = 0") (simp_all add: tcp_slot_of_def smod_int_alt_def Let_def sgn_if)

lemma tcp_free_slot_bound: "tcp_free_slot i tbl = Some k \<Longrightarrow> i \<le> k \<and> k < i + length tbl"
  by (induction i tbl rule: tcp_free_slot.induct) (auto split: if_splits)

lemma tcp_inv_init [step_inv]: "tcp_inv tcp_cong_init"
  by (simp add: tcp_inv_def tcp_cong_init_def)

lemma tcp_inv_update: "tcp_inv tbl \<Longrightarrow> rto_ok cd \<Longrightarrow> tcp_inv (tbl[i := cd])"
  unfolding tcp_inv_def by (auto dest!: set_update_subset_insert [THEN subsetD])

lemma tcp_inv_with_slot:
  assumes "tcp_inv tbl" and "\<And>cd. rto_ok cd \<Longrightarrow> rto_ok (f cd)"
    and "tcp_with_slot tbl sock f = Some tbl'"
  shows "tcp_inv tbl'"
proof -
  from assms(3) consider "tbl' = tbl"
    | slot where "slot < MAX_TCP_CONG_SOCKETS" and "tbl' = tbl[slot := f (tbl ! slot)]"
    by (auto simp: tcp_with_slot_def tcp_cong_find_slot_def Let_def dest: tcp_slot_of_bound
        split: Option.bind_splits option.splits if_splits)
  then show ?thesis
  proof cases
    case 2
    with assms(1) have "rto_ok (tbl ! slot)" by (simp add: tcp_inv_def)
    with 2 assms(1,2) show ?thesis by (simp add: tcp_inv_update)
  qed (use assms(1) in simp)
qed

lemma rto_ok_update_rtt: "rto_ok cd \<Longrightarrow> rto_ok (tcp_cong_update_rtt cd m)"
  by (simp add: rto_ok_def tcp_cong_update_rtt_def Let_def)

lemma rto_ok_ack_track: "rto_ok cd \<Longrightarrow> rto_ok (tcp_ack_track cd ack)"
  by (simp add: rto_ok_def tcp_ack_track_def Let_def)

lemma cwnd_ack_track [simp]: "cwnd (tcp_ack_track cd ack) = cwnd cd"
  by (simp add: tcp_ack_track_def Let_def)

lemma rto_ok_ack_machine:
  "rto_ok cd \<Longrightarrow> cwnd cd \<noteq> 0 \<Longrightarrow> rto_ok (tcp_ack_machine cd ack)"
  by (auto simp: rto_ok_def tcp_ack_machine_def tcp_ca_increment_def Let_def
      split: tcp_cong_state.splits)

lemma tcp_ack_machine_active:
  "rto_ok cd \<Longrightarrow> cwnd cd \<noteq> 0 \<Longrightarrow> srto (tcp_ack_machine cd ack) \<noteq> 0"
  by (auto simp: rto_ok_def tcp_ack_machine_def tcp_ca_increment_def Let_def word_to_nat
      split: tcp_cong_state.splits)

lemma rto_ok_halve: "rto_ok cd \<Longrightarrow> rto_ok (tcp_halve_ssthresh cd)"
  by (auto simp: rto_ok_def tcp_halve_ssthresh_def Let_def not_less)

lemma rto_ok_fast_retransmit:
  "rto_ok cd \<Longrightarrow> srto cd \<noteq> 0 \<Longrightarrow> rto_ok (tcp_fast_retransmit st cd)"
  by (auto simp: tcp_fast_retransmit_def rto_ok_def tcp_halve_ssthresh_def Let_def not_less)

lemma rto_ok_on_ack: "rto_ok cd \<Longrightarrow> rto_ok (tcp_on_ack_cd cd ack)"
  by (simp add: tcp_on_ack_cd_def Let_def rto_ok_fast_retransmit rto_ok_ack_machine
      rto_ok_ack_track tcp_ack_machine_active)

lemma rto_ok_on_timeout: "rto_ok cd \<Longrightarrow> rto_ok (tcp_on_timeout_cd cd)"
  by (auto simp: tcp_on_timeout_cd_def rto_ok_def tcp_halve_ssthresh_def Let_def not_less
      word_to_nat unat_word_ariths)

subsection \<open>Sequences of operations\<close>

datatype tcp_op =
    SocketInit int | Ack int u32 | Timeout int | SetScale int int
  | StartRtt int u32 | CompleteRtt int u32 u32

fun tcp_op_sock :: "tcp_op \<Rightarrow> int" where
  "tcp_op_sock (SocketInit s) = s"
| "tcp_op_sock (Ack s a) = s"
| "tcp_op_sock (Timeout s) = s"
| "tcp_op_sock (SetScale s n) = s"
| "tcp_op_sock (StartRtt s q) = s"
| "tcp_op_sock (CompleteRtt s a m) = s"

fun tcp_step :: "tcp_table \<Rightarrow> tcp_op \<Rightarrow> tcp_table ub" where
  "tcp_step tbl (SocketInit s) = tcp_cong_socket_init tbl s"
| "tcp_step tbl (Ack s a) = tcp_cong_on_ack tbl s a"
| "tcp_step tbl (Timeout s) = tcp_cong_on_timeout tbl s"
| "tcp_step tbl (SetScale s n) = tcp_cong_set_window_scale tbl s n"
| "tcp_step tbl (StartRtt s q) = tcp_cong_start_rtt_measure tbl s q"
| "tcp_step tbl (CompleteRtt s a m) = tcp_cong_complete_rtt_measure tbl s a m"

fun tcp_run :: "tcp_table \<Rightarrow> tcp_op list \<Rightarrow> tcp_table ub" where
  "tcp_run tbl [] = Some tbl"
| "tcp_run tbl (x # xs) = do { tbl' \<leftarrow> tcp_step tbl x; tcp_run tbl' xs }"

lemma tcp_inv_socket_init:
  "tcp_inv tbl \<Longrightarrow> tcp_cong_socket_init tbl sock = Some tbl' \<Longrightarrow> tcp_inv tbl'"
  by (auto simp: tcp_cong_socket_init_def Let_def rto_ok_def tcp_cong_zero_def
      intro!: tcp_inv_update split: option.splits Option.bind_splits if_splits)

lemma tcp_inv_step: "tcp_inv tbl \<Longrightarrow> tcp_step tbl x = Some tbl' \<Longrightarrow> tcp_inv tbl'"
proof (cases x)
  case (SetScale s n)
  assume "tcp_inv tbl" "tcp_step tbl x = Some tbl'"
  then show ?thesis unfolding SetScale tcp_step.simps tcp_cong_set_window_scale_def
    by (elim tcp_inv_with_slot [rotated 2]) (auto simp: rto_ok_def)
next
  case (StartRtt s q)
  assume "tcp_inv tbl" "tcp_step tbl x = Some tbl'"
  then show ?thesis unfolding StartRtt tcp_step.simps tcp_cong_start_rtt_measure_def
    by (elim tcp_inv_with_slot [rotated 2]) (auto simp: rto_ok_def)
next
  case (CompleteRtt s a m)
  have *: "rto_ok cd \<Longrightarrow> rto_ok ((tcp_cong_update_rtt cd m)\<lparr> rtt_measuring := False \<rparr>)" for cd
    using rto_ok_update_rtt [of cd m] by (simp add: rto_ok_def)
  assume "tcp_inv tbl" "tcp_step tbl x = Some tbl'"
  then show ?thesis unfolding CompleteRtt tcp_step.simps tcp_cong_complete_rtt_measure_def
    by (elim tcp_inv_with_slot [rotated 2]) (auto simp: *)
qed (auto simp: tcp_cong_on_ack_def tcp_cong_on_timeout_def intro: tcp_inv_socket_init
     dest: tcp_inv_with_slot rto_ok_on_ack rto_ok_on_timeout)

lemma tcp_step_defined: "0 \<le> tcp_op_sock x \<Longrightarrow> \<exists>tbl'. tcp_step tbl x = Some tbl'"
  by (cases x)
    (auto simp: tcp_cong_socket_init_def tcp_cong_on_ack_def tcp_cong_on_timeout_def
      tcp_cong_set_window_scale_def tcp_cong_start_rtt_measure_def
      tcp_cong_complete_rtt_measure_def tcp_with_slot_def tcp_cong_find_slot_def
      tcp_slot_of_nonneg Let_def split: option.splits)

lemma tcp_run_inv:
  "tcp_inv tbl \<Longrightarrow> \<forall>x \<in> set ops. 0 \<le> tcp_op_sock x \<Longrightarrow>
    \<exists>tbl'. tcp_run tbl ops = Some tbl' \<and> tcp_inv tbl'"
proof (induction ops arbitrary: tbl)
  case (Cons x ops)
  then obtain tbl1 where "tcp_step tbl x = Some tbl1" using tcp_step_defined by fastforce
  moreover from this Cons.prems(1) have "tcp_inv tbl1" by (rule tcp_inv_step [rotated])
  ultimately show ?case using Cons by simp
qed simp

lemma tcp_inv_get_rto:
  assumes "tcp_inv tbl" and "0 \<le> sock"
  shows "\<exists>r. tcp_cong_get_rto tbl sock = Some r \<and> (r = 0 \<or> TCP_RTO_MIN \<le> r \<and> r \<le> TCP_RTO_MAX)"
proof -
  have "nat (sock mod 16) < length tbl" using assms(1) by (simp add: tcp_inv_def nat_less_iff)
  then have "rto_ok (tbl ! nat (sock mod 16))" using assms(1) by (simp add: tcp_inv_def)
  then show ?thesis using assms(2)
    by (auto simp: tcp_cong_get_rto_def tcp_cong_find_slot_def tcp_slot_of_nonneg rto_ok_def Let_def)
qed

subsection \<open>Properties\<close>

text \<open>C21: Whatever sequence of socket initialisations, acknowledgements, timeouts, window-scale
  changes and RTT measurements runs from the initial table, on non-negative socket identifiers
  no operation leaves the table's bounds, and the retransmission timeout read back for any
  socket afterwards is either still unset or between 200 ms and 60 s: neither the exponential
  back-off nor the 32-bit RTT arithmetic ever leads outside these bounds.\<close>

theorem tcp_rto_bounded:
  assumes "\<forall>x \<in> set ops. 0 \<le> tcp_op_sock x" and "0 \<le> sock"
  shows "\<exists>tbl r. tcp_run tcp_cong_init ops = Some tbl \<and> tcp_cong_get_rto tbl sock = Some r \<and>
           (r = 0 \<or> 200 \<le> r \<and> r \<le> 60000)"
  using tcp_run_inv [OF tcp_inv_init assms(1)] tcp_inv_get_rto [OF _ assms(2)] by fastforce

theorem tcp_rto_bounded_witness:
  "\<exists>tbl r. tcp_run tcp_cong_init
       [SocketInit 0, Timeout 0, Timeout 0, StartRtt 0 7, CompleteRtt 0 8 30, Ack 0 8] = Some tbl \<and>
     tcp_cong_get_rto tbl 0 = Some r \<and> (r = 0 \<or> 200 \<le> r \<and> r \<le> 60000)"
  by (rule tcp_rto_bounded) simp_all

text \<open>C34: Fast recovery is never left by an acknowledgement: the handler records the new
  acknowledgement in \<open>last_ack\<close> before the state machine compares the two, so the comparison
  \<open>ack_seq > last_ack\<close> of the recovery branch is false for every input, the partial and the
  full acknowledgement branches are dead, and every acknowledgement inflates the window by one
  segment.\<close>

theorem tcp_recovery_never_left_by_ack:
  assumes "cong_state cd = TCP_CONG_RECOVERY" and "cwnd cd \<noteq> 0"
  shows "cong_state (tcp_on_ack_cd cd ack) = TCP_CONG_RECOVERY \<and>
         cwnd (tcp_on_ack_cd cd ack) = cwnd cd + 1460"
  using assms
  by (auto simp: tcp_on_ack_cd_def tcp_ack_track_def tcp_ack_machine_def tcp_fast_retransmit_def Let_def)

theorem tcp_recovery_never_left_by_ack_witness:
  "cong_state (tcp_on_ack_cd (tcp_cong_zero\<lparr> cwnd := 7300, cong_state := TCP_CONG_RECOVERY,
      last_ack := 100, recover_seq := 500 \<rparr>) 900) = TCP_CONG_RECOVERY \<and>
   cwnd (tcp_on_ack_cd (tcp_cong_zero\<lparr> cwnd := 7300, cong_state := TCP_CONG_RECOVERY,
      last_ack := 100, recover_seq := 500 \<rparr>) 900) = 8760"
  using tcp_recovery_never_left_by_ack [of "tcp_cong_zero\<lparr> cwnd := 7300,
      cong_state := TCP_CONG_RECOVERY, last_ack := 100, recover_seq := 500 \<rparr>" 900]
  by (simp add: tcp_cong_zero_def)

text \<open>C35: The slot a socket is initialised in is not the slot it is looked up in.  Initialisation
  takes the first free slot, while every later operation indexes the table with the socket
  identifier modulo 16: on a fresh table, for every socket 1 to 15, an acknowledgement after
  initialisation changes nothing, and the timeout read back is the unset value 0 rather than
  the initial timeout.\<close>

theorem tcp_slot_mismatch:
  assumes "0 < sock" and "sock < 16"
  shows "\<exists>tbl. tcp_cong_socket_init tcp_cong_init sock = Some tbl \<and>
           tcp_cong_on_ack tbl sock ack = Some tbl \<and> tcp_cong_get_rto tbl sock = Some 0"
proof -
  define fresh where "fresh = tcp_cong_zero\<lparr> cwnd := TCP_INITIAL_CWND,
    ssthresh := TCP_INITIAL_SSTHRESH, srto := TCP_RTO_INITIAL,
    cong_state := TCP_CONG_SLOW_START, sock_id := sock \<rparr>"
  define tbl where "tbl = tcp_cong_init[0 := fresh]"
  have init: "tcp_cong_socket_init tcp_cong_init sock = Some tbl"
    by (simp add: tcp_cong_socket_init_def tcp_cong_init_def tbl_def fresh_def numeral_eq_Suc
        tcp_cong_zero_def)
  have nth: "tbl ! nat sock = tcp_cong_zero"
    using assms by (simp add: tbl_def tcp_cong_init_def nat_less_iff)
  have slot: "tcp_cong_find_slot tbl sock = Some (Some (nat sock))"
    using assms nth by (simp add: tcp_cong_find_slot_def tcp_slot_of_nonneg tcp_cong_zero_def)
  have "tcp_cong_on_ack tbl sock ack = Some tbl"
    using nth slot list_update_id [of tbl "nat sock"]
    by (simp add: tcp_cong_on_ack_def tcp_with_slot_def tcp_on_ack_cd_def tcp_cong_zero_def)
  moreover have "tcp_cong_get_rto tbl sock = Some 0"
    using nth slot by (simp add: tcp_cong_get_rto_def tcp_cong_zero_def)
  ultimately show ?thesis using init by blast
qed

theorem tcp_slot_mismatch_witness:
  "\<exists>tbl. tcp_cong_socket_init tcp_cong_init 5 = Some tbl \<and>
     tcp_cong_on_ack tbl 5 1000 = Some tbl \<and> tcp_cong_get_rto tbl 5 = Some 0"
  by (rule tcp_slot_mismatch) simp_all

end
