(* ===== verification/Seccomp.thy ===== *)
theory Seccomp
  imports Prelude
begin

text \<open>
  System call filtering, \<^verbatim>\<open>kernel/seccomp.c\<close> and \<^verbatim>\<open>kernel/seccomp.h\<close>: the classic BPF
  interpreter \<open>seccomp_run_bpf\<close>, the installation of a filter and the two-phase check of a
  system call.  The interpreter loop is modelled with fuel: \<open>None\<close> means still running after
  that many instructions, \<open>Some None\<close> undefined behaviour (a load outside
  \<open>struct seccomp_data\<close> or an instruction outside the program), \<open>Some (Some r)\<close> that \<open>r\<close> was
  returned.  The lemmas show that a program
  whose jumps move forward ends within \<open>len + 1\<close> rounds, and which loads of it are out of bounds.
\<close>

subsection \<open>Instruction set\<close>

abbreviation BPF_LD :: u16 where "BPF_LD \<equiv> 0x00"
abbreviation BPF_LDX :: u16 where "BPF_LDX \<equiv> 0x01"
abbreviation BPF_ST :: u16 where "BPF_ST \<equiv> 0x02"
abbreviation BPF_STX :: u16 where "BPF_STX \<equiv> 0x03"
abbreviation BPF_ALU :: u16 where "BPF_ALU \<equiv> 0x04"
abbreviation BPF_JMP :: u16 where "BPF_JMP \<equiv> 0x05"
abbreviation BPF_RET :: u16 where "BPF_RET \<equiv> 0x06"
abbreviation BPF_MISC :: u16 where "BPF_MISC \<equiv> 0x07"
abbreviation BPF_IMM :: u16 where "BPF_IMM \<equiv> 0x00"
abbreviation BPF_ABS :: u16 where "BPF_ABS \<equiv> 0x20"
abbreviation BPF_IND :: u16 where "BPF_IND \<equiv> 0x40"
abbreviation BPF_MEM :: u16 where "BPF_MEM \<equiv> 0x60"
abbreviation BPF_LEN :: u16 where "BPF_LEN \<equiv> 0x80"
abbreviation BPF_MSH :: u16 where "BPF_MSH \<equiv> 0xA0"
abbreviation BPF_ADD :: u16 where "BPF_ADD \<equiv> 0x00"
abbreviation BPF_SUB :: u16 where "BPF_SUB \<equiv> 0x10"
abbreviation BPF_MUL :: u16 where "BPF_MUL \<equiv> 0x20"
abbreviation BPF_DIV :: u16 where "BPF_DIV \<equiv> 0x30"
abbreviation BPF_OR :: u16 where "BPF_OR \<equiv> 0x40"
abbreviation BPF_AND :: u16 where "BPF_AND \<equiv> 0x50"
abbreviation BPF_LSH :: u16 where "BPF_LSH \<equiv> 0x60"
abbreviation BPF_RSH :: u16 where "BPF_RSH \<equiv> 0x70"
abbreviation BPF_NEG :: u16 where "BPF_NEG \<equiv> 0x80"
abbreviation BPF_MOD :: u16 where "BPF_MOD \<equiv> 0x90"
abbreviation BPF_XOR :: u16 where "BPF_XOR \<equiv> 0xA0"
abbreviation BPF_JA :: u16 where "BPF_JA \<equiv> 0x00"
abbreviation BPF_JEQ :: u16 where "BPF_JEQ \<equiv> 0x10"
abbreviation BPF_JGT :: u16 where "BPF_JGT \<equiv> 0x20"
abbreviation BPF_JGE :: u16 where "BPF_JGE \<equiv> 0x30"
abbreviation BPF_JSET :: u16 where "BPF_JSET \<equiv> 0x40"
abbreviation BPF_K :: u16 where "BPF_K \<equiv> 0x00"
abbreviation BPF_X :: u16 where "BPF_X \<equiv> 0x08"
abbreviation BPF_W :: u16 where "BPF_W \<equiv> 0x00"
abbreviation BPF_H :: u16 where "BPF_H \<equiv> 0x08"
abbreviation BPF_B :: u16 where "BPF_B \<equiv> 0x10"
abbreviation BPF_A :: u16 where "BPF_A \<equiv> 0x10"
abbreviation BPF_TAX :: u16 where "BPF_TAX \<equiv> 0x00"
abbreviation BPF_TXA :: u16 where "BPF_TXA \<equiv> 0x80"

abbreviation SECCOMP_RET_ALLOW :: u32 where "SECCOMP_RET_ALLOW \<equiv> 0x7FFF0000"
abbreviation AUDIT_ARCH_X86_64 :: u32 where "AUDIT_ARCH_X86_64 \<equiv> 0xC000003E"
abbreviation SECCOMP_MAX_BPF_LEN :: nat where "SECCOMP_MAX_BPF_LEN \<equiv> 4096"
abbreviation BPF_SCRATCH_SIZE :: u32 where "BPF_SCRATCH_SIZE \<equiv> 16"

record sock_filter =
  bpf_code :: u16
  bpf_jt :: u8
  bpf_jf :: u8
  bpf_k :: u32

record seccomp_data =
  sd_nr :: u32
  sd_arch :: u32
  sd_instruction_pointer :: u64
  sd_args :: "u64 list"

text \<open>The bytes of the structure, in memory order; 64 bytes for six arguments.\<close>

definition seccomp_bytes :: "seccomp_data \<Rightarrow> u8 list" where
  "seccomp_bytes d = le_bytes 4 (sd_nr d) @ le_bytes 4 (sd_arch d) @
     le_bytes 8 (sd_instruction_pointer d) @ concat (map (le_bytes 8) (sd_args d))"

abbreviation SECCOMP_DATA_SIZE :: nat where "SECCOMP_DATA_SIZE \<equiv> 64"

record bpf_state =
  reg_A :: u32
  reg_X :: u32
  reg_pc :: u32
  scratch :: "u32 list"

text \<open>What one instruction does: return a verdict, continue in a new state (with the program
  counter already advanced), or run into undefined behaviour.\<close>

datatype bpf_out = BRet int | BNext bpf_state | BUb

subsection \<open>The instructions\<close>

text \<open>A load of \<open>n\<close> bytes at offset \<open>off\<close>.  The bounds check of the code adds in 32 bits, the
  access does not wrap.\<close>

definition bpf_load :: "u8 list \<Rightarrow> u32 \<Rightarrow> u32 \<Rightarrow> (u32 \<Rightarrow> bpf_out) \<Rightarrow> bpf_out" where
  "bpf_load base off n kont =
     (if SECCOMP_DATA_SIZE < unat (off + n) then BRet (- 1)
      else if unat off + unat n \<le> length base
      then kont (le_val (take (unat n) (drop (unat off) base)))
      else BUb)"

definition bpf_next :: "bpf_state \<Rightarrow> bpf_out" where
  "bpf_next st = BNext (st\<lparr> reg_pc := reg_pc st + 1 \<rparr>)"

text \<open>Lines 184--293: loads into A and X.\<close>

definition bpf_ld :: "u8 list \<Rightarrow> sock_filter \<Rightarrow> bpf_state \<Rightarrow> bpf_out option" where
  "bpf_ld base insn st =
     (let c = bpf_code insn; kk = bpf_k insn in
      if c = BPF_LD OR BPF_W OR BPF_ABS then
        Some (bpf_load base kk 4 (\<lambda>v. bpf_next (st\<lparr> reg_A := v \<rparr>)))
      else if c = BPF_LD OR BPF_W OR BPF_LEN then Some (bpf_next (st\<lparr> reg_A := 64 \<rparr>))
      else if c = BPF_LD OR BPF_W OR BPF_IMM then Some (bpf_next (st\<lparr> reg_A := kk \<rparr>))
      else if c = BPF_LD OR BPF_H OR BPF_ABS then
        Some (bpf_load base kk 2 (\<lambda>v. bpf_next (st\<lparr> reg_A := v \<rparr>)))
      else if c = BPF_LD OR BPF_B OR BPF_ABS then
        Some (bpf_load base kk 1 (\<lambda>v. bpf_next (st\<lparr> reg_A := v \<rparr>)))
      else if c = BPF_LD OR BPF_W OR BPF_IND then
        Some (if - 1 - kk < reg_X st then BRet (- 1)
              else bpf_load base (reg_X st + kk) 4 (\<lambda>v. bpf_next (st\<lparr> reg_A := v \<rparr>)))
      else if c = BPF_LDX OR BPF_W OR BPF_IMM then Some (bpf_next (st\<lparr> reg_X := kk \<rparr>))
      else if c = BPF_LDX OR BPF_W OR BPF_MEM then
        Some (if BPF_SCRATCH_SIZE \<le> kk then BRet (- 1)
              else bpf_next (st\<lparr> reg_X := scratch st ! unat (kk AND (BPF_SCRATCH_SIZE - 1)) \<rparr>))
      else if c = BPF_LDX OR BPF_W OR BPF_LEN then Some (bpf_next (st\<lparr> reg_X := 64 \<rparr>))
      else if c = BPF_LDX OR BPF_B OR BPF_MSH then
        Some (bpf_load base kk 1 (\<lambda>v. bpf_next (st\<lparr> reg_X := 4 * (v AND 0x0F) \<rparr>)))
      else None)"

text \<open>Lines 298--339: the value of an ALU operation with operand \<open>v\<close>.\<close>

definition bpf_alu_op :: "u16 \<Rightarrow> u32 \<Rightarrow> u32 \<Rightarrow> u32 option" where
  "bpf_alu_op opc a v =
     (if opc = BPF_ADD then Some (a + v)
      else if opc = BPF_SUB then Some (a - v)
      else if opc = BPF_MUL then Some (a * v)
      else if opc = BPF_DIV then Some (if v \<noteq> 0 then a div v else 0)
      else if opc = BPF_OR then Some (a OR v)
      else if opc = BPF_AND then Some (a AND v)
      else if opc = BPF_LSH then Some (if v < 32 then push_bit (unat v) a else 0)
      else if opc = BPF_RSH then Some (if v < 32 then drop_bit (unat v) a else 0)
      else if opc = BPF_MOD then Some (if v \<noteq> 0 then a mod v else 0)
      else if opc = BPF_XOR then Some (a XOR v)
      else None)"

definition bpf_alu :: "sock_filter \<Rightarrow> bpf_state \<Rightarrow> bpf_out option" where
  "bpf_alu insn st =
     (let c = bpf_code insn; opc = c AND 0xF0 in
      if c = BPF_ALU OR BPF_NEG then Some (bpf_next (st\<lparr> reg_A := - reg_A st \<rparr>))
      else if c = BPF_ALU OR opc OR BPF_K then
        map_option (\<lambda>v. bpf_next (st\<lparr> reg_A := v \<rparr>)) (bpf_alu_op opc (reg_A st) (bpf_k insn))
      else if c = BPF_ALU OR opc OR BPF_X then
        map_option (\<lambda>v. bpf_next (st\<lparr> reg_A := v \<rparr>)) (bpf_alu_op opc (reg_A st) (reg_X st))
      else None)"

text \<open>Lines 344--388.  The offset is added to the address of the jump itself, and the
  increment at the end of the loop is skipped.\<close>

definition bpf_jump_to :: "u16 \<Rightarrow> bpf_state \<Rightarrow> u32 \<Rightarrow> bpf_out" where
  "bpf_jump_to len st off =
     (let p = reg_pc st + off in if ucast len \<le> p then BRet (- 1) else BNext (st\<lparr> reg_pc := p \<rparr>))"

definition bpf_cond :: "u16 \<Rightarrow> u32 \<Rightarrow> u32 \<Rightarrow> bool option" where
  "bpf_cond opc a v =
     (if opc = BPF_JEQ then Some (a = v)
      else if opc = BPF_JGT then Some (v < a)
      else if opc = BPF_JGE then Some (v \<le> a)
      else if opc = BPF_JSET then Some (a AND v \<noteq> 0)
      else None)"

definition bpf_jmp :: "u16 \<Rightarrow> sock_filter \<Rightarrow> bpf_state \<Rightarrow> bpf_out option" where
  "bpf_jmp len insn st =
     (let c = bpf_code insn; opc = c AND 0xF0;
          branch = (\<lambda>b. bpf_jump_to len st (ucast (if b then bpf_jt insn else bpf_jf insn))) in
      if c = BPF_JMP OR BPF_JA then Some (bpf_jump_to len st (bpf_k insn))
      else if c = BPF_JMP OR opc OR BPF_K then
        map_option branch (bpf_cond opc (reg_A st) (bpf_k insn))
      else if c = BPF_JMP OR opc OR BPF_X then
        map_option branch (bpf_cond opc (reg_A st) (reg_X st))
      else None)"

text \<open>Lines 393--448: returns, register transfers and scratch stores.\<close>

definition bpf_misc :: "sock_filter \<Rightarrow> bpf_state \<Rightarrow> bpf_out option" where
  "bpf_misc insn st =
     (let c = bpf_code insn; kk = bpf_k insn;
          store = (\<lambda>v. if BPF_SCRATCH_SIZE \<le> kk then BRet (- 1)
            else bpf_next (st\<lparr> scratch := (scratch st)[unat (kk AND (BPF_SCRATCH_SIZE - 1)) := v] \<rparr>)) in
      if c = BPF_RET OR BPF_K then Some (BRet (if kk = SECCOMP_RET_ALLOW then 0 else - 1))
      else if c = BPF_RET OR BPF_A then
        Some (BRet (if reg_A st = SECCOMP_RET_ALLOW then 0 else - 1))
      else if c = BPF_MISC OR BPF_TAX then Some (bpf_next (st\<lparr> reg_X := reg_A st \<rparr>))
      else if c = BPF_MISC OR BPF_TXA then Some (bpf_next (st\<lparr> reg_A := reg_X st \<rparr>))
      else if c = BPF_ST then Some (store (reg_A st))
      else if c = BPF_STX then Some (store (reg_X st))
      else None)"

text \<open>The switch; an unknown instruction denies.\<close>

definition bpf_exec :: "u16 \<Rightarrow> u8 list \<Rightarrow> sock_filter \<Rightarrow> bpf_state \<Rightarrow> bpf_out" where
  "bpf_exec len base insn st =
     (case bpf_ld base insn st of Some r \<Rightarrow> r
      | None \<Rightarrow> (case bpf_alu insn st of Some r \<Rightarrow> r
      | None \<Rightarrow> (case bpf_jmp len insn st of Some r \<Rightarrow> r
      | None \<Rightarrow> (case bpf_misc insn st of Some r \<Rightarrow> r
      | None \<Rightarrow> BRet (- 1)))))"

text \<open>The loop, one unit of fuel per instruction.\<close>

fun bpf_loop :: "nat \<Rightarrow> sock_filter list \<Rightarrow> u16 \<Rightarrow> u8 list \<Rightarrow> bpf_state \<Rightarrow> int ub option" where
  "bpf_loop 0 prog len base st = None"
| "bpf_loop (Suc fuel) prog len base st =
     (if reg_pc st < ucast len then
        if unat (reg_pc st) < length prog then
          (case bpf_exec len base (prog ! unat (reg_pc st)) st of
             BRet r \<Rightarrow> Some (Some r)
           | BNext st' \<Rightarrow> bpf_loop fuel prog len base st'
           | BUb \<Rightarrow> Some None)
        else Some None
      else Some (Some (- 1)))"

definition bpf_start :: bpf_state where
  "bpf_start = \<lparr> reg_A = 0, reg_X = 0, reg_pc = 0, scratch = replicate 16 0 \<rparr>"

definition seccomp_run_bpf ::
  "nat \<Rightarrow> sock_filter list option \<Rightarrow> u16 \<Rightarrow> seccomp_data option \<Rightarrow> int ub option" where
  "seccomp_run_bpf fuel prog len data =
     (case prog of None \<Rightarrow> Some (Some 0)
      | Some is \<Rightarrow>
          if len = 0 then Some (Some 0)
          else (case data of None \<Rightarrow> Some (Some (- 1))
                | Some d \<Rightarrow> bpf_loop fuel is len (seccomp_bytes d) bpf_start))"

subsection \<open>Installing a filter and checking a system call\<close>

record seccomp_filter =
  syscall_mask :: "u64 list"
  bpf_len :: u16
  bpf_prog :: "sock_filter list"

text \<open>\<open>task\<close> is \<open>None\<close> for a null task and \<open>Some s\<close> for a task whose \<open>seccomp\<close> field is \<open>s\<close>
  (\<open>None\<close> the null pointer); \<open>kmalloc_ok\<close> says whether the allocation of the copy succeeds.
  The result is the task afterwards and the return value.\<close>

type_synonym seccomp_task = "seccomp_filter option option"

definition seccomp_set_filter ::
  "bool \<Rightarrow> seccomp_task \<Rightarrow> seccomp_filter option \<Rightarrow> seccomp_task \<times> int" where
  "seccomp_set_filter kmalloc_ok task flt =
     (case task of
        None \<Rightarrow> (task, - 1)
      | Some cur \<Rightarrow>
          (case flt of
             None \<Rightarrow> if cur \<noteq> None then (task, - 1) else (task, 0)
           | Some f \<Rightarrow>
               if cur \<noteq> None then (task, - EACCES)
               else if SECCOMP_MAX_BPF_LEN < unat (bpf_len f) then (task, - 1)
               else if \<not> kmalloc_ok then (task, - 1)
               else (Some (Some f), 0)))"

definition seccomp_data_of :: "int \<Rightarrow> u64 list \<Rightarrow> seccomp_data" where
  "seccomp_data_of nr args =
     \<lparr> sd_nr = word_of_int nr, sd_arch = AUDIT_ARCH_X86_64, sd_instruction_pointer = 0,
       sd_args = take 6 args \<rparr>"

definition seccomp_check ::
  "nat \<Rightarrow> seccomp_task \<Rightarrow> int \<Rightarrow> u64 list option \<Rightarrow> int ub option" where
  "seccomp_check fuel task nr args =
     (case task of
        None \<Rightarrow> Some (Some 0)
      | Some None \<Rightarrow> Some (Some 0)
      | Some (Some f) \<Rightarrow>
          if nr < 0 \<or> 256 \<le> nr then Some (Some (- 1))
          else
            let word_idx = nat (nr div 64); bit_idx = nat (nr mod 64);
                mask = push_bit bit_idx (1 :: u64)
            in if syscall_mask f ! word_idx AND mask = 0 then Some (Some (- 1))
               else if bpf_len f > 0 \<and> args \<noteq> None then
                 (case seccomp_run_bpf fuel (Some (bpf_prog f)) (bpf_len f)
                         (Some (seccomp_data_of nr (the args))) of
                    Some (Some r) \<Rightarrow> Some (Some (if r \<noteq> 0 then - 1 else 0))
                  | r \<Rightarrow> r)
               else Some (Some 0))"

subsection \<open>Programs on which the interpreter is total\<close>

text \<open>Every jump of the instruction at index \<open>i\<close> moves forward: the source adds the offset to the
  index of the jump itself, in 32 bits.\<close>

definition bpf_forward :: "nat \<Rightarrow> sock_filter \<Rightarrow> bool" where
  "bpf_forward i insn \<longleftrightarrow>
     (let c = bpf_code insn in
      (c = BPF_JMP OR BPF_JA \<longrightarrow> 0 < unat (bpf_k insn) \<and> i + unat (bpf_k insn) < 2 ^ 32) \<and>
      (c \<in> {0x15, 0x1D, 0x25, 0x2D, 0x35, 0x3D, 0x45, 0x4D} \<longrightarrow> bpf_jt insn \<noteq> 0 \<and> bpf_jf insn \<noteq> 0))"

text \<open>The first byte and the number of bytes that an instruction loads from \<open>struct seccomp_data\<close>, and the
  loads for which the 32-bit sum of the two, which the source compares with the size, wraps around.\<close>

definition bpf_load_range :: "sock_filter \<Rightarrow> bpf_state \<Rightarrow> (nat \<times> nat) option" where
  "bpf_load_range insn st =
     (let c = bpf_code insn; k = unat (bpf_k insn) in
      if c = BPF_LD OR BPF_W OR BPF_ABS then Some (k, 4)
      else if c = BPF_LD OR BPF_H OR BPF_ABS then Some (k, 2)
      else if c = BPF_LD OR BPF_B OR BPF_ABS \<or> c = BPF_LDX OR BPF_B OR BPF_MSH then Some (k, 1)
      else if c = BPF_LD OR BPF_W OR BPF_IND \<and> unat (reg_X st) + k < 2 ^ 32 then Some (unat (reg_X st) + k, 4)
      else None)"

definition bpf_load_wraps :: "sock_filter \<Rightarrow> bpf_state \<Rightarrow> bool" where
  "bpf_load_wraps insn st \<longleftrightarrow> (case bpf_load_range insn st of None \<Rightarrow> False | Some (off, n) \<Rightarrow> 2 ^ 32 \<le> off + n)"

text \<open>The instruction returns allow.\<close>

definition bpf_allows :: "sock_filter \<Rightarrow> bpf_state \<Rightarrow> bool" where
  "bpf_allows insn st \<longleftrightarrow>
     bpf_code insn = BPF_RET OR BPF_K \<and> bpf_k insn = SECCOMP_RET_ALLOW \<or>
     bpf_code insn = BPF_RET OR BPF_A \<and> reg_A st = SECCOMP_RET_ALLOW"

text \<open>One instruction of the program, and the states an execution visits.\<close>

definition bpf_step :: "sock_filter list \<Rightarrow> u16 \<Rightarrow> u8 list \<Rightarrow> bpf_state \<Rightarrow> bpf_state \<Rightarrow> bool" where
  "bpf_step prog len base st st' \<longleftrightarrow> reg_pc st < ucast len \<and> unat (reg_pc st) < length prog \<and>
     bpf_exec len base (prog ! unat (reg_pc st)) st = BNext st'"

definition bpf_visits :: "sock_filter list \<Rightarrow> u16 \<Rightarrow> seccomp_data \<Rightarrow> sock_filter \<Rightarrow> bpf_state \<Rightarrow> bool" where
  "bpf_visits prog len d insn st \<longleftrightarrow> (bpf_step prog len (seccomp_bytes d))\<^sup>*\<^sup>* bpf_start st \<and>
     reg_pc st < ucast len \<and> unat (reg_pc st) < length prog \<and> insn = prog ! unat (reg_pc st)"

text \<open>One instruction of such a program ends the execution or moves forward, to at most \<open>len\<close>.\<close>

definition bpf_progress :: "u16 \<Rightarrow> bpf_state \<Rightarrow> bpf_out \<Rightarrow> bool" where
  "bpf_progress len st out \<longleftrightarrow>
     (case out of BRet r \<Rightarrow> r = 0 \<or> r = - 1
      | BNext st' \<Rightarrow> unat (reg_pc st) < unat (reg_pc st') \<and> unat (reg_pc st') \<le> unat len
      | BUb \<Rightarrow> True)"

lemma pc_bound: "p < (ucast (len :: u16) :: u32) \<Longrightarrow> unat p < unat len \<and> unat len < 65536"
  using unat_bound [of len] by (simp add: word_to_nat unat_ucast_up)

lemma bpf_progress_next:
  assumes "reg_pc st < ucast len"
  shows "bpf_progress len st (bpf_next (st\<lparr> reg_A := a, reg_X := x, scratch := m \<rparr>))"
proof -
  have "unat (reg_pc st + 1) = unat (reg_pc st) + 1"
    using pc_bound [OF assms] by (simp add: unat_plus_le)
  with pc_bound [OF assms] show ?thesis by (simp add: bpf_progress_def bpf_next_def)
qed

lemma bpf_progress_nexts:
  assumes "reg_pc st < ucast len"
  shows "bpf_progress len st (bpf_next (st\<lparr> reg_A := a \<rparr>))"
    and "bpf_progress len st (bpf_next (st\<lparr> reg_X := a \<rparr>))"
    and "bpf_progress len st (bpf_next (st\<lparr> scratch := m \<rparr>))"
  using bpf_progress_next [OF assms, where a = a and x = "reg_X st" and m = "scratch st"]
    bpf_progress_next [OF assms, where a = "reg_A st" and x = a and m = "scratch st"]
    bpf_progress_next [OF assms, where a = "reg_A st" and x = "reg_X st" and m = m]
  by simp_all

lemma bpf_progress_ret [simp]: "bpf_progress len st (BRet r) \<longleftrightarrow> r = 0 \<or> r = - 1"
  by (simp add: bpf_progress_def)

lemma bpf_progress_load:
  "(\<And>v. bpf_progress len st (kont v)) \<Longrightarrow> bpf_progress len st (bpf_load base off n kont)"
  by (simp add: bpf_load_def) (simp add: bpf_progress_def)

lemma bpf_progress_jump:
  assumes "reg_pc st < ucast len" and "0 < unat off" and "unat (reg_pc st) + unat off < 2 ^ 32"
  shows "bpf_progress len st (bpf_jump_to len st off)"
proof -
  have "unat (reg_pc st + off) = unat (reg_pc st) + unat off"
    using assms(3) by (simp add: unat_plus_le)
  then show ?thesis using assms pc_bound [of "reg_pc st + off" len]
    by (auto simp: bpf_progress_def bpf_jump_to_def Let_def not_le)
qed

lemma bpf_progress_ld:
  assumes "reg_pc st < ucast len" and "bpf_ld base insn st = Some r"
  shows "bpf_progress len st r"
  using assms(2) bpf_progress_nexts [OF assms(1)]
  by (auto simp: bpf_ld_def Let_def split: if_splits intro!: bpf_progress_load)

lemma bpf_progress_alu:
  "reg_pc st < ucast len \<Longrightarrow> bpf_alu insn st = Some r \<Longrightarrow> bpf_progress len st r"
  using bpf_progress_nexts by (auto simp: bpf_alu_def Let_def split: if_splits)

lemma bpf_progress_misc:
  "reg_pc st < ucast len \<Longrightarrow> bpf_misc insn st = Some r \<Longrightarrow> bpf_progress len st r"
  using bpf_progress_nexts by (auto simp: bpf_misc_def Let_def split: if_splits)

lemma bpf_cond_ja [simp]: "bpf_cond 0 a v = None"
  by (simp add: bpf_cond_def)

lemma bpf_cond_codes: "bpf_cond opc a v \<noteq> None \<Longrightarrow> opc \<in> {0x10, 0x20, 0x30, 0x40}"
  by (simp add: bpf_cond_def split: if_splits)

lemma bpf_jump_codes:
  "opc \<in> {0x10, 0x20, 0x30, 0x40} \<Longrightarrow> c = BPF_JMP OR opc OR BPF_K \<or> c = BPF_JMP OR opc OR BPF_X \<Longrightarrow>
    c \<in> {0x15, 0x1D, 0x25, 0x2D, 0x35, 0x3D, 0x45, 0x4D}"
  by auto

lemma bpf_progress_branch:
  assumes pc: "reg_pc st < ucast len" and "bpf_jt insn \<noteq> 0" and "bpf_jf insn \<noteq> 0"
  shows "bpf_progress len st (bpf_jump_to len st (ucast (if b then bpf_jt insn else bpf_jf insn)))"
proof -
  let ?off = "if b then bpf_jt insn else bpf_jf insn"
  have "unat ?off < 256" "0 < unat ?off" using unat_bound [of ?off] assms(2,3) by (auto simp: unat_gt_0)
  with pc_bound [OF pc] show ?thesis by (intro bpf_progress_jump [OF pc]) (simp_all add: unat_ucast_up)
qed

lemma bpf_progress_jmp:
  assumes pc: "reg_pc st < ucast len" and ok: "bpf_forward (unat (reg_pc st)) insn"
    and jmp: "bpf_jmp len insn st = Some r"
  shows "bpf_progress len st r"
proof (cases "bpf_code insn = BPF_JMP OR BPF_JA")
  case True
  with jmp have "r = bpf_jump_to len st (bpf_k insn)" by (simp add: bpf_jmp_def Let_def)
  then show ?thesis using bpf_progress_jump [OF pc] ok True by (simp add: bpf_forward_def Let_def)
next
  case False
  let ?opc = "bpf_code insn AND 0xF0"
  from False jmp obtain b v where
    r: "r = bpf_jump_to len st (ucast (if b then bpf_jt insn else bpf_jf insn))" and
    c: "bpf_code insn = BPF_JMP OR ?opc OR BPF_K \<or> bpf_code insn = BPF_JMP OR ?opc OR BPF_X"
      "bpf_cond ?opc (reg_A st) v \<noteq> None"
    by (cases "bpf_code insn = BPF_JMP OR ?opc OR BPF_K"; cases "bpf_code insn = BPF_JMP OR ?opc OR BPF_X")
      (auto simp: bpf_jmp_def Let_def split del: if_split)
  have "bpf_jt insn \<noteq> 0 \<and> bpf_jf insn \<noteq> 0"
    using ok bpf_jump_codes [OF bpf_cond_codes [OF c(2)] c(1)] unfolding bpf_forward_def Let_def by blast
  then show ?thesis unfolding r by (intro bpf_progress_branch [OF pc]) simp_all
qed

lemma bpf_progress_exec:
  assumes "reg_pc st < ucast len" and "bpf_forward (unat (reg_pc st)) insn"
  shows "bpf_progress len st (bpf_exec len base insn st)"
  using assms
  by (auto simp: bpf_exec_def intro: bpf_progress_ld bpf_progress_alu bpf_progress_jmp
      bpf_progress_misc split: option.splits)

lemma bpf_loop_total:
  assumes "\<forall>i < unat len. bpf_forward i (prog ! i)"
    and "unat (reg_pc st) \<le> unat len" and "unat len - unat (reg_pc st) < fuel"
  shows "\<exists>out. bpf_loop fuel prog len base st = Some out \<and> out \<in> {Some 0, Some (- 1), None}"
  using assms(2,3)
proof (induction fuel arbitrary: st)
  case (Suc fuel)
  show ?case
  proof (cases "reg_pc st < ucast len \<and> unat (reg_pc st) < length prog")
    case True
    then have "bpf_progress len st (bpf_exec len base (prog ! unat (reg_pc st)) st)"
      using assms(1) pc_bound by (intro bpf_progress_exec) auto
    with Suc True show ?thesis
      by (cases "bpf_exec len base (prog ! unat (reg_pc st)) st") (auto simp: bpf_progress_def)
  qed auto
qed simp

text \<open>An instruction has undefined behaviour exactly if its bounds check wraps, and allows exactly if it
  is a return of that value.\<close>

lemma bpf_load_ub:
  assumes "length base = 64" and "unat n \<le> 4" and "\<And>v. kont v \<noteq> BUb"
  shows "bpf_load base off n kont = BUb \<longleftrightarrow> 2 ^ 32 \<le> unat off + unat n"
proof -
  have "unat (off + n) = (if unat off + unat n < 2 ^ 32 then unat off + unat n else unat off + unat n - 2 ^ 32)"
    using unat_bound [of off] assms(2) by (simp add: unat_word_ariths mod_if)
  then show ?thesis using unat_bound [of off] assms by (auto simp: bpf_load_def)
qed

lemma bpf_next_cases [simp]: "bpf_next st \<noteq> BUb" "bpf_next st \<noteq> BRet r"
  by (simp_all add: bpf_next_def)

lemma bpf_ind_guard: "- 1 - kk < x \<longleftrightarrow> 2 ^ 32 \<le> unat x + unat kk" for x kk :: u32
proof -
  have "unat (- 1 - kk) = unat (- 1 :: u32) - unat kk" by (rule unat_sub) simp
  moreover have "unat (- 1 :: u32) = 2 ^ 32 - 1" by (simp add: unsigned_minus_1_eq_mask mask_eq_exp_minus_1)
  ultimately show ?thesis using unat_bound [of kk] by (auto simp: word_to_nat)
qed

lemma bpf_alu_cases: "bpf_alu insn st = Some r \<Longrightarrow> \<exists>st'. r = bpf_next st'"
  by (auto simp: bpf_alu_def Let_def split: if_splits)

lemma bpf_jmp_cases: "bpf_jmp len insn st = Some r \<Longrightarrow> \<exists>off. r = bpf_jump_to len st off"
  by (auto simp: bpf_jmp_def Let_def split: if_splits)

lemma bpf_jump_to_cases [simp]: "bpf_jump_to len st off \<noteq> BUb" "bpf_jump_to len st off \<noteq> BRet 0"
  by (simp_all add: bpf_jump_to_def Let_def)

lemma bpf_load_not_allow [simp]: "(\<And>v. kont v \<noteq> BRet 0) \<Longrightarrow> bpf_load base off n kont \<noteq> BRet 0"
  by (simp add: bpf_load_def)

lemma bpf_ld_cases:
  assumes "length base = 64" and "bpf_ld base insn st = Some r"
  shows "r = BUb \<longleftrightarrow> bpf_load_wraps insn st" "r \<noteq> BRet 0" "\<not> bpf_allows insn st"
proof -
  show "r = BUb \<longleftrightarrow> bpf_load_wraps insn st"
    using assms(2) unat_plus_le [of "reg_X st" "bpf_k insn"]
    by (auto simp: bpf_ld_def Let_def bpf_load_wraps_def bpf_load_range_def bpf_ind_guard
        bpf_load_ub [OF assms(1)] split: if_splits)
  show "r \<noteq> BRet 0" using assms(2) by (auto simp: bpf_ld_def Let_def split: if_splits)
  show "\<not> bpf_allows insn st" using assms(2) by (auto simp: bpf_ld_def Let_def bpf_allows_def split: if_splits)
qed

lemma bpf_other_cases:
  assumes "bpf_ld base insn st = None"
  shows "bpf_alu insn st = Some r \<Longrightarrow> r \<noteq> BUb \<and> r \<noteq> BRet 0 \<and> \<not> bpf_allows insn st"
    "bpf_jmp len insn st = Some r \<Longrightarrow> r \<noteq> BUb \<and> r \<noteq> BRet 0 \<and> \<not> bpf_allows insn st"
    "bpf_misc insn st = Some r \<Longrightarrow> r \<noteq> BUb \<and> (r = BRet 0 \<longleftrightarrow> bpf_allows insn st)"
    "bpf_misc insn st = None \<Longrightarrow> \<not> bpf_allows insn st"
    "\<not> bpf_load_wraps insn st"
proof -
  show "r \<noteq> BUb \<and> r \<noteq> BRet 0 \<and> \<not> bpf_allows insn st" if "bpf_alu insn st = Some r"
    using bpf_alu_cases [OF that] that by (auto simp: bpf_allows_def bpf_alu_def Let_def)
  show "r \<noteq> BUb \<and> r \<noteq> BRet 0 \<and> \<not> bpf_allows insn st" if "bpf_jmp len insn st = Some r"
    using bpf_jmp_cases [OF that] that by (auto simp: bpf_allows_def bpf_jmp_def Let_def)
  show "bpf_misc insn st = Some r \<Longrightarrow> r \<noteq> BUb \<and> (r = BRet 0 \<longleftrightarrow> bpf_allows insn st)"
    "bpf_misc insn st = None \<Longrightarrow> \<not> bpf_allows insn st"
    by (auto simp: bpf_misc_def bpf_allows_def Let_def split: if_splits)
  show "\<not> bpf_load_wraps insn st"
    using assms by (auto simp: bpf_ld_def bpf_load_wraps_def bpf_load_range_def Let_def split: if_splits)
qed

lemma bpf_exec_cases:
  assumes "length base = 64"
  shows "bpf_exec len base insn st = BUb \<longleftrightarrow> bpf_load_wraps insn st"
    "bpf_exec len base insn st = BRet 0 \<longleftrightarrow> bpf_allows insn st"
  using bpf_ld_cases [OF assms] bpf_other_cases [of base insn st]
  by (auto simp: bpf_exec_def split: option.splits)

text \<open>What the loop returns is decided by the state it ends in, and there is only one such state.\<close>

lemma bpf_loop_outcome:
  "bpf_loop fuel prog len base st = Some out \<Longrightarrow>
    \<exists>t. (bpf_step prog len base)\<^sup>*\<^sup>* st t \<and>
      (if reg_pc t < ucast len \<and> unat (reg_pc t) < length prog
       then bpf_exec len base (prog ! unat (reg_pc t)) t = (case out of None \<Rightarrow> BUb | Some v \<Rightarrow> BRet v)
       else out = (if reg_pc t < ucast len then None else Some (- 1)))"
proof (induction fuel arbitrary: st)
  case (Suc fuel)
  show ?case
  proof (cases "\<exists>st'. bpf_step prog len base st st'")
    case True
    then obtain st' where st': "bpf_step prog len base st st'" by blast
    then have "bpf_loop fuel prog len base st' = Some out" using Suc.prems by (simp add: bpf_step_def)
    from Suc.IH [OF this] show ?thesis using converse_rtranclp_into_rtranclp [of "bpf_step prog len base", OF st'] by blast
  next
    case False
    then show ?thesis using Suc.prems
      by (intro exI [of _ st]) (auto simp: bpf_step_def split: if_splits bpf_out.splits)
  qed
qed simp

lemma bpf_final_unique:
  assumes "(bpf_step prog len base)\<^sup>*\<^sup>* st t" and "(bpf_step prog len base)\<^sup>*\<^sup>* st u"
    and "\<nexists>x. bpf_step prog len base t x" and "\<nexists>x. bpf_step prog len base u x"
  shows "t = u"
  using assms
proof (induction rule: converse_rtranclp_induct)
  case base
  then show ?case by (metis converse_rtranclpE)
next
  case (step y z)
  from step.hyps(1) step.prems(3) have "y \<noteq> u" by auto
  with step.prems(1) obtain z' where z': "bpf_step prog len base y z'" "(bpf_step prog len base)\<^sup>*\<^sup>* z' u"
    by (metis converse_rtranclpE)
  then have "z' = z" using step.hyps(1) by (simp add: bpf_step_def)
  with z' step show ?case by blast
qed

lemma bpf_loop_ends:
  assumes "bpf_loop fuel prog len base st = Some out" and "unat len \<le> length prog"
  shows "out = None \<longleftrightarrow> (\<exists>t. (bpf_step prog len base)\<^sup>*\<^sup>* st t \<and> reg_pc t < ucast len \<and>
      bpf_exec len base (prog ! unat (reg_pc t)) t = BUb)" (is "_ \<longleftrightarrow> ?ub")
    and "out = Some 0 \<longleftrightarrow> (\<exists>t. (bpf_step prog len base)\<^sup>*\<^sup>* st t \<and> reg_pc t < ucast len \<and>
      bpf_exec len base (prog ! unat (reg_pc t)) t = BRet 0)" (is "_ \<longleftrightarrow> ?allow")
proof -
  have pc: "unat (reg_pc t) < length prog" if "reg_pc t < ucast len" for t
    using pc_bound [OF that] assms(2) by simp
  obtain t where t: "(bpf_step prog len base)\<^sup>*\<^sup>* st t" and out: "if reg_pc t < ucast len
      then bpf_exec len base (prog ! unat (reg_pc t)) t = (case out of None \<Rightarrow> BUb | Some v \<Rightarrow> BRet v) else out = Some (- 1)"
    using bpf_loop_outcome [OF assms(1)] pc by (auto split: if_splits)
  then have final: "\<nexists>x. bpf_step prog len base t x" by (auto simp: bpf_step_def split: if_splits option.splits)
  have same: "u = t" if "(bpf_step prog len base)\<^sup>*\<^sup>* st u" "bpf_exec len base (prog ! unat (reg_pc u)) u \<in> {BUb, BRet 0}" for u
    using bpf_final_unique [OF that(1) t _ final] that(2) by (auto simp: bpf_step_def)
  show "out = None \<longleftrightarrow> ?ub"
  proof
    assume "out = None"
    then show ?ub using t out by (intro exI [of _ t]) (simp split: if_splits)
  next
    assume ?ub
    then have "reg_pc t < ucast len" "bpf_exec len base (prog ! unat (reg_pc t)) t = BUb" using same by blast+
    then show "out = None" using out by (cases out) simp_all
  qed
  show "out = Some 0 \<longleftrightarrow> ?allow"
  proof
    assume "out = Some 0"
    then show ?allow using t out by (intro exI [of _ t]) (simp split: if_splits)
  next
    assume ?allow
    then have "reg_pc t < ucast len" "bpf_exec len base (prog ! unat (reg_pc t)) t = BRet 0" using same by blast+
    then show "out = Some 0" using out by (cases out) simp_all
  qed
qed

lemma length_seccomp_bytes: "length (sd_args d) = 6 \<Longrightarrow> length (seccomp_bytes d) = 64"
  by (simp add: seccomp_bytes_def length_concat comp_def sum_list_triv)

text \<open>The state in which a conditional jump with offset 0 is taken repeats itself.\<close>

lemma bpf_loop_zero_jump:
  assumes "reg_pc st < ucast len" and "unat (reg_pc st) < length prog"
    and "bpf_code (prog ! unat (reg_pc st)) = BPF_JMP OR BPF_JEQ OR BPF_K"
    and "bpf_k (prog ! unat (reg_pc st)) = reg_A st" and "bpf_jt (prog ! unat (reg_pc st)) = 0"
  shows "bpf_loop fuel prog len base st = None"
proof (induction fuel)
  case (Suc fuel)
  have "bpf_exec len base (prog ! unat (reg_pc st)) st = BNext st"
    using assms
    by (simp add: bpf_exec_def bpf_ld_def bpf_alu_def bpf_jmp_def bpf_cond_def bpf_jump_to_def Let_def
        not_le)
  with Suc assms show ?case by simp
qed simp

text \<open>A sequence of attempts to install, replace or remove a filter.\<close>

fun seccomp_attempts :: "seccomp_task \<Rightarrow> (bool \<times> seccomp_filter option) list \<Rightarrow> seccomp_task" where
  "seccomp_attempts task [] = task"
| "seccomp_attempts task ((ok, flt) # cs) = seccomp_attempts (fst (seccomp_set_filter ok task flt)) cs"

subsection \<open>Properties\<close>

text \<open>C22: On a program whose jumps all move forward, the interpreter ends after at most \<open>len + 1\<close>
  rounds of its loop, whatever its loads, stores and arithmetic are.  It reads outside the 64 bytes of
  \<open>struct seccomp_data\<close> if and only if its execution comes to a load whose offset lies so close to
  \<open>2\<^sup>3\<^sup>2\<close> that the bounds check wraps around; otherwise it returns allow (0) or deny (-1), and it
  allows if and only if the program is empty or its execution comes to a return of
  \<open>SECCOMP_RET_ALLOW\<close>.\<close>

theorem seccomp_run_bpf_total:
  assumes "\<forall>i < unat len. bpf_forward i (prog ! i)" and "unat len \<le> length prog" and "length (sd_args d) = 6"
  shows "\<exists>out. seccomp_run_bpf (unat len + 1) (Some prog) len (Some d) = Some out \<and>
    out \<in> {Some 0, Some (- 1), None} \<and>
    (out = None \<longleftrightarrow> (\<exists>insn st. bpf_visits prog len d insn st \<and> bpf_load_wraps insn st)) \<and>
    (out = Some 0 \<longleftrightarrow> len = 0 \<or> (\<exists>insn st. bpf_visits prog len d insn st \<and> bpf_allows insn st))"
proof (cases "len = 0")
  case True
  then show ?thesis by (simp add: seccomp_run_bpf_def bpf_visits_def)
next
  case False
  let ?base = "seccomp_bytes d"
  obtain out where out: "bpf_loop (unat len + 1) prog len ?base bpf_start = Some out" "out \<in> {Some 0, Some (- 1), None}"
    using bpf_loop_total [OF assms(1), of bpf_start "unat len + 1" ?base] by (auto simp: bpf_start_def)
  have pc: "unat (reg_pc st) < length prog" if "reg_pc st < ucast len" for st
    using pc_bound [OF that] assms(2) by simp
  have "(\<exists>insn st. bpf_visits prog len d insn st \<and> Q insn st) \<longleftrightarrow>
      (\<exists>st. (bpf_step prog len ?base)\<^sup>*\<^sup>* bpf_start st \<and> reg_pc st < ucast len \<and> Q (prog ! unat (reg_pc st)) st)" for Q
    using pc by (auto simp: bpf_visits_def)
  then show ?thesis
    using out False bpf_loop_ends [OF out(1) assms(2)] bpf_exec_cases [OF length_seccomp_bytes [OF assms(3)]]
    by (simp add: seccomp_run_bpf_def)
qed

theorem seccomp_run_bpf_total_witness:
  "seccomp_run_bpf (unat (4 :: u16) + 1)
     (Some [\<lparr> bpf_code = 0x20, bpf_jt = 0, bpf_jf = 0, bpf_k = 0 \<rparr>,
            \<lparr> bpf_code = 0x15, bpf_jt = 1, bpf_jf = 2, bpf_k = 0xFFFFFFFF \<rparr>,
            \<lparr> bpf_code = 0x40, bpf_jt = 0, bpf_jf = 0, bpf_k = 16 \<rparr>,
            \<lparr> bpf_code = 0x06, bpf_jt = 0, bpf_jf = 0, bpf_k = 0x7FFF0000 \<rparr>]) 4
     (Some (seccomp_data_of 1 [0, 0, 0, 0, 0, 0])) = Some (Some 0)"
proof -
  let ?prog = "[\<lparr> bpf_code = 0x20, bpf_jt = 0, bpf_jf = 0, bpf_k = 0 \<rparr>, \<lparr> bpf_code = 0x15, bpf_jt = 1, bpf_jf = 2, bpf_k = 0xFFFFFFFF \<rparr>,
    \<lparr> bpf_code = 0x40, bpf_jt = 0, bpf_jf = 0, bpf_k = 16 \<rparr>, \<lparr> bpf_code = 0x06, bpf_jt = 0, bpf_jf = 0, bpf_k = 0x7FFF0000 \<rparr>]"
  let ?d = "seccomp_data_of 1 [0, 0, 0, 0, 0, 0]"
  let ?st1 = "bpf_start\<lparr>reg_A := 1, reg_pc := 1\<rparr>" and ?st2 = "bpf_start\<lparr>reg_A := 1, reg_pc := 3\<rparr>"
  have "length (seccomp_bytes ?d) = 64" by (rule length_seccomp_bytes) (simp add: seccomp_data_of_def)
  moreover have "le_val (take 4 (seccomp_bytes ?d)) = (1 :: u32)"
    by (simp add: seccomp_bytes_def seccomp_data_of_def le_val_le_bytes take_bit_word_eq_self)
  ultimately have "bpf_step ?prog 4 (seccomp_bytes ?d) bpf_start ?st1"
    by (simp add: bpf_step_def bpf_start_def bpf_exec_def bpf_ld_def bpf_load_def bpf_next_def Let_def)
  moreover have "bpf_step ?prog 4 (seccomp_bytes ?d) ?st1 ?st2"
    by (simp add: bpf_step_def bpf_start_def bpf_exec_def bpf_ld_def bpf_alu_def bpf_jmp_def bpf_cond_def bpf_jump_to_def Let_def)
  ultimately have "bpf_visits ?prog 4 ?d (?prog ! 3) ?st2"
    by (auto simp: bpf_visits_def bpf_start_def intro: converse_rtranclp_into_rtranclp)
  moreover have "bpf_allows (?prog ! 3) ?st2" by (simp add: bpf_allows_def)
  moreover have "bpf_forward i (?prog ! i)" if "i < 4" for i
  proof -
    from that have "i = 0 \<or> i = 1 \<or> i = 2 \<or> i = 3" by auto
    then show ?thesis by (elim disjE) (simp_all add: bpf_forward_def Let_def)
  qed
  ultimately show ?thesis using seccomp_run_bpf_total [of 4 ?prog ?d] by (auto simp: seccomp_data_of_def)
qed

text \<open>C33: A taken jump with offset 0 (in classic BPF, \<open>continue with the next instruction\<close>) never
  returns: the interpreter adds the offset to the address of the jump and skips the increment,
  and the instruction counter that was to bound execution is never incremented.  A program that
  starts with \<open>JEQ 0, jt = 0\<close> keeps the interpreter running for every amount of fuel.\<close>

theorem seccomp_zero_jump_never_returns:
  assumes "bpf_code insn = BPF_JMP OR BPF_JEQ OR BPF_K" and "bpf_k insn = 0" and "bpf_jt insn = 0"
    and "len \<noteq> 0"
  shows "\<forall>fuel. seccomp_run_bpf fuel (Some (insn # rest)) len (Some d) = None"
  using assms bpf_loop_zero_jump [of bpf_start len "insn # rest"]
  by (simp add: seccomp_run_bpf_def bpf_start_def word_to_nat unat_ucast_up unat_gt_0)

theorem seccomp_zero_jump_never_returns_witness:
  "\<forall>fuel. seccomp_run_bpf fuel
     (Some (\<lparr> bpf_code = 0x15, bpf_jt = 0, bpf_jf = 1, bpf_k = 0 \<rparr> #
        [\<lparr> bpf_code = 0x06, bpf_jt = 0, bpf_jf = 0, bpf_k = 0x7FFF0000 \<rparr>])) 2
     (Some (seccomp_data_of 1 [])) = None"
  by (rule seccomp_zero_jump_never_returns) simp_all

text \<open>C32: The bounds check of the absolute word load adds 4 to the offset in 32 bits, so for the
  four largest offsets it wraps and passes: a program starting with such a load reads outside
  \<open>struct seccomp_data\<close>.\<close>

theorem seccomp_abs_load_out_of_bounds:
  assumes "bpf_code insn = BPF_LD OR BPF_W OR BPF_ABS" and "2 ^ 32 - 4 \<le> unat (bpf_k insn)"
    and "len \<noteq> 0" and "length (sd_args d) = 6"
  shows "seccomp_run_bpf (Suc fuel) (Some (insn # rest)) len (Some d) = Some None"
proof -
  have "unat (bpf_k insn) + 4 - 2 ^ 32 < 4" using unat_bound [of "bpf_k insn"] by simp
  then have "unat (bpf_k insn + 4) < 64"
    using assms(2) by (simp add: unat_word_ariths mod_if)
  then show ?thesis using assms length_seccomp_bytes [OF assms(4)]
    by (simp add: seccomp_run_bpf_def bpf_start_def bpf_exec_def bpf_ld_def bpf_load_def Let_def
        word_to_nat unat_ucast_up unat_gt_0)
qed

theorem seccomp_abs_load_out_of_bounds_witness:
  "seccomp_run_bpf (Suc 9) (Some (\<lparr> bpf_code = 0x20, bpf_jt = 0, bpf_jf = 0, bpf_k = 0xFFFFFFFE \<rparr> # []))
     1 (Some (seccomp_data_of 1 [0, 0, 0, 0, 0, 0])) = Some None"
  by (rule seccomp_abs_load_out_of_bounds) (simp_all add: seccomp_data_of_def)

text \<open>C25: A filter is a one-way door: once a task has one, no sequence of further calls of
  \<open>seccomp_set_filter\<close>, whether they pass a filter or null and whether their allocations
  succeed, changes or removes it.\<close>

theorem seccomp_filter_immutable: "seccomp_attempts (Some (Some f)) cs = Some (Some f)"
  by (induction cs rule: list.induct)
    (auto simp: seccomp_set_filter_def split: option.splits)

text \<open>A system call is denied whenever its number is outside 0 to 255 or its bit is clear in
  the bitmap, whatever the BPF program says; with the bit set it is allowed when no program is
  installed or no arguments are given, and otherwise exactly when the program returns 0.\<close>

theorem seccomp_check_bitmap:
  "seccomp_check fuel (Some (Some f)) nr args =
     (if 0 \<le> nr \<and> nr < 256 \<and> bit (syscall_mask f ! nat (nr div 64)) (nat (nr mod 64))
      then if bpf_len f = 0 \<or> args = None then Some (Some 0)
           else map_option (map_option (\<lambda>r. if r = 0 then 0 else - 1))
             (seccomp_run_bpf fuel (Some (bpf_prog f)) (bpf_len f) (Some (seccomp_data_of nr (the args))))
      else Some (Some (- 1)))"
proof -
  have "\<not> 64 \<le> nat (nr mod 64)" by (simp add: nat_le_iff not_le)
  then show ?thesis
    by (auto simp: seccomp_check_def Let_def and_exp_eq_0 word_gt_0 split: option.splits)
qed

end
