(* ===== verification/Kstring.thy ===== *)
theory Kstring
  imports Prelude
begin

text \<open>
  The freestanding string and memory routines of \<^verbatim>\<open>kernel/string.c\<close>.  Memory is a function from
  addresses to bytes; a routine that writes returns the new memory.  The routines that copy, fill
  or scan eight bytes at a time are modelled with their aligned fast paths and shown to agree
  with byte-wise reference definitions.  Loops that end only at a terminating byte are
  \<^theory_text>\<open>partial_function (option)\<close>: \<open>None\<close> means the loop does not end.
\<close>

type_synonym mem = "addr \<Rightarrow> u8"

abbreviation aligned8 :: "addr \<Rightarrow> bool" where "aligned8 a \<equiv> a AND 7 = 0"

definition load64 :: "mem \<Rightarrow> addr \<Rightarrow> u64" where
  "load64 m a = le_val (map (\<lambda>i. m (a + of_nat i)) [0..<8])"

text \<open>Writing a byte string at an address.\<close>

fun store_bytes :: "mem \<Rightarrow> addr \<Rightarrow> u8 list \<Rightarrow> mem" where
  "store_bytes m a [] = m"
| "store_bytes m a (b # bs) = store_bytes (m(a := b)) (a + 1) bs"

definition store64 :: "mem \<Rightarrow> addr \<Rightarrow> u64 \<Rightarrow> mem" where
  "store64 m a w = store_bytes m a (le_bytes 8 w)"

subsection \<open>memcpy, memset, memcmp\<close>

fun memcpy_words :: "mem \<Rightarrow> addr \<Rightarrow> addr \<Rightarrow> nat \<Rightarrow> mem \<times> addr \<times> addr \<times> nat" where
  "memcpy_words m d s remaining =
     (if remaining \<ge> 8 then memcpy_words (store64 m d (load64 m s)) (d + 8) (s + 8) (remaining - 8)
      else (m, d, s, remaining))"

declare memcpy_words.simps [simp del]

fun memcpy_bytes :: "mem \<Rightarrow> addr \<Rightarrow> addr \<Rightarrow> nat \<Rightarrow> nat \<Rightarrow> mem" where
  "memcpy_bytes m d s i 0 = m"
| "memcpy_bytes m d s i (Suc n) =
     memcpy_bytes (m(d + of_nat i := m (s + of_nat i))) d s (Suc i) n"

definition memcpy :: "mem \<Rightarrow> addr \<Rightarrow> addr \<Rightarrow> nat \<Rightarrow> mem" where
  "memcpy m dst src n =
     (let (m1, d, s, remaining) =
        (if aligned8 dst \<and> aligned8 src then memcpy_words m dst src n else (m, dst, src, n))
      in memcpy_bytes m1 d s 0 remaining)"

definition memset_val64 :: "u8 \<Rightarrow> u64" where
  "memset_val64 b =
     push_bit 56 (ucast b) OR push_bit 48 (ucast b) OR push_bit 40 (ucast b) OR
     push_bit 32 (ucast b) OR push_bit 24 (ucast b) OR push_bit 16 (ucast b) OR
     push_bit 8 (ucast b) OR ucast b"

fun memset_words :: "mem \<Rightarrow> addr \<Rightarrow> u64 \<Rightarrow> nat \<Rightarrow> mem \<times> addr \<times> nat" where
  "memset_words m p v remaining =
     (if remaining \<ge> 8 then memset_words (store64 m p v) (p + 8) v (remaining - 8)
      else (m, p, remaining))"

declare memset_words.simps [simp del]

fun memset_bytes :: "mem \<Rightarrow> addr \<Rightarrow> u8 \<Rightarrow> nat \<Rightarrow> nat \<Rightarrow> mem" where
  "memset_bytes m p b i 0 = m"
| "memset_bytes m p b i (Suc n) = memset_bytes (m(p + of_nat i := b)) p b (Suc i) n"

definition memset :: "mem \<Rightarrow> addr \<Rightarrow> int \<Rightarrow> nat \<Rightarrow> mem" where
  "memset m s c n =
     (let byte_val = (word_of_int c :: u8);
          (m1, p, remaining) =
            (if aligned8 s then memset_words m s (memset_val64 byte_val) n else (m, s, n))
      in memset_bytes m1 p byte_val 0 remaining)"

fun memcmp_loop :: "mem \<Rightarrow> addr \<Rightarrow> addr \<Rightarrow> nat \<Rightarrow> nat \<Rightarrow> int" where
  "memcmp_loop m a b i 0 = 0"
| "memcmp_loop m a b i (Suc n) =
     (if m (a + of_nat i) \<noteq> m (b + of_nat i)
      then uint (m (a + of_nat i)) - uint (m (b + of_nat i))
      else memcmp_loop m a b (Suc i) n)"

definition memcmp :: "mem \<Rightarrow> addr \<Rightarrow> addr \<Rightarrow> nat \<Rightarrow> int" where
  "memcmp m a b n = memcmp_loop m a b 0 n"

subsection \<open>strlen, strcmp, strncmp, strcpy, strncpy\<close>

abbreviation himagic :: u64 where "himagic \<equiv> 0x8080808080808080"
abbreviation lomagic :: u64 where "lomagic \<equiv> 0x0101010101010101"

definition has_zero :: "u64 \<Rightarrow> bool" where
  "has_zero v \<longleftrightarrow> (v - lomagic) AND NOT v AND himagic \<noteq> 0"

text \<open>The three loops of \<open>strlen\<close>: up to alignment (\<open>Inl\<close> is the early return), word by word up
  to a word with a zero byte, and byte by byte inside that word.\<close>

partial_function (option) strlen_align :: "mem \<Rightarrow> addr \<Rightarrow> addr \<Rightarrow> (u64 + addr) option" where [code]:
  "strlen_align m s p =
     (if p AND 7 \<noteq> 0 then if m p = 0 then Some (Inl (p - s)) else strlen_align m s (p + 1)
      else Some (Inr p))"

partial_function (option) strlen_words :: "mem \<Rightarrow> addr \<Rightarrow> addr option" where [code]:
  "strlen_words m w = (if has_zero (load64 m w) then Some w else strlen_words m (w + 8))"

partial_function (option) strlen_bytes :: "mem \<Rightarrow> addr \<Rightarrow> addr option" where [code]:
  "strlen_bytes m p = (if m p \<noteq> 0 then strlen_bytes m (p + 1) else Some p)"

definition strlen :: "mem \<Rightarrow> addr \<Rightarrow> u64 option" where
  "strlen m s =
     (if s = NULL then Some 0
      else do { r \<leftarrow> strlen_align m s s;
                case r of
                  Inl n \<Rightarrow> Some n
                | Inr p \<Rightarrow> do { w \<leftarrow> strlen_words m p; q \<leftarrow> strlen_bytes m w; Some (q - s) } })"

text \<open>\<open>strcmp\<close>: both pointers advance while both are unaligned (\<open>Inl\<close> is the early return), then
  words are compared while both are aligned, then bytes.\<close>

partial_function (option) strcmp_align :: "mem \<Rightarrow> addr \<Rightarrow> addr \<Rightarrow> (int + addr \<times> addr) option" where [code]:
  "strcmp_align m a b =
     (if a AND 7 \<noteq> 0 \<and> b AND 7 \<noteq> 0
      then if m a = 0 \<or> m a \<noteq> m b then Some (Inl (uint (m a) - uint (m b)))
           else strcmp_align m (a + 1) (b + 1)
      else Some (Inr (a, b)))"

partial_function (option) strcmp_words :: "mem \<Rightarrow> addr \<Rightarrow> addr \<Rightarrow> (int + addr \<times> addr) option" where [code]:
  "strcmp_words m wa wb =
     (if load64 m wa \<noteq> load64 m wb then Some (Inr (wa, wb))
      else if has_zero (load64 m wa) then Some (Inl 0)
      else strcmp_words m (wa + 8) (wb + 8))"

partial_function (option) strcmp_bytes :: "mem \<Rightarrow> addr \<Rightarrow> addr \<Rightarrow> int option" where [code]:
  "strcmp_bytes m a b =
     (if m a \<noteq> 0 \<and> m a = m b then strcmp_bytes m (a + 1) (b + 1)
      else Some (uint (m a) - uint (m b)))"

definition strcmp :: "mem \<Rightarrow> addr \<Rightarrow> addr \<Rightarrow> int option" where
  "strcmp m a b =
     (if a = NULL \<or> b = NULL then Some (if a = b then 0 else if a \<noteq> NULL then 1 else - 1)
      else do { r \<leftarrow> strcmp_align m a b;
                case r of
                  Inl n \<Rightarrow> Some n
                | Inr (a1, b1) \<Rightarrow>
                    do { r2 \<leftarrow> (if aligned8 a1 \<and> aligned8 b1 then strcmp_words m a1 b1
                                else Some (Inr (a1, b1)));
                         case r2 of Inl n \<Rightarrow> Some n | Inr (a2, b2) \<Rightarrow> strcmp_bytes m a2 b2 } })"

fun strncmp_loop :: "mem \<Rightarrow> addr \<Rightarrow> addr \<Rightarrow> nat \<Rightarrow> nat \<Rightarrow> int" where
  "strncmp_loop m a b i 0 = 0"
| "strncmp_loop m a b i (Suc n) =
     (if m (a + of_nat i) \<noteq> m (b + of_nat i)
      then uint (m (a + of_nat i)) - uint (m (b + of_nat i))
      else if m (a + of_nat i) = 0 then 0
      else strncmp_loop m a b (Suc i) n)"

definition strncmp :: "mem \<Rightarrow> addr \<Rightarrow> addr \<Rightarrow> nat \<Rightarrow> int" where
  "strncmp m a b n =
     (if a = NULL \<or> b = NULL then if a = b then 0 else if a \<noteq> NULL then 1 else - 1
      else strncmp_loop m a b 0 n)"

partial_function (option) strcpy_loop :: "mem \<Rightarrow> addr \<Rightarrow> addr \<Rightarrow> mem option" where [code]:
  "strcpy_loop m d s =
     (if m s = 0 then Some (m(d := m s)) else strcpy_loop (m(d := m s)) (d + 1) (s + 1))"

definition strcpy :: "mem \<Rightarrow> addr \<Rightarrow> addr \<Rightarrow> mem option" where
  "strcpy m dst src = (if dst = NULL \<or> src = NULL then Some m else strcpy_loop m dst src)"

fun strncpy_copy :: "mem \<Rightarrow> addr \<Rightarrow> addr \<Rightarrow> nat \<Rightarrow> nat \<Rightarrow> mem \<times> nat" where
  "strncpy_copy m d s i 0 = (m, i)"
| "strncpy_copy m d s i (Suc n) =
     (if m (s + of_nat i) \<noteq> 0
      then strncpy_copy (m(d + of_nat i := m (s + of_nat i))) d s (Suc i) n
      else (m, i))"

definition strncpy :: "mem \<Rightarrow> addr \<Rightarrow> addr \<Rightarrow> nat \<Rightarrow> mem" where
  "strncpy m dst src n =
     (if dst = NULL \<or> src = NULL then m
      else let (m1, i) = strncpy_copy m dst src 0 n in memset_bytes m1 dst 0 i (n - i))"

subsection \<open>snprintf\<close>


definition sn_write_char :: "addr \<Rightarrow> nat \<Rightarrow> u8 \<Rightarrow> mem \<times> nat \<Rightarrow> mem \<times> nat" where
  "sn_write_char buf sz c = (\<lambda>(m, pos). (if pos + 1 < sz then m(buf + of_nat pos := c) else m, pos + 1))"


text \<open>The digits that fill \<open>tmp\<close>, least significant first.\<close>

function sn_digits :: "u8 list \<Rightarrow> u64 \<Rightarrow> u64 \<Rightarrow> u8 list" where
  "sn_digits tmp val base =
     (if val > 0 \<and> length tmp < 20
      then let digit = val mod base
           in sn_digits (tmp @ [ucast (if digit < 10 then 0x30 + digit else 0x61 + digit - 10)])
                (val div base) base
      else tmp)"
  by pat_completeness auto
termination by (relation "measure (\<lambda>(tmp, val, base). 20 - length tmp)") auto

declare sn_digits.simps [simp del]

definition sn_write_uint :: "addr \<Rightarrow> nat \<Rightarrow> u64 \<Rightarrow> u64 \<Rightarrow> mem \<times> nat \<Rightarrow> mem \<times> nat" where
  "sn_write_uint buf sz val base =
     fold (sn_write_char buf sz) (rev (sn_digits (if val = 0 then [0x30] else []) val base))"




subsection \<open>Copying and filling\<close>

lemma store_bytes_apply:
  "length bs < 2 ^ 64 \<Longrightarrow>
    store_bytes m a bs x = (if unat (x - a) < length bs then bs ! unat (x - a) else m x)"
proof (induction bs arbitrary: m a)
  case (Cons b bs)
  have IH: "store_bytes (m(a := b)) (a + 1) bs x =
      (if unat (x - (a + 1)) < length bs then bs ! unat (x - (a + 1)) else (m(a := b)) x)"
    using Cons by simp
  show ?case
  proof (cases "x = a")
    case True
    then have "unat (x - (a + 1)) = 2 ^ 64 - 1" by (simp add: unsigned_minus_1_eq_mask mask_eq_exp_minus_1)
    with IH Cons.prems True show ?thesis by simp
  next
    case False
    then have "x - a \<noteq> 0" by simp
    then have "unat (x - a) = Suc (unat (x - (a + 1)))"
      using unat_pred [of "x - a"] by (simp add: diff_diff_eq)
    with IH False show ?thesis by simp
  qed
qed simp

text \<open>The memory in which the \<open>n\<close> bytes from \<open>d\<close> on are those of \<open>f\<close>: what a bulk write means.  A
  copy takes \<open>f\<close> from the old memory, a fill is constant.\<close>

definition mem_put :: "mem \<Rightarrow> addr \<Rightarrow> (nat \<Rightarrow> u8) \<Rightarrow> nat \<Rightarrow> mem" where
  "mem_put m d f n = (\<lambda>x. if unat (x - d) < n then f (unat (x - d)) else m x)"

abbreviation mem_copied :: "mem \<Rightarrow> addr \<Rightarrow> addr \<Rightarrow> nat \<Rightarrow> mem" where
  "mem_copied m d s \<equiv> mem_put m d (\<lambda>j. m (s + of_nat j))"

abbreviation mem_filled :: "mem \<Rightarrow> addr \<Rightarrow> u8 \<Rightarrow> nat \<Rightarrow> mem" where
  "mem_filled m d b \<equiv> mem_put m d (\<lambda>j. b)"

text \<open>No destination byte is a source byte that is copied later: the two regions are disjoint, or
  the destination starts below the source.\<close>

definition copy_ok :: "addr \<Rightarrow> addr \<Rightarrow> nat \<Rightarrow> bool" where
  "copy_ok d s n \<longleftrightarrow> n < 2 ^ 64 \<and> (\<forall>i j. i < j \<and> j < n \<longrightarrow> d + of_nat i \<noteq> s + of_nat j)"

lemma copy_ok_less: "copy_ok d s n \<Longrightarrow> n < 2 ^ 64"
  by (simp add: copy_ok_def)

lemma copy_ok_le: "copy_ok d s n \<Longrightarrow> k \<le> n \<Longrightarrow> copy_ok d s k"
  unfolding copy_ok_def by (meson le_less_trans less_le_trans)

lemma mem_put_0 [simp]: "mem_put m d f 0 = m"
  by (simp add: mem_put_def)

lemma mem_copied_src:
  assumes "copy_ok d s n" and "i \<le> j" and "j < n"
  shows "mem_copied m d s i (s + of_nat j) = m (s + of_nat j)"
proof -
  have "\<not> unat (s + of_nat j - d) < i"
  proof
    assume less: "unat (s + of_nat j - d) < i"
    have "d + of_nat (unat (s + of_nat j - d)) = s + of_nat j" by simp
    with less assms show False unfolding copy_ok_def by (meson less_le_trans)
  qed
  then show ?thesis by (simp add: mem_put_def)
qed

lemma unat_of_nat_u64: "n < 2 ^ 64 \<Longrightarrow> unat (of_nat n :: u64) = n"
  by (simp add: unsigned_of_nat take_bit_nat_eq_self_iff)

lemma unat_plus_of_nat: "unat a + j < 2 ^ 64 \<Longrightarrow> unat (a + of_nat j :: u64) = unat a + j"
  by (simp add: unat_plus_le unat_of_nat_u64)

lemma mem_put_extend:
  assumes n: "i + k < 2 ^ 64"
  shows "store_bytes (mem_put m d f i) (d + of_nat i) (map (\<lambda>j. f (i + j)) [0..<k]) =
    mem_put m d f (i + k)"
proof
  fix x
  show "store_bytes (mem_put m d f i) (d + of_nat i) (map (\<lambda>j. f (i + j)) [0..<k]) x =
      mem_put m d f (i + k) x"
  proof (cases "unat (x - d) < i")
    case True
    then have "unat (x - (d + of_nat i)) = unat (x - d) + 2 ^ 64 - i"
      using n by (simp add: diff_diff_eq [symmetric] unat_sub_if' unat_of_nat_u64)
    moreover from this have "\<not> unat (x - (d + of_nat i)) < k" using n by linarith
    ultimately show ?thesis using True n by (simp add: store_bytes_apply mem_put_def)
  next
    case False
    then have "unat (x - (d + of_nat i)) = unat (x - d) - i"
      using n by (simp add: diff_diff_eq [symmetric] unat_sub_if' unat_of_nat_u64)
    then show ?thesis using False n
      by (simp add: store_bytes_apply mem_put_def less_diff_conv2)
  qed
qed

lemma mem_put_step:
  "Suc i < 2 ^ 64 \<Longrightarrow> (mem_put m d f i)(d + of_nat i := f i) = mem_put m d f (Suc i)"
  using mem_put_extend [of i 1 m d f] by simp

lemma mem_put_store64:
  assumes "i + 8 < 2 ^ 64" and "le_bytes 8 w = map (\<lambda>j. f (i + j)) [0..<8]"
  shows "store64 (mem_put m d f i) (d + of_nat i) w = mem_put m d f (i + 8)"
  using mem_put_extend [OF assms(1)] assms(2) by (simp add: store64_def)

lemma le_bytes_load64: "le_bytes 8 (load64 m a) = map (\<lambda>j. m (a + of_nat j)) [0..<8]"
  using le_bytes_le_val [of "map (\<lambda>j. m (a + of_nat j)) [0..<8]", where ?'a = 64]
  by (simp add: load64_def del: upt_Suc)

lemma memcpy_words_copied:
  "copy_ok d s (i + r) \<Longrightarrow>
    memcpy_words (mem_copied m d s i) (d + of_nat i) (s + of_nat i) r =
      (mem_copied m d s (i + 8 * (r div 8)), d + of_nat (i + 8 * (r div 8)),
       s + of_nat (i + 8 * (r div 8)), r mod 8)"
proof (induction r arbitrary: i rule: less_induct)
  case (less r)
  show ?case
  proof (cases "8 \<le> r")
    case True
    have "le_bytes 8 (load64 (mem_copied m d s i) (s + of_nat i)) =
        map (\<lambda>j. m (s + of_nat (i + j))) [0..<8]"
      unfolding le_bytes_load64 using mem_copied_src [OF less.prems, of i "i + j" for j] True
      by (auto simp: add.assoc)
    then have "store64 (mem_copied m d s i) (d + of_nat i)
        (load64 (mem_copied m d s i) (s + of_nat i)) = mem_copied m d s (i + 8)"
      using copy_ok_less [OF less.prems] True by (intro mem_put_store64) simp_all
    moreover have "r div 8 = Suc ((r - 8) div 8)" and "r mod 8 = (r - 8) mod 8"
      using True by (simp_all add: le_div_geq le_mod_geq)
    ultimately show ?thesis
      using less.IH [of "r - 8" "i + 8"] less.prems True
      by (subst memcpy_words.simps) (simp add: algebra_simps)
  qed (simp add: memcpy_words.simps)
qed

lemma memcpy_bytes_copied:
  "copy_ok d s (i + n) \<Longrightarrow> memcpy_bytes (mem_copied m d s i) d s i n = mem_copied m d s (i + n)"
proof (induction n arbitrary: i)
  case (Suc n)
  have "(mem_copied m d s i)(d + of_nat i := mem_copied m d s i (s + of_nat i)) =
      mem_copied m d s (Suc i)"
    using mem_put_step [of i] mem_copied_src [OF Suc.prems, of i i m] copy_ok_less [OF Suc.prems]
    by simp
  with Suc.IH [of "Suc i"] Suc.prems show ?case by simp
qed simp

lemma memcpy_bytes_shift:
  "memcpy_bytes m (d + of_nat k) (s + of_nat k) i n = memcpy_bytes m d s (k + i) n"
proof (induction n arbitrary: m i)
  case (Suc n)
  then show ?case by (simp add: add.assoc fun_upd_def)
qed simp

lemma memcpy_copied: "copy_ok d s n \<Longrightarrow> memcpy m d s n = mem_copied m d s n"
  using memcpy_words_copied [of d s 0 n m] memcpy_bytes_copied [of d s 0 n m]
    memcpy_bytes_copied [of d s "8 * (n div 8)" "n mod 8" m]
  by (simp add: memcpy_def memcpy_bytes_shift [where i = 0, simplified] del: of_nat_add of_nat_mult)

lemma le_bytes_memset_val64: "le_bytes 8 (memset_val64 b) = replicate 8 b"
proof -
  have "memset_val64 b = le_val (replicate 8 b)"
    by (simp add: memset_val64_def eval_nat_numeral push_bit_or or.assoc)
      (simp add: or.commute or.left_commute or.assoc)
  then show ?thesis using le_bytes_le_val [of "replicate 8 b", where ?'a = 64] by simp
qed

lemma memset_words_filled:
  "i + r < 2 ^ 64 \<Longrightarrow>
    memset_words (mem_filled m p b i) (p + of_nat i) (memset_val64 b) r =
      (mem_filled m p b (i + 8 * (r div 8)), p + of_nat (i + 8 * (r div 8)), r mod 8)"
proof (induction r arbitrary: i rule: less_induct)
  case (less r)
  show ?case
  proof (cases "8 \<le> r")
    case True
    then have "store64 (mem_filled m p b i) (p + of_nat i) (memset_val64 b) = mem_filled m p b (i + 8)"
      using less.prems by (intro mem_put_store64) (simp_all add: le_bytes_memset_val64 map_replicate_const)
    moreover have "r div 8 = Suc ((r - 8) div 8)" and "r mod 8 = (r - 8) mod 8"
      using True by (simp_all add: le_div_geq le_mod_geq)
    ultimately show ?thesis
      using less.IH [of "r - 8" "i + 8"] less.prems True
      by (subst memset_words.simps) (simp add: algebra_simps)
  qed (simp add: memset_words.simps)
qed

lemma memset_bytes_filled:
  "i + n < 2 ^ 64 \<Longrightarrow> memset_bytes (mem_filled m p b i) p b i n = mem_filled m p b (i + n)"
proof (induction n arbitrary: i)
  case (Suc n)
  have "(mem_filled m p b i)(p + of_nat i := b) = mem_filled m p b (Suc i)"
    using mem_put_step [of i m p "\<lambda>j. b"] Suc.prems by simp
  with Suc.IH [of "Suc i"] Suc.prems show ?case by simp
qed simp

lemma memset_bytes_shift: "memset_bytes m (p + of_nat k) b i n = memset_bytes m p b (k + i) n"
  by (induction n arbitrary: m i) (simp_all add: add.assoc fun_upd_def)

lemma memset_filled:
  "n < 2 ^ 64 \<Longrightarrow> memset m p c n = mem_filled m p (word_of_int c) n"
  using memset_words_filled [of 0 n m p "word_of_int c"]
    memset_bytes_filled [of 0 n m p "word_of_int c"]
    memset_bytes_filled [of "8 * (n div 8)" "n mod 8" m p "word_of_int c"]
  by (simp add: memset_def memset_bytes_shift [where i = 0, simplified] Let_def
      del: of_nat_add of_nat_mult)

subsection \<open>Scanning\<close>

lemma bit_le_val_less: "bit (le_val bs :: 'a::len word) n \<Longrightarrow> n < 8 * length bs"
proof (induction bs arbitrary: n)
  case (Cons b bs)
  have "n < 8 \<or> bit (le_val bs :: 'a word) (n - 8)"
    using Cons.prems by (auto simp: bit_simps dest: bit_imp_le_length)
  then show ?case using Cons.IH [of "n - 8"] by auto
qed simp

lemma byte_plus_shift:
  assumes "\<And>n. bit (x :: 'a::len word) n \<Longrightarrow> n < 8"
  shows "x + push_bit 8 y = x OR push_bit 8 y"
  using assms by (intro disjunctive_add) (auto simp: bit_simps not_le)

lemma bit_ucast_u8: "bit (ucast (b :: u8) :: 'a::len word) n \<Longrightarrow> n < 8"
  by (auto simp: bit_simps dest: bit_imp_le_length)

lemma bit7_u8: "bit (b :: u8) 7 \<longleftrightarrow> 128 \<le> unat b"
proof -
  have "bit b 7 \<longleftrightarrow> bit (unat b) 7" by (simp add: bit_unsigned_iff)
  then have "bit b 7 \<longleftrightarrow> odd (unat b div 128)" by (simp add: bit_iff_odd)
  moreover have "unat b < 256" using unat_bound [of b] by simp
  ultimately show ?thesis by (cases "unat b < 128") (auto simp: le_div_geq not_less)
qed

lemma byte_borrow: "b \<noteq> 0 \<Longrightarrow> (b - 1) AND NOT b AND 128 = (0 :: u8)"
  using and_exp_eq_0 [of "(b - 1) AND NOT b" 7] bit7_u8 [of b] bit7_u8 [of "b - 1"] unat_pred [of b]
  by (auto simp: and.assoc bit_and_iff bit_not_iff)

lemma push_bit_and_le_val_eq_0:
  assumes "8 + 8 * length bs \<le> 64"
  shows "push_bit 8 (x AND le_val bs :: u64) = 0 \<longleftrightarrow> x AND le_val bs = 0"
proof
  assume shift: "push_bit 8 (x AND le_val bs :: u64) = 0"
  show "x AND le_val bs = 0"
  proof (rule bit_word_eqI)
    fix n assume "n < LENGTH(64)"
    have "\<not> bit (push_bit 8 (x AND le_val bs) :: u64) (n + 8)" using shift by simp
    then show "bit (x AND le_val bs) n = bit (0 :: u64) n"
      using assms bit_le_val_less [of bs n, where ?'a = 64] by (auto simp: bit_simps)
  qed
qed simp

lemma byte_and_split:
  "(ucast p OR push_bit 8 D) AND NOT (ucast b OR push_bit 8 V) AND (ucast c OR push_bit 8 H) =
    (ucast (p AND NOT b AND c :: u8) OR push_bit 8 (D AND NOT V AND H) :: u64)"
  by (rule bit_word_eqI) (auto simp: bit_simps dest: bit_imp_le_length)

lemma zero_byte_bytes:
  "8 * length bs \<le> 64 \<Longrightarrow>
    ((le_val bs :: u64) - le_val (replicate (length bs) 1)) AND NOT (le_val bs) AND
      le_val (replicate (length bs) 128) = 0 \<longleftrightarrow> 0 \<notin> set bs"
proof (induction bs)
  case (Cons b bs)
  let ?V = "le_val bs :: u64" and ?L = "le_val (replicate (length bs) 1) :: u64"
  let ?H = "le_val (replicate (length bs) 128) :: u64"
  let ?X = "((le_val (b # bs) :: u64) - le_val (replicate (length (b # bs)) 1)) AND
    NOT (le_val (b # bs)) AND le_val (replicate (length (b # bs)) 128)"
  have one: "1 OR push_bit 8 ?L = 1 + push_bit 8 ?L"
    by (rule byte_plus_shift [symmetric]) (auto simp: bit_1_iff)
  have V: "ucast b OR push_bit 8 ?V = ucast b + push_bit 8 ?V"
    by (rule byte_plus_shift [symmetric]) (rule bit_ucast_u8)
  have diff: "(ucast b OR push_bit 8 ?V) - (1 OR push_bit 8 ?L) = (ucast b - 1) + push_bit 8 (?V - ?L)"
    unfolding one V by (simp add: push_bit_eq_mult algebra_simps)
  show ?case
  proof (cases "b = 0")
    case True
    have "ucast b - 1 + push_bit 8 (?V - ?L) = NOT (push_bit 8 (?L - ?V))"
      using True by (simp add: not_eq_complement push_bit_eq_mult algebra_simps)
    with diff have "?X = NOT (push_bit 8 (?L - ?V)) AND NOT (push_bit 8 ?V) AND (128 OR push_bit 8 ?H)"
      using True by simp
    moreover have "bit (128 :: u64) 7" using and_exp_eq_0 [of "128 :: u64" 7] by simp
    ultimately have "bit ?X 7" by (simp add: bit_simps)
    with True show ?thesis by auto
  next
    case False
    then have "ucast b - 1 = (ucast (b - 1) :: u64)"
      using unat_pred [of b] by (simp add: word_unat_eq_iff unat_ucast_up unat_sub_if')
    with diff byte_plus_shift [of "ucast (b - 1) :: u64" "?V - ?L"]
    have "?X = (ucast (b - 1) OR push_bit 8 (?V - ?L)) AND NOT (ucast b OR push_bit 8 ?V) AND
        (ucast (128 :: u8) OR push_bit 8 ?H)"
      by (simp add: bit_ucast_u8)
    also have "\<dots> = ucast ((b - 1) AND NOT b AND 128) OR push_bit 8 ((?V - ?L) AND NOT ?V AND ?H)"
      by (rule byte_and_split)
    finally have "?X = push_bit 8 ((?V - ?L) AND NOT ?V AND ?H)" using byte_borrow [OF False] by simp
    moreover have "push_bit 8 ((?V - ?L) AND NOT ?V AND ?H) = 0 \<longleftrightarrow> (?V - ?L) AND NOT ?V AND ?H = 0"
      using push_bit_and_le_val_eq_0 [of "replicate (length bs) 128" "(?V - ?L) AND NOT ?V"] Cons.prems
      unfolding and.assoc by simp
    moreover have "(?V - ?L) AND NOT ?V AND ?H = 0 \<longleftrightarrow> 0 \<notin> set bs"
      using Cons.IH Cons.prems by simp
    ultimately have "?X = 0 \<longleftrightarrow> 0 \<notin> set bs" by metis
    with False show ?thesis by simp
  qed
qed simp

lemma has_zero_load64: "has_zero (load64 m a) \<longleftrightarrow> (\<exists>j < 8. m (a + of_nat j) = 0)"
proof -
  have "(le_val (replicate 8 1) :: u64) = lomagic" and "(le_val (replicate 8 128) :: u64) = himagic"
    by code_simp+
  then show ?thesis
    using zero_byte_bytes [of "map (\<lambda>j. m (a + of_nat j)) [0..<8]"]
    by (auto simp: has_zero_def load64_def and.assoc simp del: upt_Suc)
qed

text \<open>The first index at which a scan stops.\<close>

definition first_idx :: "(nat \<Rightarrow> bool) \<Rightarrow> nat \<Rightarrow> bool" where
  "first_idx Q k \<longleftrightarrow> Q k \<and> (\<forall>j < k. \<not> Q j)"

lemma first_idx_0: "first_idx Q 0 \<longleftrightarrow> Q 0"
  by (simp add: first_idx_def)

lemma first_idx_Suc: "first_idx Q (Suc k) \<longleftrightarrow> \<not> Q 0 \<and> first_idx (\<lambda>j. Q (Suc j)) k"
  by (auto simp: first_idx_def less_Suc_eq_0_disj)

lemma first_idx_shift: "first_idx Q k \<Longrightarrow> i \<le> k \<Longrightarrow> first_idx (\<lambda>j. Q (i + j)) (k - i)"
  by (auto simp: first_idx_def)

lemma first_idx_within: "first_idx Q k \<Longrightarrow> (\<exists>j < n. Q j) \<longleftrightarrow> k < n"
  by (metis first_idx_def linorder_neqE_nat order_less_trans)

abbreviation nul_at :: "mem \<Rightarrow> addr \<Rightarrow> nat \<Rightarrow> bool" where
  "nul_at m p \<equiv> \<lambda>j. m (p + of_nat j) = 0"

lemma strlen_align_returns:
  "first_idx (nul_at m p) k \<Longrightarrow>
    strlen_align m s p = Some (Inl (p + of_nat k - s)) \<or>
    (\<exists>j \<le> k. strlen_align m s p = Some (Inr (p + of_nat j)))"
proof (induction k arbitrary: p)
  case 0
  then show ?case by (subst (1 2) strlen_align.simps) (auto simp: first_idx_0)
next
  case (Suc k)
  have first: "m p \<noteq> 0" "first_idx (nul_at m (p + 1)) k"
    using Suc.prems by (auto simp: first_idx_Suc add.assoc)
  show ?case
  proof (cases "p AND 7 = 0")
    case True
    then show ?thesis by (subst (2) strlen_align.simps) (auto intro!: exI [of _ 0])
  next
    case False
    then have "strlen_align m s p = strlen_align m s (p + 1)"
      using first(1) by (subst strlen_align.simps) simp
    moreover have "p + 1 + of_nat j = p + of_nat (Suc j)" for j by (simp add: add.assoc)
    ultimately show ?thesis using Suc.IH [OF first(2)] by (metis Suc_le_mono)
  qed
qed

lemma strlen_words_returns:
  "first_idx (nul_at m w) k \<Longrightarrow> strlen_words m w = Some (w + of_nat (8 * (k div 8)))"
proof (induction k arbitrary: w rule: less_induct)
  case (less k)
  have stop: "has_zero (load64 m w) \<longleftrightarrow> k < 8"
    using first_idx_within [OF less.prems, of 8] by (simp add: has_zero_load64)
  show ?case
  proof (cases "k < 8")
    case False
    then have "first_idx (nul_at m (w + 8)) (k - 8)"
      using first_idx_shift [OF less.prems, of 8] by (simp add: add.assoc)
    with less.IH [of "k - 8" "w + 8"] stop False show ?thesis
      by (subst strlen_words.simps) (simp add: le_div_geq algebra_simps)
  qed (use stop in \<open>simp add: strlen_words.simps\<close>)
qed

lemma strlen_bytes_returns:
  "first_idx (nul_at m p) k \<Longrightarrow> strlen_bytes m p = Some (p + of_nat k)"
proof (induction k arbitrary: p)
  case 0
  then show ?case by (simp add: strlen_bytes.simps first_idx_0)
next
  case (Suc k)
  then have "m p \<noteq> 0" "first_idx (nul_at m (p + 1)) k" by (auto simp: first_idx_Suc add.assoc)
  with Suc.IH [of "p + 1"] show ?case by (simp add: strlen_bytes.simps [of m p] add.assoc)
qed

lemma strlen_first_nul:
  assumes "s \<noteq> NULL" and first: "first_idx (nul_at m s) k"
  shows "strlen m s = Some (of_nat k)"
  using strlen_align_returns [OF first, of s]
proof (elim disjE exE conjE)
  fix j assume j: "j \<le> k" and align: "strlen_align m s s = Some (Inr (s + of_nat j))"
  let ?p = "s + of_nat j" and ?i = "8 * ((k - j) div 8)"
  have at: "first_idx (nul_at m ?p) (k - j)" using first_idx_shift [OF first j] by (simp add: add.assoc)
  have "first_idx (nul_at m (?p + of_nat ?i)) (k - j - ?i)"
    using first_idx_shift [OF at, of ?i] by (simp add: add.assoc)
  from strlen_words_returns [OF at] strlen_bytes_returns [OF this] align assms(1) j
  show ?thesis by (simp add: strlen_def add.assoc del: of_nat_mult flip: of_nat_add)
qed (use assms(1) in \<open>simp add: strlen_def\<close>)

abbreviation stop_at :: "mem \<Rightarrow> addr \<Rightarrow> addr \<Rightarrow> nat \<Rightarrow> bool" where
  "stop_at m a b \<equiv> \<lambda>j. m (a + of_nat j) = 0 \<or> m (a + of_nat j) \<noteq> m (b + of_nat j)"

abbreviation byte_diff :: "mem \<Rightarrow> addr \<Rightarrow> addr \<Rightarrow> int" where
  "byte_diff m a b \<equiv> uint (m a) - uint (m b)"

lemma stop_at_Suc:
  "first_idx (stop_at m a b) (Suc k) \<longleftrightarrow>
    m a \<noteq> 0 \<and> m a = m b \<and> first_idx (stop_at m (a + 1) (b + 1)) k"
  by (auto simp: first_idx_Suc add.assoc)

text \<open>Both scans of \<open>strcmp\<close> end with the result or in step at an earlier index; this carries over
  a step of \<open>n\<close> bytes.\<close>

abbreviation scan_result :: "mem \<Rightarrow> addr \<Rightarrow> addr \<Rightarrow> nat \<Rightarrow> (int + addr \<times> addr) option \<Rightarrow> bool" where
  "scan_result m a b k r \<equiv>
     r = Some (Inl (byte_diff m (a + of_nat k) (b + of_nat k))) \<or>
     (\<exists>j \<le> k. r = Some (Inr (a + of_nat j, b + of_nat j)))"

lemma scan_lift:
  "scan_result m (a + of_nat n) (b + of_nat n) k r \<Longrightarrow> scan_result m a b (n + k) r"
proof (elim disjE exE conjE)
  fix j assume "j \<le> k" "r = Some (Inr (a + of_nat n + of_nat j, b + of_nat n + of_nat j))"
  then have "n + j \<le> n + k \<and> r = Some (Inr (a + of_nat (n + j), b + of_nat (n + j)))"
    by (simp add: add.assoc)
  then show ?thesis by blast
qed (simp add: add.assoc)

lemma strcmp_align_returns:
  "first_idx (stop_at m a b) k \<Longrightarrow> scan_result m a b k (strcmp_align m a b)"
proof (induction k arbitrary: a b)
  case 0
  then show ?case by (subst (1 2) strcmp_align.simps) (auto simp: first_idx_0)
next
  case (Suc k)
  show ?case
  proof (cases "a AND 7 = 0 \<or> b AND 7 = 0")
    case True
    then show ?thesis by (subst (2) strcmp_align.simps) (auto intro!: exI [of _ 0])
  next
    case False
    then have "strcmp_align m a b = strcmp_align m (a + 1) (b + 1)"
      using Suc.prems unfolding stop_at_Suc by (subst strcmp_align.simps) auto
    moreover have "first_idx (stop_at m (a + 1) (b + 1)) k" using Suc.prems unfolding stop_at_Suc by blast
    ultimately show ?thesis using scan_lift [where n = 1] Suc.IH by simp
  qed
qed

lemma load64_eqD: "load64 m a = load64 m b \<Longrightarrow> j < 8 \<Longrightarrow> m (a + of_nat j) = m (b + of_nat j)"
  using le_bytes_load64 [of m a] le_bytes_load64 [of m b] by simp

lemma strcmp_words_returns:
  "first_idx (stop_at m a b) k \<Longrightarrow> scan_result m a b k (strcmp_words m a b)"
proof (induction k arbitrary: a b rule: less_induct)
  case (less k)
  show ?case
  proof (cases "load64 m a = load64 m b")
    case False
    then show ?thesis by (subst (2) strcmp_words.simps) (auto intro!: exI [of _ 0])
  next
    case True
    have stop: "has_zero (load64 m a) \<longleftrightarrow> k < 8"
      using first_idx_within [OF less.prems, of 8] load64_eqD [OF True] by (auto simp: has_zero_load64)
    show ?thesis
    proof (cases "k < 8")
      case True
      then show ?thesis using stop \<open>load64 m a = load64 m b\<close> load64_eqD [of m a b k]
        by (subst strcmp_words.simps) simp
    next
      case False
      then have "strcmp_words m a b = strcmp_words m (a + 8) (b + 8)"
        using stop True by (subst strcmp_words.simps) simp
      moreover have "first_idx (stop_at m (a + 8) (b + 8)) (k - 8)"
        using first_idx_shift [OF less.prems, of 8] False by (simp add: add.assoc)
      ultimately show ?thesis
        using less.IH [of "k - 8" "a + 8" "b + 8"] scan_lift [where n = 8 and k = "k - 8"] False by simp
    qed
  qed
qed

lemma strcmp_bytes_returns:
  "first_idx (stop_at m a b) k \<Longrightarrow>
    strcmp_bytes m a b = Some (byte_diff m (a + of_nat k) (b + of_nat k))"
proof (induction k arbitrary: a b)
  case 0
  then show ?case by (subst strcmp_bytes.simps) (auto simp: first_idx_0)
next
  case (Suc k)
  then have "m a \<noteq> 0" "m a = m b" "first_idx (stop_at m (a + 1) (b + 1)) k"
    unfolding stop_at_Suc by blast+
  then have "strcmp_bytes m a b = strcmp_bytes m (a + 1) (b + 1)"
    by (subst strcmp_bytes.simps) simp
  with Suc.IH [OF \<open>first_idx _ k\<close>] show ?case by (simp add: add.assoc)
qed

lemma stop_at_shift:
  "first_idx (stop_at m a b) k \<Longrightarrow> j \<le> k \<Longrightarrow>
    first_idx (stop_at m (a + of_nat j) (b + of_nat j)) (k - j)"
  using first_idx_shift [of "stop_at m a b" k j] by (simp add: add.assoc)

lemma strcmp_first_stop:
  assumes "a \<noteq> NULL" "b \<noteq> NULL" and first: "first_idx (stop_at m a b) k"
  shows "strcmp m a b = Some (byte_diff m (a + of_nat k) (b + of_nat k))"
  using strcmp_align_returns [OF first]
proof (elim disjE exE conjE)
  fix j assume j: "j \<le> k" and align: "strcmp_align m a b = Some (Inr (a + of_nat j, b + of_nat j))"
  note rest = stop_at_shift [OF first j]
  have bytes: "strcmp_bytes m (a + of_nat i) (b + of_nat i) =
      Some (byte_diff m (a + of_nat k) (b + of_nat k))" if "i \<le> k" for i
    using strcmp_bytes_returns [OF stop_at_shift [OF first that]] that
    by (simp add: add.assoc flip: of_nat_add)
  show ?thesis
    using strcmp_words_returns [OF rest] align bytes [OF j] bytes [of "j + i" for i] j assms(1,2)
    by (auto simp: strcmp_def add.assoc simp flip: of_nat_add)
qed (use assms(1,2) in \<open>simp add: strcmp_def\<close>)

subsection \<open>Formatting\<close>

text \<open>The state after the text \<open>out\<close> has been produced: as much of it as fits before the last byte
  of the buffer is there.\<close>

definition sn_state :: "mem \<Rightarrow> addr \<Rightarrow> nat \<Rightarrow> u8 list \<Rightarrow> mem \<times> nat" where
  "sn_state m buf sz out = (mem_put m buf (\<lambda>i. out ! i) (min (length out) (sz - 1)), length out)"

lemma mem_put_cong: "(\<And>i. i < n \<Longrightarrow> f i = g i) \<Longrightarrow> mem_put m d f n = mem_put m d g n"
  by (auto simp: mem_put_def)

lemma snd_sn_state [simp]: "snd (sn_state m buf sz out) = length out"
  by (simp add: sn_state_def)


lemma sn_write_char_state:
  assumes "sz < 2 ^ 64"
  shows "sn_write_char buf sz c (sn_state m buf sz out) = sn_state m buf sz (out @ [c])"
proof -
  let ?n = "length out"
  let ?put = "mem_put m buf (\<lambda>i. (out @ [c]) ! i)"
  have eq: "mem_put m buf (\<lambda>i. out ! i) k = ?put k" if "k \<le> ?n" for k
    using that by (intro mem_put_cong) (simp add: nth_append)
  show ?thesis
  proof (cases "Suc ?n < sz")
    case True
    then have "min ?n (sz - 1) = ?n" "min (Suc ?n) (sz - 1) = Suc ?n" by auto
    moreover have "(?put ?n)(buf + of_nat ?n := c) = ?put (Suc ?n)"
      using mem_put_step [of ?n m buf "\<lambda>i. (out @ [c]) ! i"] True assms by simp
    ultimately show ?thesis using True eq [of ?n] by (simp add: sn_state_def sn_write_char_def)
  next
    case False
    then have "min ?n (sz - 1) = sz - 1" "min (Suc ?n) (sz - 1) = sz - 1" by auto
    with False eq [of "sz - 1"] show ?thesis by (simp add: sn_state_def sn_write_char_def)
  qed
qed

lemma sn_write_chars_state:
  "sz < 2 ^ 64 \<Longrightarrow>
    fold (sn_write_char buf sz) cs (sn_state m buf sz out) = sn_state m buf sz (out @ cs)"
  by (induction cs arbitrary: out) (simp_all add: sn_write_char_state)




text \<open>The number a digit string denotes in a base.\<close>

definition digit_val :: "u8 \<Rightarrow> nat" where
  "digit_val c = (if unat c < 0x3A then unat c - 0x30 else unat c - 0x61 + 10)"

definition read_num :: "nat \<Rightarrow> u8 list \<Rightarrow> nat" where
  "read_num base cs = foldl (\<lambda>n c. n * base + digit_val c) 0 cs"

lemma read_num_rev: "read_num base (rev cs) = horner_sum digit_val base cs"
  by (induction cs) (simp_all add: read_num_def)

lemma digit_val_digit:
  assumes "d < (16 :: u64)"
  shows "digit_val (ucast (if d < 10 then 0x30 + d else 0x61 + d - 10)) = unat d"
proof -
  have d: "unat d < 16" using assms by (simp add: word_to_nat)
  have "unat (0x30 + d) = 0x30 + unat d" "unat (0x61 + d - 10) = 0x57 + unat d"
    using d unat_plus_le [where x = "0x30 :: u64" and y = d] unat_plus_le [where x = "0x57 :: u64" and y = d] by simp_all
  then show ?thesis using d
    by (simp add: digit_val_def unsigned_ucast_eq take_bit_nat_eq_self word_to_nat)
qed

lemma sn_digits_val:
  "2 \<le> unat base \<Longrightarrow> unat base \<le> 16 \<Longrightarrow> length tmp \<le> 20 \<Longrightarrow>
    unat val < unat base ^ (20 - length tmp) \<Longrightarrow>
    horner_sum digit_val (unat base) (sn_digits tmp val base) =
      horner_sum digit_val (unat base) tmp + unat base ^ length tmp * unat val \<and>
    length (sn_digits tmp val base) \<le> 20"
proof (induction tmp val base rule: sn_digits.induct)
  case (1 tmp val base)
  show ?case
  proof (cases "val > 0 \<and> length tmp < 20")
    case False
    with 1 show ?thesis by (subst (1 2) sn_digits.simps) (auto simp: word_to_nat not_less)
  next
    case True
    define digit where "digit = val mod base"
    define c :: u8 where "c = ucast (if digit < 10 then 0x30 + digit else 0x61 + digit - 10)"
    have digit: "unat digit = unat val mod unat base" by (simp add: digit_def unat_mod)
    moreover have "unat val mod unat base < unat base" using "1.prems"(1) by simp
    ultimately have "digit < 16" using "1.prems"(2) by (simp add: word_to_nat)
    then have c: "digit_val c = unat val mod unat base"
      using digit_val_digit [of digit] digit by (simp add: c_def)
    have step: "sn_digits tmp val base = sn_digits (tmp @ [c]) (val div base) base"
      using True by (subst sn_digits.simps) (simp add: digit_def c_def Let_def)
    have "20 - length tmp = Suc (20 - length (tmp @ [c]))" using True by auto
    then have "unat val < unat base * unat base ^ (20 - length (tmp @ [c]))"
      using "1.prems"(4) by simp
    then have "unat (val div base) < unat base ^ (20 - length (tmp @ [c]))"
      using "1.prems"(1) by (simp add: unat_div div_less_iff_less_mult mult.commute)
    then have "horner_sum digit_val (unat base) (sn_digits tmp val base) =
        horner_sum digit_val (unat base) (tmp @ [c]) +
        unat base ^ length (tmp @ [c]) * (unat val div unat base) \<and>
        length (sn_digits tmp val base) \<le> 20"
      using "1.IH" [OF True digit_def] "1.prems" True
      unfolding step by (simp add: c_def unat_div)
    moreover have "B * v = B * (v mod b) + b * B * (v div b)" for B v b :: nat
      by (metis distrib_left mod_mult_div_eq mult.assoc mult.commute)
    ultimately show ?thesis by (simp add: horner_sum_append c)
  qed
qed

definition sn_uint_text :: "u64 \<Rightarrow> u64 \<Rightarrow> u8 list" where
  "sn_uint_text val base = rev (sn_digits (if val = 0 then [0x30] else []) val base)"

lemma read_num_uint_text:
  assumes "base = 10 \<or> base = 16"
  shows "read_num (unat base) (sn_uint_text val base) = unat val \<and> length (sn_uint_text val base) \<le> 20"
proof (cases "val = 0")
  case True
  then show ?thesis
    by (simp add: sn_uint_text_def sn_digits.simps read_num_def digit_val_def)
next
  case False
  have "unat val < unat base ^ 20"
    using unat_bound [of val] assms by auto
  moreover have "2 \<le> unat base" "unat base \<le> 16" using assms by auto
  ultimately show ?thesis
    using sn_digits_val [of base "[]" val] False by (simp add: sn_uint_text_def read_num_rev)
qed

lemma sn_state_start:
  assumes "pos < sz" and "sz < 2 ^ 64"
  shows "(m, pos) = sn_state m buf sz (map (\<lambda>i. m (buf + of_nat i)) [0..<pos])"
proof -
  have "mem_put m buf (\<lambda>i. map (\<lambda>i. m (buf + of_nat i)) [0..<pos] ! i) pos = m"
    by (auto simp: mem_put_def)
  then show ?thesis using assms by (simp add: sn_state_def)
qed

lemma mem_put_at: "i < n \<Longrightarrow> n < 2 ^ 64 \<Longrightarrow> mem_put m d f n (d + of_nat i) = f i"
  by (simp add: mem_put_def unat_of_nat_u64)

subsection \<open>Properties\<close>

text \<open>C18: \<open>memcpy\<close> copies.  Whatever the alignment of the two pointers, so both for the eight-byte
  loop with its byte tail and for the plain byte loop, the \<open>n\<close> destination bytes become the old
  source bytes and every other byte of memory is unchanged, provided no destination byte is a
  source byte still to be read (the regions are disjoint or the destination starts first).\<close>

theorem memcpy_correct:
  assumes "copy_ok dst src n"
  shows "memcpy m dst src n x = (if unat (x - dst) < n then m (src + (x - dst)) else m x)"
  using memcpy_copied [OF assms, of m] by (simp add: mem_put_def)

theorem memcpy_correct_witness:
  "memcpy (\<lambda>a. ucast a) 0x1000 0x2000 11 0x1009 = 0x09 \<and>
   memcpy (\<lambda>a. ucast a) 0x1000 0x2000 11 0x100B = 0x0B"
proof -
  have "copy_ok 0x1000 0x2000 11"
    unfolding copy_ok_def by (auto simp: word_unat_eq_iff unat_word_ariths unat_of_nat_u64)
  from memcpy_correct [OF this, of "\<lambda>a. ucast a"] show ?thesis by simp
qed

text \<open>C27: \<open>strlen\<close> returns, and returns the length.  If the first zero byte at or after the non-null
  pointer is \<open>k\<close> bytes away, then the three loops (up to alignment, by words with the
  \<open>(v - 0x01\<dots>) & ~v & 0x80\<dots>\<close> test, by bytes) all end and the result is \<open>k\<close>.\<close>

theorem strlen_correct:
  assumes "s \<noteq> NULL" and "m (s + of_nat k) = 0" and "\<forall>j < k. m (s + of_nat j) \<noteq> 0"
  shows "strlen m s = Some (of_nat k)"
  using assms by (intro strlen_first_nul) (simp_all add: first_idx_def)

theorem strlen_correct_witness: "strlen (\<lambda>a. if a = 0x1010 then 0 else 0x61) 0x1003 = Some 13"
proof -
  have "(0x1003 :: addr) + of_nat j \<noteq> 0x1010" if "j < 13" for j
    using that by (auto simp: word_unat_eq_iff unat_word_ariths unat_of_nat_u64)
  then show ?thesis
    using strlen_correct [of "0x1003" "\<lambda>a. if a = 0x1010 then 0 else 0x61" 13] by simp
qed

text \<open>C26: \<open>strcmp\<close> returns, and returns the difference of the first bytes that decide the
  comparison: if \<open>k\<close> is the first index at which the strings differ or the first one ends, the
  result is the difference of the two (unsigned) bytes there, for every alignment of the
  pointers.\<close>

theorem strcmp_correct:
  assumes "a \<noteq> NULL" and "b \<noteq> NULL"
    and "m (a + of_nat k) = 0 \<or> m (a + of_nat k) \<noteq> m (b + of_nat k)"
    and "\<forall>j < k. m (a + of_nat j) \<noteq> 0 \<and> m (a + of_nat j) = m (b + of_nat j)"
  shows "strcmp m a b = Some (uint (m (a + of_nat k)) - uint (m (b + of_nat k)))"
  using assms by (intro strcmp_first_stop) (auto simp: first_idx_def)

theorem strcmp_correct_witness:
  "strcmp (\<lambda>a. if a = 0x1009 then 0x62 else 0x61) 0x1000 0x2000 = Some 1"
proof -
  have "(0x1000 :: addr) + of_nat j \<noteq> 0x1009 \<and> (0x2000 :: addr) + of_nat j \<noteq> 0x1009" if "j < 9" for j
    using that by (auto simp: word_unat_eq_iff unat_word_ariths unat_of_nat_u64)
  then show ?thesis
    using strcmp_correct [of "0x1000" "0x2000" "\<lambda>a. if a = 0x1009 then 0x62 else 0x61" 9] by simp
qed



text \<open>C29: printed numbers read back.  For the two bases \<open>snprintf\<close> uses and every 64-bit value, the
  twenty digits \<open>sn_write_uint\<close> allows are enough: where the buffer has room, the bytes it appends
  are between 1 and 20 digits that denote exactly the value.\<close>

theorem sn_write_uint_roundtrip:
  assumes "base = 10 \<or> base = 16" and "pos + 20 < sz" and "sz < 2 ^ 64"
    and "sn_write_uint buf sz val base (m, pos) = (m', pos')"
  shows "pos < pos' \<and> pos' \<le> pos + 20 \<and>
    read_num (unat base) (map (\<lambda>i. m' (buf + of_nat i)) [pos..<pos']) = unat val"
proof -
  let ?old = "map (\<lambda>i. m (buf + of_nat i)) [0..<pos]" and ?cs = "sn_uint_text val base"
  have "(m', pos') = sn_state m buf sz (?old @ ?cs)"
    using assms(4) sn_state_start [of pos sz m buf] sn_write_chars_state [OF assms(3)] assms(2,3)
    by (simp add: sn_write_uint_def sn_uint_text_def)
  moreover have len: "length ?cs \<le> 20" and num: "read_num (unat base) ?cs = unat val"
    using read_num_uint_text [OF assms(1)] by simp_all
  moreover have "?cs \<noteq> []"
    by (cases "val = 0") (use num in \<open>auto simp: sn_uint_text_def sn_digits.simps [of _ 0] read_num_def unsigned_eq_0_iff\<close>)
  ultimately have pos': "pos' = pos + length ?cs" "0 < length ?cs"
    and m': "m' = mem_put m buf (\<lambda>i. (?old @ ?cs) ! i) pos'"
    using assms(2) by (simp_all add: sn_state_def)
  have "map (\<lambda>i. m' (buf + of_nat i)) [pos..<pos'] = ?cs"
  proof (rule nth_equalityI)
    fix i assume "i < length (map (\<lambda>i. m' (buf + of_nat i)) [pos..<pos'])"
    then have i: "pos + i < pos'" using pos' by simp
    moreover have "pos' < 2 ^ 64" using pos' len assms(2,3) by linarith
    ultimately have "m' (buf + of_nat (pos + i)) = ?cs ! i"
      unfolding m' by (subst mem_put_at) (simp_all add: nth_append)
    moreover have "[pos..<pos'] ! i = pos + i" using i by (rule nth_upt)
    ultimately show "map (\<lambda>i. m' (buf + of_nat i)) [pos..<pos'] ! i = ?cs ! i" using i by simp
  qed (use pos' in simp)
  with pos' len num show ?thesis by simp
qed

theorem sn_write_uint_roundtrip_witness:
  "\<exists>m' pos'. sn_write_uint 0x1000 64 0xFFFFFFFFFFFFFFFF 10 (\<lambda>_. 0, 3) = (m', pos') \<and>
     read_num 10 (map (\<lambda>i. m' (0x1000 + of_nat i)) [3..<pos']) = 18446744073709551615"
proof -
  obtain m' pos' where run: "sn_write_uint 0x1000 64 0xFFFFFFFFFFFFFFFF 10 (\<lambda>_. 0, 3) = (m', pos')"
    by fastforce
  from sn_write_uint_roundtrip [OF _ _ _ this] run show ?thesis
    by (intro exI [of _ m'] exI [of _ pos']) simp
qed

end
