(* ===== verification/Paging.thy ===== *)
theory Paging
  imports Kstring
begin

text \<open>
  The four-level page tables of \<^verbatim>\<open>kernel/pagetable.c\<close> as the kernel reads them: the entry format of
  \<^verbatim>\<open>kernel/pagetable.h\<close>, the walk \<open>user_page_present\<close>, and the identity map of the first gigabyte that
  \<^verbatim>\<open>kernel/entry.S\<close> builds at boot.  Physical memory below 1 GiB is identity mapped, so tables are
  read and written in the same \<^typ>\<open>mem\<close> as everything else.
\<close>

subsection \<open>Page table entries and the walk\<close>

abbreviation PTE_PRESENT :: u64 where "PTE_PRESENT \<equiv> 0x001"
abbreviation PTE_RW :: u64 where "PTE_RW \<equiv> 0x002"
abbreviation PTE_USER :: u64 where "PTE_USER \<equiv> 0x004"
abbreviation PTE_PS :: u64 where "PTE_PS \<equiv> 0x080"
abbreviation PTE_ADDR_MASK :: u64 where "PTE_ADDR_MASK \<equiv> 0x000FFFFFFFFFF000"
abbreviation KERNEL_PHYS_MAX :: u64 where "KERNEL_PHYS_MAX \<equiv> 0x40000000"
abbreviation USER_ADDR_MAX :: u64 where "USER_ADDR_MAX \<equiv> 0x00007FFFFFFFFFFF"

definition phys_to_virt :: "u64 \<Rightarrow> addr ub" where
  "phys_to_virt pa = (if pa \<ge> KERNEL_PHYS_MAX then None else Some pa)"

definition pml4_idx :: "u64 \<Rightarrow> u64" where "pml4_idx vaddr = drop_bit 39 vaddr AND 0x1FF"
definition pdpt_idx :: "u64 \<Rightarrow> u64" where "pdpt_idx vaddr = drop_bit 30 vaddr AND 0x1FF"
definition pd_idx :: "u64 \<Rightarrow> u64" where "pd_idx vaddr = drop_bit 21 vaddr AND 0x1FF"
definition pt_idx :: "u64 \<Rightarrow> u64" where "pt_idx vaddr = drop_bit 12 vaddr AND 0x1FF"

text \<open>Entry \<open>i\<close> of the table at the kernel address \<open>t\<close>.\<close>

abbreviation entry :: "mem \<Rightarrow> addr \<Rightarrow> u64 \<Rightarrow> u64" where "entry m t i \<equiv> load64 m (t + 8 * i)"

definition user_page_present :: "mem \<Rightarrow> u64 \<Rightarrow> u64 \<Rightarrow> bool ub" where
  "user_page_present m cr3 vaddr =
     (if vaddr > USER_ADDR_MAX then Some False
      else do {
        pml4 \<leftarrow> phys_to_virt cr3;
        let e4 = entry m pml4 (pml4_idx vaddr);
        if e4 AND PTE_PRESENT = 0 then Some False else do {
        pdpt \<leftarrow> phys_to_virt (e4 AND PTE_ADDR_MASK);
        let e3 = entry m pdpt (pdpt_idx vaddr);
        if e3 AND PTE_PRESENT = 0 then Some False else do {
        pd \<leftarrow> phys_to_virt (e3 AND PTE_ADDR_MASK);
        let e2 = entry m pd (pd_idx vaddr);
        if e2 AND PTE_PRESENT = 0 then Some False
        else if e2 AND PTE_PS \<noteq> 0 then Some True
        else do {
          pt \<leftarrow> phys_to_virt (e2 AND PTE_ADDR_MASK);
          Some (entry m pt (pt_idx vaddr) AND PTE_PRESENT \<noteq> 0) } } } })"

definition set_entry :: "mem \<Rightarrow> addr \<Rightarrow> u64 \<Rightarrow> u64 \<Rightarrow> mem" where
  "set_entry m t i e = store64 m (t + 8 * i) e"

text \<open>The boot tables: the three table pages are cleared, \<open>PML4[0]\<close> and \<open>PDPT[0]\<close> point down with
  present and writable set, and the 512 page-directory entries are present, writable 2 MiB pages.
  No entry has the user bit.\<close>

definition boot_paging :: "mem \<Rightarrow> addr \<Rightarrow> addr \<Rightarrow> addr \<Rightarrow> mem" where
  "boot_paging m pml4 pdpt pd =
     fold (\<lambda>i m. set_entry m pd (of_nat i) (0x83 + 0x200000 * of_nat i)) [0..<512]
       (set_entry (set_entry (memset m pml4 0 (4096 * 3)) pml4 0 (pdpt + 0x003)) pdpt 0 (pd + 0x003))"

subsection \<open>Reading and writing entries\<close>

lemma load64_store64_same [simp]: "load64 (store64 m a v) a = v"
proof -
  have "map (\<lambda>j. store64 m a v (a + of_nat j)) [0..<8] = le_bytes 8 v"
    by (rule nth_equalityI) (auto simp: store64_def store_bytes_apply unat_of_nat_u64)
  then show ?thesis unfolding load64_def by (simp del: upt_Suc)
qed

lemma load64_store64_other:
  assumes "8 \<le> unat (b - a)" and "8 \<le> unat (a - b)"
  shows "load64 (store64 m a v) b = load64 m b"
proof -
  have "\<not> unat (b + of_nat j - a) < 8" if "j < 8" for j
  proof
    assume less: "unat (b + of_nat j - a) < 8"
    define d where "d = b - a"
    have "b + of_nat j - a = d + of_nat j" and "a - b = 0 - d" by (simp_all add: d_def)
    with less assms that unat_bound [of d] show False unfolding d_def [symmetric]
      by (simp only: unat_word_ariths unat_sub_if' unat_of_nat_u64)
        (auto simp: unat_of_nat_u64 mod_if split: if_splits)
  qed
  then have "map (\<lambda>j. store64 m a v (b + of_nat j)) [0..<8] = map (\<lambda>j. m (b + of_nat j)) [0..<8]"
    by (intro map_cong) (auto simp: store64_def store_bytes_apply)
  then show ?thesis unfolding load64_def by (rule arg_cong)
qed

text \<open>A page of the identity map that can hold a table.\<close>

definition table :: "addr \<Rightarrow> bool" where
  "table t \<longleftrightarrow> t AND 0xFFF = 0 \<and> t < KERNEL_PHYS_MAX"

lemma table_unat:
  assumes "table t"
  obtains k where "unat t = 4096 * k" and "k < 2 ^ 18"
proof -
  have "unat t mod 4096 = 0"
    using assms unat_and_mask [of t 12] by (simp add: table_def mask_eq_exp_minus_1)
  then have "unat t = 4096 * (unat t div 4096)"
    using mult_div_mod_eq [of 4096 "unat t"] by linarith
  moreover have "unat t < 2 ^ 30" using assms by (simp add: table_def word_to_nat)
  ultimately show thesis by (intro that [of "unat t div 4096"]) simp_all
qed

lemma unat_entry_addr:
  assumes "table t" and "i < 512"
  shows "unat (t + 8 * i) = unat t + 8 * unat i"
proof -
  have "unat t < 2 ^ 30" "unat i < 512" using assms by (simp_all add: table_def word_to_nat)
  then show ?thesis by (simp add: unat_word_ariths)
qed

lemma entry_set_entry:
  assumes "table t" "table t'" "i < 512" "i' < 512"
  shows "entry (set_entry m t i e) t' i' = (if t = t' \<and> i = i' then e else entry m t' i')"
proof (cases "t = t' \<and> i = i'")
  case False
  obtain k k' where k: "unat t = 4096 * k" "k < 2 ^ 18" "unat t' = 4096 * k'" "k' < 2 ^ 18"
    using table_unat assms(1,2) by metis
  have i: "unat i < 512" "unat i' < 512" using assms(3,4) by (simp_all add: word_to_nat)
  have "unat t \<noteq> unat t' \<or> unat i \<noteq> unat i'" using False by (simp add: word_unat_eq_iff)
  with k i have "512 * k + unat i \<noteq> 512 * k' + unat i'"
    using row_major_inj [of 512 k "unat i" k' "unat i'"] by auto
  moreover have "unat (t + 8 * i) = 8 * (512 * k + unat i)" "unat (t' + 8 * i') = 8 * (512 * k' + unat i')"
    using unat_entry_addr assms k by simp_all
  ultimately have "8 \<le> unat ((t' + 8 * i') - (t + 8 * i))" "8 \<le> unat ((t + 8 * i) - (t' + 8 * i'))"
    using k i by (auto simp: unat_sub_if')
  then have "entry (set_entry m t i e) t' i' = entry m t' i'"
    unfolding set_entry_def by (rule load64_store64_other)
  with False show ?thesis by auto
qed (simp add: set_entry_def)

text \<open>Addresses and flags of an entry do not interfere.\<close>

lemma plus_shift_or:
  assumes "\<And>n. bit (x :: 'a::len word) n \<Longrightarrow> n < k"
  shows "x + push_bit k y = x OR push_bit k y"
  using assms by (intro disjunctive_add) (auto simp: bit_simps not_le)

lemma bit_less_exp: "unat (x :: 'a::len word) < 2 ^ k \<Longrightarrow> bit x n \<Longrightarrow> n < k"
proof (rule ccontr)
  assume small: "unat x < 2 ^ k" and "bit x n" and "\<not> n < k"
  from \<open>bit x n\<close> have "bit (unat x) n" by (simp add: bit_unsigned_iff)
  then have "2 ^ n \<le> unat x" by (metis bit_iff_odd div_less even_zero not_le)
  moreover have "(2 :: nat) ^ k \<le> 2 ^ n" using \<open>\<not> n < k\<close> by simp
  ultimately show False using small by linarith
qed

lemma table_bits: "table t \<Longrightarrow> bit t n \<Longrightarrow> 12 \<le> n \<and> n < 30"
proof -
  assume t: "table t" and b: "bit t n"
  have "\<not> bit (t AND mask 12) n" using t by (simp add: table_def mask_eq_exp_minus_1)
  then have "12 \<le> n" using b bit_imp_le_length [OF b] by (simp add: bit_simps)
  moreover have "unat t < 2 ^ 30" using t by (simp add: table_def word_to_nat)
  then have "n < 30" using b by (rule bit_less_exp)
  ultimately show ?thesis ..
qed

lemma table_flags:
  assumes "table t" and "f < 0x1000"
  shows "t + f = t OR f" and "(t OR f) AND PTE_ADDR_MASK = t"
    and "\<And>b. b < 0x1000 \<Longrightarrow> (t OR f) AND b = f AND b"
proof -
  have small: "bit x n \<Longrightarrow> n < 12" if "x < 0x1000" for x :: u64 and n
    using bit_less_exp [of x 12 n] that by (simp add: word_to_nat)
  note f = small [OF assms(2)]
  show "t + f = t OR f"
    using table_bits [OF assms(1)] f by (intro disjunctive_add) (meson not_less)
  have mask: "PTE_ADDR_MASK = push_bit 12 (mask 40)" by code_simp
  show "(t OR f) AND PTE_ADDR_MASK = t" unfolding mask
    by (rule bit_word_eqI) (auto simp: bit_simps dest: table_bits [OF assms(1)] f)
  fix b :: u64 assume "b < 0x1000"
  then show "(t OR f) AND b = f AND b"
    by (intro bit_word_eqI) (use table_bits [OF assms(1)] small in \<open>fastforce simp: bit_simps\<close>)
qed

subsection \<open>The boot tables\<close>

lemma entry_boot_pd:
  assumes "table pd" "table t" and "i < 512"
  shows "n \<le> 512 \<Longrightarrow>
    entry (fold (\<lambda>i m. set_entry m pd (of_nat i) (0x83 + 0x200000 * of_nat i)) [0..<n] m) t i =
      (if t = pd \<and> unat i < n then 0x83 + 0x200000 * i else entry m t i)"
proof (induction n)
  case (Suc n)
  have n: "(of_nat n :: u64) < 512" using Suc.prems by (simp add: word_to_nat unat_of_nat_u64)
  have "i = of_nat n \<longleftrightarrow> unat i = n"
    using Suc.prems by (auto simp: word_unat_eq_iff unat_of_nat_u64)
  with Suc entry_set_entry [OF assms(1,2) n assms(3)] show ?case by auto
qed simp

lemma idx_less_512:
  "pml4_idx v < 512" "pdpt_idx v < 512" "pd_idx v < 512" "pt_idx v < 512"
proof -
  have "drop_bit n v AND mask 9 < 512" for n
    using mod_less_divisor [of 512 "unat (drop_bit n v)"]
    by (simp add: word_to_nat unat_and_mask del: mod_less_divisor)
  then show "pml4_idx v < 512" "pdpt_idx v < 512" "pd_idx v < 512" "pt_idx v < 512"
    by (simp_all add: pml4_idx_def pdpt_idx_def pd_idx_def pt_idx_def mask_eq_exp_minus_1)
qed

lemma boot_entries:
  assumes "table pml4" "table pdpt" "table pd" "pml4 \<noteq> pdpt" "pml4 \<noteq> pd" "pdpt \<noteq> pd"
  shows "entry (boot_paging m pml4 pdpt pd) pml4 0 = pdpt + 3"
    and "entry (boot_paging m pml4 pdpt pd) pdpt 0 = pd + 3"
    and "i < 512 \<Longrightarrow> entry (boot_paging m pml4 pdpt pd) pd i = 0x83 + 0x200000 * i"
proof -
  show "entry (boot_paging m pml4 pdpt pd) pml4 0 = pdpt + 3"
    unfolding boot_paging_def using assms
    by (subst entry_boot_pd) (simp_all add: entry_set_entry [where i = 0 and i' = 0, simplified])
  show "entry (boot_paging m pml4 pdpt pd) pdpt 0 = pd + 3"
    unfolding boot_paging_def using assms
    by (subst entry_boot_pd) (simp_all add: entry_set_entry [where i = 0 and i' = 0, simplified])
  assume "i < 512"
  then show "entry (boot_paging m pml4 pdpt pd) pd i = 0x83 + 0x200000 * i"
    unfolding boot_paging_def using assms
    by (subst entry_boot_pd) (simp_all add: word_to_nat)
qed

lemma boot_pde_bits:
  "(0x83 + 0x200000 * i :: u64) AND PTE_PRESENT \<noteq> 0" "(0x83 + 0x200000 * i :: u64) AND PTE_PS \<noteq> 0"
proof -
  have "0x83 + 0x200000 * i = (0x83 OR push_bit 21 i :: u64)"
    using plus_shift_or [of "0x83 :: u64" 21 i] bit_less_exp [of "0x83 :: u64" 21]
    by (simp add: push_bit_eq_mult mult.commute)
  moreover have "bit (0x83 :: u64) 0" "bit (0x83 :: u64) 7" by simp_all
  ultimately have "bit (0x83 + 0x200000 * i :: u64) 0" "bit (0x83 + 0x200000 * i :: u64) 7"
    by (simp_all only: bit_or_iff simp_thms)
  then show "(0x83 + 0x200000 * i :: u64) AND PTE_PRESENT \<noteq> 0"
    "(0x83 + 0x200000 * i :: u64) AND PTE_PS \<noteq> 0"
    using and_exp_eq_0 [of "0x83 + 0x200000 * i :: u64" 0] and_exp_eq_0 [of "0x83 + 0x200000 * i :: u64" 7]
    by simp_all
qed

lemma boot_user_page_present:
  assumes tables: "table pml4" "table pdpt" "table pd" "pml4 \<noteq> pdpt" "pml4 \<noteq> pd" "pdpt \<noteq> pd"
    and v: "v < KERNEL_PHYS_MAX"
  shows "user_page_present (boot_paging m pml4 pdpt pd) pml4 v = Some True"
proof -
  have v': "unat v < 2 ^ 30" using v by (simp add: word_to_nat)
  have "unat (drop_bit 39 v AND mask 9) = 0" "unat (drop_bit 30 v AND mask 9) = 0"
    using v' by (simp_all add: unat_and_mask unat_drop_bit)
  then have idx: "pml4_idx v = 0" "pdpt_idx v = 0"
    by (simp_all add: pml4_idx_def pdpt_idx_def mask_eq_exp_minus_1 unsigned_eq_0_iff)
  have flags: "(t + 3) AND PTE_PRESENT \<noteq> 0" "(t + 3) AND PTE_ADDR_MASK = t" if "table t" for t
    using table_flags [OF that, of 3] by simp_all
  have virt: "phys_to_virt t = Some t" if "table t" for t
    using that by (auto simp: phys_to_virt_def table_def)
  note e = boot_entries [OF tables, simplified] idx_less_512(3) [of v]
  have "\<not> USER_ADDR_MAX < v" using v' by (simp add: word_to_nat)
  then show ?thesis
    using flags [OF tables(2)] flags [OF tables(3)] boot_pde_bits
    by (simp add: user_page_present_def idx e virt tables(1-3) Let_def)
qed

end
