(* ===== verification/Uaccess.thy ===== *)
theory Uaccess
  imports Paging
begin

text \<open>
  User memory access: \<^verbatim>\<open>kernel/include/userspace.h\<close> and \<^verbatim>\<open>kernel/include/user_access.h\<close>.  Memory is the
  address space the kernel sees, \<open>cr3\<close> the physical address of the current top-level page table.
  \<open>None\<close> stands for the panic of \<open>phys_to_virt\<close> in the page walk, or for a loop that does not end.
\<close>

subsection \<open>Range and mapping checks\<close>

definition user_addr_range_ok :: "addr \<Rightarrow> u64 \<Rightarrow> bool" where
  "user_addr_range_ok addr sz =
     (let end' = addr + sz in
      if end' < addr then False else if end' > USER_ADDR_MAX then False else True)"

partial_function (option) user_pages_loop :: "mem \<Rightarrow> u64 \<Rightarrow> u64 \<Rightarrow> u64 \<Rightarrow> bool option" where [code]:
  "user_pages_loop m cr3 page end' =
     (if page < end'
      then do { p \<leftarrow> user_page_present m cr3 page;
                if \<not> p then Some False else user_pages_loop m cr3 (page + 0x1000) end' }
      else Some True)"

definition user_pages_mapped :: "mem \<Rightarrow> u64 \<Rightarrow> addr \<Rightarrow> u64 \<Rightarrow> bool option" where
  "user_pages_mapped m cr3 addr sz = user_pages_loop m cr3 (addr AND NOT 0xFFF) (addr + sz)"

definition validate_user_range :: "addr \<Rightarrow> u64 \<Rightarrow> int" where
  "validate_user_range ptr sz =
     (if ptr = NULL \<and> sz > 0 then - 1
      else if ptr \<ge> 0x0000800000000000 then - 1
      else if ptr + sz < ptr then - 1
      else if ptr + sz > 0x0000800000000000 then - 1
      else 0)"

subsection \<open>Copies\<close>

definition copy_from_user :: "mem \<Rightarrow> u64 \<Rightarrow> addr \<Rightarrow> addr \<Rightarrow> u64 \<Rightarrow> (int \<times> mem) option" where
  "copy_from_user m cr3 dst src sz =
     (if dst = NULL \<or> src = NULL then Some (- 1, m)
      else if \<not> user_addr_range_ok src sz then Some (- 1, m)
      else do { mapped \<leftarrow> user_pages_mapped m cr3 src sz;
                Some (if \<not> mapped then (- 1, m) else (0, memcpy m dst src (unat sz))) })"

definition copy_to_user :: "mem \<Rightarrow> u64 \<Rightarrow> addr \<Rightarrow> addr \<Rightarrow> u64 \<Rightarrow> (int \<times> mem) option" where
  "copy_to_user m cr3 dst src sz =
     (if dst = NULL \<or> src = NULL then Some (- 1, m)
      else if \<not> user_addr_range_ok dst sz then Some (- 1, m)
      else do { mapped \<leftarrow> user_pages_mapped m cr3 dst sz;
                Some (if \<not> mapped then (- 1, m) else (0, memcpy m dst src (unat sz))) })"

text \<open>The string copy: the loop returns the memory and the index at which it stopped.\<close>

fun strncpy_user_loop :: "mem \<Rightarrow> addr \<Rightarrow> addr \<Rightarrow> nat \<Rightarrow> nat \<Rightarrow> mem \<times> nat" where
  "strncpy_user_loop m dst src i 0 = (m, i)"
| "strncpy_user_loop m dst src i (Suc n) =
     (let m' = m(dst + of_nat i := m (src + of_nat i))
      in if m' (src + of_nat i) = 0 then (m', i) else strncpy_user_loop m' dst src (Suc i) n)"

definition strncpy_from_user :: "mem \<Rightarrow> u64 \<Rightarrow> addr \<Rightarrow> addr \<Rightarrow> u64 \<Rightarrow> (int \<times> mem) option" where
  "strncpy_from_user m cr3 dst src max' =
     (if dst = NULL \<or> src = NULL \<or> max' = 0 then Some (- 1, m)
      else if \<not> user_addr_range_ok src max' then Some (- 1, m)
      else do { mapped \<leftarrow> user_pages_mapped m cr3 src max';
                if \<not> mapped then Some (- 1, m)
                else let (m', i) = strncpy_user_loop m dst src 0 (unat max' - 1)
                     in Some (sint (of_nat (i + 1) :: 32 word), m'(dst + of_nat i := 0)) })"

definition copy_from_user_safe :: "mem \<Rightarrow> addr \<Rightarrow> addr \<Rightarrow> u64 \<Rightarrow> int \<times> mem" where
  "copy_from_user_safe m dst src len =
     (if \<not> user_addr_range_ok src len then (- 1, m) else (0, memcpy m dst src (unat len)))"

definition copy_to_user_safe :: "mem \<Rightarrow> addr \<Rightarrow> addr \<Rightarrow> u64 \<Rightarrow> int \<times> mem" where
  "copy_to_user_safe m dst src len =
     (if \<not> user_addr_range_ok dst len then (- 1, m) else (0, memcpy m dst src (unat len)))"

definition safe_copy_from_user :: "mem \<Rightarrow> u64 \<Rightarrow> addr \<Rightarrow> addr \<Rightarrow> u64 \<Rightarrow> (int \<times> mem) option" where
  "safe_copy_from_user m cr3 dst src n =
     (if validate_user_range src n \<noteq> 0 then Some (- 1, m)
      else if n = 0 then Some (0, m)
      else copy_from_user m cr3 dst src n)"

definition safe_copy_to_user :: "mem \<Rightarrow> u64 \<Rightarrow> addr \<Rightarrow> addr \<Rightarrow> u64 \<Rightarrow> (int \<times> mem) option" where
  "safe_copy_to_user m cr3 dst src n =
     (if validate_user_range dst n \<noteq> 0 then Some (- 1, m)
      else if n = 0 then Some (0, m)
      else copy_to_user m cr3 dst src n)"

subsection \<open>Accepted ranges\<close>

lemma user_addr_range_ok_iff:
  "user_addr_range_ok a n \<longleftrightarrow> unat a + unat n \<le> 0x7FFFFFFFFFFF"
proof (cases "unat a + unat n < 2 ^ 64")
  case True
  then show ?thesis by (auto simp: user_addr_range_ok_def Let_def word_to_nat unat_plus_le not_less)
next
  case False
  then have "unat (a + n) = unat a + unat n - 2 ^ 64"
    using unat_bound [of a] unat_bound [of n] by (simp add: unat_word_ariths mod_if)
  with False unat_bound [of n] show ?thesis
    by (auto simp: user_addr_range_ok_def Let_def word_to_nat)
qed

lemma validate_user_range_iff:
  "validate_user_range a n = 0 \<longleftrightarrow> (a \<noteq> NULL \<or> n = 0) \<and> unat a < 2 ^ 47 \<and> unat a + unat n \<le> 2 ^ 47"
proof (cases "unat a + unat n < 2 ^ 64")
  case True
  then show ?thesis
    by (auto simp: validate_user_range_def word_to_nat unat_plus_le not_less not_le unsigned_eq_0_iff)
next
  case False
  then have "unat (a + n) = unat a + unat n - 2 ^ 64"
    using unat_bound [of a] unat_bound [of n] by (simp add: unat_word_ariths mod_if)
  with False unat_bound [of n] show ?thesis
    by (auto simp: validate_user_range_def word_to_nat)
qed

lemma unat_page_of: "unat (x AND NOT 0xFFF :: u64) = 4096 * (unat x div 4096)"
  using unat_and_not_mask [of x 12] by (simp add: mask_eq_exp_minus_1)

text \<open>The loop over the pages of a range below the non-canonical hole ends, and its answer is that
  of the walk on every page it visits.\<close>

lemma user_pages_loop_returns:
  assumes "unat end' \<le> 2 ^ 63"
    and "\<And>k. unat page + 4096 * k < unat end' \<Longrightarrow>
      user_page_present m cr3 (page + of_nat (4096 * k)) = Some (present k)"
  shows "user_pages_loop m cr3 page end' = Some (\<forall>k. unat page + 4096 * k < unat end' \<longrightarrow> present k)"
  using assms(2)
proof (induction "unat end' - unat page" arbitrary: page present rule: less_induct)
  case less
  show ?case
  proof (cases "page < end'")
    case False
    then show ?thesis by (subst user_pages_loop.simps) (auto simp: word_to_nat)
  next
    case True
    have next_page: "unat (page + 0x1000) = unat page + 4096"
      using True assms(1) by (subst unat_plus_le) (auto simp: word_to_nat)
    have first: "user_page_present m cr3 page = Some (present 0)"
      using less.prems [of 0] True by (simp add: word_to_nat)
    have "user_pages_loop m cr3 (page + 0x1000) end' =
        Some (\<forall>k. unat (page + 0x1000) + 4096 * k < unat end' \<longrightarrow> present (Suc k))"
      using less.hyps [of "page + 0x1000" "\<lambda>k. present (Suc k)"] less.prems [of "Suc k" for k]
        True next_page by (simp add: word_to_nat add.assoc algebra_simps)
    moreover have "(\<forall>k. unat page + 4096 * k < unat end' \<longrightarrow> present k) \<longleftrightarrow>
        present 0 \<and> (\<forall>k. unat (page + 0x1000) + 4096 * k < unat end' \<longrightarrow> present (Suc k))"
      using True unfolding next_page
      by (metis (no_types) add.assoc add.right_neutral mult_Suc_right mult_zero_right not0_implies_Suc
          word_to_nat(2))
    ultimately show ?thesis using True first by (subst user_pages_loop.simps) simp
  qed
qed

lemma user_pages_loop_True:
  assumes "unat end' \<le> 2 ^ 63" and "user_pages_loop m cr3 page end' = Some True"
    and "unat page + 4096 * k < unat end'"
  shows "user_page_present m cr3 (page + of_nat (4096 * k)) = Some True"
  using assms(2,3)
proof (induction k arbitrary: page)
  case 0
  then show ?case
    by (subst (asm) user_pages_loop.simps) (auto simp: word_to_nat split: Option.bind_splits if_splits)
next
  case (Suc k)
  then have "page < end'" by (simp add: word_to_nat)
  then have "unat (page + 0x1000) = unat page + 4096"
    using assms(1) by (subst unat_plus_le) (auto simp: word_to_nat)
  moreover have "user_pages_loop m cr3 (page + 0x1000) end' = Some True"
    using Suc.prems(1) \<open>page < end'\<close>
    by (subst (asm) user_pages_loop.simps) (auto split: Option.bind_splits if_splits)
  ultimately show ?case using Suc.IH [of "page + 0x1000"] Suc.prems(2) by (simp add: add.assoc)
qed

lemma user_pages_mapped_True:
  assumes "user_pages_mapped m cr3 a n = Some True" and "user_addr_range_ok a n"
    and "unat (x - a) < unat n"
  shows "user_page_present m cr3 (x AND NOT 0xFFF) = Some True"
proof -
  have end': "unat (a + n) = unat a + unat n" "unat a + unat n \<le> 2 ^ 47"
    using assms(2) unat_plus_le [of a n] by (simp_all add: user_addr_range_ok_iff)
  have "x = a + (x - a)" by simp
  then have x: "unat x = unat a + unat (x - a)"
    using unat_plus_le [of a "x - a"] end'(2) assms(3) by simp
  define k where "k = unat x div 4096 - unat a div 4096"
  have "unat a div 4096 \<le> unat x div 4096" using x by (intro div_le_mono) simp
  then have k: "4096 * (unat a div 4096) + 4096 * k = 4096 * (unat x div 4096)"
    unfolding k_def by linarith
  have below: "4096 * (unat x div 4096) \<le> unat x" by simp
  let ?page = "a AND NOT 0xFFF"
  have "unat ?page + 4096 * k < unat (a + n)"
    unfolding unat_page_of end'(1) using k below x assms(3) by linarith
  moreover have "unat (a + n) \<le> 2 ^ 63" using end' by simp
  ultimately have "user_page_present m cr3 (?page + of_nat (4096 * k)) = Some True"
    using assms(1) unfolding user_pages_mapped_def by (intro user_pages_loop_True)
  moreover have "?page + of_nat (4096 * k) = x AND NOT 0xFFF"
  proof (rule iffD2 [OF word_unat_eq_iff])
    have "unat ?page + 4096 * k = unat (x AND NOT 0xFFF)" unfolding unat_page_of by (rule k)
    then show "unat (?page + of_nat (4096 * k)) = unat (x AND NOT 0xFFF)"
      using unat_bound [of "x AND NOT 0xFFF"] by (subst unat_plus_of_nat) simp_all
  qed
  ultimately show ?thesis by simp
qed

lemma boot_pde_supervisor: "(0x83 + 0x200000 * i :: u64) AND PTE_USER = 0"
proof -
  have "0x83 + 0x200000 * i = (0x83 OR push_bit 21 i :: u64)"
    using plus_shift_or [of "0x83 :: u64" 21 i] bit_less_exp [of "0x83 :: u64" 21]
    by (simp add: push_bit_eq_mult mult.commute)
  moreover have "\<not> bit (0x83 OR push_bit 21 i :: u64) 2" by (simp add: bit_or_iff bit_push_bit_iff)
  ultimately show ?thesis using and_exp_eq_0 [of "0x83 + 0x200000 * i :: u64" 2] by simp
qed

lemma boot_copy_to_user:
  assumes "table pml4" "table pdpt" "table pd" "pml4 \<noteq> pdpt" "pml4 \<noteq> pd" "pdpt \<noteq> pd"
    and "dst \<noteq> NULL" "src \<noteq> NULL" "unat dst + unat n \<le> unat KERNEL_PHYS_MAX"
  shows "copy_to_user (boot_paging m pml4 pdpt pd) pml4 dst src n =
    Some (0, memcpy (boot_paging m pml4 pdpt pd) dst src (unat n))"
proof -
  have end': "unat (dst + n) = unat dst + unat n" using assms(9) by (subst unat_plus_le) simp_all
  have "user_page_present (boot_paging m pml4 pdpt pd) pml4 ((dst AND NOT 0xFFF) + of_nat (4096 * k)) =
      Some True" if "unat (dst AND NOT 0xFFF) + 4096 * k < unat (dst + n)" for k
  proof (rule boot_user_page_present [OF assms(1-6)])
    have "unat ((dst AND NOT 0xFFF) + of_nat (4096 * k)) = unat (dst AND NOT 0xFFF) + 4096 * k"
      using that end' assms(9) by (intro unat_plus_of_nat) simp
    then show "(dst AND NOT 0xFFF) + of_nat (4096 * k) < KERNEL_PHYS_MAX"
      using that end' assms(9) by (simp add: word_to_nat)
  qed
  then have "user_pages_mapped (boot_paging m pml4 pdpt pd) pml4 dst n = Some True"
    unfolding user_pages_mapped_def using end' assms(9)
    by (subst user_pages_loop_returns [where present = "\<lambda>_. True"]) simp_all
  then show ?thesis
    using assms(7-9) by (simp add: copy_to_user_def user_addr_range_ok_iff)
qed

subsection \<open>Properties\<close>

text \<open>C5: a copy into user space is checked.  Unless \<open>copy_to_user\<close> refuses, with -1 (the comments promise
  \<open>-EFAULT\<close>), and leaves memory alone,
  the whole destination lies below the end of user space without wrapping, every byte written
  is in a page that the page walk finds present, the destination holds the source bytes, and no
  other byte has changed.\<close>

theorem copy_to_user_checked:
  assumes "copy_to_user m cr3 dst src n = Some (r, m')" and "copy_ok dst src (unat n)"
  shows "r = - 1 \<and> m' = m \<or>
    r = 0 \<and> unat dst + unat n \<le> unat USER_ADDR_MAX \<and>
    (\<forall>x. if unat (x - dst) < unat n
         then m' x = m (src + (x - dst)) \<and> user_page_present m cr3 (x AND NOT 0xFFF) = Some True
         else m' x = m x)"
proof (cases "r = - 1")
  case True
  with assms(1) show ?thesis by (auto simp: copy_to_user_def split: if_splits Option.bind_splits)
next
  case False
  with assms(1) have ok: "user_addr_range_ok dst n" "user_pages_mapped m cr3 dst n = Some True"
    and m': "r = 0" "m' = memcpy m dst src (unat n)"
    by (auto simp: copy_to_user_def split: if_splits Option.bind_splits)
  with user_pages_mapped_True [OF ok(2,1)] memcpy_copied [OF assms(2), of m]
  show ?thesis by (simp add: user_addr_range_ok_iff mem_put_def)
qed

theorem copy_to_user_checked_witness:
  "\<exists>m'. copy_to_user (boot_paging (\<lambda>_. 7) 0x1000 0x2000 0x3000) 0x1000 0x8000 0x9000 4 = Some (0, m') \<and>
     m' 0x8003 = boot_paging (\<lambda>_. 7) 0x1000 0x2000 0x3000 0x9003"
proof -
  let ?m = "boot_paging (\<lambda>_. 7) 0x1000 0x2000 0x3000"
  have run: "copy_to_user ?m 0x1000 0x8000 0x9000 4 = Some (0, memcpy ?m 0x8000 0x9000 4)"
    using boot_copy_to_user [of "0x1000" "0x2000" "0x3000" "0x8000" "0x9000" 4] by (simp add: table_def)
  have "copy_ok 0x8000 0x9000 (unat (4 :: u64))"
    unfolding copy_ok_def by (auto simp: word_unat_eq_iff unat_word_ariths unat_of_nat_u64)
  from copy_to_user_checked [OF run this] run show ?thesis
    by (auto dest: spec [of _ "0x8003"])
qed

text \<open>C31: the check does not keep user pointers out of the kernel.  The page walk never looks at the
  user bit, and the boot tables map the first gigabyte, where the kernel and all physical memory
  live, with supervisor-only pages in the lower half of the address space: under these tables
  every non-null destination below 1 GiB is accepted and written.\<close>

theorem copy_to_user_writes_supervisor_pages:
  assumes "table pml4" "table pdpt" "table pd" "pml4 \<noteq> pdpt" "pml4 \<noteq> pd" "pdpt \<noteq> pd"
    and "dst \<noteq> NULL" "src \<noteq> NULL" "unat dst + unat n \<le> unat KERNEL_PHYS_MAX"
  shows "(\<forall>i < 512. entry (boot_paging m pml4 pdpt pd) pd i AND PTE_USER = 0) \<and>
    copy_to_user (boot_paging m pml4 pdpt pd) pml4 dst src n =
      Some (0, memcpy (boot_paging m pml4 pdpt pd) dst src (unat n))"
  using assms boot_copy_to_user boot_entries(3) boot_pde_supervisor by simp

theorem copy_to_user_writes_supervisor_pages_witness:
  "copy_to_user (boot_paging (\<lambda>_. 7) 0x1000 0x2000 0x3000) 0x1000 0x100000 0x9000 8 =
     Some (0, memcpy (boot_paging (\<lambda>_. 7) 0x1000 0x2000 0x3000) 0x100000 0x9000 8)"
  using copy_to_user_writes_supervisor_pages
    [of "0x1000" "0x2000" "0x3000" "0x100000" "0x9000" 8 "\<lambda>_. 7"] by (simp add: table_def)

end
