(* ===== verification/Tasks.thy ===== *)
theory Tasks
  imports Prelude
begin

text \<open>The task states of \<^verbatim>\<open>kernel/sched.h\<close>, shared by the components that block, wake or inspect
  tasks.\<close>

datatype task_state = TASK_RUNNING | TASK_READY | TASK_BLOCKED | TASK_ZOMBIE | TASK_DEAD

type_synonym tid = nat

text \<open>\<open>MAX_FDS\<close> descriptors per task; an unused table entry has all bits set.\<close>

abbreviation MAX_FDS :: nat where "MAX_FDS \<equiv> 16"
abbreviation FD_UNUSED :: u64 where "FD_UNUSED \<equiv> 0xFFFFFFFFFFFFFFFF"

end
