(* ===== verification/Links.thy ===== *)
theory Links
  imports Prelude
begin

text \<open>
  Singly linked lists as the kernel builds them: a head pointer and one \<open>next\<close> field per node.
  \<open>chain nn p l\<close> states that following \<open>next\<close> from \<open>p\<close> visits exactly the nodes of \<open>l\<close>, in order,
  and then ends.  The pipe's wait lists and the free lists of the page allocator are such chains.
\<close>

fun chain :: "('a \<Rightarrow> 'a option) \<Rightarrow> 'a option \<Rightarrow> 'a list \<Rightarrow> bool" where
  "chain nn p [] \<longleftrightarrow> p = None"
| "chain nn p (t # ts) \<longleftrightarrow> p = Some t \<and> chain nn (nn t) ts"

lemma chain_None [simp]: "chain nn None l \<longleftrightarrow> l = []"
  by (cases l) auto

lemma chain_upd: "t \<notin> set l \<Longrightarrow> chain (nn(t := x)) p l = chain nn p l"
  by (induction l arbitrary: p) auto

lemma chain_cong: "(\<And>t. t \<in> set l \<Longrightarrow> nn t = nn' t) \<Longrightarrow> chain nn p l = chain nn' p l"
  by (induction l arbitrary: p) auto

lemma chain_append:
  "chain nn p (l @ t # l') \<longleftrightarrow> chain (nn(t := None)) p (l @ [t]) \<and> chain nn (nn t) l'" if "t \<notin> set l"
  using that by (induction l arbitrary: p) auto

lemma chain_suffix: "chain nn p (l @ t # l') \<Longrightarrow> chain nn (Some t) (t # l')"
  by (induction l arbitrary: p) auto

lemma chain_functional: "chain nn p l \<Longrightarrow> chain nn p l' \<Longrightarrow> l = l'"
proof (induction l arbitrary: p l')
  case (Cons t l)
  then show ?case by (cases l') auto
qed auto

text \<open>A list that ends visits no node twice.\<close>

lemma chain_distinct: "chain nn p l \<Longrightarrow> distinct l"
proof (rule ccontr)
  assume chain: "chain nn p l" and "\<not> distinct l"
  then obtain xs ys zs t where l: "l = xs @ [t] @ ys @ [t] @ zs" using not_distinct_decomp by blast
  have "chain nn (Some t) (t # ys @ t # zs)" using chain chain_suffix [of nn p xs t "ys @ t # zs"] l by simp
  moreover have "chain nn (Some t) (t # zs)" using chain chain_suffix [of nn p "xs @ t # ys" t zs] l by simp
  ultimately have "t # ys @ t # zs = t # zs" by (rule chain_functional)
  then have "length (t # ys @ t # zs) = length (t # zs)" by (rule arg_cong)
  then show False by simp
qed

text \<open>The nodes that can be reached are those of the list.\<close>

inductive on_chain :: "('a \<Rightarrow> 'a option) \<Rightarrow> 'a option \<Rightarrow> 'a \<Rightarrow> bool" for nn h where
  first: "h = Some t \<Longrightarrow> on_chain nn h t"
| link: "on_chain nn h t \<Longrightarrow> nn t = Some u \<Longrightarrow> on_chain nn h u"

lemma chain_next: "chain nn p l \<Longrightarrow> t \<in> set l \<Longrightarrow> nn t = Some u \<Longrightarrow> u \<in> set l"
proof (induction l arbitrary: p)
  case (Cons a l)
  then show ?case by (cases l) auto
qed simp

lemma on_chain_later: "on_chain nn h t \<Longrightarrow> nn t = p \<Longrightarrow> chain nn p l \<Longrightarrow> u \<in> set l \<Longrightarrow> on_chain nn h u"
proof (induction l arbitrary: t p)
  case (Cons a l)
  then have "on_chain nn h a" by (auto intro: on_chain.link)
  then show ?case using Cons by auto
qed simp

lemma on_chain_iff:
  assumes "chain nn h l"
  shows "on_chain nn h t \<longleftrightarrow> t \<in> set l"
proof
  assume "on_chain nn h t"
  then show "t \<in> set l"
  proof (induction rule: on_chain.induct)
    case (first t)
    then show ?case using assms by (cases l) auto
  next
    case (link t u)
    then show ?case using chain_next [OF assms] by blast
  qed
next
  assume t: "t \<in> set l"
  then obtain a l' where l: "l = a # l'" by (cases l) auto
  then have "on_chain nn h a" "chain nn (nn a) l'" using assms by (auto intro: on_chain.first)
  then show "on_chain nn h t" using t l on_chain_later [of nn h a "nn a" l' t] by auto
qed

text \<open>Unlinking a node that is not the first.\<close>

lemma chain_unlink:
  assumes "chain nn p (l @ q # t # l')"
  shows "chain (nn(q := nn t, t := None)) p (l @ q # l')"
proof -
  have "distinct (l @ q # t # l')" using assms by (rule chain_distinct)
  then show ?thesis using assms
    by (induction l arbitrary: p) (auto simp: chain_upd)
qed

end
