(* ===== verification/Bytes.thy ===== *)
theory Bytes
  imports Prelude
begin

text \<open>
  Byte buffers: writing a byte string into a buffer, and reading the little-endian fields of packed
  C structures at their offsets.
\<close>

definition overwrite :: "'a list \<Rightarrow> nat \<Rightarrow> 'a list \<Rightarrow> 'a list" where
  "overwrite xs i ys = take i xs @ ys @ drop (i + length ys) xs"

lemma nth_overwrite:
  "i + length ys \<le> length xs \<Longrightarrow> j < length xs \<Longrightarrow>
    overwrite xs i ys ! j = (if i \<le> j \<and> j < i + length ys then ys ! (j - i) else xs ! j)"
  by (auto simp: overwrite_def nth_append min_def)

lemma length_overwrite [simp]: "i + length ys \<le> length xs \<Longrightarrow> length (overwrite xs i ys) = length xs"
  by (simp add: overwrite_def)

lemma take_overwrite: "i + length ys \<le> length xs \<Longrightarrow> take (length ys) (drop i (overwrite xs i ys)) = ys"
  by (simp add: overwrite_def)

lemma slice_overwrite:
  assumes "i + length ys \<le> length xs" and "j + n \<le> i \<or> i + length ys \<le> j" and "j + n \<le> length xs"
  shows "take n (drop j (overwrite xs i ys)) = take n (drop j xs)"
  by (rule nth_equalityI) (use assms in \<open>auto simp: nth_overwrite\<close>)

subsection \<open>Fields of packed structures\<close>

definition fld32 :: "nat \<Rightarrow> u8 list \<Rightarrow> u32" where
  "fld32 off buf = le_val (take 4 (drop off buf))"

definition fld64 :: "nat \<Rightarrow> u8 list \<Rightarrow> u64" where
  "fld64 off buf = le_val (take 8 (drop off buf))"

lemma le_val_le_bytes_u32 [simp]: "le_val (le_bytes 4 w) = (w :: u32)"
  by (simp add: le_val_le_bytes take_bit_word_eq_self)

lemma fld32_append: "length xs \<le> off \<Longrightarrow> fld32 off (xs @ ys) = fld32 (off - length xs) ys"
  by (simp add: fld32_def)

lemma fld64_append: "length xs \<le> off \<Longrightarrow> fld64 off (xs @ ys) = fld64 (off - length xs) ys"
  by (simp add: fld64_def)

lemma fld_le_bytes [simp]: "fld32 0 (le_bytes 4 v @ ys) = v" "fld64 0 (le_bytes 8 w @ ys) = w"
  by (simp_all add: fld32_def fld64_def)

end
