(* ===== verification/Pipe.thy ===== *)
theory Pipe
  imports Uaccess Tasks Links Bytes
begin

text \<open>
  Anonymous pipes, \<^verbatim>\<open>kernel/pipe.c\<close>: the ring buffer, the lists of blocked readers and writers, and
  the critical sections of \<open>pipe_read\<close>, \<open>pipe_write\<close> and \<open>pipe_close\<close>.  Every definition below is what
  happens between taking and releasing the ring's spin lock, or between two such sections; the
  step relation \<open>pipe_step\<close> interleaves them for any number of tasks, together with signals, user
  stores and closing.

  The list node of a call is a variable on its stack: it exists from the start of the call to its
  return, at an address that no other live node has.  A pointer to it that stays behind dangles.
  \<open>None\<close> as the result of a section means that it does not end (a cyclic list), touches a freed ring
  or follows a dangling pointer.  A null pointer in a list is \<open>None\<close>.
\<close>

subsection \<open>State\<close>

abbreviation PIPE_BUF_SIZE :: nat where "PIPE_BUF_SIZE \<equiv> 4096"

record pipe_blocked_node =
  bn_task :: tid
  bn_next :: "addr option"

record pipe_ring =
  buf :: "u8 list"
  head :: nat
  tail :: nat
  count :: nat
  read_open :: bool
  write_open :: bool
  closed :: bool
  blocked_readers :: "addr option"
  blocked_writers :: "addr option"

text \<open>What the sections of the pipe code share: the ring (\<open>None\<close> once \<open>pipe_close\<close> has freed it and
  cleared the inodes' \<open>priv\<close>), the live nodes, the task fields they touch, and user memory.\<close>

record pipe_world =
  ring :: "pipe_ring option"
  nodes :: "addr \<rightharpoonup> pipe_blocked_node"
  tstate :: "tid \<Rightarrow> task_state"
  t_errno :: "tid \<Rightarrow> int"
  sig_pending :: "tid \<Rightarrow> bool"
  umem :: mem

text \<open>How a section leaves its function: it returns, goes on to the signal check, calls the
  scheduler and starts over, or (in the write loop) starts over with a new \<open>total\<close>.\<close>

datatype pipe_out = PRet int | PCheck | PSched | PLock nat

subsection \<open>Waking and unlinking\<close>

partial_function (option) pipe_wake ::
  "(addr \<rightharpoonup> pipe_blocked_node) \<Rightarrow> addr option \<Rightarrow> (tid \<Rightarrow> task_state) \<Rightarrow> (tid \<Rightarrow> task_state) option" where [code]:
  "pipe_wake ns p ts =
     (case p of
        None \<Rightarrow> Some ts
      | Some a \<Rightarrow>
          do { b \<leftarrow> ns a;
               pipe_wake ns (bn_next b) (if ts (bn_task b) = TASK_BLOCKED then ts(bn_task b := TASK_READY) else ts) })"

text \<open>Storing into the \<open>next\<close> field of the node at \<open>a\<close>.\<close>

definition set_next :: "(addr \<rightharpoonup> pipe_blocked_node) \<Rightarrow> addr \<Rightarrow> addr option \<Rightarrow> (addr \<rightharpoonup> pipe_blocked_node) ub" where
  "set_next ns a x = do { b \<leftarrow> ns a; Some (ns(a \<mapsto> b\<lparr>bn_next := x\<rparr>)) }"

partial_function (option) pipe_unlink_from ::
  "(addr \<rightharpoonup> pipe_blocked_node) \<Rightarrow> addr \<Rightarrow> addr \<Rightarrow> (addr \<rightharpoonup> pipe_blocked_node) option" where [code]:
  "pipe_unlink_from ns p nd =
     do { b \<leftarrow> ns p;
          case bn_next b of
            None \<Rightarrow> Some ns
          | Some q \<Rightarrow> if q = nd then do { c \<leftarrow> ns nd; set_next ns p (bn_next c) } else pipe_unlink_from ns q nd }"

definition pipe_unlink ::
  "(addr \<rightharpoonup> pipe_blocked_node) \<Rightarrow> addr option \<Rightarrow> addr \<Rightarrow> (addr option \<times> (addr \<rightharpoonup> pipe_blocked_node)) ub" where
  "pipe_unlink ns p nd =
     (case p of
        None \<Rightarrow> Some (p, ns)
      | Some q \<Rightarrow>
          if q = nd then do { c \<leftarrow> ns nd; Some (bn_next c, ns) }
          else do { ns' \<leftarrow> pipe_unlink_from ns q nd; Some (p, ns') })"

subsection \<open>The ring\<close>

text \<open>Taking bytes out: the chunk up to the end of the buffer, the chunk from its start, the ring.\<close>

definition pipe_take :: "pipe_ring \<Rightarrow> nat \<Rightarrow> u8 list \<times> u8 list \<times> pipe_ring" where
  "pipe_take r n =
     (let toread = (if n > count r then count r else n);
          first_chunk = (if PIPE_BUF_SIZE - head r > toread then toread else PIPE_BUF_SIZE - head r)
      in (take first_chunk (drop (head r) (buf r)),
          (if toread > first_chunk then take (toread - first_chunk) (buf r) else []),
          r\<lparr>head := (head r + toread) mod PIPE_BUF_SIZE, count := count r - toread\<rparr>))"

text \<open>Putting in as many of the bytes \<open>bs\<close> as there is space for.\<close>

definition pipe_put :: "pipe_ring \<Rightarrow> u8 list \<Rightarrow> pipe_ring" where
  "pipe_put r bs =
     (let space = PIPE_BUF_SIZE - count r;
          towrite = (if length bs > space then space else length bs);
          first_chunk = (if PIPE_BUF_SIZE - tail r > towrite then towrite else PIPE_BUF_SIZE - tail r);
          buf1 = overwrite (buf r) (tail r) (take first_chunk bs);
          buf2 = (if towrite > first_chunk
                  then overwrite buf1 0 (take (towrite - first_chunk) (drop first_chunk bs)) else buf1)
      in r\<lparr>buf := buf2, tail := (tail r + towrite) mod PIPE_BUF_SIZE, count := count r + towrite\<rparr>)"

definition user_bytes :: "mem \<Rightarrow> addr \<Rightarrow> nat \<Rightarrow> u8 list" where
  "user_bytes m a n = map (\<lambda>i. m (a + of_nat i)) [0..<n]"

subsection \<open>pipe_read\<close>

text \<open>The checks before the loop, where \<open>Some\<close> is an immediate return, and the call's node at \<open>nd\<close>.\<close>

definition pipe_read_start :: "pipe_world \<Rightarrow> tid \<Rightarrow> addr \<Rightarrow> addr \<Rightarrow> u64 \<Rightarrow> pipe_world \<times> int option" where
  "pipe_read_start w t nd ubuf n =
     (case ring w of
        None \<Rightarrow> (w, Some (- 1))
      | Some r \<Rightarrow>
          if closed r then (w\<lparr>t_errno := (t_errno w)(t := EPIPE)\<rparr>, Some (- 1))
          else if \<not> user_addr_range_ok ubuf n
          then (w\<lparr>t_errno := (t_errno w)(t := EFAULT)\<rparr>, Some (- 1))
          else (w\<lparr>nodes := (nodes w)(nd \<mapsto> \<lparr>bn_task = t, bn_next = None\<rparr>)\<rparr>, None))"

text \<open>A section that returns leaves the stack frame with the node.\<close>

definition pipe_read_locked :: "pipe_world \<Rightarrow> tid \<Rightarrow> addr \<Rightarrow> addr \<Rightarrow> u64 \<Rightarrow> (pipe_world \<times> pipe_out) ub" where
  "pipe_read_locked w t nd ubuf n =
     do { r \<leftarrow> ring w;
          if count r > 0 then
            do { let (chunk1, chunk2, r') = pipe_take r (unat n);
                 let m1 = store_bytes (umem w) ubuf chunk1;
                 let m2 = store_bytes m1 (ubuf + of_nat (length chunk1)) chunk2;
                 ts \<leftarrow> pipe_wake (nodes w) (blocked_writers r) (tstate w);
                 Some (w\<lparr>ring := Some (r'\<lparr>blocked_writers := None\<rparr>), umem := m2, tstate := ts, nodes := (nodes w)(nd := None)\<rparr>,
                       PRet (int (length chunk1 + length chunk2))) }
          else if \<not> write_open r then Some (w\<lparr>nodes := (nodes w)(nd := None)\<rparr>, PRet 0)
          else
            do { ns \<leftarrow> set_next (nodes w) nd (blocked_readers r);
                 Some (w\<lparr>tstate := (tstate w)(t := TASK_BLOCKED), nodes := ns,
                         ring := Some (r\<lparr>blocked_readers := Some nd\<rparr>)\<rparr>, PCheck) } }"

definition pipe_read_check :: "pipe_world \<Rightarrow> tid \<Rightarrow> addr \<Rightarrow> (pipe_world \<times> pipe_out) ub" where
  "pipe_read_check w t nd =
     (if sig_pending w t then
        do { r \<leftarrow> ring w;
             (p, ns) \<leftarrow> pipe_unlink (nodes w) (blocked_readers r) nd;
             Some (w\<lparr>ring := Some (r\<lparr>blocked_readers := p\<rparr>), nodes := ns(nd := None),
                     tstate := (tstate w)(t := TASK_READY), t_errno := (t_errno w)(t := EINTR)\<rparr>,
                   PRet (- 1)) }
      else Some (w, PSched))"

subsection \<open>pipe_write\<close>

definition pipe_write_start :: "pipe_world \<Rightarrow> tid \<Rightarrow> addr \<Rightarrow> addr \<Rightarrow> u64 \<Rightarrow> pipe_world \<times> int option" where
  "pipe_write_start w t nd ubuf n =
     (case ring w of
        None \<Rightarrow> (w, Some (- 1))
      | Some r \<Rightarrow>
          if closed r then (w\<lparr>t_errno := (t_errno w)(t := EPIPE)\<rparr>, Some (- 1))
          else if \<not> user_addr_range_ok ubuf n
          then (w\<lparr>t_errno := (t_errno w)(t := EFAULT)\<rparr>, Some (- 1))
          else if \<not> read_open r then (w, Some (- 1))
          else if n = 0 then (w, Some 0)
          else (w\<lparr>nodes := (nodes w)(nd \<mapsto> \<lparr>bn_task = t, bn_next = None\<rparr>)\<rparr>, None))"

text \<open>One round of the loop, entered with \<open>written < n\<close> (the \<open>total\<close> of the source) bytes already written.\<close>

definition pipe_write_locked ::
  "pipe_world \<Rightarrow> tid \<Rightarrow> addr \<Rightarrow> addr \<Rightarrow> u64 \<Rightarrow> nat \<Rightarrow> (pipe_world \<times> pipe_out) ub" where
  "pipe_write_locked w t nd ubuf n written =
     do { r \<leftarrow> ring w;
          if count r < PIPE_BUF_SIZE then
            do { let bs = user_bytes (umem w) (ubuf + of_nat written) (unat n - written);
                 let r' = pipe_put r bs;
                 let written' = written + (count r' - count r);
                 ts \<leftarrow> pipe_wake (nodes w) (blocked_readers r) (tstate w);
                 let w' = w\<lparr>ring := Some (r'\<lparr>blocked_readers := None\<rparr>), tstate := ts\<rparr>;
                 Some (if written' < unat n then (w', PLock written')
                       else (w'\<lparr>nodes := (nodes w)(nd := None)\<rparr>, PRet (int written'))) }
          else if \<not> read_open r
          then Some (w\<lparr>t_errno := (t_errno w)(t := EPIPE), nodes := (nodes w)(nd := None)\<rparr>, PRet (- 1))
          else
            do { ns \<leftarrow> set_next (nodes w) nd (blocked_writers r);
                 Some (w\<lparr>tstate := (tstate w)(t := TASK_BLOCKED), nodes := ns,
                         ring := Some (r\<lparr>blocked_writers := Some nd\<rparr>)\<rparr>, PCheck) } }"

definition pipe_write_check :: "pipe_world \<Rightarrow> tid \<Rightarrow> addr \<Rightarrow> (pipe_world \<times> pipe_out) ub" where
  "pipe_write_check w t nd =
     (if sig_pending w t then
        do { r \<leftarrow> ring w;
             (p, ns) \<leftarrow> pipe_unlink (nodes w) (blocked_writers r) nd;
             Some (w\<lparr>ring := Some (r\<lparr>blocked_writers := p\<rparr>), nodes := ns(nd := None),
                     tstate := (tstate w)(t := TASK_READY), t_errno := (t_errno w)(t := EINTR)\<rparr>,
                   PRet (- 1)) }
      else Some (w, PSched))"

subsection \<open>pipe_close\<close>

text \<open>\<open>is_read\<close> tells the read-end inode (\<open>inode->ops == &pipe_read_ops\<close>) from the write end.\<close>

definition pipe_close :: "pipe_world \<Rightarrow> bool \<Rightarrow> (pipe_world \<times> int) ub" where
  "pipe_close w is_read =
     (case ring w of
        None \<Rightarrow> Some (w, 0)
      | Some r \<Rightarrow>
          do { let r1 = (if is_read then r\<lparr>read_open := False\<rparr> else r\<lparr>write_open := False\<rparr>);
               ts1 \<leftarrow> pipe_wake (nodes w) (blocked_readers r1) (tstate w);
               ts2 \<leftarrow> pipe_wake (nodes w) (blocked_writers r1) ts1;
               let r2 = r1\<lparr>closed := True, blocked_readers := None, blocked_writers := None\<rparr>;
               Some (w\<lparr>tstate := ts2,
                       ring := (if \<not> read_open r2 \<and> \<not> write_open r2 then None else Some r2)\<rparr>, 0) })"

text \<open>The ring as \<open>sys_pipe\<close> makes it.\<close>

definition pipe_new :: pipe_ring where
  "pipe_new = \<lparr>buf = replicate PIPE_BUF_SIZE 0, head = 0, tail = 0, count = 0, read_open = True,
     write_open = True, closed = False, blocked_readers = None, blocked_writers = None\<rparr>"

subsection \<open>Interleavings\<close>

text \<open>Where a task is in its call: at a lock section, at a signal check, or in the scheduler, with
  the address of its node, the arguments of the call and, when writing, the bytes already written.\<close>

datatype pipe_pc =
    Idle
  | RLock addr addr u64 | RCheck addr addr u64 | RSched addr addr u64
  | WLock addr addr u64 nat | WCheck addr addr u64 nat | WSched addr addr u64 nat

fun read_pc :: "addr \<Rightarrow> addr \<Rightarrow> u64 \<Rightarrow> pipe_out \<Rightarrow> pipe_pc" where
  "read_pc nd a n (PRet k) = Idle"
| "read_pc nd a n PCheck = RCheck nd a n"
| "read_pc nd a n PSched = RSched nd a n"
| "read_pc nd a n (PLock k) = RLock nd a n"

fun write_pc :: "addr \<Rightarrow> addr \<Rightarrow> u64 \<Rightarrow> nat \<Rightarrow> pipe_out \<Rightarrow> pipe_pc" where
  "write_pc nd a n k (PRet l) = Idle"
| "write_pc nd a n k PCheck = WCheck nd a n k"
| "write_pc nd a n k PSched = WSched nd a n k"
| "write_pc nd a n k (PLock l) = WLock nd a n l"

text \<open>The bytes a lock section has delivered to the reader's buffer, or accepted from the writer's
  buffer, read off user memory.\<close>

fun delivered :: "mem \<Rightarrow> addr \<Rightarrow> pipe_out \<Rightarrow> u8 list" where
  "delivered m a (PRet k) = user_bytes m a (nat k)"
| "delivered m a _ = []"

fun accepted :: "mem \<Rightarrow> addr \<Rightarrow> nat \<Rightarrow> pipe_out \<Rightarrow> u8 list" where
  "accepted m a k (PRet l) = user_bytes m (a + of_nat k) (nat l - k)"
| "accepted m a k (PLock l) = user_bytes m (a + of_nat k) (l - k)"
| "accepted m a k _ = []"

text \<open>A system state: the shared world, every task's position, and the streams of all bytes accepted
  from writers and delivered to readers so far.\<close>

type_synonym pipe_sys = "pipe_world \<times> (tid \<Rightarrow> pipe_pc) \<times> u8 list \<times> u8 list"

inductive pipe_step :: "pipe_sys \<Rightarrow> pipe_sys \<Rightarrow> bool" where
  read_call:
    "pcs t = Idle \<Longrightarrow> nodes w nd = None \<Longrightarrow> pipe_read_start w t nd a n = (w', res) \<Longrightarrow>
     pipe_step (w, pcs, s, r) (w', pcs(t := (if res = None then RLock nd a n else Idle)), s, r)"
| read_lock:
    "pcs t = RLock nd a n \<Longrightarrow> pipe_read_locked w t nd a n = Some (w', out) \<Longrightarrow>
     pipe_step (w, pcs, s, r) (w', pcs(t := read_pc nd a n out), s, r @ delivered (umem w') a out)"
| read_check:
    "pcs t = RCheck nd a n \<Longrightarrow> pipe_read_check w t nd = Some (w', out) \<Longrightarrow>
     pipe_step (w, pcs, s, r) (w', pcs(t := read_pc nd a n out), s, r)"
| read_run:
    "pcs t = RSched nd a n \<Longrightarrow> tstate w t = TASK_READY \<Longrightarrow>
     pipe_step (w, pcs, s, r)
       (w\<lparr>tstate := (tstate w)(t := TASK_RUNNING)\<rparr>, pcs(t := RLock nd a n), s, r)"
| write_call:
    "pcs t = Idle \<Longrightarrow> nodes w nd = None \<Longrightarrow> pipe_write_start w t nd a n = (w', res) \<Longrightarrow>
     pipe_step (w, pcs, s, r) (w', pcs(t := (if res = None then WLock nd a n 0 else Idle)), s, r)"
| write_lock:
    "pcs t = WLock nd a n k \<Longrightarrow> pipe_write_locked w t nd a n k = Some (w', out) \<Longrightarrow>
     pipe_step (w, pcs, s, r) (w', pcs(t := write_pc nd a n k out), s @ accepted (umem w) a k out, r)"
| write_check:
    "pcs t = WCheck nd a n k \<Longrightarrow> pipe_write_check w t nd = Some (w', out) \<Longrightarrow>
     pipe_step (w, pcs, s, r) (w', pcs(t := write_pc nd a n k out), s, r)"
| write_run:
    "pcs t = WSched nd a n k \<Longrightarrow> tstate w t = TASK_READY \<Longrightarrow>
     pipe_step (w, pcs, s, r)
       (w\<lparr>tstate := (tstate w)(t := TASK_RUNNING)\<rparr>, pcs(t := WLock nd a n k), s, r)"
| close_end:
    "pipe_close w is_read = Some (w', res) \<Longrightarrow> pipe_step (w, pcs, s, r) (w', pcs, s, r)"
| signal:
    "pipe_step (w, pcs, s, r)
       (w\<lparr>sig_pending := (sig_pending w)(t := True),
          tstate := (if tstate w t = TASK_BLOCKED then (tstate w)(t := TASK_READY) else tstate w)\<rparr>,
        pcs, s, r)"
| signal_done:
    "pipe_step (w, pcs, s, r) (w\<lparr>sig_pending := (sig_pending w)(t := False)\<rparr>, pcs, s, r)"
| user_store: "pipe_step (w, pcs, s, r) (w\<lparr>umem := m\<rparr>, pcs, s, r)"

definition pipe_init :: "mem \<Rightarrow> pipe_sys" where
  "pipe_init m =
     (\<lparr>ring = Some pipe_new, nodes = \<lambda>_. None, tstate = \<lambda>_. TASK_RUNNING, t_errno = \<lambda>_. 0,
       sig_pending = \<lambda>_. False, umem = m\<rparr>, \<lambda>_. Idle, [], [])"

subsection \<open>The ring is a queue of bytes\<close>

text \<open>What the pipe needs of its buffer: bytes come out in the order they went in, a put accepts
  what fits, and nothing is lost or made up.\<close>

locale byte_queue =
  fixes ok :: "'q \<Rightarrow> bool" and contents :: "'q \<Rightarrow> u8 list"
    and put :: "'q \<Rightarrow> u8 list \<Rightarrow> 'q" and get :: "'q \<Rightarrow> nat \<Rightarrow> u8 list \<times> 'q" and cap :: nat
  assumes bounded: "ok q \<Longrightarrow> length (contents q) \<le> cap"
    and put_ok: "ok q \<Longrightarrow> ok (put q bs)"
    and put_contents: "ok q \<Longrightarrow> contents (put q bs) = contents q @ take (cap - length (contents q)) bs"
    and get_ok: "ok q \<Longrightarrow> ok (snd (get q n))"
    and get_data: "ok q \<Longrightarrow> fst (get q n) = take n (contents q)"
    and get_contents: "ok q \<Longrightarrow> contents (snd (get q n)) = drop n (contents q)"
begin

lemma put_conserves:
  assumes "ok q" and "sent = received @ contents q"
  shows "sent @ take (cap - length (contents q)) bs = received @ contents (put q bs)"
  using assms by (simp add: put_contents)

lemma get_conserves:
  assumes "ok q" and "sent = received @ contents q"
  shows "sent = (received @ fst (get q n)) @ contents (snd (get q n))"
  using assms by (simp add: get_data get_contents)

lemma put_accepts: "ok q \<Longrightarrow> length (contents (put q bs)) - length (contents q) =
    min (length bs) (cap - length (contents q))"
  by (simp add: put_contents)

lemma put_then_get:
  assumes "ok q" and "contents q = []" and "length bs \<le> cap"
  shows "fst (get (put q bs) (length bs)) = bs" and "contents (snd (get (put q bs) (length bs))) = []"
  using assms put_ok [OF assms(1), of bs] by (simp_all add: get_data get_contents put_contents)

end

definition ring_ok :: "pipe_ring \<Rightarrow> bool" where
  "ring_ok r \<longleftrightarrow> length (buf r) = PIPE_BUF_SIZE \<and> head r < PIPE_BUF_SIZE \<and> count r \<le> PIPE_BUF_SIZE \<and>
     tail r = (head r + count r) mod PIPE_BUF_SIZE"

definition ring_contents :: "pipe_ring \<Rightarrow> u8 list" where
  "ring_contents r = map (\<lambda>i. buf r ! ((head r + i) mod PIPE_BUF_SIZE)) [0..<count r]"

definition ring_get :: "pipe_ring \<Rightarrow> nat \<Rightarrow> u8 list \<times> pipe_ring" where
  "ring_get r n = (let (c1, c2, r') = pipe_take r n in (c1 @ c2, r'))"

lemma wrap_mod: "a < n \<Longrightarrow> b \<le> n \<Longrightarrow> (a + b) mod n = (if a + b < n then a + b else a + b - n)" for n :: nat
  by (simp add: mod_if)

lemma length_ring_contents [simp]: "length (ring_contents r) = count r"
  by (simp add: ring_contents_def)

lemma ring_get_data:
  assumes "ring_ok r"
  shows "fst (ring_get r n) = take n (ring_contents r)"
proof -
  let ?k = "min n (count r)" and ?f = "min (PIPE_BUF_SIZE - head r) (min n (count r))"
  have eq: "fst (ring_get r n) = take ?f (drop (head r) (buf r)) @ take (?k - ?f) (buf r)"
    by (simp add: ring_get_def pipe_take_def Let_def min_def)
  have r: "length (buf r) = PIPE_BUF_SIZE" "head r < PIPE_BUF_SIZE" "count r \<le> PIPE_BUF_SIZE"
    using assms by (simp_all add: ring_ok_def)
  then have k: "?k \<le> PIPE_BUF_SIZE" by auto
  show ?thesis
  proof (rule nth_equalityI)
    show "length (fst (ring_get r n)) = length (take n (ring_contents r))"
      using r by (auto simp: eq min_def)
    fix i assume "i < length (fst (ring_get r n))"
    then have i: "i < ?k" using r by (auto simp: eq)
    then show "fst (ring_get r n) ! i = take n (ring_contents r) ! i"
      using r k wrap_mod [of "head r" PIPE_BUF_SIZE i]
      by (auto simp: eq ring_contents_def nth_append min_def add.commute)
  qed
qed

lemma ring_get_contents:
  assumes "ring_ok r"
  shows "ring_ok (snd (ring_get r n))" and "ring_contents (snd (ring_get r n)) = drop n (ring_contents r)"
proof -
  let ?k = "min n (count r)"
  have snd: "snd (ring_get r n) = r\<lparr>head := (head r + ?k) mod PIPE_BUF_SIZE, count := count r - ?k\<rparr>"
    by (simp add: ring_get_def pipe_take_def Let_def min_def)
  have "((head r + ?k) mod PIPE_BUF_SIZE + (count r - ?k)) mod PIPE_BUF_SIZE =
      (head r + count r) mod PIPE_BUF_SIZE"
    by (subst mod_add_left_eq) simp
  then show "ring_ok (snd (ring_get r n))"
    unfolding snd using assms by (auto simp: ring_ok_def)
  show "ring_contents (snd (ring_get r n)) = drop n (ring_contents r)"
    unfolding snd
    by (rule nth_equalityI) (auto simp: ring_contents_def mod_add_left_eq add.assoc min_def)
qed

lemma pipe_put_fields:
  fixes bs :: "u8 list"
  assumes "ring_ok r"
  defines "k \<equiv> min (length bs) (PIPE_BUF_SIZE - count r)"
  shows "head (pipe_put r bs) = head r" "count (pipe_put r bs) = count r + k"
    "tail (pipe_put r bs) = (tail r + k) mod PIPE_BUF_SIZE" "length (buf (pipe_put r bs)) = PIPE_BUF_SIZE"
    and "j < PIPE_BUF_SIZE \<Longrightarrow> buf (pipe_put r bs) ! j =
      (if tail r \<le> j \<and> j < tail r + k then bs ! (j - tail r)
       else if j + PIPE_BUF_SIZE < tail r + k then bs ! (j + PIPE_BUF_SIZE - tail r) else buf r ! j)"
proof -
  define f where "f = (if k < PIPE_BUF_SIZE - tail r then k else PIPE_BUF_SIZE - tail r)"
  have tail: "tail r < PIPE_BUF_SIZE" and len: "length (buf r) = PIPE_BUF_SIZE"
    using assms by (simp_all add: ring_ok_def)
  have kb: "k \<le> length bs" "k \<le> PIPE_BUF_SIZE" by (auto simp: k_def)
  have f: "f \<le> k" "tail r + f \<le> PIPE_BUF_SIZE" "f < k \<Longrightarrow> tail r + f = PIPE_BUF_SIZE"
    using tail by (auto simp: f_def)
  let ?b1 = "overwrite (buf r) (tail r) (take f bs)"
  let ?b2 = "if f < k then overwrite ?b1 0 (take (k - f) (drop f bs)) else ?b1"
  have put: "pipe_put r bs = r\<lparr>buf := ?b2, tail := (tail r + k) mod PIPE_BUF_SIZE, count := count r + k\<rparr>"
  proof -
    have "(if PIPE_BUF_SIZE - count r < length bs then PIPE_BUF_SIZE - count r else length bs) = k"
      by (auto simp: k_def)
    then show ?thesis unfolding pipe_put_def Let_def by (simp only: f_def)
  qed
  then show "head (pipe_put r bs) = head r" "count (pipe_put r bs) = count r + k"
    "tail (pipe_put r bs) = (tail r + k) mod PIPE_BUF_SIZE" by simp_all
  have c: "length (take f bs) = f" "length (take (k - f) (drop f bs)) = k - f" using f(1) kb(1) by simp_all
  have len1: "length ?b1 = PIPE_BUF_SIZE" using len c(1) f(2) by simp
  show "length (buf (pipe_put r bs)) = PIPE_BUF_SIZE"
    unfolding put using c(2) len1 kb(2) by simp
  assume j: "j < PIPE_BUF_SIZE"
  have b1: "?b1 ! j = (if tail r \<le> j \<and> j < tail r + f then bs ! (j - tail r) else buf r ! j)"
    using len c(1) f(2) j by (auto simp: nth_overwrite)
  show "buf (pipe_put r bs) ! j =
      (if tail r \<le> j \<and> j < tail r + k then bs ! (j - tail r)
       else if j + PIPE_BUF_SIZE < tail r + k then bs ! (j + PIPE_BUF_SIZE - tail r) else buf r ! j)"
  proof (cases "f < k")
    case True
    then have "?b2 ! j = (if j < k - f then bs ! (f + j) else ?b1 ! j)"
      using c(2) len1 kb j f(1) by (simp add: nth_overwrite)
    moreover have "tail r = PIPE_BUF_SIZE - f" using f(3) [OF True] by simp
    ultimately show ?thesis
      unfolding put using True b1 j f kb by (auto simp: algebra_simps)
  next
    case False
    then show ?thesis unfolding put using b1 f kb(2) tail j by simp
  qed
qed

lemma pipe_put_contents:
  assumes "ring_ok r"
  shows "ring_ok (pipe_put r bs)"
    and "ring_contents (pipe_put r bs) = ring_contents r @ take (PIPE_BUF_SIZE - length (ring_contents r)) bs"
proof -
  define k where "k = min (length bs) (PIPE_BUF_SIZE - count r)"
  note put = pipe_put_fields [OF assms, where bs = bs, folded k_def]
  have r: "head r < PIPE_BUF_SIZE" "count r \<le> PIPE_BUF_SIZE" "tail r = (head r + count r) mod PIPE_BUF_SIZE"
    using assms by (simp_all add: ring_ok_def)
  then have k: "count r + k \<le> PIPE_BUF_SIZE" by (auto simp: k_def)
  show "ring_ok (pipe_put r bs)" using r k put(1-4)
    by (simp add: ring_ok_def mod_add_left_eq add.assoc)
  show "ring_contents (pipe_put r bs) = ring_contents r @ take (PIPE_BUF_SIZE - length (ring_contents r)) bs"
  proof (rule nth_equalityI)
    show "length (ring_contents (pipe_put r bs)) =
        length (ring_contents r @ take (PIPE_BUF_SIZE - length (ring_contents r)) bs)"
      using put(2) by (simp add: k_def)
    fix i assume "i < length (ring_contents (pipe_put r bs))"
    then have i: "i < count r + k" using put(2) by simp
    let ?j = "if head r + i < PIPE_BUF_SIZE then head r + i else head r + i - PIPE_BUF_SIZE"
    have j: "(head r + i) mod PIPE_BUF_SIZE = ?j" "?j < PIPE_BUF_SIZE"
      using r(1) i k wrap_mod [of "head r" PIPE_BUF_SIZE i] by auto
    have tail: "tail r = (if head r + count r < PIPE_BUF_SIZE then head r + count r else head r + count r - PIPE_BUF_SIZE)"
      using r wrap_mod [of "head r" PIPE_BUF_SIZE "count r"] by simp
    have at: "ring_contents (pipe_put r bs) ! i = buf (pipe_put r bs) ! ?j"
      using i put(1,2) j(1) by (simp add: ring_contents_def)
    show "ring_contents (pipe_put r bs) ! i =
        (ring_contents r @ take (PIPE_BUF_SIZE - length (ring_contents r)) bs) ! i"
    proof (cases "i < count r")
      case True
      then have "buf (pipe_put r bs) ! ?j = buf r ! ?j"
        unfolding put(5) [OF j(2)] tail using i k r(1,2) by (auto split: if_splits)
      with at True j(1) show ?thesis by (simp add: ring_contents_def nth_append)
    next
      case False
      then have "buf (pipe_put r bs) ! ?j = bs ! (i - count r)"
        unfolding put(5) [OF j(2)] tail using i k r(1,2)
        by (auto simp: algebra_simps intro: arg_cong [of _ _ "\<lambda>j. bs ! j"] split: if_splits)
      with at False i k show ?thesis by (simp add: nth_append k_def)
    qed
  qed
qed

interpretation rq: byte_queue ring_ok ring_contents pipe_put ring_get PIPE_BUF_SIZE
  by unfold_locales (use pipe_put_contents ring_get_data ring_get_contents in \<open>auto simp: ring_ok_def\<close>)

subsection \<open>The sections move bytes faithfully\<close>

lemma store_bytes_append:
  "store_bytes (store_bytes m a xs) (a + of_nat (length xs)) ys = store_bytes m a (xs @ ys)"
  by (induction xs arbitrary: m a) (simp_all add: add.assoc [symmetric])

lemma user_bytes_store: "length xs < 2 ^ 64 \<Longrightarrow> user_bytes (store_bytes m a xs) a (length xs) = xs"
  unfolding user_bytes_def
  by (rule nth_equalityI) (simp_all add: store_bytes_apply unat_of_nat_u64)

lemma take_user_bytes: "take k (user_bytes m a n) = user_bytes m a (min k n)"
  by (simp add: user_bytes_def take_map min_def)

lemma length_user_bytes [simp]: "length (user_bytes m a n) = n"
  by (simp add: user_bytes_def)

text \<open>The invariant: the ring is well formed and holds exactly the accepted bytes that have not
  been delivered yet.\<close>

fun pipe_inv :: "pipe_sys \<Rightarrow> bool" where
  "pipe_inv (w, pcs, s, r) \<longleftrightarrow>
     (\<forall>q. ring w = Some q \<longrightarrow> ring_ok q \<and> s = r @ ring_contents q)"

lemma ring_contents_blocked [simp]:
  "ring_contents (q\<lparr>blocked_readers := x\<rparr>) = ring_contents q"
  "ring_contents (q\<lparr>blocked_writers := x\<rparr>) = ring_contents q"
  "ring_ok (q\<lparr>blocked_readers := x\<rparr>) = ring_ok q"
  "ring_ok (q\<lparr>blocked_writers := x\<rparr>) = ring_ok q"
  "ring_contents (q\<lparr>read_open := b\<rparr>) = ring_contents q"
  "ring_contents (q\<lparr>write_open := b\<rparr>) = ring_contents q"
  "ring_contents (q\<lparr>closed := b\<rparr>) = ring_contents q"
  "ring_ok (q\<lparr>read_open := b\<rparr>) = ring_ok q"
  "ring_ok (q\<lparr>write_open := b\<rparr>) = ring_ok q"
  "ring_ok (q\<lparr>closed := b\<rparr>) = ring_ok q"
  by (simp_all add: ring_contents_def ring_ok_def)

lemma pipe_read_locked_inv [step_inv]:
  assumes "pipe_inv (w, pcs, s, r)" and "pipe_read_locked w t nd a n = Some (w', out)"
  shows "pipe_inv (w', pcs', s, r @ delivered (umem w') a out)"
proof -
  obtain q where q: "ring w = Some q" using assms(2) by (auto simp: pipe_read_locked_def bind_eq_Some_conv)
  then have ok: "ring_ok q" and s: "s = r @ ring_contents q" using assms(1) by simp_all
  show ?thesis
  proof (cases "count q > 0")
    case False
    then show ?thesis using assms(2) q ok s
      by (auto simp: pipe_read_locked_def user_bytes_def bind_eq_Some_conv split: if_splits)
  next
    case True
    obtain c1 c2 q' where take: "pipe_take q (unat n) = (c1, c2, q')" by (metis prod_cases3)
    then have get: "ring_get q (unat n) = (c1 @ c2, q')" by (simp add: ring_get_def)
    have "length (c1 @ c2) \<le> PIPE_BUF_SIZE"
      using rq.get_data [OF ok, of "unat n"] rq.bounded [OF ok] get by simp
    then have "user_bytes (store_bytes (umem w) a (c1 @ c2)) a (length (c1 @ c2)) = c1 @ c2"
      by (intro user_bytes_store) simp
    moreover have "out = PRet (int (length (c1 @ c2)))"
      and "umem w' = store_bytes (umem w) a (c1 @ c2)"
      and "\<exists>x. ring w' = Some (q'\<lparr>blocked_writers := x\<rparr>)"
      using assms(2) q True take
      by (auto simp: pipe_read_locked_def store_bytes_append bind_eq_Some_conv)
    ultimately show ?thesis
      using rq.get_conserves [OF ok s, of "unat n"] rq.get_ok [OF ok, of "unat n"] get
      by (auto simp: nat_int_add)
  qed
qed

lemma pipe_write_locked_inv [step_inv]:
  assumes "pipe_inv (w, pcs, s, r)" and "pipe_write_locked w t nd a n k = Some (w', out)"
  shows "pipe_inv (w', pcs', s @ accepted (umem w) a k out, r)"
proof -
  obtain q where q: "ring w = Some q" using assms(2) by (auto simp: pipe_write_locked_def bind_eq_Some_conv)
  then have ok: "ring_ok q" and s: "s = r @ ring_contents q" using assms(1) by simp_all
  show ?thesis
  proof (cases "count q < PIPE_BUF_SIZE")
    case False
    then show ?thesis using assms(2) q ok s
      by (auto simp: pipe_write_locked_def user_bytes_def bind_eq_Some_conv split: if_splits)
  next
    case True
    let ?bs = "user_bytes (umem w) (a + of_nat k) (unat n - k)"
    let ?l = "count (pipe_put q ?bs) - count q"
    have l: "?l = min (PIPE_BUF_SIZE - count q) (unat n - k)"
      using rq.put_accepts [OF ok, of ?bs] by (simp add: min.commute)
    have "accepted (umem w) a k out = user_bytes (umem w) (a + of_nat k) ?l"
      and "\<exists>x. ring w' = Some (pipe_put q ?bs\<lparr>blocked_readers := x\<rparr>)"
      using assms(2) q True
      by (auto simp: pipe_write_locked_def Let_def bind_eq_Some_conv nat_int_add split: if_splits)
    moreover have "take (PIPE_BUF_SIZE - count q) ?bs = user_bytes (umem w) (a + of_nat k) ?l"
      by (simp add: take_user_bytes l)
    ultimately show ?thesis
      using rq.put_conserves [OF ok s, of ?bs] rq.put_ok [OF ok, of ?bs] by auto
  qed
qed

lemma pipe_check_inv [step_inv]:
  "pipe_inv (w, pcs, s, r) \<Longrightarrow> pipe_read_check w t nd = Some (w', out) \<Longrightarrow> pipe_inv (w', pcs', s, r)"
  "pipe_inv (w, pcs, s, r) \<Longrightarrow> pipe_write_check w t nd = Some (w', out) \<Longrightarrow> pipe_inv (w', pcs', s, r)"
  by (auto simp: pipe_read_check_def pipe_write_check_def bind_eq_Some_conv split: if_splits)

lemma pipe_start_inv [step_inv]:
  "pipe_inv (w, pcs, s, r) \<Longrightarrow> pipe_read_start w t nd a n = (w', res) \<Longrightarrow> pipe_inv (w', pcs', s, r)"
  "pipe_inv (w, pcs, s, r) \<Longrightarrow> pipe_write_start w t nd a n = (w', res) \<Longrightarrow> pipe_inv (w', pcs', s, r)"
  by (auto simp: pipe_read_start_def pipe_write_start_def split: option.splits if_splits)

lemma pipe_close_inv [step_inv]:
  "pipe_inv (w, pcs, s, r) \<Longrightarrow> pipe_close w e = Some (w', res) \<Longrightarrow> pipe_inv (w', pcs', s, r)"
  by (auto simp: pipe_close_def Let_def bind_eq_Some_conv split: option.splits if_splits)

lemma pipe_step_inv: "pipe_step x y \<Longrightarrow> pipe_inv x \<Longrightarrow> pipe_inv y"
proof (induction rule: pipe_step.induct)
  case (close_end w is_read w' res pcs s r)
  then show ?case by (blast intro: step_inv)
qed (auto intro: step_inv simp del: pipe_inv.simps, auto)

subsection \<open>The lists of waiting tasks\<close>

definition next_of :: "(addr \<rightharpoonup> pipe_blocked_node) \<Rightarrow> addr \<Rightarrow> addr option" where
  "next_of ns a = do { b \<leftarrow> ns a; bn_next b }"

lemma next_of_Some: "ns a = Some b \<Longrightarrow> next_of ns a = bn_next b"
  by (simp add: next_of_def)

lemma next_of_upd: "next_of (ns(a := x)) = (next_of ns)(a := do { b \<leftarrow> x; bn_next b })"
  by (auto simp: next_of_def)

lemma pipe_wake_chain:
  "chain (next_of ns) p l \<Longrightarrow> set l \<subseteq> dom ns \<Longrightarrow>
    pipe_wake ns p ts = Some (\<lambda>t. if (\<exists>a \<in> set l. \<exists>b. ns a = Some b \<and> bn_task b = t) \<and> ts t = TASK_BLOCKED then TASK_READY else ts t)"
proof (induction l arbitrary: p ts)
  case Nil
  then show ?case by (simp add: pipe_wake.simps)
next
  case (Cons a l)
  then obtain b where b: "p = Some a" "ns a = Some b" "chain (next_of ns) (bn_next b) l" by (auto simp: next_of_Some)
  let ?ts = "if ts (bn_task b) = TASK_BLOCKED then ts(bn_task b := TASK_READY) else ts"
  have "pipe_wake ns p ts = pipe_wake ns (bn_next b) ?ts" using b by (subst pipe_wake.simps) simp
  also have "\<dots> = Some (\<lambda>t. if (\<exists>a \<in> set l. \<exists>b. ns a = Some b \<and> bn_task b = t) \<and> ?ts t = TASK_BLOCKED then TASK_READY else ?ts t)"
    using Cons.IH [OF b(3)] Cons.prems(2) by simp
  also have "\<dots> = Some (\<lambda>t. if (\<exists>a \<in> set (a # l). \<exists>b. ns a = Some b \<and> bn_task b = t) \<and> ts t = TASK_BLOCKED then TASK_READY else ts t)"
    using b(2) by (auto simp: fun_eq_iff)
  finally show ?case .
qed

lemma pipe_wake_self_loop:
  assumes "ns a = Some b" and "bn_next b = Some a"
  shows "pipe_wake ns (Some a) ts = None"
proof (rule ccontr)
  assume "pipe_wake ns (Some a) ts \<noteq> None"
  then obtain ts' where "pipe_wake ns (Some a) ts = Some ts'" by auto
  then have "ns a = Some b \<and> bn_next b = Some a \<longrightarrow> Some a \<noteq> Some a"
    by (rule pipe_wake.raw_induct
        [rotated, where P = "\<lambda>ns p ts ts'. ns a = Some b \<and> bn_next b = Some a \<longrightarrow> p \<noteq> Some a"])
      (auto split: option.splits simp: bind_eq_Some_conv)
  with assms show False by simp
qed

fun reading :: "pipe_pc \<Rightarrow> bool" where
  "reading (RCheck nd a n) = True"
| "reading (RSched nd a n) = True"
| "reading _ = False"

fun writing :: "pipe_pc \<Rightarrow> bool" where
  "writing (WCheck nd a n k) = True"
| "writing (WSched nd a n k) = True"
| "writing _ = False"

text \<open>The node of the call a task is in.\<close>

fun pc_node :: "pipe_pc \<Rightarrow> addr option" where
  "pc_node Idle = None"
| "pc_node (RLock nd a n) = Some nd"
| "pc_node (RCheck nd a n) = Some nd"
| "pc_node (RSched nd a n) = Some nd"
| "pc_node (WLock nd a n k) = Some nd"
| "pc_node (WCheck nd a n k) = Some nd"
| "pc_node (WSched nd a n k) = Some nd"

definition sleeping_readers :: "pipe_world \<Rightarrow> (tid \<Rightarrow> pipe_pc) \<Rightarrow> tid set" where
  "sleeping_readers w pcs = {t. reading (pcs t) \<and> tstate w t = TASK_BLOCKED}"

definition sleeping_writers :: "pipe_world \<Rightarrow> (tid \<Rightarrow> pipe_pc) \<Rightarrow> tid set" where
  "sleeping_writers w pcs = {t. writing (pcs t) \<and> tstate w t = TASK_BLOCKED}"

lemmas sleeping_defs = sleeping_readers_def sleeping_writers_def

text \<open>Every call's node is alive and belongs to its task.\<close>

definition nodes_ok :: "(addr \<rightharpoonup> pipe_blocked_node) \<Rightarrow> (tid \<Rightarrow> pipe_pc) \<Rightarrow> bool" where
  "nodes_ok ns pcs \<longleftrightarrow> (\<forall>t nd. pc_node (pcs t) = Some nd \<longrightarrow> (\<exists>b. ns nd = Some b \<and> bn_task b = t))"

text \<open>A wait list ends, and its nodes are exactly those of the tasks \<open>S\<close>.\<close>

definition wait_list :: "(addr \<rightharpoonup> pipe_blocked_node) \<Rightarrow> (tid \<Rightarrow> pipe_pc) \<Rightarrow> addr option \<Rightarrow> tid set \<Rightarrow> bool" where
  "wait_list ns pcs p S \<longleftrightarrow> (\<exists>l. chain (next_of ns) p l \<and> set l = {nd. \<exists>t \<in> S. pc_node (pcs t) = Some nd})"

text \<open>Readers sleep only while the pipe is empty and can still be written to, writers only while it is full
  and can still be read from; all of them are on their list.\<close>

definition waiters_ok :: "pipe_world \<Rightarrow> (tid \<Rightarrow> pipe_pc) \<Rightarrow> bool" where
  "waiters_ok w pcs \<longleftrightarrow> nodes_ok (nodes w) pcs \<and>
     (case ring w of
        None \<Rightarrow> sleeping_readers w pcs = {} \<and> sleeping_writers w pcs = {}
      | Some q \<Rightarrow>
          wait_list (nodes w) pcs (blocked_readers q) (sleeping_readers w pcs) \<and>
          wait_list (nodes w) pcs (blocked_writers q) (sleeping_writers w pcs) \<and>
          (sleeping_readers w pcs \<noteq> {} \<longrightarrow> count q = 0 \<and> write_open q) \<and>
          (sleeping_writers w pcs \<noteq> {} \<longrightarrow> count q = PIPE_BUF_SIZE \<and> read_open q))"

lemma reading_not_writing: "reading c \<Longrightarrow> \<not> writing c"
  by (cases c) auto

lemma sleeping_node: "reading c \<or> writing c \<Longrightarrow> \<exists>nd. pc_node c = Some nd"
  by (cases c) auto

lemma nodes_okD: "nodes_ok ns pcs \<Longrightarrow> pc_node (pcs t) = Some nd \<Longrightarrow> \<exists>b. ns nd = Some b \<and> bn_task b = t"
  by (simp add: nodes_ok_def)

lemma nodes_ok_owner: "nodes_ok ns pcs \<Longrightarrow> pc_node (pcs t) = Some nd \<Longrightarrow> pc_node (pcs u) = Some nd \<Longrightarrow> u = t"
  unfolding nodes_ok_def by (metis option.inject)

lemma wait_list_empty: "wait_list ns pcs None {}"
  by (simp add: wait_list_def)

text \<open>A change of a node that no task of the list owns.\<close>

lemma wait_list_frame:
  assumes "wait_list ns pcs p S" and "\<forall>u \<in> S. pc_node (pcs u) \<noteq> Some nd" and "\<forall>u \<in> S. pc_node (pcs' u) = pc_node (pcs u)"
  shows "wait_list (ns(nd := x)) pcs' p S"
proof -
  obtain l where l: "chain (next_of ns) p l" "set l = {nd. \<exists>t \<in> S. pc_node (pcs t) = Some nd}"
    using assms(1) by (auto simp: wait_list_def)
  moreover have "nd \<notin> set l" using l(2) assms(2) by auto
  ultimately have "chain (next_of (ns(nd := x))) p l" by (simp add: next_of_upd chain_upd)
  then show ?thesis using l(2) assms(3) by (auto simp: wait_list_def)
qed

text \<open>Putting a node in front.\<close>

lemma wait_list_push:
  assumes "wait_list ns pcs p S" and "nodes_ok ns pcs" and "pc_node (pcs t) = Some nd" and "t \<notin> S"
    and "bn_next b = p" and "pc_node c = Some nd"
  shows "wait_list (ns(nd \<mapsto> b)) (pcs(t := c)) (Some nd) (insert t S)"
proof -
  obtain l where l: "chain (next_of ns) p l" "set l = {nd. \<exists>t \<in> S. pc_node (pcs t) = Some nd}"
    using assms(1) by (auto simp: wait_list_def)
  have "nd \<notin> set l" using l(2) nodes_ok_owner [OF assms(2,3)] assms(4) by auto
  then have "chain (next_of (ns(nd \<mapsto> b))) (Some nd) (nd # l)" using l(1) assms(5) by (simp add: next_of_upd chain_upd)
  moreover have "set (nd # l) = {nd. \<exists>u \<in> insert t S. pc_node ((pcs(t := c)) u) = Some nd}"
    using l(2) assms(4,6) by auto
  ultimately show ?thesis unfolding wait_list_def by blast
qed

lemma wait_list_wake:
  assumes "wait_list ns pcs p S" and "nodes_ok ns pcs" and "\<forall>t \<in> S. pc_node (pcs t) \<noteq> None"
  shows "pipe_wake ns p ts = Some (\<lambda>t. if t \<in> S \<and> ts t = TASK_BLOCKED then TASK_READY else ts t)"
proof -
  obtain l where l: "chain (next_of ns) p l" "set l = {nd. \<exists>t \<in> S. pc_node (pcs t) = Some nd}"
    using assms(1) by (auto simp: wait_list_def)
  have "(\<exists>a \<in> set l. \<exists>b. ns a = Some b \<and> bn_task b = t) \<longleftrightarrow> t \<in> S" for t
    using l(2) assms(2,3) by (fastforce simp: nodes_ok_def)
  moreover have "set l \<subseteq> dom ns" using l(2) assms(2) by (fastforce simp: nodes_ok_def)
  ultimately show ?thesis using pipe_wake_chain [OF l(1)] by simp
qed

lemma sleeping_nodes:
  "\<forall>t \<in> sleeping_readers w pcs. pc_node (pcs t) \<noteq> None" "\<forall>t \<in> sleeping_writers w pcs. pc_node (pcs t) \<noteq> None"
  using sleeping_node by (auto simp: sleeping_defs)

text \<open>Leaving a call, or moving on in it without sleeping.\<close>

lemma nodes_ok_leave:
  assumes "nodes_ok ns pcs" and "pc_node (pcs t) = Some nd"
  shows "nodes_ok (ns(nd := None)) (pcs(t := Idle))"
  unfolding nodes_ok_def
proof (intro allI impI)
  fix u a assume "pc_node ((pcs(t := Idle)) u) = Some a"
  then have u: "u \<noteq> t" "pc_node (pcs u) = Some a" by (auto split: if_splits)
  then have "a \<noteq> nd" using nodes_ok_owner [OF assms, of u] by auto
  then show "\<exists>b. (ns(nd := None)) a = Some b \<and> bn_task b = u" using nodes_okD [OF assms(1) u(2)] by simp
qed

lemma nodes_ok_set:
  assumes "nodes_ok ns pcs" and "pc_node (pcs t) = Some nd" and "pc_node c = Some nd" and "ns nd = Some b"
  shows "nodes_ok (ns(nd \<mapsto> b\<lparr>bn_next := x\<rparr>)) (pcs(t := c))"
  unfolding nodes_ok_def
proof (intro allI impI)
  fix u a assume "pc_node ((pcs(t := c)) u) = Some a"
  then have "pc_node (pcs u) = Some a" using assms(2,3) by (auto split: if_splits)
  then show "\<exists>b'. (ns(nd \<mapsto> b\<lparr>bn_next := x\<rparr>)) a = Some b' \<and> bn_task b' = u"
    using nodes_okD [OF assms(1)] assms(4) by fastforce
qed

lemma nodes_ok_move: "nodes_ok ns pcs \<Longrightarrow> pc_node c = pc_node (pcs t) \<Longrightarrow> nodes_ok ns (pcs(t := c))"
  by (simp add: nodes_ok_def)

text \<open>A step that changes one node, not of a sleeping task, and neither the ring nor who sleeps.\<close>

lemma waiters_frame:
  assumes w: "waiters_ok w pcs" and "ring w' = ring w" and "nodes w' = (nodes w)(nd := x)" and ok: "nodes_ok (nodes w') pcs'"
    and same: "sleeping_readers w' pcs' = sleeping_readers w pcs" "sleeping_writers w' pcs' = sleeping_writers w pcs"
    and "\<And>u. reading (pcs u) \<or> writing (pcs u) \<Longrightarrow> tstate w u = TASK_BLOCKED \<Longrightarrow> pc_node (pcs u) \<noteq> Some nd \<and> pc_node (pcs' u) = pc_node (pcs u)"
  shows "waiters_ok w' pcs'"
proof -
  have f: "\<forall>u \<in> sleeping_readers w pcs. pc_node (pcs u) \<noteq> Some nd" "\<forall>u \<in> sleeping_readers w pcs. pc_node (pcs' u) = pc_node (pcs u)"
      "\<forall>u \<in> sleeping_writers w pcs. pc_node (pcs u) \<noteq> Some nd" "\<forall>u \<in> sleeping_writers w pcs. pc_node (pcs' u) = pc_node (pcs u)"
    using assms(7) by (auto simp: sleeping_defs)
  show ?thesis
    using w ok wait_list_frame [OF _ f(1,2)] wait_list_frame [OF _ f(3,4)]
    unfolding waiters_ok_def assms(2,3) same by (auto split: option.splits)
qed

text \<open>A step that changes no node.\<close>

lemma waiters_same:
  assumes w: "waiters_ok w pcs" and "ring w' = ring w" and "nodes w' = nodes w" and "\<And>u. pc_node (pcs' u) = pc_node (pcs u)"
    and same: "sleeping_readers w' pcs' = sleeping_readers w pcs" "sleeping_writers w' pcs' = sleeping_writers w pcs"
  shows "waiters_ok w' pcs'"
  using w unfolding waiters_ok_def wait_list_def nodes_ok_def assms(2-6) .

lemma waiters_other_fields [simp]:
  "waiters_ok (w\<lparr>t_errno := f\<rparr>) pcs = waiters_ok w pcs" "waiters_ok (w\<lparr>umem := m\<rparr>) pcs = waiters_ok w pcs"
  "waiters_ok (w\<lparr>sig_pending := p\<rparr>) pcs = waiters_ok w pcs"
  unfolding waiters_ok_def sleeping_defs by (auto split: option.splits)

lemma waiters_okD:
  assumes "waiters_ok w pcs" and "ring w = Some q"
  shows "nodes_ok (nodes w) pcs" "wait_list (nodes w) pcs (blocked_readers q) (sleeping_readers w pcs)"
    "wait_list (nodes w) pcs (blocked_writers q) (sleeping_writers w pcs)"
    "t \<in> sleeping_readers w pcs \<Longrightarrow> count q = 0 \<and> write_open q"
    "t \<in> sleeping_writers w pcs \<Longrightarrow> count q = PIPE_BUF_SIZE \<and> read_open q"
  using assms by (auto simp: waiters_ok_def)

lemma wake_sleepers:
  assumes "waiters_ok w pcs" and "ring w = Some q"
  shows "pipe_wake (nodes w) (blocked_readers q) ts =
      Some (\<lambda>t. if t \<in> sleeping_readers w pcs \<and> ts t = TASK_BLOCKED then TASK_READY else ts t)"
    "pipe_wake (nodes w) (blocked_writers q) ts =
      Some (\<lambda>t. if t \<in> sleeping_writers w pcs \<and> ts t = TASK_BLOCKED then TASK_READY else ts t)"
  using wait_list_wake [OF waiters_okD(2,1) [OF assms] sleeping_nodes(1)]
    wait_list_wake [OF waiters_okD(3,1) [OF assms] sleeping_nodes(2)] by simp_all

lemma not_sleeping: "\<not> reading (pcs t) \<Longrightarrow> t \<notin> sleeping_readers w pcs" "\<not> writing (pcs t) \<Longrightarrow> t \<notin> sleeping_writers w pcs"
  by (simp_all add: sleeping_defs)

lemma waiters_read_locked [step_inv]:
  assumes w: "waiters_ok w pcs" and t: "pcs t = RLock nd a n" and "pipe_read_locked w t nd a n = Some (w', out)"
  shows "waiters_ok w' (pcs(t := read_pc nd a n out))"
proof -
  obtain q where q: "ring w = Some q" using assms(3) by (auto simp: pipe_read_locked_def bind_eq_Some_conv)
  note d = waiters_okD [OF w q]
  have own: "pc_node (pcs t) = Some nd" "t \<notin> sleeping_readers w pcs" "t \<notin> sleeping_writers w pcs"
    using t by (simp_all add: sleeping_defs)
  have other: "pc_node (pcs u) \<noteq> Some nd" if "reading (pcs u) \<or> writing (pcs u)" for u
    using nodes_ok_owner [OF d(1) own(1), of u] that t by auto
  consider (data) "count q > 0" | (eof) "count q = 0" "\<not> write_open q" | (block) "count q = 0" "write_open q"
    by blast
  then show ?thesis
  proof cases
    case data
    then have R: "sleeping_readers w pcs = {}" using d(4) by auto
    obtain k q' where
      w': "tstate w' = (\<lambda>t. if t \<in> sleeping_writers w pcs \<and> tstate w t = TASK_BLOCKED then TASK_READY else tstate w t)"
      "nodes w' = (nodes w)(nd := None)" "out = PRet k" "ring w' = Some q'"
      "blocked_readers q' = blocked_readers q" "blocked_writers q' = None"
      using assms(3) q data wake_sleepers(2) [OF w q]
      by (auto simp: pipe_read_locked_def pipe_take_def Let_def)
    have "sleeping_readers w' (pcs(t := Idle)) = {}" "sleeping_writers w' (pcs(t := Idle)) = {}"
      using R unfolding w'(1) sleeping_defs by (auto split: if_splits)
    moreover have "wait_list ((nodes w)(nd := None)) (pcs(t := Idle)) (blocked_readers q) {}"
      using wait_list_frame [OF d(2)] R by simp
    ultimately show ?thesis
      using nodes_ok_leave [OF d(1) own(1)] by (simp add: waiters_ok_def w'(2-6) wait_list_empty)
  next
    case eof
    then have w': "w' = w\<lparr>nodes := (nodes w)(nd := None)\<rparr>" "out = PRet 0" using assms(3) q by (auto simp: pipe_read_locked_def)
    show ?thesis
      by (rule waiters_frame [OF w, where nd = nd and x = None])
        (use nodes_ok_leave [OF d(1) own(1)] other t in \<open>auto simp: w' sleeping_defs\<close>)
  next
    case block
    then obtain b where b: "nodes w nd = Some b" "out = PCheck"
      and w': "w' = w\<lparr>tstate := (tstate w)(t := TASK_BLOCKED), nodes := (nodes w)(nd \<mapsto> b\<lparr>bn_next := blocked_readers q\<rparr>),
        ring := Some (q\<lparr>blocked_readers := Some nd\<rparr>)\<rparr>"
      using assms(3) q by (auto simp: pipe_read_locked_def set_next_def bind_eq_Some_conv)
    let ?pcs = "pcs(t := RCheck nd a n)"
    have "sleeping_readers w' ?pcs = insert t (sleeping_readers w pcs)" "sleeping_writers w' ?pcs = sleeping_writers w pcs"
      using own(3) t by (auto simp: w' sleeping_defs)
    moreover have "wait_list (nodes w') ?pcs (Some nd) (insert t (sleeping_readers w pcs))"
      unfolding w' using wait_list_push [OF d(2,1) own(1,2), of "b\<lparr>bn_next := blocked_readers q\<rparr>" "RCheck nd a n"] by simp
    moreover have "wait_list (nodes w') ?pcs (blocked_writers q) (sleeping_writers w pcs)"
      unfolding w' using wait_list_frame [OF d(3), of nd ?pcs] other t by (auto simp: sleeping_defs)
    moreover have "nodes_ok (nodes w') ?pcs" unfolding w' using nodes_ok_set [OF d(1) own(1) _ b(1), of "RCheck nd a n"] by simp
    ultimately show ?thesis using block d(5) by (auto simp: waiters_ok_def b(2) w')
  qed
qed

lemma blocked_pipe_put [simp]:
  "blocked_writers (pipe_put q bs) = blocked_writers q" "read_open (pipe_put q bs) = read_open q"
  by (simp_all add: pipe_put_def Let_def)

lemma waiters_write_locked [step_inv]:
  assumes w: "waiters_ok w pcs" and t: "pcs t = WLock nd a n k" and "pipe_write_locked w t nd a n k = Some (w', out)"
    and size: "\<forall>q. ring w = Some q \<longrightarrow> count q \<le> PIPE_BUF_SIZE"
  shows "waiters_ok w' (pcs(t := write_pc nd a n k out))"
proof -
  obtain q where q: "ring w = Some q" using assms(3) by (auto simp: pipe_write_locked_def bind_eq_Some_conv)
  note d = waiters_okD [OF w q]
  have own: "pc_node (pcs t) = Some nd" "t \<notin> sleeping_readers w pcs" "t \<notin> sleeping_writers w pcs"
    using t by (simp_all add: sleeping_defs)
  have other: "pc_node (pcs u) \<noteq> Some nd" if "reading (pcs u) \<or> writing (pcs u)" for u
    using nodes_ok_owner [OF d(1) own(1), of u] that t by auto
  consider (space) "count q < PIPE_BUF_SIZE" | (broken) "\<not> count q < PIPE_BUF_SIZE" "\<not> read_open q"
    | (block) "\<not> count q < PIPE_BUF_SIZE" "read_open q" by blast
  then show ?thesis
  proof cases
    case space
    then have W: "sleeping_writers w pcs = {}" using d(5) by auto
    obtain q' where
      w': "tstate w' = (\<lambda>t. if t \<in> sleeping_readers w pcs \<and> tstate w t = TASK_BLOCKED then TASK_READY else tstate w t)"
      "ring w' = Some q'" "blocked_writers q' = blocked_writers q" "blocked_readers q' = None"
      and out: "(\<exists>l. out = PRet l) \<and> nodes w' = (nodes w)(nd := None) \<or> (\<exists>l. out = PLock l) \<and> nodes w' = nodes w"
      using assms(3) q space wake_sleepers(1) [OF w q] by (auto simp: pipe_write_locked_def Let_def split: if_splits)
    let ?pcs = "pcs(t := write_pc nd a n k out)"
    have "sleeping_readers w' ?pcs = {}" "sleeping_writers w' ?pcs = {}"
      using W out unfolding w'(1) sleeping_defs by (auto split: if_splits)
    moreover have "wait_list (nodes w') ?pcs (blocked_writers q) {}"
      using d(3) W out by (auto simp: wait_list_def)
    moreover have "nodes_ok (nodes w') ?pcs" using out nodes_ok_leave [OF d(1) own(1)] nodes_ok_move [OF d(1), of _ t] t by auto
    ultimately show ?thesis by (simp add: waiters_ok_def w'(2-4) wait_list_empty)
  next
    case broken
    then have w': "w' = w\<lparr>t_errno := (t_errno w)(t := EPIPE), nodes := (nodes w)(nd := None)\<rparr>" "out = PRet (- 1)"
      using assms(3) q by (auto simp: pipe_write_locked_def)
    show ?thesis
      by (rule waiters_frame [OF w, where nd = nd and x = None])
        (use nodes_ok_leave [OF d(1) own(1)] other t in \<open>auto simp: w' sleeping_defs\<close>)
  next
    case block
    then obtain b where b: "nodes w nd = Some b" "out = PCheck"
      and w': "w' = w\<lparr>tstate := (tstate w)(t := TASK_BLOCKED), nodes := (nodes w)(nd \<mapsto> b\<lparr>bn_next := blocked_writers q\<rparr>),
        ring := Some (q\<lparr>blocked_writers := Some nd\<rparr>)\<rparr>"
      using assms(3) q by (auto simp: pipe_write_locked_def set_next_def bind_eq_Some_conv)
    let ?pcs = "pcs(t := WCheck nd a n k)"
    have "sleeping_writers w' ?pcs = insert t (sleeping_writers w pcs)" "sleeping_readers w' ?pcs = sleeping_readers w pcs"
      using own(2) t by (auto simp: w' sleeping_defs)
    moreover have "wait_list (nodes w') ?pcs (Some nd) (insert t (sleeping_writers w pcs))"
      unfolding w' using wait_list_push [OF d(3,1) own(1,3), of "b\<lparr>bn_next := blocked_writers q\<rparr>" "WCheck nd a n k"] by simp
    moreover have "wait_list (nodes w') ?pcs (blocked_readers q) (sleeping_readers w pcs)"
      unfolding w' using wait_list_frame [OF d(2), of nd ?pcs] other t by (auto simp: sleeping_defs)
    moreover have "nodes_ok (nodes w') ?pcs" unfolding w' using nodes_ok_set [OF d(1) own(1) _ b(1), of "WCheck nd a n k"] by simp
    ultimately show ?thesis using block d(4) size q by (auto simp: waiters_ok_def b(2) w')
  qed
qed

lemma waiters_close [step_inv]:
  assumes w: "waiters_ok w pcs" and "pipe_close w e = Some (w', res)"
  shows "waiters_ok w' pcs"
proof (cases "ring w")
  case None
  with assms show ?thesis by (simp add: pipe_close_def)
next
  case (Some q)
  have w': "tstate w' = (\<lambda>t. if t \<in> sleeping_readers w pcs \<union> sleeping_writers w pcs then TASK_READY else tstate w t)" "nodes w' = nodes w"
    and r: "ring w' = None \<or> (\<exists>q'. ring w' = Some q' \<and> blocked_readers q' = None \<and> blocked_writers q' = None)"
    using assms(2) Some wake_sleepers [OF w Some]
    by (auto simp: pipe_close_def Let_def sleeping_defs split: if_splits)
  have "sleeping_readers w' pcs = {}" "sleeping_writers w' pcs = {}"
    unfolding w'(1) sleeping_defs by (auto split: if_splits)
  then show ?thesis using r waiters_okD(1) [OF w Some] by (auto simp: waiters_ok_def w'(2) wait_list_empty)
qed

lemma waiters_call [step_inv]:
  assumes w: "waiters_ok w pcs" and "pcs t = Idle" and "nodes w nd = None" and "pc_node c = Some nd" "\<not> reading c" "\<not> writing c"
  shows "waiters_ok (w\<lparr>nodes := (nodes w)(nd \<mapsto> \<lparr>bn_task = t, bn_next = None\<rparr>)\<rparr>) (pcs(t := c))"
proof (rule waiters_frame [OF w, where nd = nd])
  have ok: "nodes_ok (nodes w) pcs" using w by (simp add: waiters_ok_def)
  then have "pc_node (pcs u) \<noteq> Some nd" for u using assms(3) nodes_okD [OF ok, of u nd] by auto
  then show "nodes_ok (nodes (w\<lparr>nodes := (nodes w)(nd \<mapsto> \<lparr>bn_task = t, bn_next = None\<rparr>)\<rparr>)) (pcs(t := c))"
    "\<And>u. reading (pcs u) \<or> writing (pcs u) \<Longrightarrow> tstate w u = TASK_BLOCKED \<Longrightarrow>
      pc_node (pcs u) \<noteq> Some nd \<and> pc_node ((pcs(t := c)) u) = pc_node (pcs u)"
    using ok assms(2,4) by (auto simp: nodes_ok_def)
qed (use assms in \<open>auto simp: sleeping_defs\<close>)

text \<open>A step after which no signal is pending, so in particular not the arrival of a signal.\<close>

definition quiet_step :: "pipe_sys \<Rightarrow> pipe_sys \<Rightarrow> bool" where
  "quiet_step x y \<longleftrightarrow> pipe_step x y \<and> (\<forall>t. \<not> sig_pending (fst y) t)"

fun quiet_inv :: "pipe_sys \<Rightarrow> bool" where
  "quiet_inv (w, pcs, s, r) \<longleftrightarrow> waiters_ok w pcs \<and> (\<forall>t. \<not> sig_pending w t)"

lemma quiet_step_inv:
  "pipe_step x y \<Longrightarrow> \<forall>t. \<not> sig_pending (fst y) t \<Longrightarrow> pipe_inv x \<Longrightarrow> quiet_inv x \<Longrightarrow> quiet_inv y"
proof (induction rule: pipe_step.induct)
  case (read_call pcs t w nd a n w' res s r)
  then have "res = None \<and> w' = w\<lparr>nodes := (nodes w)(nd \<mapsto> \<lparr>bn_task = t, bn_next = None\<rparr>)\<rparr> \<or>
      res \<noteq> None \<and> (\<exists>f. w' = w\<lparr>t_errno := f\<rparr>)"
    by (auto simp: pipe_read_start_def split: option.splits if_splits intro: exI [of _ "t_errno w"])
  with read_call show ?case by (auto intro: waiters_call simp: fun_upd_idem)
next
  case (write_call pcs t w nd a n w' res s r)
  then have "res = None \<and> w' = w\<lparr>nodes := (nodes w)(nd \<mapsto> \<lparr>bn_task = t, bn_next = None\<rparr>)\<rparr> \<or>
      res \<noteq> None \<and> (\<exists>f. w' = w\<lparr>t_errno := f\<rparr>)"
    by (auto simp: pipe_write_start_def split: option.splits if_splits intro: exI [of _ "t_errno w"])
  with write_call show ?case by (auto intro: waiters_call simp: fun_upd_idem)
next
  case (read_check pcs t nd a n w w' out s r)
  then have "w' = w" "out = PSched" by (auto simp: pipe_read_check_def)
  with read_check show ?case by (auto intro!: waiters_same [of w pcs] simp: sleeping_defs split: if_splits)
next
  case (write_check pcs t nd a n k w w' out s r)
  then have "w' = w" "out = PSched" by (auto simp: pipe_write_check_def)
  with write_check show ?case by (auto intro!: waiters_same [of w pcs] simp: sleeping_defs split: if_splits)
next
  case (read_run pcs t nd a n w s r)
  then show ?case by (auto intro!: waiters_same [of w pcs] simp: sleeping_defs split: if_splits)
next
  case (write_run pcs t nd a n k w s r)
  then show ?case by (auto intro!: waiters_same [of w pcs] simp: sleeping_defs split: if_splits)
next
  case (write_lock pcs t nd a n k w w' out s r)
  then have "\<forall>q. ring w = Some q \<longrightarrow> count q \<le> PIPE_BUF_SIZE" by (auto simp: ring_ok_def)
  with write_lock show ?case using waiters_write_locked [of w pcs t nd a n k w' out] by simp
next
  case (signal w pcs s r t)
  from signal.prems(1) have False by (auto dest: spec [of _ t])
  then show ?case ..
next
  case (signal_done w pcs s r t)
  then show ?case by simp
next
  case (user_store w pcs s r m)
  then show ?case by simp
qed (auto intro: step_inv)

lemma pipe_init_inv: "pipe_inv (pipe_init m)" "quiet_inv (pipe_init m)"
  by (simp_all add: pipe_init_def pipe_new_def ring_ok_def ring_contents_def waiters_ok_def nodes_ok_def wait_list_empty sleeping_defs)

lemma pipe_reach_inv: "pipe_step\<^sup>*\<^sup>* x y \<Longrightarrow> pipe_inv x \<Longrightarrow> pipe_inv y"
  by (induction rule: rtranclp_induct) (auto intro: pipe_step_inv)

lemma quiet_reach_inv: "quiet_step\<^sup>*\<^sup>* x y \<Longrightarrow> pipe_inv x \<Longrightarrow> quiet_inv x \<Longrightarrow> pipe_inv y \<and> quiet_inv y"
proof (induction rule: rtranclp_induct)
  case (step y z)
  then show ?case using quiet_step_inv [of y z] pipe_step_inv [of y z] by (simp add: quiet_step_def)
qed simp

lemma quiet_run: "quiet_step\<^sup>*\<^sup>* x y \<Longrightarrow> pipe_step\<^sup>*\<^sup>* x y"
  by (rule rtranclp_mono [THEN predicate2D, rotated]) (auto simp: quiet_step_def)

lemma pipe_run_step: "pipe_step x y \<Longrightarrow> pipe_step\<^sup>*\<^sup>* y z \<Longrightarrow> pipe_step\<^sup>*\<^sup>* x z"
  by (rule converse_rtranclp_into_rtranclp)

lemma sections_complete:
  assumes w: "waiters_ok w pcs" and q: "ring w = Some q"
  shows "pcs t = RLock nd a n \<Longrightarrow> pipe_read_locked w t nd a n \<noteq> None"
    "pcs t = WLock nd a n k \<Longrightarrow> pipe_write_locked w t nd a n k \<noteq> None"
    "pipe_close w is_read \<noteq> None"
  using nodes_okD [OF waiters_okD(1) [OF w q], of t nd] q wake_sleepers [OF w q]
  by (auto simp: pipe_read_locked_def pipe_write_locked_def pipe_close_def Let_def set_next_def bind_eq_None_conv split: prod.splits)

text \<open>Two runs: a write that finds space for all its bytes, and a read that blocks.\<close>

lemma quiet_write:
  assumes "pipe_inv (w, pcs, s, r)" and inv: "quiet_inv (w, pcs, s, r)" and t: "pcs t = Idle" "nodes w nd = None"
    and q: "ring w = Some q" "\<not> closed q" "read_open q" and n: "user_addr_range_ok a n" "n \<noteq> 0" "unat n \<le> PIPE_BUF_SIZE - count q"
  shows "\<exists>w' pcs' q'. quiet_step\<^sup>*\<^sup>* (w, pcs, s, r) (w', pcs', s @ user_bytes (umem w) a (unat n), r) \<and> ring w' = Some q' \<and>
    count q' = count q + unat n \<and> (\<forall>u. u \<noteq> t \<longrightarrow> pcs' u = pcs u)"
proof -
  let ?w = "w\<lparr>nodes := (nodes w)(nd \<mapsto> \<lparr>bn_task = t, bn_next = None\<rparr>)\<rparr>" and ?pcs = "pcs(t := WLock nd a n 0)"
  have "pipe_write_start w t nd a n = (?w, None)" using q n by (simp add: pipe_write_start_def)
  from pipe_step.write_call [where pcs = pcs, OF t this] have step1: "pipe_step (w, pcs, s, r) (?w, ?pcs, s, r)" by simp
  have q1: "quiet_step (w, pcs, s, r) (?w, ?pcs, s, r)" using step1 inv by (simp add: quiet_step_def)
  have "waiters_ok ?w ?pcs" using quiet_step_inv [OF step1 _ assms(1) inv] inv by simp
  then obtain w' out where lock: "pipe_write_locked ?w t nd a n 0 = Some (w', out)"
    using sections_complete(2) [of ?w ?pcs q t nd a n 0] q(1) by fastforce
  have ok: "ring_ok q" using assms(1) q(1) by simp
  let ?bs = "user_bytes (umem w) a (unat n)"
  have c: "count (pipe_put q ?bs) = count q + unat n" using pipe_put_fields(2) [OF ok, of ?bs] n(3) by simp
  moreover have "count q < PIPE_BUF_SIZE" using n(2,3) by (simp add: unat_eq_zero [symmetric])
  ultimately have w': "out = PRet (int (unat n))" "\<exists>q'. ring w' = Some q' \<and> count q' = count q + unat n" "sig_pending w' = sig_pending w"
    using lock q(1) by (auto simp: pipe_write_locked_def Let_def bind_eq_Some_conv split: if_splits)
  from pipe_step.write_lock [where pcs = ?pcs, OF _ lock, of s r] w'
  have "quiet_step (?w, ?pcs, s, r) (w', pcs(t := Idle), s @ ?bs, r)"
    using inv by (simp add: quiet_step_def)
  with q1 have "quiet_step\<^sup>*\<^sup>* (w, pcs, s, r) (w', pcs(t := Idle), s @ ?bs, r)" by simp
  with w'(2) show ?thesis by (metis fun_upd_other)
qed

lemma quiet_call_read:
  assumes "\<forall>t. \<not> sig_pending w t" and t: "pcs t = Idle" "nodes w nd = None"
    and q: "ring w = Some q" "\<not> closed q" and n: "user_addr_range_ok a n"
  shows "quiet_step (w, pcs, s, r) (w\<lparr>nodes := (nodes w)(nd \<mapsto> \<lparr>bn_task = t, bn_next = None\<rparr>)\<rparr>, pcs(t := RLock nd a n), s, r)"
proof -
  let ?w = "w\<lparr>nodes := (nodes w)(nd \<mapsto> \<lparr>bn_task = t, bn_next = None\<rparr>)\<rparr>"
  have "pipe_read_start w t nd a n = (?w, None)" using q n by (simp add: pipe_read_start_def)
  from pipe_step.read_call [where pcs = pcs, OF t this] assms(1) show ?thesis by (simp add: quiet_step_def)
qed

definition blocked_at :: "pipe_world \<Rightarrow> tid \<Rightarrow> addr \<Rightarrow> pipe_blocked_node \<Rightarrow> pipe_ring \<Rightarrow> pipe_world" where
  "blocked_at w t nd b q = w\<lparr>tstate := (tstate w)(t := TASK_BLOCKED), nodes := (nodes w)(nd \<mapsto> b\<lparr>bn_next := blocked_readers q\<rparr>),
     ring := Some (q\<lparr>blocked_readers := Some nd\<rparr>)\<rparr>"

lemma blocked_at_fields [simp]:
  "ring (blocked_at w t nd b q) = Some (q\<lparr>blocked_readers := Some nd\<rparr>)" "tstate (blocked_at w t nd b q) t = TASK_BLOCKED"
  "nodes (blocked_at w t nd b q) = (nodes w)(nd \<mapsto> b\<lparr>bn_next := blocked_readers q\<rparr>)"
  "sig_pending (blocked_at w t nd b q) = sig_pending w" "umem (blocked_at w t nd b q) = umem w"
  by (simp_all add: blocked_at_def)

lemma read_blocks:
  assumes "pcs t = RLock nd a n" and "nodes w nd = Some b" and "ring w = Some q" and "count q = 0" and "write_open q"
  shows "pipe_step (w, pcs, s, r) (blocked_at w t nd b q, pcs(t := RCheck nd a n), s, r)"
proof -
  have "pipe_read_locked w t nd a n = Some (blocked_at w t nd b q, PCheck)"
    using assms by (simp add: pipe_read_locked_def set_next_def blocked_at_def)
  from pipe_step.read_lock [where pcs = pcs, OF assms(1) this] show ?thesis by simp
qed

subsection \<open>Properties\<close>

text \<open>C1: a pipe is a first-in-first-out channel for every interleaving.  In every state reachable
  from a new pipe, by any number of readers and writers whose critical sections interleave with
  each other, with signals, closes and stores to user memory, the bytes taken from writers'
  buffers are exactly the bytes put into readers' buffers followed by the contents of the ring,
  and the ring is well formed.\<close>

theorem pipe_fifo:
  assumes "pipe_step\<^sup>*\<^sup>* (pipe_init m) (w, pcs, sent, received)" and "ring w = Some q"
  shows "ring_ok q \<and> sent = received @ ring_contents q"
  using pipe_reach_inv [OF assms(1) pipe_init_inv(1)] assms(2) by simp

theorem pipe_fifo_witness:
  "\<exists>w pcs q. pipe_step\<^sup>*\<^sup>* (pipe_init (\<lambda>_. 7)) (w, pcs, [7, 7, 7], []) \<and> ring w = Some q \<and>
     ring_contents q = [7, 7, 7]"
proof -
  let ?m = "\<lambda>_. 7 :: u8"
  obtain w0 where init: "pipe_init ?m = (w0, \<lambda>_. Idle, [], [])" "ring w0 = Some pipe_new" "nodes w0 0x8000 = None" "umem w0 = ?m"
    by (simp add: pipe_init_def)
  obtain w pcs q where "quiet_step\<^sup>*\<^sup>* (pipe_init ?m) (w, pcs, user_bytes ?m 0x1000 3, [])" and q: "ring w = Some q"
    using quiet_write [of w0 "\<lambda>_. Idle" "[]" "[]" 1 "0x8000" pipe_new "0x1000" 3] pipe_init_inv [of ?m] init
    by (auto simp: user_addr_range_ok_def pipe_new_def)
  then have reach: "pipe_step\<^sup>*\<^sup>* (pipe_init ?m) (w, pcs, user_bytes ?m 0x1000 3, [])"
    using quiet_run by blast
  from pipe_fifo [OF reach q] reach q show ?thesis by (auto simp: user_bytes_def upt_rec)
qed

text \<open>C9: as long as no signal interferes, no wake-up is lost.  In every state reachable by quiet steps
  both wait lists end, and hold the nodes of exactly the tasks that sleep in a read, or in a write;
  a reader sleeps only while the pipe is empty and its write end open, a writer only while the
  pipe is full and its read end open, and nobody sleeps on a pipe that has been freed.  So every
  section of a call, and every close, runs to its end as long as the pipe has not been freed.\<close>

theorem pipe_no_lost_wakeup:
  assumes "quiet_step\<^sup>*\<^sup>* (pipe_init m) (w, pcs, sent, received)"
  shows "case ring w of
      None \<Rightarrow> \<forall>t. tstate w t = TASK_BLOCKED \<longrightarrow> \<not> reading (pcs t) \<and> \<not> writing (pcs t)
    | Some q \<Rightarrow>
        (\<exists>l. chain (next_of (nodes w)) (blocked_readers q) l \<and>
           set l = {nd. \<exists>t. reading (pcs t) \<and> tstate w t = TASK_BLOCKED \<and> pc_node (pcs t) = Some nd}) \<and>
        (\<exists>l. chain (next_of (nodes w)) (blocked_writers q) l \<and>
           set l = {nd. \<exists>t. writing (pcs t) \<and> tstate w t = TASK_BLOCKED \<and> pc_node (pcs t) = Some nd}) \<and>
        (\<forall>t. reading (pcs t) \<and> tstate w t = TASK_BLOCKED \<longrightarrow> count q = 0 \<and> write_open q) \<and>
        (\<forall>t. writing (pcs t) \<and> tstate w t = TASK_BLOCKED \<longrightarrow> count q = PIPE_BUF_SIZE \<and> read_open q) \<and>
        (\<forall>t nd a n. pcs t = RLock nd a n \<longrightarrow> pipe_read_locked w t nd a n \<noteq> None) \<and>
        (\<forall>t nd a n k. pcs t = WLock nd a n k \<longrightarrow> pipe_write_locked w t nd a n k \<noteq> None) \<and>
        (\<forall>is_read. pipe_close w is_read \<noteq> None)"
proof -
  have w: "waiters_ok w pcs" using quiet_reach_inv [OF assms pipe_init_inv] by simp
  show ?thesis
  proof (cases "ring w")
    case None
    then show ?thesis using w by (auto simp: waiters_ok_def sleeping_defs)
  next
    case (Some q)
    note d = waiters_okD [OF w Some]
    show ?thesis unfolding Some option.case
      by (intro conjI) (use d(2,3) d(4,5) sections_complete [OF w Some] in \<open>simp_all add: wait_list_def sleeping_defs Bex_def conj_assoc\<close>)
  qed
qed

theorem pipe_no_lost_wakeup_witness:
  "\<exists>w pcs q w' pcs'. quiet_step\<^sup>*\<^sup>* (pipe_init (\<lambda>_. 7)) (w, pcs, [], []) \<and> ring w = Some q \<and>
     pcs 1 = RCheck 0x8000 0x1000 3 \<and> tstate w 1 = TASK_BLOCKED \<and>
     (\<exists>l. chain (next_of (nodes w)) (blocked_readers q) l \<and> 0x8000 \<in> set l) \<and>
     quiet_step\<^sup>*\<^sup>* (w, pcs, [], []) (w', pcs', [7], []) \<and> pcs' 1 = RCheck 0x8000 0x1000 3 \<and> tstate w' 1 \<noteq> TASK_BLOCKED"
proof -
  let ?m = "\<lambda>_. 7 :: u8"
  obtain w0 where init: "pipe_init ?m = (w0, \<lambda>_. Idle, [], [])" "ring w0 = Some pipe_new" "nodes w0 = Map.empty" "umem w0 = ?m"
    by (simp add: pipe_init_def)
  let ?b = "\<lparr>bn_task = 1, bn_next = None\<rparr>"
  let ?w1 = "w0\<lparr>nodes := (nodes w0)(0x8000 \<mapsto> ?b)\<rparr>"
  let ?w = "blocked_at ?w1 1 0x8000 ?b pipe_new" and ?pcs = "(\<lambda>_. Idle)(1 := RCheck 0x8000 0x1000 3)"
  have sig: "\<forall>t. \<not> sig_pending w0 t" using pipe_init_inv(2) [of ?m] init by simp
  have call: "quiet_step (pipe_init ?m) (?w1, (\<lambda>_. Idle)(1 := RLock 0x8000 0x1000 3), [], [])"
    unfolding init(1) by (rule quiet_call_read [OF sig _ _ init(2)]) (simp_all add: init(3) pipe_new_def user_addr_range_ok_def)
  have "quiet_step (?w1, (\<lambda>_. Idle)(1 := RLock 0x8000 0x1000 3), [], []) (?w, ?pcs, [], [])"
    using read_blocks [of "(\<lambda>_. Idle)(1 := RLock 0x8000 0x1000 3)" 1 "0x8000" "0x1000" 3 ?w1 ?b pipe_new "[]" "[]"] init(2) sig
    by (simp add: quiet_step_def pipe_new_def)
  with call have reach: "quiet_step\<^sup>*\<^sup>* (pipe_init ?m) (?w, ?pcs, [], [])" by simp
  let ?q = "pipe_new\<lparr>blocked_readers := Some 0x8000\<rparr>"
  obtain w' pcs' q' where run: "quiet_step\<^sup>*\<^sup>* (?w, ?pcs, [], []) (w', pcs', [7], [])" and w': "ring w' = Some q'" "count q' = 1" "pcs' 1 = ?pcs 1"
    using quiet_write [of ?w ?pcs "[]" "[]" 2 "0x9000" ?q "0x1000" 1] quiet_reach_inv [OF reach pipe_init_inv]
    by (auto simp: user_addr_range_ok_def pipe_new_def init user_bytes_def)
  have "quiet_step\<^sup>*\<^sup>* (pipe_init ?m) (w', pcs', [7], [])" using reach run by (rule rtranclp_trans)
  from pipe_no_lost_wakeup [OF this] w' have "tstate w' 1 \<noteq> TASK_BLOCKED" by auto
  moreover have "\<exists>l. chain (next_of (nodes ?w)) (blocked_readers ?q) l \<and> 0x8000 \<in> set l"
  proof -
    from pipe_no_lost_wakeup [OF reach] obtain l where "chain (next_of (nodes ?w)) (blocked_readers ?q) l"
      "set l = {nd. \<exists>t. reading (?pcs t) \<and> tstate ?w t = TASK_BLOCKED \<and> pc_node (?pcs t) = Some nd}" by auto
    then show ?thesis by (intro exI [of _ l]) (auto intro: exI [of _ 1])
  qed
  moreover have "ring ?w = Some ?q" "?pcs 1 = RCheck 0x8000 0x1000 3" "tstate ?w 1 = TASK_BLOCKED" by simp_all
  ultimately show ?thesis using w'(3)
    by (intro exI [of _ ?w] exI [of _ ?pcs] exI [of _ ?q] exI [of _ w'] exI [of _ pcs'] conjI reach run) simp_all
qed

text \<open>C36: closing the write end throws away what the reader has not read yet.  The file's header says
  that a read returns 0 once the write end is closed and the buffer is empty; but \<open>pipe_close\<close> sets
  \<open>closed\<close>, and from then on every read fails with \<open>EPIPE\<close>, although the ring still holds all its
  bytes.\<close>

theorem pipe_close_discards_data:
  assumes "ring w = Some q" and "read_open q" and "pipe_close w False = Some (w', res)"
  shows "\<exists>q'. ring w' = Some q' \<and> ring_contents q' = ring_contents q \<and>
    pipe_read_start w' t nd a n = (w'\<lparr>t_errno := (t_errno w')(t := EPIPE)\<rparr>, Some (- 1))"
  using assms
  by (auto simp: pipe_close_def Let_def pipe_read_start_def bind_eq_Some_conv split: if_splits)

theorem pipe_close_discards_data_witness:
  "\<exists>w' q'. pipe_close (fst (pipe_init (\<lambda>_. 7))\<lparr>ring := Some (pipe_new\<lparr>count := 2, tail := 2\<rparr>)\<rparr>) False = Some (w', 0) \<and>
     ring w' = Some q' \<and> ring_contents q' = [0, 0] \<and>
     pipe_read_start w' 1 0x8000 0x1000 2 = (w'\<lparr>t_errno := (t_errno w')(1 := EPIPE)\<rparr>, Some (- 1))"
proof -
  let ?q = "pipe_new\<lparr>count := 2, tail := 2\<rparr>"
  let ?w = "fst (pipe_init (\<lambda>_. 7))\<lparr>ring := Some ?q\<rparr>"
  obtain w' where run: "pipe_close ?w False = Some (w', 0)"
    by (simp add: pipe_close_def pipe_init_def pipe_new_def pipe_wake.simps Let_def)
  have "ring_contents ?q = [0, 0]" by (simp add: ring_contents_def pipe_new_def upt_rec)
  moreover have "ring ?w = Some ?q" "read_open ?q" by (simp_all add: pipe_new_def)
  ultimately show ?thesis
    using run pipe_close_discards_data [OF _ _ run, of ?q 1 "0x8000" "0x1000" 2] by auto
qed

text \<open>C30: a reader interrupted by a signal wedges the pipe.  A reader about to find the pipe empty
  blocks, a signal makes it ready, and it runs again: it finds the pipe still empty and links its
  node in a second time, now pointing to itself, so that any write at this moment walks round
  that cycle for ever.  Then it sees the signal, unlinks once, which puts the node itself back at
  the head of the list, and returns with \<open>EINTR\<close>: the list of the pipe now begins in a stack frame
  that no longer exists, and every later write that finds space reads it.\<close>

theorem pipe_interrupted_reader_wedges:
  assumes "pcs t = RLock nd a n" and "nodes w nd = Some b" and "\<not> sig_pending w t"
    and "ring w = Some q" and "count q = 0" and "write_open q"
  shows "\<exists>w3 w4 q4. pipe_step\<^sup>*\<^sup>* (w, pcs, s, r) (w3, pcs(t := RCheck nd a n), s, r) \<and>
    nodes w3 nd = Some (b\<lparr>bn_next := Some nd\<rparr>) \<and> (\<forall>t' nd' a' n' k. pipe_write_locked w3 t' nd' a' n' k = None) \<and>
    pipe_step (w3, pcs(t := RCheck nd a n), s, r) (w4, pcs(t := Idle), s, r) \<and> t_errno w4 t = EINTR \<and>
    ring w4 = Some q4 \<and> count q4 = 0 \<and> blocked_readers q4 = Some nd \<and> nodes w4 nd = None \<and>
    (\<forall>t' nd' a' n' k. pipe_write_locked w4 t' nd' a' n' k = None)"
proof -
  let ?pc = "pcs(t := RCheck nd a n)" and ?w1 = "blocked_at w t nd b q"
  let ?w2 = "?w1\<lparr>sig_pending := (sig_pending w)(t := True), tstate := (tstate ?w1)(t := TASK_READY)\<rparr>"
  let ?w2' = "?w2\<lparr>tstate := (tstate ?w2)(t := TASK_RUNNING)\<rparr>"
  let ?b = "b\<lparr>bn_next := blocked_readers q\<rparr>" and ?q = "q\<lparr>blocked_readers := Some nd\<rparr>"
  let ?w3 = "blocked_at ?w2' t nd ?b ?q"
  let ?w4 = "?w3\<lparr>ring := Some ?q, nodes := (nodes ?w3)(nd := None), tstate := (tstate ?w3)(t := TASK_READY), t_errno := (t_errno ?w3)(t := EINTR)\<rparr>"
  have s1: "pipe_step (w, pcs, s, r) (?w1, ?pc, s, r)" using assms by (intro read_blocks) simp_all
  have s2: "pipe_step (?w1, ?pc, s, r) (?w1, ?pc(t := RSched nd a n), s, r)"
    using pipe_step.read_check [of ?pc t nd a n ?w1 ?w1 PSched s r] assms(3) by (simp add: pipe_read_check_def)
  have s3: "pipe_step (?w1, ?pc(t := RSched nd a n), s, r) (?w2, ?pc(t := RSched nd a n), s, r)"
    using pipe_step.signal [of ?w1 "?pc(t := RSched nd a n)" s r t] by simp
  have s4: "pipe_step (?w2, ?pc(t := RSched nd a n), s, r) (?w2', ?pc(t := RLock nd a n), s, r)"
    using pipe_step.read_run [of "?pc(t := RSched nd a n)" t nd a n ?w2 s r] by simp
  have s5: "pipe_step (?w2', ?pc(t := RLock nd a n), s, r) (?w3, ?pc, s, r)"
    using read_blocks [of "?pc(t := RLock nd a n)" t nd a n ?w2' ?b ?q s r] assms by simp
  have run: "pipe_step\<^sup>*\<^sup>* (w, pcs, s, r) (?w3, ?pc, s, r)" 
    by (intro pipe_run_step [OF s1] pipe_run_step [OF s2] pipe_run_step [OF s3] pipe_run_step [OF s4] pipe_run_step [OF s5] rtranclp.rtrancl_refl)
  have "pipe_read_check ?w3 t nd = Some (?w4, PRet (- 1))" by (simp add: pipe_read_check_def pipe_unlink_def)
  then have step: "pipe_step (?w3, ?pc, s, r) (?w4, pcs(t := Idle), s, r)"
    using pipe_step.read_check [of ?pc t nd a n ?w3 ?w4 "PRet (- 1)" s r] by simp
  have "\<forall>t' nd' a' n' k. pipe_write_locked ?w3 t' nd' a' n' k = None"
    using assms(5) pipe_wake_self_loop [of "nodes ?w3" nd] by (simp add: pipe_write_locked_def Let_def)
  moreover have "\<forall>t' nd' a' n' k. pipe_write_locked ?w4 t' nd' a' n' k = None"
    using assms(5) by (simp add: pipe_write_locked_def Let_def pipe_wake.simps)
  ultimately show ?thesis using assms(5)
    by (intro exI [of _ ?w3] exI [of _ ?w4] exI [of _ ?q] conjI run step) simp_all
qed

theorem pipe_interrupted_reader_wedges_witness:
  "\<exists>w3 w4 pcs pcs'. pipe_step\<^sup>*\<^sup>* (pipe_init (\<lambda>_. 7)) (w3, pcs, [], []) \<and> pipe_write_locked w3 2 0x9000 0x2000 5 0 = None \<and>
     pipe_step (w3, pcs, [], []) (w4, pcs', [], []) \<and> pcs' 1 = Idle \<and> t_errno w4 1 = EINTR \<and>
     (\<exists>q4. ring w4 = Some q4 \<and> blocked_readers q4 = Some 0x8000 \<and> nodes w4 0x8000 = None) \<and>
     pipe_write_locked w4 2 0x9000 0x2000 5 0 = None"
proof -
  let ?m = "\<lambda>_. 7 :: u8"
  obtain w0 where init: "pipe_init ?m = (w0, \<lambda>_. Idle, [], [])" "ring w0 = Some pipe_new" "nodes w0 = Map.empty"
    by (simp add: pipe_init_def)
  let ?b = "\<lparr>bn_task = 1, bn_next = None\<rparr>"
  let ?w1 = "w0\<lparr>nodes := (nodes w0)(0x8000 \<mapsto> ?b)\<rparr>" and ?pcs = "(\<lambda>_. Idle)(1 := RLock 0x8000 0x1000 3)"
  have sig: "\<forall>t. \<not> sig_pending w0 t" using pipe_init_inv(2) [of ?m] init by simp
  have call: "quiet_step (pipe_init ?m) (?w1, ?pcs, [], [])"
    unfolding init(1) by (rule quiet_call_read [OF sig _ _ init(2)]) (simp_all add: init(3) pipe_new_def user_addr_range_ok_def)
  obtain w3 w4 q4 where run: "pipe_step\<^sup>*\<^sup>* (?w1, ?pcs, [], []) (w3, ?pcs(1 := RCheck 0x8000 0x1000 3), [], [])"
    and step: "pipe_step (w3, ?pcs(1 := RCheck 0x8000 0x1000 3), [], []) (w4, ?pcs(1 := Idle), [], [])"
    and w: "\<forall>t' nd' a' n' k. pipe_write_locked w3 t' nd' a' n' k = None" "t_errno w4 1 = EINTR"
      "ring w4 = Some q4" "blocked_readers q4 = Some 0x8000" "nodes w4 0x8000 = None"
      "\<forall>t' nd' a' n' k. pipe_write_locked w4 t' nd' a' n' k = None"
    using pipe_interrupted_reader_wedges [of ?pcs 1 "0x8000" "0x1000" 3 ?w1 ?b pipe_new "[]" "[]"] sig init(2)
    by (auto simp: pipe_new_def)
  have reach: "pipe_step\<^sup>*\<^sup>* (pipe_init ?m) (w3, ?pcs(1 := RCheck 0x8000 0x1000 3), [], [])"
    using call run by (auto simp: quiet_step_def intro: converse_rtranclp_into_rtranclp)
  show ?thesis
    by (rule exI [of _ w3], rule exI [of _ w4], rule exI [of _ "?pcs(1 := RCheck 0x8000 0x1000 3)"], rule exI [of _ "?pcs(1 := Idle)"],
        intro conjI reach step exI [of _ q4]) (use w in simp_all)
qed

end
