(* ===== verification/Fdtable.thy ===== *)
theory Fdtable
  imports Tasks
begin

text \<open>
  File descriptor tables, \<^verbatim>\<open>kernel/file.c\<close>, with the reference counting of \<^verbatim>\<open>kernel/vfs.c\<close>
  (\<open>vfs_close\<close>, \<open>vfs_file_dup\<close>).  A table holds 64-bit values that the code casts to pointers; what
  lies at an address is a kernel object.  An access through a pointer of the wrong type, or to
  no object at all, is undefined behaviour (\<open>None\<close>).

  Two effects are parameters: \<open>inode_close\<close>, the call through \<open>inode->ops->close\<close> together with the
  release of the inode, and \<open>unix_close\<close>, what \<^verbatim>\<open>kernel/net/unix.c\<close> does to a real socket; both map
  worlds to worlds.
\<close>

subsection \<open>Objects\<close>

record vfile =
  f_inode :: addr
  f_refcount :: u32

record cap_entry =
  c_magic :: u32
  c_file :: addr
  c_caps :: u32

record unix_sock =
  us_state :: int
  us_refcount :: u32

datatype kobj = KFile vfile | KUnix unix_sock | KCap cap_entry

type_synonym kheap = "addr \<Rightarrow> kobj option"

abbreviation CAP_ENTRY_MAGIC :: u32 where "CAP_ENTRY_MAGIC \<equiv> 0xCAFEFD00"

text \<open>The first four bytes of an object, which \<open>fd_get\<close> and \<open>cap_get\<close> read as \<open>magic\<close>: a file starts with
  its inode pointer, a socket with its state.\<close>

fun obj_magic :: "kobj \<Rightarrow> u32" where
  "obj_magic (KFile f) = ucast (f_inode f)"
| "obj_magic (KUnix s) = word_of_int (us_state s)"
| "obj_magic (KCap c) = c_magic c"

subsection \<open>File references\<close>

text \<open>A count is a C \<open>int\<close>, read with \<^const>\<open>sint\<close>; the atomic increment of \<open>vfs_file_dup\<close> wraps around.\<close>

definition vfs_close :: "(addr \<Rightarrow> kheap \<Rightarrow> kheap) \<Rightarrow> kheap \<Rightarrow> addr \<Rightarrow> (int \<times> kheap) ub" where
  "vfs_close inode_close h filp =
     (if filp = NULL then Some (- 1, h)
      else case h filp of
        Some (KFile f) \<Rightarrow>
          if sint (f_refcount f) \<le> 0 then Some (- 1, h)
          else let f' = f\<lparr>f_refcount := f_refcount f - 1\<rparr>; h1 = h(filp \<mapsto> KFile f') in
            if sint (f_refcount f') > 0 then Some (0, h1)
            else Some (0, (if f_inode f \<noteq> NULL then inode_close (f_inode f) h1 else h1)(filp := None))
      | _ \<Rightarrow> None)"

definition vfs_file_dup :: "kheap \<Rightarrow> addr \<Rightarrow> (int \<times> kheap) ub" where
  "vfs_file_dup h filp =
     (if filp = NULL then Some (- 1, h)
      else case h filp of
        Some (KFile f) \<Rightarrow>
          if sint (f_refcount f) \<le> 0 then Some (- 1, h)
          else Some (0, h(filp \<mapsto> KFile (f\<lparr>f_refcount := f_refcount f + 1\<rparr>)))
      | _ \<Rightarrow> None)"

subsection \<open>Tables\<close>

definition fd_table_init :: "u64 list" where
  "fd_table_init = replicate MAX_FDS FD_UNUSED"

text \<open>The search for an unused entry, from index \<open>i\<close> on.\<close>

fun fd_find_free :: "nat \<Rightarrow> u64 list \<Rightarrow> nat option" where
  "fd_find_free i [] = None"
| "fd_find_free i (e # es) = (if e = FD_UNUSED then Some i else fd_find_free (Suc i) es)"

definition fd_alloc :: "u64 list \<Rightarrow> addr \<Rightarrow> int \<times> u64 list" where
  "fd_alloc tbl filp =
     (if filp = NULL then (- 1, tbl)
      else case fd_find_free 0 tbl of
        Some i \<Rightarrow> (int i, tbl[i := filp])
      | None \<Rightarrow> (- 1, tbl))"

definition fd_valid :: "int \<Rightarrow> bool" where
  "fd_valid fd \<longleftrightarrow> 0 \<le> fd \<and> fd < int MAX_FDS"

definition fd_get :: "kheap \<Rightarrow> u64 list \<Rightarrow> int \<Rightarrow> addr ub" where
  "fd_get h tbl fd =
     (if \<not> fd_valid fd then Some NULL
      else let e = tbl ! nat fd in
        if e = FD_UNUSED then Some NULL
        else do { obj \<leftarrow> h e; Some (if obj_magic obj = CAP_ENTRY_MAGIC then NULL else e) })"

text \<open>The test whether an entry is a socket looks at the pointer only; \<open>NULL\<close> means it is not.\<close>

definition fd_is_unix :: "u64 \<Rightarrow> addr" where
  "fd_is_unix e = (if e = FD_UNUSED \<or> e = 0 \<or> e = 1 \<or> e AND 1 \<noteq> 0 then NULL else e)"

text \<open>Closing as a socket: only for a real socket is it defined.\<close>

definition unix_close_at :: "(addr \<Rightarrow> kheap \<Rightarrow> kheap) \<Rightarrow> kheap \<Rightarrow> addr \<Rightarrow> kheap ub" where
  "unix_close_at unix_close h a =
     (case h a of Some (KUnix s) \<Rightarrow> Some (unix_close a h) | _ \<Rightarrow> None)"

definition fd_close ::
  "(addr \<Rightarrow> kheap \<Rightarrow> kheap) \<Rightarrow> (addr \<Rightarrow> kheap \<Rightarrow> kheap) \<Rightarrow> kheap \<Rightarrow> u64 list \<Rightarrow> int \<Rightarrow>
    (int \<times> kheap \<times> u64 list) ub" where
  "fd_close inode_close unix_close h tbl fd =
     (if \<not> fd_valid fd then Some (- 1, h, tbl)
      else let e = tbl ! nat fd in
        if e = FD_UNUSED then Some (- 1, h, tbl)
        else if fd_is_unix e \<noteq> NULL
        then do { h' \<leftarrow> unix_close_at unix_close h (fd_is_unix e); Some (0, h', tbl[nat fd := FD_UNUSED]) }
        else do { (r, h') \<leftarrow> vfs_close inode_close h e; Some (0, h', tbl[nat fd := FD_UNUSED]) })"

text \<open>\<open>f\<close> is what \<open>vfs_open\<close> returned for the path.\<close>

definition fd_open_path ::
  "(addr \<Rightarrow> kheap \<Rightarrow> kheap) \<Rightarrow> kheap \<Rightarrow> u64 list \<Rightarrow> addr \<Rightarrow> (int \<times> kheap \<times> u64 list) ub" where
  "fd_open_path inode_close h tbl f =
     (if f = NULL then Some (- 1, h, tbl)
      else let (fd, tbl') = fd_alloc tbl f in
        if fd < 0 then do { (r, h') \<leftarrow> vfs_close inode_close h f; Some (- 1, h', tbl') }
        else Some (fd, h, tbl'))"

fun fd_close_all_from ::
  "(addr \<Rightarrow> kheap \<Rightarrow> kheap) \<Rightarrow> (addr \<Rightarrow> kheap \<Rightarrow> kheap) \<Rightarrow> kheap \<Rightarrow> u64 list \<Rightarrow> (kheap \<times> u64 list) ub" where
  "fd_close_all_from inode_close unix_close h [] = Some (h, [])"
| "fd_close_all_from inode_close unix_close h (e # es) =
     do { h1 \<leftarrow> (if e = FD_UNUSED then Some h
                 else if fd_is_unix e \<noteq> NULL then unix_close_at unix_close h (fd_is_unix e)
                 else map_option snd (vfs_close inode_close h e));
          (h2, es') \<leftarrow> fd_close_all_from inode_close unix_close h1 es;
          Some (h2, FD_UNUSED # es') }"

definition fd_close_all ::
  "(addr \<Rightarrow> kheap \<Rightarrow> kheap) \<Rightarrow> (addr \<Rightarrow> kheap \<Rightarrow> kheap) \<Rightarrow> kheap \<Rightarrow> u64 list \<Rightarrow> (kheap \<times> u64 list) ub" where
  "fd_close_all inode_close unix_close h tbl = fd_close_all_from inode_close unix_close h tbl"

text \<open>Changing a socket's count through the cast pointer; an overflow of the signed count is undefined.\<close>

definition unix_ref :: "int \<Rightarrow> kheap \<Rightarrow> addr \<Rightarrow> kheap ub" where
  "unix_ref d h a =
     (case h a of
        Some (KUnix s) \<Rightarrow>
          if sint (us_refcount s) + d \<in> {- (2 ^ 31)..<2 ^ 31}
          then Some (h(a \<mapsto> KUnix (s\<lparr>us_refcount := us_refcount s + word_of_int d\<rparr>))) else None
      | _ \<Rightarrow> None)"

definition fd_dup ::
  "(addr \<Rightarrow> kheap \<Rightarrow> kheap) \<Rightarrow> kheap \<Rightarrow> u64 list \<Rightarrow> int \<Rightarrow> (int \<times> kheap \<times> u64 list) ub" where
  "fd_dup inode_close h tbl oldfd =
     do { f \<leftarrow> fd_get h tbl oldfd;
          if f = NULL then Some (- 1, h, tbl)
          else if fd_is_unix f \<noteq> NULL then
            do { h1 \<leftarrow> unix_ref 1 h (fd_is_unix f);
                 let (newfd, tbl') = fd_alloc tbl f;
                 h2 \<leftarrow> (if newfd < 0 then unix_ref (- 1) h1 (fd_is_unix f) else Some h1);
                 Some (newfd, h2, tbl') }
          else
            do { (r, h1) \<leftarrow> vfs_file_dup h f;
                 let (newfd, tbl') = fd_alloc tbl f;
                 h2 \<leftarrow> (if newfd < 0 then map_option snd (vfs_close inode_close h1 f) else Some h1);
                 Some (newfd, h2, tbl') } }"

definition fd_dup2 ::
  "(addr \<Rightarrow> kheap \<Rightarrow> kheap) \<Rightarrow> (addr \<Rightarrow> kheap \<Rightarrow> kheap) \<Rightarrow> kheap \<Rightarrow> u64 list \<Rightarrow> int \<Rightarrow> int \<Rightarrow>
    (int \<times> kheap \<times> u64 list) ub" where
  "fd_dup2 inode_close unix_close h tbl oldfd newfd =
     (if \<not> fd_valid oldfd \<or> \<not> fd_valid newfd then Some (- 1, h, tbl)
      else if oldfd = newfd then Some (newfd, h, tbl)
      else do { f \<leftarrow> fd_get h tbl oldfd;
                if f = NULL then Some (- 1, h, tbl)
                else
                  do { (h1, tbl1) \<leftarrow> (if tbl ! nat newfd \<noteq> FD_UNUSED
                                      then map_option snd (fd_close inode_close unix_close h tbl newfd)
                                      else Some (h, tbl));
                       if fd_is_unix f \<noteq> NULL
                       then do { h2 \<leftarrow> unix_ref 1 h1 (fd_is_unix f);
                                 Some (newfd, h2, tbl1[nat newfd := f]) }
                       else do { (r, h2) \<leftarrow> vfs_file_dup h1 f;
                                 Some (newfd, h2, tbl1[nat newfd := f]) } } })"

subsection \<open>Allocation\<close>

lemma fd_find_free_Some:
  "fd_find_free i es = Some j \<longleftrightarrow>
    i \<le> j \<and> j - i < length es \<and> es ! (j - i) = FD_UNUSED \<and> (\<forall>k < j - i. es ! k \<noteq> FD_UNUSED)"
proof (induction es arbitrary: i)
  case (Cons e es)
  show ?case
  proof (cases "e = FD_UNUSED")
    case True
    then show ?thesis by (cases "j - i") auto
  next
    case False
    then show ?thesis using Cons.IH [of "Suc i"]
      by (cases "j - i") (auto simp: less_Suc_eq_0_disj Suc_diff_le le_Suc_eq diff_Suc split: nat.splits)
  qed
qed simp

lemma fd_find_free_None: "fd_find_free i es = None \<longleftrightarrow> FD_UNUSED \<notin> set es"
  by (induction es arbitrary: i) auto

subsection \<open>Reference counts\<close>

datatype ref_op = Dup | Close

fun vfs_refs :: "(addr \<Rightarrow> kheap \<Rightarrow> kheap) \<Rightarrow> addr \<Rightarrow> ref_op list \<Rightarrow> kheap \<Rightarrow> kheap ub" where
  "vfs_refs ic filp [] h = Some h"
| "vfs_refs ic filp (Dup # ops) h = do { (r, h') \<leftarrow> vfs_file_dup h filp; vfs_refs ic filp ops h' }"
| "vfs_refs ic filp (Close # ops) h = do { (r, h') \<leftarrow> vfs_close ic h filp; vfs_refs ic filp ops h' }"

text \<open>The number of references after a sequence of operations that starts with \<open>n\<close>; \<open>None\<close> as soon
  as the last one has been dropped, or there are more than a C \<open>int\<close> can count.\<close>

fun refs_after :: "int \<Rightarrow> ref_op list \<Rightarrow> int option" where
  "refs_after n [] = Some n"
| "refs_after n (Dup # ops) = (if n < 2 ^ 31 - 1 then refs_after (n + 1) ops else None)"
| "refs_after n (Close # ops) = (if n > 1 then refs_after (n - 1) ops else None)"

lemma sint_step:
  fixes c :: u32
  shows "sint c < 2 ^ 31 - 1 \<Longrightarrow> sint (c + 1) = sint c + 1" "- (2 ^ 31) < sint c \<Longrightarrow> sint (c - 1) = sint c - 1"
  using sint_greater_eq [of c] sint_less [of c] by (simp_all add: sint_word_ariths signed_take_bit_int_eq_self)

lemma vfs_refs_count:
  "h filp = Some (KFile f) \<Longrightarrow> filp \<noteq> NULL \<Longrightarrow> 0 < sint (f_refcount f) \<Longrightarrow>
    refs_after (sint (f_refcount f)) ops = Some n \<Longrightarrow>
    (\<exists>c. sint c = n \<and> vfs_refs ic filp ops h = Some (h(filp \<mapsto> KFile (f\<lparr>f_refcount := c\<rparr>)))) \<and> 0 < n"
proof (induction ops arbitrary: h f)
  case Nil
  then show ?case by (auto simp: fun_upd_idem intro!: exI [of _ "f_refcount f"])
next
  case (Cons op ops)
  have IH: "(\<exists>c. sint c = n \<and> vfs_refs ic filp ops (h(filp \<mapsto> KFile (f\<lparr>f_refcount := k\<rparr>))) =
      Some (h(filp \<mapsto> KFile (f\<lparr>f_refcount := c\<rparr>)))) \<and> 0 < n"
    if "0 < sint k" "refs_after (sint k) ops = Some n" for k
    using Cons.IH [of "h(filp \<mapsto> KFile (f\<lparr>f_refcount := k\<rparr>))" "f\<lparr>f_refcount := k\<rparr>"]
      Cons.prems(2) that by (simp only: fun_upd_same fun_upd_upd) (simp add: fun_upd_def)
  show ?case
    using Cons.prems IH [of "f_refcount f + 1"] IH [of "f_refcount f - 1"] sint_step [of "f_refcount f"]
    by (cases op) (simp_all add: vfs_file_dup_def vfs_close_def Let_def fun_upd_def split: if_splits)
qed

lemma vfs_refs_append: "vfs_refs ic filp (ops @ ops') h = do { h' \<leftarrow> vfs_refs ic filp ops h; vfs_refs ic filp ops' h' }"
  by (induction ic filp ops h rule: vfs_refs.induct) (auto split: Option.bind_splits)

text \<open>Once the count is not positive, no operation changes anything any more.\<close>

lemma vfs_refs_stuck:
  "h filp = Some (KFile f) \<Longrightarrow> filp \<noteq> NULL \<Longrightarrow> sint (f_refcount f) \<le> 0 \<Longrightarrow> vfs_refs ic filp ops h = Some h"
  by (induction ic filp ops h rule: vfs_refs.induct) (auto simp: vfs_file_dup_def vfs_close_def)

subsection \<open>Properties\<close>

text \<open>C28: descriptors are handed out lowest first, and a new descriptor refers to what was stored.
  For an object that is neither null nor marked as a capability: either every entry is in use and
  the allocation fails without change, or the lowest unused entry is taken, all other entries
  are kept, and \<open>fd_get\<close> on the new descriptor returns the object.\<close>

theorem fd_alloc_lowest:
  assumes "length tbl = MAX_FDS" and "filp \<noteq> NULL" and "filp \<noteq> FD_UNUSED"
    and "h filp = Some obj" and "obj_magic obj \<noteq> CAP_ENTRY_MAGIC"
  shows "fd_alloc tbl filp = (- 1, tbl) \<and> FD_UNUSED \<notin> set tbl \<or>
    (\<exists>i < MAX_FDS. fd_alloc tbl filp = (int i, tbl[i := filp]) \<and> tbl ! i = FD_UNUSED \<and>
       (\<forall>j < i. tbl ! j \<noteq> FD_UNUSED) \<and> fd_get h (tbl[i := filp]) (int i) = Some filp)"
proof (cases "fd_find_free 0 tbl")
  case None
  moreover from this have "FD_UNUSED \<notin> set tbl" using fd_find_free_None by blast
  ultimately show ?thesis using assms(2) by (simp add: fd_alloc_def)
next
  case (Some i)
  then have "i < MAX_FDS" "tbl ! i = FD_UNUSED" "\<forall>j < i. tbl ! j \<noteq> FD_UNUSED"
    using assms(1) by (simp_all add: fd_find_free_Some)
  moreover from this have "fd_get h (tbl[i := filp]) (int i) = Some filp"
    using assms by (simp add: fd_get_def fd_valid_def Let_def)
  ultimately show ?thesis using Some assms(2) by (auto simp: fd_alloc_def)
qed

theorem fd_alloc_lowest_witness:
  "fd_get ((\<lambda>_. None)(0x5000 \<mapsto> KFile \<lparr>f_inode = 0x6000, f_refcount = 1\<rparr>))
     (snd (fd_alloc fd_table_init 0x5000)) 0 = Some 0x5000"
proof -
  let ?h = "(\<lambda>_. None)(0x5000 \<mapsto> KFile \<lparr>f_inode = 0x6000, f_refcount = 1\<rparr>) :: kheap"
  have alloc: "fd_alloc fd_table_init 0x5000 = (0, fd_table_init[0 := 0x5000])"
    using fd_find_free_Some [of 0 fd_table_init 0] by (simp add: fd_alloc_def fd_table_init_def)
  have "fd_alloc fd_table_init 0x5000 = (- 1, fd_table_init) \<and> FD_UNUSED \<notin> set fd_table_init \<or>
    (\<exists>i < MAX_FDS. fd_alloc fd_table_init 0x5000 = (int i, fd_table_init[i := 0x5000]) \<and>
       fd_table_init ! i = FD_UNUSED \<and> (\<forall>j < i. fd_table_init ! j \<noteq> FD_UNUSED) \<and>
       fd_get ?h (fd_table_init[i := 0x5000]) (int i) = Some 0x5000)"
    by (rule fd_alloc_lowest [where obj = "KFile \<lparr>f_inode = 0x6000, f_refcount = 1\<rparr>"])
      (simp_all add: fd_table_init_def)
  with alloc show ?thesis by auto
qed

text \<open>C10: a file is kept exactly as long as it is referenced, up to the width of the counter.  For every
  sequence of duplications and closes that never drops the last reference and never has more
  than 2^31 - 1 of them, the file object stays in place with the count of the references left;
  one more close of a single remaining reference closes the inode once and removes the object.
  At 2^31 - 1 references one more duplication, which is not refused, makes the count negative:
  from then on no sequence of duplications and closes changes the object, which is never released.\<close>

theorem vfs_refs_balance:
  assumes "h filp = Some (KFile f)" and "filp \<noteq> NULL" and "0 < sint (f_refcount f)"
    and "refs_after (sint (f_refcount f)) ops = Some n"
  shows "vfs_refs ic filp ops h = Some (h(filp \<mapsto> KFile (f\<lparr>f_refcount := word_of_int n\<rparr>))) \<and> 0 < n \<and>
    (n = 1 \<longrightarrow> f_inode f \<noteq> NULL \<longrightarrow>
      vfs_refs ic filp (ops @ [Close]) h =
        Some ((ic (f_inode f) (h(filp \<mapsto> KFile (f\<lparr>f_refcount := 0\<rparr>))))(filp := None))) \<and>
    (n = 2 ^ 31 - 1 \<longrightarrow>
      vfs_refs ic filp (ops @ Dup # ops') h = Some (h(filp \<mapsto> KFile (f\<lparr>f_refcount := 0x80000000\<rparr>))))"
proof -
  obtain c where c: "sint c = n" "0 < n" and run: "vfs_refs ic filp ops h = Some (h(filp \<mapsto> KFile (f\<lparr>f_refcount := c\<rparr>)))"
    using vfs_refs_count [of h filp f ops n ic] assms by auto
  have w: "word_of_int n = c" using c(1) by auto
  have "vfs_refs ic filp ops' (h(filp \<mapsto> KFile (f\<lparr>f_refcount := 0x80000000\<rparr>))) = Some (h(filp \<mapsto> KFile (f\<lparr>f_refcount := 0x80000000\<rparr>)))"
    by (rule vfs_refs_stuck [where f = "f\<lparr>f_refcount := 0x80000000\<rparr>"]) (use assms(2) in \<open>simp_all add: sint_uint\<close>)
  moreover have "c + 1 = 0x80000000" if "n = 2 ^ 31 - 1" using that w by auto
  ultimately show ?thesis using assms(2) run c w by (auto simp: vfs_refs_append vfs_close_def vfs_file_dup_def Let_def)
qed

theorem vfs_refs_balance_witness:
  "vfs_refs (\<lambda>_ h. h) 0x5000 [Dup, Close, Close] ((\<lambda>_. None)(0x5000 \<mapsto> KFile \<lparr>f_inode = 0x6000, f_refcount = 1\<rparr>)) =
     Some (\<lambda>_. None) \<and>
   vfs_refs (\<lambda>_ h. h) 0x5000 [Close, Dup, Dup, Close] ((\<lambda>_. None)(0x5000 \<mapsto> KFile \<lparr>f_inode = 0x6000, f_refcount = 0x7FFFFFFF\<rparr>)) =
     Some ((\<lambda>_. None)(0x5000 \<mapsto> KFile \<lparr>f_inode = 0x6000, f_refcount = 0x80000000\<rparr>))"
  using vfs_refs_balance [of "(\<lambda>_. None)(0x5000 \<mapsto> KFile \<lparr>f_inode = 0x6000, f_refcount = 1\<rparr>)" "0x5000"
      "\<lparr>f_inode = 0x6000, f_refcount = 1\<rparr>" "[Dup, Close]" 1 "\<lambda>_ h. h"]
    vfs_refs_balance [of "(\<lambda>_. None)(0x5000 \<mapsto> KFile \<lparr>f_inode = 0x6000, f_refcount = 0x7FFFFFFF\<rparr>)" "0x5000"
      "\<lparr>f_inode = 0x6000, f_refcount = 0x7FFFFFFF\<rparr>" "[Close, Dup]" "2 ^ 31 - 1" "\<lambda>_ h. h" "[Close]"]
  by simp

text \<open>C37: closing a regular file goes to the wrong handler.  \<open>fd_is_unix\<close> takes every even non-null
  pointer for a socket, and \<open>kmalloc\<close> returns only such pointers: for every open descriptor that
  refers to a file, \<open>fd_close\<close> treats the file object as a socket, which is undefined behaviour,
  and never reaches \<open>vfs_close\<close>.\<close>

theorem fd_close_confuses_files:
  assumes "fd_valid fd" and "tbl ! nat fd = filp" and "filp \<noteq> NULL" and "filp AND 1 = 0"
    and "h filp = Some (KFile f)"
  shows "fd_close inode_close unix_close h tbl fd = None"
proof -
  have "filp \<noteq> FD_UNUSED" "filp \<noteq> 1" using assms(4) by auto
  with assms show ?thesis
    by (simp add: fd_close_def Let_def fd_is_unix_def unix_close_at_def)
qed

theorem fd_close_confuses_files_witness:
  "fd_close (\<lambda>_ h. h) (\<lambda>_ h. h) ((\<lambda>_. None)(0x5000 \<mapsto> KFile \<lparr>f_inode = 0x6000, f_refcount = 1\<rparr>))
     (fd_table_init[3 := 0x5000]) 3 = None"
  by (rule fd_close_confuses_files [where filp = "0x5000" and f = "\<lparr>f_inode = 0x6000, f_refcount = 1\<rparr>"])
    (simp_all add: fd_valid_def fd_table_init_def)

end
