(* ===== verification/Capability.thy ===== *)
theory Capability
  imports Fdtable
begin

text \<open>
  Capability descriptors, \<^verbatim>\<open>kernel/capability.c\<close>: table entries that point to a \<open>cap_entry\<close> wrapping a
  file with a set of rights.  The address \<open>kmalloc\<close> returns for a new entry is an argument (0 when
  it fails).  Taking and releasing a reference on the target task in \<open>fd_send\<close> cancel out and are
  not part of the state.
\<close>

subsection \<open>State\<close>

abbreviation CAP_SEND :: u32 where "CAP_SEND \<equiv> 0x8"

record cap_task =
  ct_pid :: int
  ct_state :: task_state
  ct_fds :: "u64 list"
  ct_children :: "int list"
  cap_effective :: u64
  cap_permitted :: u64

subsection \<open>Entries\<close>

text \<open>\<open>NULL\<close> when the descriptor is out of range, unused or not a capability.\<close>

definition cap_get :: "kheap \<Rightarrow> u64 list \<Rightarrow> int \<Rightarrow> addr ub" where
  "cap_get h tbl fd =
     (if \<not> fd_valid fd then Some NULL
      else let e = tbl ! nat fd in
        if e = FD_UNUSED then Some NULL
        else do { obj \<leftarrow> h e; Some (if obj_magic obj \<noteq> CAP_ENTRY_MAGIC then NULL else e) })"

text \<open>Reading an object as a capability entry.\<close>

definition cap_at :: "kheap \<Rightarrow> addr \<Rightarrow> cap_entry ub" where
  "cap_at h a = (case h a of Some (KCap c) \<Rightarrow> Some c | _ \<Rightarrow> None)"

text \<open>The union of the rights a table holds, from entry \<open>i\<close> on.\<close>

fun held_caps_from :: "kheap \<Rightarrow> u64 list \<Rightarrow> nat \<Rightarrow> nat \<Rightarrow> u32 \<Rightarrow> u32 ub" where
  "held_caps_from h tbl i 0 acc = Some acc"
| "held_caps_from h tbl i (Suc n) acc =
     (if tbl ! i \<noteq> FD_UNUSED
      then do { e \<leftarrow> cap_get h tbl (int i);
                acc' \<leftarrow> (if e \<noteq> NULL then do { c \<leftarrow> cap_at h e; Some (acc OR c_caps c) } else Some acc);
                held_caps_from h tbl (Suc i) n acc' }
      else held_caps_from h tbl (Suc i) n acc)"

definition held_caps :: "kheap \<Rightarrow> u64 list \<Rightarrow> u32 ub" where
  "held_caps h tbl = held_caps_from h tbl 0 MAX_FDS 0"

text \<open>\<open>a\<close> is the address \<open>kmalloc\<close> returns.\<close>

definition cap_fd_alloc ::
  "kheap \<Rightarrow> int \<Rightarrow> u64 list \<Rightarrow> addr \<Rightarrow> u32 \<Rightarrow> addr \<Rightarrow> (int \<times> kheap \<times> u64 list) ub" where
  "cap_fd_alloc h pid tbl filp caps a =
     (if filp = NULL then Some (- 1, h, tbl)
      else do {
        held \<leftarrow> (if pid \<noteq> 1 then held_caps h tbl else Some caps);
        if caps AND NOT held \<noteq> 0 then Some (- 1, h, tbl)
        else if a = NULL then Some (- 1, h, tbl)
        else case fd_find_free 0 tbl of
               Some i \<Rightarrow> Some (int i, h(a \<mapsto> KCap \<lparr>c_magic = CAP_ENTRY_MAGIC, c_file = filp, c_caps = caps\<rparr>),
                               tbl[i := a])
             | None \<Rightarrow> Some (- 1, h(a := None), tbl) })"

definition cap_fd_get_file :: "kheap \<Rightarrow> u64 list \<Rightarrow> int \<Rightarrow> addr ub" where
  "cap_fd_get_file h tbl fd =
     do { e \<leftarrow> cap_get h tbl fd;
          if e = NULL then Some NULL else do { c \<leftarrow> cap_at h e; Some (c_file c) } }"

definition cap_fd_close ::
  "(addr \<Rightarrow> kheap \<Rightarrow> kheap) \<Rightarrow> kheap \<Rightarrow> u64 list \<Rightarrow> int \<Rightarrow> (int \<times> kheap \<times> u64 list) ub" where
  "cap_fd_close inode_close h tbl fd =
     do { e \<leftarrow> cap_get h tbl fd;
          if e = NULL then Some (- 1, h, tbl)
          else do { c \<leftarrow> cap_at h e;
                    (r, h1) \<leftarrow> vfs_close inode_close h (c_file c);
                    Some (0, h1(e := None), tbl[nat fd := FD_UNUSED]) } }"

fun cap_fd_close_all_from ::
  "(addr \<Rightarrow> kheap \<Rightarrow> kheap) \<Rightarrow> kheap \<Rightarrow> u64 list \<Rightarrow> nat \<Rightarrow> nat \<Rightarrow> (kheap \<times> u64 list) ub" where
  "cap_fd_close_all_from inode_close h tbl i 0 = Some (h, tbl)"
| "cap_fd_close_all_from inode_close h tbl i (Suc n) =
     (let e = tbl ! i in
      if e = FD_UNUSED then cap_fd_close_all_from inode_close h tbl (Suc i) n
      else do { obj \<leftarrow> h e;
                if obj_magic obj \<noteq> CAP_ENTRY_MAGIC then cap_fd_close_all_from inode_close h tbl (Suc i) n
                else do { c \<leftarrow> cap_at h e;
                          (r, h1) \<leftarrow> vfs_close inode_close h (c_file c);
                          cap_fd_close_all_from inode_close (h1(e := None)) (tbl[i := FD_UNUSED])
                            (Suc i) n } })"

definition cap_fd_close_all ::
  "(addr \<Rightarrow> kheap \<Rightarrow> kheap) \<Rightarrow> kheap \<Rightarrow> u64 list \<Rightarrow> (kheap \<times> u64 list) ub" where
  "cap_fd_close_all inode_close h tbl = cap_fd_close_all_from inode_close h tbl 0 MAX_FDS"

subsection \<open>Checks\<close>

definition cap_can_kill :: "cap_task \<Rightarrow> int \<Rightarrow> bool" where "cap_can_kill caller target_pid = True"
definition cap_can_setuid :: "cap_task \<Rightarrow> int \<Rightarrow> bool" where "cap_can_setuid caller new_uid = True"
definition cap_can_chown :: "cap_task \<Rightarrow> string \<Rightarrow> int \<Rightarrow> int \<Rightarrow> bool" where
  "cap_can_chown caller path uid gid = True"

text \<open>The shift is defined for bits 0 to 63 only.\<close>

definition cap_has_capability :: "cap_task option \<Rightarrow> int \<Rightarrow> bool ub" where
  "cap_has_capability current cap =
     (case current of
        None \<Rightarrow> Some False
      | Some t \<Rightarrow>
          if cap < 0 \<or> 64 \<le> cap then None
          else Some (cap_effective t AND push_bit (nat cap) 1 \<noteq> 0 \<or> cap_permitted t AND push_bit (nat cap) 1 \<noteq> 0))"

definition fd_check_cap :: "kheap \<Rightarrow> u64 list \<Rightarrow> int \<Rightarrow> u32 \<Rightarrow> int ub" where
  "fd_check_cap h tbl fd required =
     do { e \<leftarrow> cap_get h tbl fd;
          if e = NULL then Some (- 1)
          else do { c \<leftarrow> cap_at h e; Some (if c_caps c AND required \<noteq> required then - 1 else 0) } }"

subsection \<open>Derivation and transfer\<close>

definition fd_derive ::
  "(addr \<Rightarrow> kheap \<Rightarrow> kheap) \<Rightarrow> kheap \<Rightarrow> cap_task \<Rightarrow> int \<Rightarrow> u32 \<Rightarrow> addr \<Rightarrow> (int \<times> kheap \<times> cap_task) ub" where
  "fd_derive inode_close h t old_fd new_caps a =
     do { e \<leftarrow> cap_get h (ct_fds t) old_fd;
          if e = NULL then Some (- 1, h, t)
          else do {
            c \<leftarrow> cap_at h e;
            if new_caps AND NOT (c_caps c) \<noteq> 0 then Some (- 1, h, t)
            else do {
              (r, h1) \<leftarrow> vfs_file_dup h (c_file c);
              (new_fd, h2, tbl) \<leftarrow> cap_fd_alloc h1 (ct_pid t) (ct_fds t) (c_file c) new_caps a;
              h3 \<leftarrow> (if new_fd < 0 then map_option snd (vfs_close inode_close h2 (c_file c)) else Some h2);
              Some (new_fd, h3, t\<lparr>ct_fds := tbl\<rparr>) } } }"

text \<open>\<open>fd_send\<close> from the task \<open>cur\<close>; \<open>tasks\<close> finds tasks by pid.\<close>

definition fd_send ::
  "kheap \<Rightarrow> (int \<rightharpoonup> cap_task) \<Rightarrow> int \<Rightarrow> int \<Rightarrow> int \<Rightarrow> addr \<Rightarrow> (int \<times> kheap \<times> (int \<rightharpoonup> cap_task)) ub" where
  "fd_send h tasks cur fd target_pid a =
     do { t \<leftarrow> tasks cur;
          e \<leftarrow> cap_get h (ct_fds t) fd;
          if e = NULL then Some (- 1, h, tasks)
          else do {
            c \<leftarrow> cap_at h e;
            if c_caps c AND CAP_SEND = 0 then Some (- 1, h, tasks)
            else if target_pid = ct_pid t then Some (- 1, h, tasks)
            else case tasks target_pid of
              None \<Rightarrow> Some (- 1, h, tasks)
            | Some target \<Rightarrow>
                if ct_state target = TASK_DEAD \<or> ct_state target = TASK_ZOMBIE then Some (- 1, h, tasks)
                else if ct_pid t \<noteq> 1 \<and> target_pid \<notin> set (ct_children t) then Some (- 1, h, tasks)
                else do {
                  (new_fd, h1, tbl) \<leftarrow>
                    cap_fd_alloc h (ct_pid target) (ct_fds target) (c_file c) (c_caps c) a;
                  if new_fd < 0 then Some (- 1, h1, tasks)
                  else Some (0, h1(e := None),
                             tasks(target_pid \<mapsto> target\<lparr>ct_fds := tbl\<rparr>,
                                   cur \<mapsto> t\<lparr>ct_fds := (ct_fds t)[nat fd := FD_UNUSED]\<rparr>)) } } }"

subsection \<open>The rights a table holds\<close>

definition entry_right :: "kheap \<Rightarrow> u64 \<Rightarrow> nat \<Rightarrow> bool" where
  "entry_right h e r \<longleftrightarrow>
     (\<exists>c. e \<noteq> FD_UNUSED \<and> h e = Some (KCap c) \<and> c_magic c = CAP_ENTRY_MAGIC \<and> bit (c_caps c) r)"

definition held :: "kheap \<Rightarrow> u64 list \<Rightarrow> nat set" where
  "held h tbl = {r. \<exists>i < MAX_FDS. entry_right h (tbl ! i) r}"

lemma cap_get_cases:
  assumes "cap_get h tbl (int i) = Some e" and "i < MAX_FDS" and "h NULL = None"
  shows "e \<noteq> NULL \<and> e = tbl ! i \<and> e \<noteq> FD_UNUSED \<and> (\<exists>obj. h e = Some obj \<and> obj_magic obj = CAP_ENTRY_MAGIC) \<or>
    e = NULL \<and> (\<forall>c. tbl ! i \<noteq> FD_UNUSED \<longrightarrow> h (tbl ! i) = Some (KCap c) \<longrightarrow> c_magic c \<noteq> CAP_ENTRY_MAGIC)"
  using assms by (cases "tbl ! i = NULL") (auto simp: cap_get_def fd_valid_def Let_def bind_eq_Some_conv split: if_splits)

lemma held_caps_from_bits:
  assumes "h NULL = None"
  shows "held_caps_from h tbl i n acc = Some m \<Longrightarrow> i + n \<le> MAX_FDS \<Longrightarrow>
    bit m r \<longleftrightarrow> bit acc r \<or> (\<exists>j. i \<le> j \<and> j < i + n \<and> entry_right h (tbl ! j) r)"
proof (induction n arbitrary: i acc)
  case (Suc n)
  have split: "(\<exists>j. i \<le> j \<and> j < i + Suc n \<and> P j) \<longleftrightarrow> P i \<or> (\<exists>j. Suc i \<le> j \<and> j < Suc i + n \<and> P j)" for P
    by (metis Suc_le_eq add_Suc_right add_Suc_shift le_eq_less_or_eq less_add_Suc1 order_refl)
  show ?case
  proof (cases "tbl ! i = FD_UNUSED")
    case True
    then have "held_caps_from h tbl (Suc i) n acc = Some m" using Suc.prems(1) by simp
    from Suc.IH [OF this] Suc.prems(2) True show ?thesis
      unfolding split by (simp add: entry_right_def)
  next
    case False
    with Suc.prems obtain e acc' where e: "cap_get h tbl (int i) = Some e"
      and acc': "(if e \<noteq> NULL then do { c \<leftarrow> cap_at h e; Some (acc OR c_caps c) } else Some acc) = Some acc'"
      and rest: "held_caps_from h tbl (Suc i) n acc' = Some m"
      by (auto simp: bind_eq_Some_conv)
    have "bit acc' r \<longleftrightarrow> bit acc r \<or> entry_right h (tbl ! i) r"
      using cap_get_cases [OF e _ assms] Suc.prems(2) acc'
      by (auto simp: entry_right_def cap_at_def bit_or_iff split: if_splits option.splits kobj.splits)
    with Suc.IH [OF rest] Suc.prems(2) show ?thesis unfolding split by auto
  qed
qed auto

lemma held_caps_bits:
  assumes "h NULL = None" and "held_caps h tbl = Some m"
  shows "held h tbl = {r. bit m r}"
  using held_caps_from_bits [of h tbl 0 MAX_FDS 0 m] assms
  by (auto simp: held_caps_def held_def)

subsection \<open>Runs of capability operations\<close>

fun is_cap :: "kobj option \<Rightarrow> bool" where
  "is_cap (Some (KCap c)) = True"
| "is_cap _ = False"

text \<open>The entry in slot \<open>i\<close> of task \<open>p\<close>, \<open>None\<close> when unused.\<close>

definition slot :: "(int \<rightharpoonup> cap_task) \<Rightarrow> int \<times> nat \<Rightarrow> u64 option" where
  "slot tasks = (\<lambda>(p, i). case tasks p of
     None \<Rightarrow> None
   | Some t \<Rightarrow> if i < MAX_FDS \<and> ct_fds t ! i \<noteq> FD_UNUSED then Some (ct_fds t ! i) else None)"

text \<open>Every used entry points to an object, and no capability entry is in two slots.\<close>

definition caps_wf :: "kheap \<Rightarrow> (int \<rightharpoonup> cap_task) \<Rightarrow> bool" where
  "caps_wf h tasks \<longleftrightarrow> h NULL = None \<and>
     (\<forall>p t. tasks p = Some t \<longrightarrow> ct_pid t = p \<and> length (ct_fds t) = MAX_FDS) \<and>
     (\<forall>x e. slot tasks x = Some e \<longrightarrow> h e \<noteq> None) \<and>
     (\<forall>x y e. slot tasks x = Some e \<longrightarrow> slot tasks y = Some e \<longrightarrow> is_cap (h e) \<longrightarrow> x = y)"

definition rights :: "kheap \<Rightarrow> (int \<rightharpoonup> cap_task) \<Rightarrow> int \<Rightarrow> nat set" where
  "rights h tasks p = {r. \<exists>i e. slot tasks (p, i) = Some e \<and> entry_right h e r}"

text \<open>An address \<open>kmalloc\<close> may return: null, or that of no live object.\<close>

definition fresh :: "kheap \<Rightarrow> addr \<Rightarrow> bool" where
  "fresh h a \<longleftrightarrow> h a = None \<and> a \<noteq> FD_UNUSED"

text \<open>One operation of some task: allocating a capability descriptor in its own table, deriving
  one, or sending one.\<close>

inductive cap_step ::
  "(addr \<Rightarrow> kheap \<Rightarrow> kheap) \<Rightarrow> kheap \<times> (int \<rightharpoonup> cap_task) \<Rightarrow> kheap \<times> (int \<rightharpoonup> cap_task) \<Rightarrow> bool"
  for inode_close where
  alloc: "tasks p = Some t \<Longrightarrow> fresh h a \<Longrightarrow>
    cap_fd_alloc h (ct_pid t) (ct_fds t) filp caps a = Some (r, h', tbl) \<Longrightarrow>
    cap_step inode_close (h, tasks) (h', tasks(p \<mapsto> t\<lparr>ct_fds := tbl\<rparr>))"
| derive: "tasks p = Some t \<Longrightarrow> fresh h a \<Longrightarrow>
    fd_derive inode_close h t old_fd caps a = Some (r, h', t') \<Longrightarrow>
    cap_step inode_close (h, tasks) (h', tasks(p \<mapsto> t'))"
| send: "fresh h a \<Longrightarrow> fd_send h tasks p fd target_pid a = Some (r, h', tasks') \<Longrightarrow>
    cap_step inode_close (h, tasks) (h', tasks')"

lemma rights_held: "tasks p = Some t \<Longrightarrow> rights h tasks p = held h (ct_fds t)"
  by (auto simp: rights_def held_def slot_def entry_right_def)

lemma slot_update:
  assumes "tasks p = Some t" and "i < MAX_FDS" and "length (ct_fds t) = MAX_FDS"
  shows "slot (tasks(p \<mapsto> t\<lparr>ct_fds := (ct_fds t)[i := v]\<rparr>)) =
    (slot tasks)((p, i) := (if v = FD_UNUSED then None else Some v))"
  using assms by (auto simp: slot_def fun_eq_iff)

lemma slot_same_fds: "tasks p = Some t \<Longrightarrow> ct_fds t' = ct_fds t \<Longrightarrow> slot (tasks(p \<mapsto> t')) = slot tasks"
  by (auto simp: slot_def fun_eq_iff)

lemma fd_find_free_index:
  "fd_find_free 0 tbl = Some i \<Longrightarrow> length tbl = MAX_FDS \<Longrightarrow> i < MAX_FDS \<and> tbl ! i = FD_UNUSED"
  using fd_find_free_Some [of 0 tbl i] by simp

lemma cap_fd_alloc_cases:
  assumes "cap_fd_alloc h pid tbl filp caps a = Some (r, h', tbl')" and "h a = None"
  shows "r = - 1 \<and> h' = h \<and> tbl' = tbl \<or>
    (\<exists>i. fd_find_free 0 tbl = Some i \<and> r = int i \<and> tbl' = tbl[i := a] \<and> a \<noteq> NULL \<and>
       h' = h(a \<mapsto> KCap \<lparr>c_magic = CAP_ENTRY_MAGIC, c_file = filp, c_caps = caps\<rparr>) \<and>
       (pid \<noteq> 1 \<longrightarrow> (\<exists>m. held_caps h tbl = Some m \<and> caps AND NOT m = 0)))"
  using assms
  by (auto simp: cap_fd_alloc_def bind_eq_Some_conv fun_upd_idem split: if_splits option.splits)

lemma subset_bits:
  assumes "(x :: u32) AND NOT y = 0" and "bit x r"
  shows "bit y r"
proof (rule ccontr)
  assume "\<not> bit y r"
  then have "bit (x AND NOT y) r"
    using assms(2) bit_imp_le_length [OF assms(2)] by (simp add: bit_simps)
  with assms(1) show False by simp
qed

text \<open>A successful allocation for task \<open>p\<close> keeps the state well formed and gives no task but the
  first new rights.\<close>

lemma cap_fd_alloc_wf:
  assumes wf: "caps_wf h tasks" and p: "tasks p = Some t" and a: "fresh h a"
    and alloc: "cap_fd_alloc h (ct_pid t) (ct_fds t) filp caps a = Some (r, h', tbl)"
  shows "caps_wf h' (tasks(p \<mapsto> t\<lparr>ct_fds := tbl\<rparr>)) \<and>
    (\<forall>q. q \<noteq> 1 \<longrightarrow> rights h' (tasks(p \<mapsto> t\<lparr>ct_fds := tbl\<rparr>)) q \<subseteq> rights h tasks q)"
proof -
  have t: "ct_pid t = p" "length (ct_fds t) = MAX_FDS" "h NULL = None" using wf p by (auto simp: caps_wf_def)
  consider (fail) "h' = h" "tbl = ct_fds t"
    | (ok) i where "fd_find_free 0 (ct_fds t) = Some i" "tbl = (ct_fds t)[i := a]" "a \<noteq> NULL"
      "h' = h(a \<mapsto> KCap \<lparr>c_magic = CAP_ENTRY_MAGIC, c_file = filp, c_caps = caps\<rparr>)"
      "p \<noteq> 1 \<longrightarrow> (\<exists>m. held_caps h (ct_fds t) = Some m \<and> caps AND NOT m = 0)"
    using cap_fd_alloc_cases [OF alloc] a t(1) by (auto simp: fresh_def)
  then show ?thesis
  proof cases
    case fail
    then have "tasks(p \<mapsto> t\<lparr>ct_fds := tbl\<rparr>) = tasks" using p by (auto simp: fun_eq_iff)
    with wf fail show ?thesis by simp
  next
    case (ok i)
    have i: "i < MAX_FDS" "ct_fds t ! i = FD_UNUSED" using fd_find_free_index [OF ok(1) t(2)] by simp_all
    then have free: "slot tasks (p, i) = None" using p by (simp add: slot_def)
    have a': "a \<noteq> FD_UNUSED" "h a = None" using a by (simp_all add: fresh_def)
    let ?ts = "tasks(p \<mapsto> t\<lparr>ct_fds := tbl\<rparr>)"
    have slots: "slot ?ts = (slot tasks)((p, i) := Some a)"
      using slot_update [of tasks p t i a] p i(1) t(2) a'(1) ok(2) by simp
    have not_a: "slot tasks x \<noteq> Some a" for x using wf a'(2) unfolding caps_wf_def by blast
    have "caps_wf h' ?ts"
      using wf p ok(3) not_a t unfolding caps_wf_def slots ok(4)
      by (auto simp: ok(2) simp del: split_paired_All split: if_splits)
    moreover have "rights h' ?ts q \<subseteq> rights h tasks q" if q: "q \<noteq> 1" for q
    proof
      fix r assume "r \<in> rights h' ?ts q"
      then obtain j e where e: "slot ?ts (q, j) = Some e" "entry_right h' e r" by (auto simp: rights_def)
      show "r \<in> rights h tasks q"
      proof (cases "(q, j) = (p, i)")
        case True
        then have "e = a" "bit caps r" using e slots by (auto simp: ok(4) entry_right_def)
        moreover obtain m where "held_caps h (ct_fds t) = Some m" "caps AND NOT m = 0"
          using ok(5) q True by auto
        ultimately show ?thesis
          using held_caps_bits [of h "ct_fds t"] t(3) subset_bits rights_held [of tasks p t h] p True by blast
      next
        case False
        then have "slot tasks (q, j) = Some e" using e(1) slots by auto
        moreover from this have "e \<noteq> a" using not_a by metis
        ultimately show ?thesis using e(2) by (auto simp: rights_def entry_right_def ok(4))
      qed
    qed
    ultimately show ?thesis by blast
  qed
qed

text \<open>Changing reference counts of files does not touch capabilities.\<close>

definition same_caps :: "kheap \<Rightarrow> kheap \<Rightarrow> bool" where
  "same_caps h h' \<longleftrightarrow> (\<forall>x. (h x = None \<longleftrightarrow> h' x = None) \<and> (\<forall>c. h x = Some (KCap c) \<longleftrightarrow> h' x = Some (KCap c)))"

lemma same_caps_rights: "same_caps h h' \<Longrightarrow> rights h' tasks p = rights h tasks p"
  by (auto simp: same_caps_def rights_def entry_right_def)

lemma same_caps_is_cap: "same_caps h h' \<Longrightarrow> is_cap (h' x) = is_cap (h x)"
  unfolding same_caps_def by (metis is_cap.elims(2) is_cap.simps(1))

lemma same_caps_wf:
  assumes "same_caps h h'" and "caps_wf h tasks"
  shows "caps_wf h' tasks"
proof -
  have "(h' x = None) = (h x = None)" for x using assms(1) unfolding same_caps_def by blast
  with assms(2) same_caps_is_cap [OF assms(1)] show ?thesis unfolding caps_wf_def
    by (simp only: simp_thms) blast
qed

lemma vfs_file_dup_same: "vfs_file_dup h f = Some (r, h') \<Longrightarrow> same_caps h h'"
  by (auto simp: vfs_file_dup_def same_caps_def split: if_splits option.splits kobj.splits)

lemma dup_close_same:
  assumes "vfs_file_dup h f = Some (r, h1)" and "vfs_close ic h1 f = Some (r', h2)"
  shows "same_caps h h2"
  using assms
  by (auto simp: vfs_file_dup_def vfs_close_def same_caps_def Let_def
      split: if_splits option.splits kobj.splits)

lemma fd_derive_cases:
  assumes "fd_derive ic h t fd caps a = Some (r, h', t')"
  obtains (refuse) "h' = h" "t' = t"
    | (go) f r1 h1 n h2 tbl where "vfs_file_dup h f = Some (r1, h1)"
      "cap_fd_alloc h1 (ct_pid t) (ct_fds t) f caps a = Some (n, h2, tbl)" "t' = t\<lparr>ct_fds := tbl\<rparr>"
      "(if n < 0 then map_option snd (vfs_close ic h2 f) else Some h2) = Some h'"
proof -
  obtain e where e: "cap_get h (ct_fds t) fd = Some e"
    using assms unfolding fd_derive_def by (cases "cap_get h (ct_fds t) fd") simp_all
  show thesis
  proof (cases "e = NULL")
    case True
    with assms e refuse show thesis by (simp add: fd_derive_def)
  next
    case False
    then obtain c where c: "cap_at h e = Some c"
      using assms e unfolding fd_derive_def by (cases "cap_at h e") simp_all
    show thesis
    proof (cases "caps AND NOT (c_caps c) = 0")
      case False
      with assms e c \<open>e \<noteq> NULL\<close> refuse show thesis by (simp add: fd_derive_def)
    next
      case True
      obtain r1 h1 where dup: "vfs_file_dup h (c_file c) = Some (r1, h1)"
        using assms e c \<open>e \<noteq> NULL\<close> True unfolding fd_derive_def
        by (cases "vfs_file_dup h (c_file c)") auto
      obtain n h2 tbl where alloc: "cap_fd_alloc h1 (ct_pid t) (ct_fds t) (c_file c) caps a = Some (n, h2, tbl)"
        using assms e c \<open>e \<noteq> NULL\<close> True dup unfolding fd_derive_def
        by (cases "cap_fd_alloc h1 (ct_pid t) (ct_fds t) (c_file c) caps a") auto
      have "do { h3 \<leftarrow> (if n < 0 then map_option snd (vfs_close ic h2 (c_file c)) else Some h2);
          Some (n, h3, t\<lparr>ct_fds := tbl\<rparr>) } = Some (r, h', t')"
        using assms e c \<open>e \<noteq> NULL\<close> True dup alloc by (simp add: fd_derive_def)
      then have "(if n < 0 then map_option snd (vfs_close ic h2 (c_file c)) else Some h2) = Some h'"
        "t' = t\<lparr>ct_fds := tbl\<rparr>" by (simp_all only: bind_eq_Some_conv) auto
      with dup alloc go show thesis by blast
    qed
  qed
qed

lemma fd_derive_wf:
  assumes wf: "caps_wf h tasks" and p: "tasks p = Some t" and a: "fresh h a"
    and derive: "fd_derive ic h t fd caps a = Some (r, h', t')"
  shows "caps_wf h' (tasks(p \<mapsto> t')) \<and> (\<forall>q. q \<noteq> 1 \<longrightarrow> rights h' (tasks(p \<mapsto> t')) q \<subseteq> rights h tasks q)"
  using derive
proof (cases rule: fd_derive_cases)
  case refuse
  then have "tasks(p \<mapsto> t') = tasks" using p by auto
  with wf refuse show ?thesis by simp
next
  case (go f r1 h1 n h2 tbl)
  have same: "same_caps h h1" using go(1) by (rule vfs_file_dup_same)
  have a1: "fresh h1 a" using a same by (simp add: fresh_def same_caps_def)
  show ?thesis
  proof (cases "n < 0")
    case True
    have "h2 = h1" "tbl = ct_fds t"
      using cap_fd_alloc_cases [OF go(2)] a1 True by (auto simp: fresh_def)
    moreover obtain r2 where "vfs_close ic h2 f = Some (r2, h')"
      using go(4) True by auto
    ultimately have "same_caps h h'" and ts: "tasks(p \<mapsto> t') = tasks"
      using go(3) p dup_close_same [OF go(1)] by auto
    then show ?thesis using same_caps_wf [OF _ wf] same_caps_rights unfolding ts by blast
  next
    case False
    from cap_fd_alloc_wf [OF same_caps_wf [OF same wf] p a1 go(2)] show ?thesis
      using False go(3,4) same_caps_rights [OF same] by simp
  qed
qed

text \<open>Freeing a capability entry together with the only slot that refers to it.\<close>

lemma cap_remove_wf:
  assumes wf: "caps_wf h tasks" and p: "tasks p = Some t" and i: "i < MAX_FDS"
    and e: "ct_fds t ! i = e" "e \<noteq> FD_UNUSED" "is_cap (h e)"
  shows "caps_wf (h(e := None)) (tasks(p \<mapsto> t\<lparr>ct_fds := (ct_fds t)[i := FD_UNUSED]\<rparr>)) \<and>
    (\<forall>q. rights (h(e := None)) (tasks(p \<mapsto> t\<lparr>ct_fds := (ct_fds t)[i := FD_UNUSED]\<rparr>)) q \<subseteq> rights h tasks q)"
proof -
  let ?ts = "tasks(p \<mapsto> t\<lparr>ct_fds := (ct_fds t)[i := FD_UNUSED]\<rparr>)"
  have t: "ct_pid t = p" "length (ct_fds t) = MAX_FDS" "h NULL = None" using wf p by (auto simp: caps_wf_def)
  have slots: "slot ?ts = (slot tasks)((p, i) := None)" using slot_update [of tasks p t i FD_UNUSED] p i t(2) by simp
  have "slot tasks (p, i) = Some e" using p i e(1,2) by (simp add: slot_def)
  then have only: "x = (p, i)" if "slot tasks x = Some e" for x
    using wf e(3) that unfolding caps_wf_def by blast
  have "caps_wf (h(e := None)) ?ts"
    using wf only unfolding caps_wf_def slots
    by (auto simp: t p simp del: split_paired_All split: if_splits)
  moreover have "rights (h(e := None)) ?ts q \<subseteq> rights h tasks q" for q
    by (auto simp: rights_def slots entry_right_def split: if_splits)
  ultimately show ?thesis by blast
qed

lemma fd_send_cases:
  assumes "fd_send h tasks p fd target_pid a = Some (r, h', tasks')" and "h NULL = None"
  obtains (refuse) "r = - 1" "h' = h" "tasks' = tasks"
    | (go) t e c target n h1 tbl where "tasks p = Some t" "tasks target_pid = Some target"
      "cap_get h (ct_fds t) fd = Some e" "e \<noteq> NULL" "cap_at h e = Some c" "target_pid \<noteq> ct_pid t"
      "cap_fd_alloc h (ct_pid target) (ct_fds target) (c_file c) (c_caps c) a = Some (n, h1, tbl)"
      "if n < 0 then r = - 1 \<and> h' = h1 \<and> tasks' = tasks
       else r = 0 \<and> h' = h1(e := None) \<and> tasks' = tasks(target_pid \<mapsto> target\<lparr>ct_fds := tbl\<rparr>,
                                   p \<mapsto> t\<lparr>ct_fds := (ct_fds t)[nat fd := FD_UNUSED]\<rparr>)"
proof -
  obtain t where t: "tasks p = Some t"
    using assms unfolding fd_send_def by (cases "tasks p") simp_all
  obtain e where e: "cap_get h (ct_fds t) fd = Some e"
    using assms t unfolding fd_send_def by (cases "cap_get h (ct_fds t) fd") simp_all
  show thesis
  proof (cases "e = NULL")
    case True
    with assms e t refuse show thesis by (simp add: fd_send_def)
  next
    case False
    have "fd_send h tasks p fd target_pid a = None" if "cap_at h e = None"
      using t e False that by (simp add: fd_send_def)
    with assms(1) obtain c where c: "cap_at h e = Some c" by (cases "cap_at h e") auto
    note sofar = t e False c
    consider (no) "(r, h', tasks') = (- 1, h, tasks)"
      | (yes) target where "tasks target_pid = Some target" "target_pid \<noteq> ct_pid t"
        "do { (new_fd, h1, tbl) \<leftarrow> cap_fd_alloc h (ct_pid target) (ct_fds target) (c_file c) (c_caps c) a;
              if new_fd < 0 then Some (- 1, h1, tasks)
              else Some (0, h1(e := None), tasks(target_pid \<mapsto> target\<lparr>ct_fds := tbl\<rparr>,
                     p \<mapsto> t\<lparr>ct_fds := (ct_fds t)[nat fd := FD_UNUSED]\<rparr>)) } = Some (r, h', tasks')"
    proof (cases "tasks target_pid")
      case None
      with assms(1) sofar no show ?thesis by (simp add: fd_send_def split: if_splits)
    next
      case (Some target)
      have "fd_send h tasks p fd target_pid a = Some (- 1, h, tasks) \<or> target_pid \<noteq> ct_pid t \<and>
          fd_send h tasks p fd target_pid a =
            do { (new_fd, h1, tbl) \<leftarrow> cap_fd_alloc h (ct_pid target) (ct_fds target) (c_file c) (c_caps c) a;
              if new_fd < 0 then Some (- 1, h1, tasks)
              else Some (0, h1(e := None), tasks(target_pid \<mapsto> target\<lparr>ct_fds := tbl\<rparr>,
                     p \<mapsto> t\<lparr>ct_fds := (ct_fds t)[nat fd := FD_UNUSED]\<rparr>)) }"
        using sofar Some by (simp add: fd_send_def)
      with assms(1) Some no yes show ?thesis by auto
    qed
    then show thesis
    proof cases
      case no
      with refuse show thesis by simp
    next
      case (yes target)
      obtain n h1 tbl where
        alloc: "cap_fd_alloc h (ct_pid target) (ct_fds target) (c_file c) (c_caps c) a = Some (n, h1, tbl)"
        using yes(3) by (cases "cap_fd_alloc h (ct_pid target) (ct_fds target) (c_file c) (c_caps c) a") auto
      with yes(3) show thesis by (intro go [OF t yes(1) e False c yes(2) alloc]) (simp split: if_splits)
    qed
  qed
qed

lemma cap_get_valid:
  assumes "cap_get h tbl fd = Some e" and "e \<noteq> NULL"
  shows "nat fd < MAX_FDS" and "tbl ! nat fd = e" and "e \<noteq> FD_UNUSED"
  using assms
  by (auto simp: cap_get_def fd_valid_def Let_def bind_eq_Some_conv split: if_splits)

lemma fd_send_wf:
  assumes wf: "caps_wf h tasks" and a: "fresh h a"
    and send: "fd_send h tasks p fd target_pid a = Some (r, h', tasks')"
  shows "caps_wf h' tasks' \<and> (\<forall>q. q \<noteq> 1 \<longrightarrow> rights h' tasks' q \<subseteq> rights h tasks q)"
proof -
  have null: "h NULL = None" using wf by (simp add: caps_wf_def)
  from send null show ?thesis
  proof (cases rule: fd_send_cases)
    case refuse
    with wf show ?thesis by simp
  next
    case (go t e c target n h1 tbl)
    have pid: "ct_pid t = p" using wf go(1) by (auto simp: caps_wf_def)
    let ?ts = "tasks(target_pid \<mapsto> target\<lparr>ct_fds := tbl\<rparr>)"
    have alloc: "caps_wf h1 ?ts" "\<forall>q. q \<noteq> 1 \<longrightarrow> rights h1 ?ts q \<subseteq> rights h tasks q"
      using cap_fd_alloc_wf [OF wf _ a go(7)] go(2) by blast+
    show ?thesis
    proof (cases "n < 0")
      case True
      have "h1 = h" using cap_fd_alloc_cases [OF go(7)] a True by (auto simp: fresh_def)
      then show ?thesis using True go(8) wf by simp
    next
      case False
      have "h e = Some (KCap c)" using go(5) by (auto simp: cap_at_def split: option.splits kobj.splits)
      moreover have "e \<noteq> a" using a calculation by (auto simp: fresh_def)
      ultimately have "is_cap (h1 e)"
        using cap_fd_alloc_cases [OF go(7)] a by (auto simp: fresh_def)
      moreover have "?ts p = Some t" using go(1,6) pid by simp
      ultimately have "caps_wf (h1(e := None)) tasks'"
          "\<forall>q. rights (h1(e := None)) tasks' q \<subseteq> rights h1 ?ts q"
        using cap_remove_wf [OF alloc(1), of p t "nat fd" e] cap_get_valid [OF go(3,4)] go(8) False by simp_all
      then show ?thesis using False go(8) alloc(2) by auto
    qed
  qed
qed

lemma cap_step_rights:
  "cap_step ic s s' \<Longrightarrow> caps_wf (fst s) (snd s) \<Longrightarrow>
    caps_wf (fst s') (snd s') \<and> (\<forall>q. q \<noteq> 1 \<longrightarrow> rights (fst s') (snd s') q \<subseteq> rights (fst s) (snd s) q)"
proof (induction rule: cap_step.induct)
  case (alloc tasks p t h a filp caps r h' tbl)
  then show ?case using cap_fd_alloc_wf [of h tasks p t a filp caps r h' tbl] by (simp add: fun_upd_def)
next
  case (derive tasks p t h a old_fd caps r h' t')
  then show ?case using fd_derive_wf [of h tasks p t a ic old_fd caps r h' t'] by (simp add: fun_upd_def)
next
  case (send h a tasks p fd target_pid r h' tasks')
  then show ?case using fd_send_wf [of h tasks a p fd target_pid r h' tasks'] by simp
qed

lemma cap_steps_rights:
  "(cap_step ic)\<^sup>*\<^sup>* s s' \<Longrightarrow> caps_wf (fst s) (snd s) \<Longrightarrow>
    caps_wf (fst s') (snd s') \<and> (\<forall>q. q \<noteq> 1 \<longrightarrow> rights (fst s') (snd s') q \<subseteq> rights (fst s) (snd s) q)"
proof (induction rule: rtranclp_induct)
  case (step y z)
  then show ?case using cap_step_rights [of ic y z] by blast
qed simp

subsection \<open>Properties\<close>

text \<open>C4: no task but the first can gain a right.  Over every sequence of allocations, derivations and
  transfers by any tasks, in any order, whose new entries come from unused memory, the rights held
  through the capability descriptors of a task other than pid 1 are among those it held at the
  start, and no capability entry is ever shared between two descriptors.\<close>

theorem cap_rights_never_grow:
  assumes "caps_wf h tasks" and "(cap_step inode_close)\<^sup>*\<^sup>* (h, tasks) (h', tasks')" and "p \<noteq> 1"
  shows "rights h' tasks' p \<subseteq> rights h tasks p \<and> caps_wf h' tasks'"
  using cap_steps_rights [OF assms(2)] assms(1,3) by simp

text \<open>A task 2 with one capability descriptor for reading (bit 0) and sending (bit 3).\<close>

definition demo_heap :: kheap where
  "demo_heap = [0x5000 \<mapsto> KFile \<lparr>f_inode = 0x6000, f_refcount = 1\<rparr>,
     0x7000 \<mapsto> KCap \<lparr>c_magic = CAP_ENTRY_MAGIC, c_file = 0x5000, c_caps = 0x9\<rparr>]"

definition demo_task :: "int \<Rightarrow> u64 list \<Rightarrow> cap_task" where
  "demo_task p tbl = \<lparr>ct_pid = p, ct_state = TASK_READY, ct_fds = tbl, ct_children = [3],
     cap_effective = 0, cap_permitted = 0\<rparr>"

definition demo_tasks :: "int \<rightharpoonup> cap_task" where
  "demo_tasks = [2 \<mapsto> demo_task 2 (fd_table_init[0 := 0x7000]), 3 \<mapsto> demo_task 3 fd_table_init]"

lemma demo_slots: "slot demo_tasks = [(2, 0) \<mapsto> 0x7000]"
  by (auto simp: slot_def demo_tasks_def demo_task_def fd_table_init_def fun_eq_iff nth_list_update)

lemma demo_wf: "caps_wf demo_heap demo_tasks"
  unfolding caps_wf_def demo_slots
  by (auto simp: demo_tasks_def demo_heap_def demo_task_def fd_table_init_def split: if_splits)

lemma replicate_16: "replicate 16 x = [x, x, x, x, x, x, x, x, x, x, x, x, x, x, x, x]"
  by (simp add: numeral_eq_Suc)

lemma held_caps_from_unused:
  "\<forall>j. i \<le> j \<and> j < i + n \<longrightarrow> tbl ! j = FD_UNUSED \<Longrightarrow> held_caps_from h tbl i n acc = Some acc"
  by (induction n arbitrary: i) auto

lemma demo_held: "held_caps demo_heap (fd_table_init[0 := 0x7000]) = Some 0x9"
proof -
  let ?tbl = "fd_table_init[0 := 0x7000]"
  have "held_caps_from demo_heap ?tbl (Suc 0) 15 0x9 = Some 0x9"
    by (rule held_caps_from_unused) (auto simp: fd_table_init_def)
  moreover have "held_caps_from demo_heap ?tbl 0 (Suc 15) 0 = held_caps_from demo_heap ?tbl (Suc 0) 15 0x9"
    by (simp add: cap_get_def cap_at_def demo_heap_def fd_valid_def fd_table_init_def del: Suc_numeral)
  ultimately show ?thesis by (simp add: held_caps_def)
qed

theorem cap_rights_never_grow_witness:
  "\<exists>h' tasks'. (cap_step (\<lambda>_ h. h))\<^sup>*\<^sup>* (demo_heap, demo_tasks) (h', tasks') \<and>
     h' 0x8000 = Some (KCap \<lparr>c_magic = CAP_ENTRY_MAGIC, c_file = 0x5000, c_caps = 0x1\<rparr>) \<and>
     rights h' tasks' 2 \<subseteq> rights demo_heap demo_tasks 2"
proof -
  let ?h = "demo_heap(0x8000 \<mapsto> KCap \<lparr>c_magic = CAP_ENTRY_MAGIC, c_file = 0x5000, c_caps = 0x1\<rparr>)"
  let ?t = "demo_task 2 (fd_table_init[0 := 0x7000])"
  let ?ts = "demo_tasks(2 \<mapsto> ?t\<lparr>ct_fds := fd_table_init[0 := 0x7000, 1 := 0x8000]\<rparr>)"
  have "fd_find_free 0 (fd_table_init[0 := 0x7000]) = Some 1"
    by (simp add: fd_table_init_def replicate_16)
  then have "cap_fd_alloc demo_heap (ct_pid ?t) (ct_fds ?t) 0x5000 0x1 0x8000 =
      Some (1, ?h, fd_table_init[0 := 0x7000, 1 := 0x8000])"
    using demo_held by (simp add: cap_fd_alloc_def demo_task_def)
  moreover have "demo_tasks 2 = Some ?t" "fresh demo_heap 0x8000"
    by (simp_all add: demo_tasks_def fresh_def demo_heap_def)
  ultimately have "cap_step (\<lambda>_ h. h) (demo_heap, demo_tasks) (?h, ?ts)"
    using cap_step.alloc [of demo_tasks 2 ?t demo_heap "0x8000" "0x5000" 1] by simp
  then have steps: "(cap_step (\<lambda>_ h. h))\<^sup>*\<^sup>* (demo_heap, demo_tasks) (?h, ?ts)" by blast
  from cap_rights_never_grow [OF demo_wf steps, of 2] have "rights ?h ?ts 2 \<subseteq> rights demo_heap demo_tasks 2" by simp
  with steps show ?thesis by (intro exI [of _ ?h] exI [of _ ?ts]) simp
qed

text \<open>C38: a transfer never hands over a new right.  \<open>fd_send\<close> allocates with the check meant for a task's
  own requests, against what the target already holds: unless the target is pid 1, sending a
  descriptor that carries any right the target lacks fails, and neither the tables nor the entries
  change.\<close>

theorem fd_send_fails_on_new_right:
  assumes wf: "caps_wf h tasks" and a: "fresh h a" and "target_pid \<noteq> 1"
    and "tasks p = Some t" and "cap_get h (ct_fds t) fd = Some e" and "cap_at h e = Some c"
    and "bit (c_caps c) right" and "right \<notin> rights h tasks target_pid"
    and send: "fd_send h tasks p fd target_pid a = Some (r, h', tasks')"
  shows "r = - 1 \<and> h' = h \<and> tasks' = tasks"
proof -
  have null: "h NULL = None" using wf by (simp add: caps_wf_def)
  from send null show ?thesis
  proof (cases rule: fd_send_cases)
    case (go t' e' c' target n h1 tbl)
    then have same: "c' = c" using assms(4-6) by simp
    have pid: "ct_pid target = target_pid" using wf go(2) by (auto simp: caps_wf_def)
    have "held_caps h (ct_fds target) = Some m \<Longrightarrow> c_caps c AND NOT m \<noteq> 0" for m
      using held_caps_bits [of h "ct_fds target" m] null subset_bits [of "c_caps c" m right] assms(7,8)
        rights_held [of tasks target_pid target h] go(2) by auto
    then have "n = - 1 \<and> h1 = h" 
      using cap_fd_alloc_cases [OF go(7)] a assms(3) unfolding pid same fresh_def by auto
    then show ?thesis using go(8) by simp
  qed simp
qed

theorem fd_send_fails_on_new_right_witness:
  "fd_send demo_heap demo_tasks 2 0 3 0x8000 = Some (- 1, demo_heap, demo_tasks)"
proof -
  let ?tbl = "fd_table_init[0 := 0x7000]"
  let ?c = "\<lparr>c_magic = CAP_ENTRY_MAGIC, c_file = 0x5000, c_caps = 0x9\<rparr>"
  have get: "cap_get demo_heap ?tbl 0 = Some 0x7000" "cap_at demo_heap 0x7000 = Some ?c"
    by (simp_all add: cap_get_def cap_at_def fd_valid_def fd_table_init_def demo_heap_def)
  have none: "held_caps demo_heap fd_table_init = Some 0"
    unfolding held_caps_def by (rule held_caps_from_unused) (auto simp: fd_table_init_def)
  obtain r h' ts' where send: "fd_send demo_heap demo_tasks 2 0 3 0x8000 = Some (r, h', ts')"
    using get none by (simp add: fd_send_def demo_tasks_def demo_task_def cap_fd_alloc_def)
  have "fresh demo_heap 0x8000" by (simp add: fresh_def demo_heap_def)
  moreover have "demo_tasks 2 = Some (demo_task 2 ?tbl)" "(0 :: nat) \<notin> rights demo_heap demo_tasks 3"
    by (auto simp: entry_right_def demo_tasks_def rights_def slot_def demo_task_def fd_table_init_def)
  ultimately show ?thesis
    using fd_send_fails_on_new_right [OF demo_wf, of "0x8000" 3 2 "demo_task 2 ?tbl" 0 "0x7000" ?c 0 r h' ts']
      get send by (simp add: demo_task_def)
qed

end
