(* ===== verification/Blocks.thy ===== *)
theory Blocks
  imports Prelude
begin

text \<open>
  The arithmetic of a binary buddy system, independent of its representation: blocks of
  \<open>2 ^ o\<close> pages aligned to their size, the buddy of a block, merging and splitting, and the fact
  that a set of disjoint blocks without two free buddies is determined by the pages it covers.
\<close>

type_synonym block = "nat \<times> nat"

abbreviation MAX_ORDER :: nat where "MAX_ORDER \<equiv> 10"

definition block_pages :: "block \<Rightarrow> nat set" where
  "block_pages = (\<lambda>(p, k). {p ..< p + 2 ^ k})"

definition block_aligned :: "block \<Rightarrow> bool" where
  "block_aligned = (\<lambda>(p, k). k \<le> MAX_ORDER \<and> 2 ^ k dvd p)"

definition blocks_disjoint :: "block set \<Rightarrow> bool" where
  "blocks_disjoint B \<longleftrightarrow> (\<forall>x \<in> B. \<forall>y \<in> B. x \<noteq> y \<longrightarrow> block_pages x \<inter> block_pages y = {})"

definition covered :: "block set \<Rightarrow> nat set" where
  "covered B = (\<Union>x \<in> B. block_pages x)"

definition no_buddies :: "block set \<Rightarrow> bool" where
  "no_buddies B \<longleftrightarrow> (\<forall>p k. (p, k) \<in> B \<longrightarrow> k < MAX_ORDER \<longrightarrow> (p XOR 2 ^ k, k) \<notin> B)"

lemma block_pages_nonempty [simp]: "block_pages x \<noteq> {}"
  by (cases x) (simp add: block_pages_def)

lemma first_in_block [simp]: "p \<in> block_pages (p, k)"
  by (simp add: block_pages_def)

lemma covered_simps [simp]:
  "covered {} = {}" "covered (insert x B) = block_pages x \<union> covered B" "covered (A \<union> B) = covered A \<union> covered B"
  by (auto simp: covered_def)

lemma block_pages_bound: "block_pages (p, k) \<subseteq> {..<n} \<longleftrightarrow> p + 2 ^ k \<le> n"
proof -
  obtain d where d: "(2 :: nat) ^ k = Suc d" by (cases "(2 :: nat) ^ k") simp_all
  show ?thesis unfolding block_pages_def by (auto simp: d subset_iff dest: spec [of _ "p + d"])
qed

lemma blocks_disjoint_subset: "blocks_disjoint B \<Longrightarrow> A \<subseteq> B \<Longrightarrow> blocks_disjoint A"
  unfolding blocks_disjoint_def by blast

lemma blocks_disjointD:
  "blocks_disjoint B \<Longrightarrow> x \<in> B \<Longrightarrow> y \<in> B \<Longrightarrow> x \<noteq> y \<Longrightarrow> block_pages x \<inter> block_pages y = {}"
  unfolding blocks_disjoint_def by blast

lemma blocks_disjoint_same:
  "blocks_disjoint B \<Longrightarrow> x \<in> B \<Longrightarrow> y \<in> B \<Longrightarrow> n \<in> block_pages x \<Longrightarrow> n \<in> block_pages y \<Longrightarrow> x = y"
  unfolding blocks_disjoint_def by blast

lemma covered_remove:
  assumes "blocks_disjoint B" and "x \<in> B"
  shows "covered (B - {x}) = covered B - block_pages x"
proof -
  have "block_pages y \<inter> block_pages x = {}" if "y \<in> B - {x}" for y
    using blocks_disjointD [OF assms(1) _ assms(2), of y] that by blast
  then show ?thesis using assms(2) unfolding covered_def by blast
qed

lemma no_buddies_subset: "no_buddies B \<Longrightarrow> A \<subseteq> B \<Longrightarrow> no_buddies A"
  unfolding no_buddies_def by blast

lemma no_buddies_add:
  assumes "no_buddies (B - {(p, k)})" and "k < MAX_ORDER \<longrightarrow> (p XOR 2 ^ k, k) \<notin> B"
  shows "no_buddies B"
  unfolding no_buddies_def
proof (intro allI impI notI)
  fix q j assume q: "(q, j) \<in> B" "j < MAX_ORDER" and b: "(q XOR 2 ^ j, j) \<in> B"
  show False
  proof (cases "(q, j) = (p, k) \<or> (q XOR 2 ^ j, j) = (p, k)")
    case True
    moreover have "p XOR 2 ^ j = q" if "q XOR 2 ^ j = p"
    proof -
      have "p XOR 2 ^ j = q XOR (2 ^ j XOR 2 ^ j)" unfolding that [symmetric] by (rule xor.assoc)
      then show ?thesis by simp
    qed
    ultimately show False using assms(2) q b by auto
  next
    case False
    then show False using assms(1) q b unfolding no_buddies_def by blast
  qed
qed

subsection \<open>Buddies\<close>

lemma xor_multiple:
  "((2 :: nat) ^ k * m) XOR 2 ^ k = (if even m then 2 ^ k * m + 2 ^ k else 2 ^ k * m - 2 ^ k)"
proof -
  have "(2 ^ k * m) XOR 2 ^ k = push_bit k m XOR push_bit k (1 :: nat)"
    by (simp add: push_bit_eq_mult mult.commute)
  also have "\<dots> = push_bit k (m XOR 1)" by simp
  also have "m XOR 1 = (if even m then m + 1 else m - 1)" by (simp add: xor_Suc_0_eq)
  finally show ?thesis by (simp add: push_bit_eq_mult algebra_simps)
qed

text \<open>The two halves of a block, and the parent of two buddies.\<close>

lemma buddy_facts:
  assumes "2 ^ k dvd p"
  defines "b \<equiv> p XOR 2 ^ k"
  shows "b \<noteq> p" and "b XOR 2 ^ k = p" and "2 ^ k dvd b" and "2 ^ Suc k dvd min p b"
    and "block_pages (min p b, Suc k) = block_pages (p, k) \<union> block_pages (b, k)"
    and "block_pages (p, k) \<inter> block_pages (b, k) = {}"
proof -
  obtain m where p: "p = 2 ^ k * m" using assms(1) by blast
  have b: "b = (if even m then 2 ^ k * m + 2 ^ k else 2 ^ k * m - 2 ^ k)"
    unfolding b_def p by (rule xor_multiple)
  have odd: "2 ^ k * m = 2 ^ k * (m - 1) + 2 ^ k" if "odd m"
    using that by (cases m) auto
  show "b \<noteq> p" using odd by (auto simp: b p)
  show "b XOR 2 ^ k = p" by (simp add: b_def xor.assoc)
  show "2 ^ k dvd b" unfolding b by auto
  have "min p b = 2 ^ k * (if even m then m else m - 1)"
    unfolding b p using odd by auto
  moreover have "even (if even m then m else m - 1)" by auto
  ultimately show "2 ^ Suc k dvd min p b"
    using mult_dvd_mono [of 2 "if even m then m else m - 1" "2 ^ k :: nat" "2 ^ k"] by (simp add: mult.commute)
  show "block_pages (min p b, Suc k) = block_pages (p, k) \<union> block_pages (b, k)"
    unfolding b p using odd by (auto simp: block_pages_def)
  show "block_pages (p, k) \<inter> block_pages (b, k) = {}"
    unfolding b p using odd by (auto simp: block_pages_def)
qed

lemma halves:
  assumes "2 ^ Suc k dvd p"
  shows "2 ^ k dvd p" and "p XOR 2 ^ k = p + 2 ^ k" and "2 ^ k dvd p + 2 ^ k"
    and "block_pages (p, Suc k) = block_pages (p, k) \<union> block_pages (p + 2 ^ k, k)"
    and "block_pages (p, k) \<inter> block_pages (p + 2 ^ k, k) = {}"
proof -
  obtain m where "p = 2 ^ Suc k * m" using assms by blast
  then have p: "p = 2 ^ k * (2 * m)" by simp
  then show dvd: "2 ^ k dvd p" by simp
  show x: "p XOR 2 ^ k = p + 2 ^ k" unfolding p by (simp add: xor_multiple)
  show "2 ^ k dvd p + 2 ^ k" using dvd by simp
  show "block_pages (p, Suc k) = block_pages (p, k) \<union> block_pages (p + 2 ^ k, k)"
    and "block_pages (p, k) \<inter> block_pages (p + 2 ^ k, k) = {}"
    by (auto simp: block_pages_def)
qed

text \<open>Two aligned blocks that meet are nested.\<close>

lemma block_nested:
  assumes "2 ^ k dvd p" and "2 ^ j dvd q" and "k \<le> j" and "n \<in> block_pages (p, k)" and "n \<in> block_pages (q, j)"
  shows "block_pages (p, k) \<subseteq> block_pages (q, j)"
proof -
  define d where "d = (2 :: nat) ^ (j - k)"
  have j: "(2 :: nat) ^ j = 2 ^ k * d" unfolding d_def using assms(3) by (simp add: power_add [symmetric])
  obtain a where p: "p = 2 ^ k * a" using assms(1) by blast
  obtain c where q: "q = 2 ^ k * d * c" using assms(2) j by auto
  have n: "p \<le> n" "n < p + 2 ^ k" "q \<le> n" "n < q + 2 ^ j"
    using assms(4,5) by (auto simp: block_pages_def)
  have "2 ^ k * (d * c) < 2 ^ k * (a + 1)" using n p q by (simp add: algebra_simps)
  then have "d * c < a + 1" by (simp only: mult_less_cancel1)
  moreover have "2 ^ k * a < 2 ^ k * (d * c + d)" using n p q j by (simp add: algebra_simps)
  then have "a < d * c + d" by (simp only: mult_less_cancel1)
  ultimately have "2 ^ k * (d * c) \<le> 2 ^ k * a" "2 ^ k * (a + 1) \<le> 2 ^ k * (d * c + d)"
    by (auto intro!: mult_le_mono2 simp del: mult_Suc_right)
  then show ?thesis unfolding block_pages_def p q by (auto simp: algebra_simps j)
qed

lemma block_pages_inj:
  assumes "block_pages (p, k) = block_pages (q, j)"
  shows "p = q \<and> k = j"
proof -
  have "p = q" using assms atLeastLessThan_inj(1) [of p "p + 2 ^ k" q "q + 2 ^ j"] by (simp add: block_pages_def)
  moreover have "card (block_pages (p, k)) = card (block_pages (q, j))" using assms by simp
  ultimately show ?thesis by (simp add: block_pages_def)
qed

lemma blocks_disjoint_insert:
  "blocks_disjoint (insert x R) \<longleftrightarrow>
     blocks_disjoint R \<and> (\<forall>y \<in> R. y \<noteq> x \<longrightarrow> block_pages x \<inter> block_pages y = {})"
proof -
  have "block_pages y \<inter> block_pages x = block_pages x \<inter> block_pages y" for y by (rule Int_commute)
  then show ?thesis unfolding blocks_disjoint_def by (simp add: eq_commute) blast
qed

lemma blocks_disjoint_merge:
  assumes "blocks_disjoint (insert x (insert y R))" and "x \<notin> R" and "y \<notin> R"
    and "block_pages z = block_pages x \<union> block_pages y"
  shows "blocks_disjoint (insert z R)"
proof -
  have "block_pages x \<inter> block_pages w = {}" "block_pages y \<inter> block_pages w = {}" if "w \<in> R" for w
    using assms(1-3) that by (auto simp: blocks_disjoint_insert)
  then show ?thesis using assms(1) unfolding blocks_disjoint_insert assms(4) Int_Un_distrib2 by simp
qed

lemma blocks_disjoint_split:
  assumes "blocks_disjoint (insert z R)" and "z \<notin> R"
    and "block_pages z = block_pages x \<union> block_pages y" and "block_pages x \<inter> block_pages y = {}"
  shows "blocks_disjoint (insert x (insert y R))"
proof -
  have "block_pages z \<inter> block_pages w = {}" if "w \<in> R" for w
    using assms(1,2) that by (auto simp: blocks_disjoint_insert)
  then have "block_pages x \<inter> block_pages w = {}" "block_pages y \<inter> block_pages w = {}" if "w \<in> R" for w
    using that unfolding assms(3) Int_Un_distrib2 by simp_all
  then show ?thesis using assms(1,4) by (simp add: blocks_disjoint_insert)
qed

subsection \<open>Maximal blocks\<close>

text \<open>Without two free buddies, every free aligned run lies inside one block.\<close>

lemma run_in_block:
  assumes aligned: "\<forall>x \<in> B. block_aligned x" and disj: "blocks_disjoint B" and no: "no_buddies B"
  shows "2 ^ k dvd p \<Longrightarrow> k \<le> MAX_ORDER \<Longrightarrow> block_pages (p, k) \<subseteq> covered B \<Longrightarrow>
    \<exists>x \<in> B. block_pages (p, k) \<subseteq> block_pages x \<and> k \<le> snd x"
proof (induction k arbitrary: p)
  case 0
  then have "p \<in> covered B" by auto
  then obtain x where "x \<in> B" "p \<in> block_pages x" by (auto simp: covered_def)
  then show ?case by (intro bexI [of _ x]) (simp_all add: block_pages_def)
next
  case (Suc k)
  note h = halves [OF Suc.prems(1)]
  obtain x where x: "x \<in> B" "block_pages (p, k) \<subseteq> block_pages x" "k \<le> snd x"
    using Suc.IH [OF h(1)] Suc.prems h(4) by auto
  obtain y where y: "y \<in> B" "block_pages (p + 2 ^ k, k) \<subseteq> block_pages y" "k \<le> snd y"
    using Suc.IH [OF h(3)] Suc.prems h(4) by auto
  have big: "block_pages (p, Suc k) \<subseteq> block_pages z"
    if z: "z \<in> B" "Suc k \<le> snd z" and meet: "n \<in> block_pages z" "n \<in> block_pages (p, Suc k)" for z n
  proof -
    have "2 ^ snd z dvd fst z" using aligned z(1) by (auto simp: block_aligned_def)
    then show ?thesis
      using block_nested [OF Suc.prems(1) _ z(2), of "fst z" n] meet by simp
  qed
  have in_x: "p \<in> block_pages x" "p \<in> block_pages (p, Suc k)"
    using x(2) by (auto simp: block_pages_def)
  have in_y: "p + 2 ^ k \<in> block_pages y" "p + 2 ^ k \<in> block_pages (p, Suc k)"
    using y(2) by (auto simp: block_pages_def)
  show ?case
  proof (cases "snd x = k \<and> snd y = k")
    case True
    then have "x = (p, k)" "y = (p + 2 ^ k, k)"
      using x(2) y(2) by (cases x; cases y; auto simp: block_pages_def)+
    then have "(p XOR 2 ^ k, k) \<in> B" "(p, k) \<in> B" using x(1) y(1) h(2) by simp_all
    then show ?thesis using no Suc.prems(2) unfolding no_buddies_def by auto
  next
    case False
    then show ?thesis using x(1,3) y(1,3) big [OF x(1) _ in_x] big [OF y(1) _ in_y] by (metis Suc_leI le_neq_implies_less)
  qed
qed

text \<open>The blocks are determined by the pages they cover.\<close>

lemma blocks_canonical:
  assumes "\<forall>x \<in> B. block_aligned x" "blocks_disjoint B" "no_buddies B"
    and "\<forall>x \<in> B'. block_aligned x" "blocks_disjoint B'" "no_buddies B'"
    and "covered B = covered B'"
  shows "B \<subseteq> B'"
proof (rule subsetI)
  fix x assume x: "x \<in> B"
  have runs: "\<exists>y \<in> C. block_pages z \<subseteq> block_pages y"
    if "\<forall>x \<in> C. block_aligned x" "blocks_disjoint C" "no_buddies C" "block_aligned z" "block_pages z \<subseteq> covered C" for C z
    using run_in_block [OF that(1-3), of "snd z" "fst z"] that(4,5) by (auto simp: block_aligned_def split_beta)
  have "block_pages x \<subseteq> covered B'" using x assms(7) by (auto simp: covered_def)
  then obtain y where y: "y \<in> B'" "block_pages x \<subseteq> block_pages y"
    using runs [OF assms(4-6)] assms(1) x by blast
  then have "block_pages y \<subseteq> covered B" using assms(7) by (auto simp: covered_def)
  then obtain z where z: "z \<in> B" "block_pages y \<subseteq> block_pages z"
    using runs [OF assms(1-3)] assms(4) y(1) by blast
  obtain n where n: "n \<in> block_pages x" using block_pages_nonempty [of x] by blast
  then have "x = z" using blocks_disjoint_same [OF assms(2) x z(1), of n] y(2) z(2) by blast
  then have "block_pages y = block_pages x" using y(2) z(2) by blast
  then have "y = x" using block_pages_inj [of "fst y" "snd y" "fst x" "snd x"] by (simp add: prod_eq_iff)
  with y(1) show "x \<in> B'" by simp
qed

end
