(* ===== verification/Buddy.thy ===== *)
theory Buddy
  imports Blocks Links Kstring
begin

text \<open>
  The physical page allocator, \<^verbatim>\<open>kernel/mem.c\<close>: page descriptors, the free lists of each order,
  splitting, merging, \<open>alloc_pages\<close> and \<open>free_pages\<close>.  A \<open>struct page *\<close> is the index of its descriptor
  in \<open>page_array\<close>; the lists are threaded through the descriptors as in the code, so a walk along a
  list may fail to end (\<open>None\<close>) and the invariant has to exclude it.  Page frame numbers and orders
  are natural numbers, since the code keeps both below \<open>2 ^ 16\<close>; flags, counts, statistics and addresses
  are machine words.  The \<open>buddy\<close> field of a descriptor is never read and is left out.
\<close>

subsection \<open>State\<close>

abbreviation PAGE_FLAG_FREE :: u32 where "PAGE_FLAG_FREE \<equiv> 0x01"
abbreviation PAGE_FLAG_RESERVED :: u32 where "PAGE_FLAG_RESERVED \<equiv> 0x02"
abbreviation PAGE_FLAG_SLAB :: u32 where "PAGE_FLAG_SLAB \<equiv> 0x08"
abbreviation BUDDY_MAX_PAGES :: nat where "BUDDY_MAX_PAGES \<equiv> 65536"
abbreviation PHYS_MEM_BASE :: u64 where "PHYS_MEM_BASE \<equiv> 0x100000"
abbreviation KERNEL_PHYS_LIMIT :: u64 where "KERNEL_PHYS_LIMIT \<equiv> 0x40000000"

record page =
  p_flags :: u32
  p_order :: nat
  p_ref_count :: u32
  p_slab_free_count :: u32
  p_phys_addr :: u64
  p_next :: "nat option"
  p_slab_cache :: "nat option"

record phys_mem =
  page_array :: "nat \<Rightarrow> page"
  free_area :: "nat \<Rightarrow> nat option"
  total_phys_pages :: nat
  phys_mem_end :: u64
  stat_total_pages :: u64
  stat_used_pages :: u64

definition upd_page :: "phys_mem \<Rightarrow> nat \<Rightarrow> (page \<Rightarrow> page) \<Rightarrow> phys_mem" where
  "upd_page st p f = st\<lparr>page_array := (page_array st)(p := f (page_array st p))\<rparr>"

subsection \<open>Page descriptor helpers\<close>

definition phys_to_pfn :: "u64 \<Rightarrow> nat" where
  "phys_to_pfn pa = (if pa < PHYS_MEM_BASE then 2 ^ 64 - 1 else unat ((pa - PHYS_MEM_BASE) div 4096))"

definition pfn_to_phys :: "nat \<Rightarrow> u64" where
  "pfn_to_phys pfn = PHYS_MEM_BASE + of_nat pfn * 4096"

definition get_buddy :: "phys_mem \<Rightarrow> nat \<Rightarrow> nat \<Rightarrow> nat option" where
  "get_buddy st p order = (let b = p XOR 2 ^ order in if total_phys_pages st \<le> b then None else Some b)"

definition get_page_struct :: "phys_mem \<Rightarrow> u64 \<Rightarrow> nat option" where
  "get_page_struct st pa =
     (let pfn = phys_to_pfn pa in
      if pfn = 2 ^ 64 - 1 \<or> total_phys_pages st \<le> pfn then None else Some pfn)"

subsection \<open>Free lists\<close>

definition list_add :: "phys_mem \<Rightarrow> nat \<Rightarrow> nat \<Rightarrow> phys_mem" where
  "list_add st order p =
     (upd_page st p (\<lambda>pg. pg\<lparr>p_next := free_area st order\<rparr>))
       \<lparr>free_area := (free_area st)(order := Some p)\<rparr>"

text \<open>The predecessor of \<open>p\<close> in the list that starts at \<open>prev\<close>; the inner \<open>None\<close> is the null pointer.\<close>

partial_function (option) list_prev :: "phys_mem \<Rightarrow> nat option \<Rightarrow> nat \<Rightarrow> nat option option" where [code]:
  "list_prev st prev p =
     (case prev of
        None \<Rightarrow> Some None
      | Some q \<Rightarrow>
          if p_next (page_array st q) = Some p then Some (Some q)
          else list_prev st (p_next (page_array st q)) p)"

definition list_del :: "phys_mem \<Rightarrow> nat \<Rightarrow> nat \<Rightarrow> phys_mem option" where
  "list_del st order p =
     (if free_area st order = Some p
      then Some (upd_page (st\<lparr>free_area := (free_area st)(order := p_next (page_array st p))\<rparr>) p
                   (\<lambda>pg. pg\<lparr>p_next := None\<rparr>))
      else do {
        prev \<leftarrow> list_prev st (free_area st order) p;
        Some (case prev of
                None \<Rightarrow> st
              | Some q \<Rightarrow>
                  upd_page (upd_page st q (\<lambda>pg. pg\<lparr>p_next := p_next (page_array st p)\<rparr>)) p
                    (\<lambda>pg. pg\<lparr>p_next := None\<rparr>)) })"

subsection \<open>Marking ranges\<close>

fun mark_reserved_loop :: "phys_mem \<Rightarrow> nat \<Rightarrow> nat \<Rightarrow> phys_mem" where
  "mark_reserved_loop st pfn 0 = st"
| "mark_reserved_loop st pfn (Suc n) =
     mark_reserved_loop (upd_page st pfn (\<lambda>pg. pg\<lparr>p_flags := p_flags pg OR PAGE_FLAG_RESERVED\<rparr>)) (Suc pfn) n"

definition buddy_mark_reserved :: "phys_mem \<Rightarrow> nat \<Rightarrow> nat \<Rightarrow> phys_mem" where
  "buddy_mark_reserved st start_pfn end_pfn =
     (if BUDDY_MAX_PAGES \<le> start_pfn then st
      else mark_reserved_loop st start_pfn (min end_pfn BUDDY_MAX_PAGES - start_pfn))"

definition mark_available_page :: "phys_mem \<Rightarrow> nat \<Rightarrow> phys_mem" where
  "mark_available_page st pfn =
     (if p_flags (page_array st pfn) AND PAGE_FLAG_RESERVED \<noteq> 0 then st
      else let st1 = upd_page st pfn (\<lambda>pg. pg\<lparr>p_flags := PAGE_FLAG_FREE, p_order := 0, p_ref_count := 0,
                       p_phys_addr := pfn_to_phys pfn, p_next := None, p_slab_cache := None\<rparr>)
           in (list_add st1 0 pfn)\<lparr>stat_total_pages := stat_total_pages st + 1\<rparr>)"

fun mark_available_loop :: "phys_mem \<Rightarrow> nat \<Rightarrow> nat \<Rightarrow> phys_mem" where
  "mark_available_loop st pfn 0 = st"
| "mark_available_loop st pfn (Suc n) = mark_available_loop (mark_available_page st pfn) (Suc pfn) n"

definition buddy_mark_available :: "phys_mem \<Rightarrow> nat \<Rightarrow> nat \<Rightarrow> phys_mem" where
  "buddy_mark_available st start_pfn end_pfn =
     (if BUDDY_MAX_PAGES \<le> start_pfn then st
      else mark_available_loop st start_pfn (min end_pfn BUDDY_MAX_PAGES - start_pfn))"

subsection \<open>Merging and splitting\<close>

definition merge_pages :: "phys_mem \<Rightarrow> nat \<Rightarrow> nat \<Rightarrow> nat \<Rightarrow> phys_mem" where
  "merge_pages st order pfn buddy_pfn =
     (let base_pfn = (if pfn < buddy_pfn then pfn else buddy_pfn);
          other = (if pfn < buddy_pfn then buddy_pfn else pfn);
          st1 = upd_page st base_pfn (\<lambda>pg. pg\<lparr>p_flags := PAGE_FLAG_FREE, p_order := order + 1,
                  p_phys_addr := pfn_to_phys base_pfn\<rparr>);
          st2 = upd_page st1 other (\<lambda>pg. pg\<lparr>p_flags := 0, p_order := 0, p_next := None\<rparr>)
      in list_add st2 (order + 1) base_pfn)"

partial_function (option) buddy_merge :: "phys_mem \<Rightarrow> nat \<Rightarrow> (phys_mem \<times> nat) option" where [code]:
  "buddy_merge st p =
     (let order = p_order (page_array st p) in
      if MAX_ORDER \<le> order then Some (st, p)
      else case get_buddy st p order of
             None \<Rightarrow> Some (st, p)
           | Some b \<Rightarrow>
               if p_flags (page_array st b) AND PAGE_FLAG_FREE = 0 then Some (st, p)
               else if p_order (page_array st b) \<noteq> order then Some (st, p)
               else do {
                 st1 \<leftarrow> list_del st order p;
                 st2 \<leftarrow> list_del st1 order b;
                 buddy_merge (merge_pages st2 order p b) (if p < b then p else b) })"

text \<open>One pass over a free list; the flag tells whether the walk stopped at a merge.\<close>

partial_function (option) coalesce_scan :: "phys_mem \<Rightarrow> nat option \<Rightarrow> (phys_mem \<times> bool) option" where [code]:
  "coalesce_scan st p =
     (case p of
        None \<Rightarrow> Some (st, False)
      | Some q \<Rightarrow>
          if p_flags (page_array st q) AND PAGE_FLAG_FREE = 0 then coalesce_scan st (p_next (page_array st q))
          else do {
            (st', r) \<leftarrow> buddy_merge st q;
            if r \<noteq> q then Some (st', True) else coalesce_scan st' (p_next (page_array st' q)) })"

partial_function (option) coalesce_order :: "phys_mem \<Rightarrow> nat \<Rightarrow> phys_mem option" where [code]:
  "coalesce_order st order =
     do { (st', merged) \<leftarrow> coalesce_scan st (free_area st order);
          if merged then coalesce_order st' order else Some st' }"

fun coalesce_from :: "phys_mem \<Rightarrow> nat \<Rightarrow> nat \<Rightarrow> phys_mem option" where
  "coalesce_from st order 0 = Some st"
| "coalesce_from st order (Suc n) = do { st' \<leftarrow> coalesce_order st order; coalesce_from st' (Suc order) n }"

definition buddy_coalesce_all :: "phys_mem \<Rightarrow> phys_mem option" where
  "buddy_coalesce_all st = coalesce_from st 0 MAX_ORDER"

definition split_pages :: "phys_mem \<Rightarrow> nat \<Rightarrow> nat \<Rightarrow> nat \<Rightarrow> phys_mem" where
  "split_pages st new_order pfn buddy_pfn =
     (let st1 = upd_page st pfn (\<lambda>pg. pg\<lparr>p_flags := PAGE_FLAG_FREE, p_order := new_order,
                  p_phys_addr := pfn_to_phys pfn, p_ref_count := 0\<rparr>);
          st2 = upd_page st1 buddy_pfn (\<lambda>pg. pg\<lparr>p_flags := PAGE_FLAG_FREE, p_order := new_order,
                  p_phys_addr := pfn_to_phys buddy_pfn, p_ref_count := 0\<rparr>)
      in list_add (list_add st2 new_order pfn) new_order buddy_pfn)"

definition buddy_split :: "phys_mem \<Rightarrow> nat \<Rightarrow> (phys_mem \<times> nat option) option" where
  "buddy_split st order =
     (if order = 0 \<or> MAX_ORDER < order then Some (st, None)
      else case free_area st order of
             None \<Rightarrow> Some (st, None)
           | Some p \<Rightarrow> do {
               st1 \<leftarrow> list_del st order p;
               let new_order = order - 1;
               let buddy_pfn = p + 2 ^ new_order;
               Some (if total_phys_pages st1 \<le> buddy_pfn then (list_add st1 order p, None)
                     else (split_pages st1 new_order p buddy_pfn, Some p)) })"

subsection \<open>Allocation and release\<close>

text \<open>The smallest order from \<open>current_order\<close> on whose list is not empty.\<close>

function alloc_find :: "(nat \<Rightarrow> nat option) \<Rightarrow> nat \<Rightarrow> nat" where
  "alloc_find fa current_order =
     (if current_order \<le> MAX_ORDER \<and> fa current_order = None then alloc_find fa (Suc current_order)
      else current_order)"
  by pat_completeness auto
termination by (relation "measure (\<lambda>(fa, k). Suc MAX_ORDER - k)") auto

declare alloc_find.simps [simp del]

text \<open>Splitting from order \<open>order + n\<close> down to \<open>order\<close>; the flag tells whether every split succeeded.\<close>

fun alloc_split :: "phys_mem \<Rightarrow> nat \<Rightarrow> nat \<Rightarrow> (phys_mem \<times> bool) option" where
  "alloc_split st order 0 = Some (st, True)"
| "alloc_split st order (Suc n) =
     do { (st', r) \<leftarrow> buddy_split st (order + Suc n);
          case r of None \<Rightarrow> Some (st', False) | Some p \<Rightarrow> alloc_split st' order n }"

definition stat_release :: "u64 \<Rightarrow> nat \<Rightarrow> u64" where
  "stat_release used order = (if push_bit order 1 \<le> used then used - push_bit order 1 else 0)"

text \<open>Taking the first block of the list; the result is the physical address, or \<open>None\<close> for the
  failure beyond the identity map.\<close>

definition alloc_take :: "phys_mem \<Rightarrow> nat \<Rightarrow> nat \<Rightarrow> (phys_mem \<times> u64 option) option" where
  "alloc_take st order p =
     do { st1 \<leftarrow> list_del st order p;
          let st2 = (upd_page st1 p (\<lambda>pg. pg\<lparr>p_flags := p_flags pg AND NOT PAGE_FLAG_FREE, p_order := order,
                       p_ref_count := 1\<rparr>))\<lparr>stat_used_pages := stat_used_pages st1 + push_bit order 1\<rparr>;
          let pa = p_phys_addr (page_array st2 p);
          Some (if KERNEL_PHYS_LIMIT \<le> pa
                then ((list_add (upd_page st2 p (\<lambda>pg. pg\<lparr>p_flags := p_flags pg OR PAGE_FLAG_FREE,
                        p_order := order, p_ref_count := 0\<rparr>)) order p)
                        \<lparr>stat_used_pages := stat_release (stat_used_pages st2) order\<rparr>, None)
                else (st2, Some pa)) }"

definition alloc_pages_locked :: "phys_mem \<Rightarrow> nat \<Rightarrow> (phys_mem \<times> u64 option) option" where
  "alloc_pages_locked st order =
     (if MAX_ORDER < order then Some (st, None)
      else let current_order = alloc_find (free_area st) order in
        if MAX_ORDER < current_order then Some (st, None)
        else do {
          (st1, ok) \<leftarrow> alloc_split st order (current_order - order);
          if \<not> ok then Some (st1, None)
          else case free_area st1 order of
                 None \<Rightarrow> Some (st1, None)
               | Some p \<Rightarrow> alloc_take st1 order p })"

definition alloc_pages :: "mem \<Rightarrow> phys_mem \<Rightarrow> nat \<Rightarrow> (addr \<times> mem \<times> phys_mem) option" where
  "alloc_pages m st order =
     do { (st', r) \<leftarrow> alloc_pages_locked st order;
          Some (case r of
                  None \<Rightarrow> (NULL, m, st')
                | Some pa \<Rightarrow> (pa, if order < MAX_ORDER then memset m pa 0 (4096 * 2 ^ order) else m, st')) }"

definition alloc_pages_zero :: "mem \<Rightarrow> phys_mem \<Rightarrow> nat \<Rightarrow> (addr \<times> mem \<times> phys_mem) option" where
  "alloc_pages_zero m st order =
     do { (ptr, m', st') \<leftarrow> alloc_pages m st order;
          Some (if ptr = NULL then (NULL, m', st') else (ptr, memset m' ptr 0 (4096 * 2 ^ order), st')) }"

definition free_pages :: "phys_mem \<Rightarrow> addr \<Rightarrow> nat \<Rightarrow> phys_mem option" where
  "free_pages st ptr order =
     (if ptr = NULL then Some st
      else if MAX_ORDER < order then Some st
      else if ptr < PHYS_MEM_BASE then Some st
      else let pfn = phys_to_pfn ptr in
        if pfn = 2 ^ 64 - 1 \<or> total_phys_pages st \<le> pfn then Some st
        else let p = page_array st pfn in
          if p_flags p AND PAGE_FLAG_RESERVED \<noteq> 0 then Some st
          else if p_flags p AND PAGE_FLAG_FREE \<noteq> 0 then Some st
          else if order > p_order p \<and> p_order p \<noteq> 0 then Some st
          else
            let st1 = upd_page st pfn (\<lambda>pg. pg\<lparr>p_flags := p_flags pg OR PAGE_FLAG_FREE, p_order := order,
                        p_ref_count := 0\<rparr>);
                st2 = (list_add st1 order pfn)\<lparr>stat_used_pages := stat_release (stat_used_pages st) order\<rparr>
            in map_option fst (buddy_merge st2 pfn))"

definition alloc_page :: "mem \<Rightarrow> phys_mem \<Rightarrow> (addr \<times> mem \<times> phys_mem) option" where
  "alloc_page m st = alloc_pages m st 0"

definition free_page :: "phys_mem \<Rightarrow> addr \<Rightarrow> phys_mem option" where
  "free_page st page = free_pages st page 0"

definition mem_get_stats :: "phys_mem \<Rightarrow> u64 \<times> u64 \<times> u64" where
  "mem_get_stats st =
     (let total = stat_total_pages st * 4096; used = stat_used_pages st * 4096 in (total, total - used, used))"

end
