(* ===== verification/Slab.thy ===== *)
theory Slab
  imports Buddy Paging
begin

text \<open>
  The kernel heap, \<^verbatim>\<open>kernel/mem.c\<close>: eight caches of equally sized objects carved out of single pages,
  with a free list per cache that is threaded through the first word of each free object, and large
  requests that go to the page allocator.  The lists live in the byte memory, so that what a
  caller writes into an object and what the allocator writes share one memory.

  A call runs to its end without interruption: the model has one processor in the allocator at a
  time.  The \<open>growing\<close> flag is part of the state; finding it set means that the caller waits for
  another processor, which here is a result of \<open>None\<close>.  The fields \<open>partial\<close> and \<open>full\<close> of a cache are never
  read and are left out, as are the performance counters.
\<close>

subsection \<open>State\<close>

record slab_cache =
  obj_size :: u64
  objs_per_page :: u64
  free_list :: addr
  growing :: bool

record kmem =
  km_mem :: mem
  km_phys :: phys_mem
  km_caches :: "nat \<Rightarrow> slab_cache"

abbreviation SLAB_NUM_CACHES :: nat where "SLAB_NUM_CACHES \<equiv> 8"
abbreviation SLAB_FREE_MAGIC :: u64 where "SLAB_FREE_MAGIC \<equiv> 0xDEADBEEFDEADBEEF"

definition slab_size_to_index :: "u64 \<Rightarrow> nat" where
  "slab_size_to_index sz =
     (if sz \<le> 32 then 0 else if sz \<le> 64 then 1 else if sz \<le> 128 then 2 else if sz \<le> 256 then 3
      else if sz \<le> 512 then 4 else if sz \<le> 1024 then 5 else if sz \<le> 2048 then 6 else 7)"

definition slab_index_to_size :: "nat \<Rightarrow> u64" where
  "slab_index_to_size idx = push_bit idx 32"

definition upd_cache :: "kmem \<Rightarrow> nat \<Rightarrow> (slab_cache \<Rightarrow> slab_cache) \<Rightarrow> kmem" where
  "upd_cache w idx f = w\<lparr>km_caches := (km_caches w)(idx := f (km_caches w idx))\<rparr>"

definition slab_init :: "kmem \<Rightarrow> kmem" where
  "slab_init w = w\<lparr>km_caches := (\<lambda>i. if i < SLAB_NUM_CACHES
     then (km_caches w i)\<lparr>obj_size := slab_index_to_size i, objs_per_page := 4096 div slab_index_to_size i,
            free_list := NULL\<rparr>
     else km_caches w i)\<rparr>"

subsection \<open>Growing a cache\<close>

partial_function (option) slab_carve :: "mem \<Rightarrow> addr \<Rightarrow> u64 \<Rightarrow> u64 \<Rightarrow> addr \<Rightarrow> (mem \<times> addr) option" where [code]:
  "slab_carve m base sz i fl =
     (if i + sz \<le> 4096 then slab_carve (store64 m (base + i) fl) base sz (i + sz) (base + i)
      else Some (m, fl))"

definition slab_grow :: "kmem \<Rightarrow> nat \<Rightarrow> (int \<times> kmem) option" where
  "slab_grow w idx =
     do { (page, m, st) \<leftarrow> alloc_page (km_mem w) (km_phys w);
          if page = NULL then Some (- 1, w\<lparr>km_mem := m, km_phys := st\<rparr>)
          else do {
            let c = km_caches w idx;
            let sz = ((if obj_size c < 8 then 8 else obj_size c) + 7) AND NOT 7;
            (m', fl) \<leftarrow> slab_carve m page sz 0 (free_list c);
            let st' = (case get_page_struct st page of
                         None \<Rightarrow> st
                       | Some pg \<Rightarrow> upd_page st pg (\<lambda>d. d\<lparr>p_flags := p_flags d OR PAGE_FLAG_SLAB,
                           p_slab_cache := Some idx, p_slab_free_count := ucast (objs_per_page c)\<rparr>));
            Some (0, upd_cache (w\<lparr>km_mem := m', km_phys := st'\<rparr>) idx (\<lambda>c. c\<lparr>free_list := fl\<rparr>)) } }"

subsection \<open>Allocation\<close>

definition slab_pop :: "kmem \<Rightarrow> nat \<Rightarrow> addr \<times> kmem" where
  "slab_pop w idx =
     (let c = km_caches w idx; obj = free_list c;
          st = (case get_page_struct (km_phys w) obj of
                  None \<Rightarrow> km_phys w
                | Some pg \<Rightarrow>
                    if p_flags (page_array (km_phys w) pg) AND PAGE_FLAG_SLAB \<noteq> 0 \<and>
                       0 < p_slab_free_count (page_array (km_phys w) pg)
                    then upd_page (km_phys w) pg (\<lambda>d. d\<lparr>p_slab_free_count := p_slab_free_count d - 1\<rparr>)
                    else km_phys w)
      in (obj, upd_cache (w\<lparr>km_mem := memset (km_mem w) obj 0 (unat (obj_size c)), km_phys := st\<rparr>) idx
                 (\<lambda>c. c\<lparr>free_list := load64 (km_mem w) obj\<rparr>)))"

definition kmalloc_small :: "kmem \<Rightarrow> nat \<Rightarrow> (addr \<times> kmem) option" where
  "kmalloc_small w idx =
     (if free_list (km_caches w idx) = NULL
      then if growing (km_caches w idx) then None
        else do {
          (r, w1) \<leftarrow> slab_grow (upd_cache w idx (\<lambda>c. c\<lparr>growing := True\<rparr>)) idx;
          let w2 = upd_cache w1 idx (\<lambda>c. c\<lparr>growing := False\<rparr>);
          Some (if r \<noteq> 0 \<or> free_list (km_caches w2 idx) = NULL then (NULL, w2) else slab_pop w2 idx) }
      else Some (slab_pop w idx))"

text \<open>The order for a number of pages.\<close>

function kmalloc_order :: "u64 \<Rightarrow> nat \<Rightarrow> nat" where
  "kmalloc_order pages_needed order =
     (if push_bit order 1 < pages_needed \<and> order \<le> MAX_ORDER then kmalloc_order pages_needed (Suc order) else order)"
  by pat_completeness auto
termination by (relation "measure (\<lambda>(n, k). Suc MAX_ORDER - k)") auto

declare kmalloc_order.simps [simp del]

definition kmalloc :: "kmem \<Rightarrow> u64 \<Rightarrow> (addr \<times> kmem) option" where
  "kmalloc w sz =
     (if sz = 0 then Some (NULL, w)
      else if sz \<le> 4096 then kmalloc_small w (slab_size_to_index sz)
      else if 0xFFFFFFFFFFFFFFFF - 4096 < sz then Some (NULL, w)
      else let order = kmalloc_order ((sz + 4096 - 1) div 4096) 0 in
        if MAX_ORDER < order then Some (NULL, w)
        else do { (ptr, m, st) \<leftarrow> alloc_pages (km_mem w) (km_phys w) order;
                  Some (ptr, w\<lparr>km_mem := m, km_phys := st\<rparr>) })"

subsection \<open>Release\<close>

text \<open>Removing the objects of a page from a free list; \<open>prev\<close> is the object whose link points to \<open>cur\<close>, or
  \<open>None\<close> for the head \<open>fl\<close> of the list.\<close>

partial_function (option) slab_unlink ::
  "mem \<Rightarrow> addr \<Rightarrow> addr option \<Rightarrow> addr \<Rightarrow> u64 \<Rightarrow> u64 \<Rightarrow> (mem \<times> addr) option" where [code]:
  "slab_unlink m fl prev cur page_start page_end =
     (if cur = NULL then Some (m, fl)
      else if page_start \<le> cur \<and> cur < page_end
      then case prev of
             None \<Rightarrow> slab_unlink m (load64 m cur) None (load64 m cur) page_start page_end
           | Some q \<Rightarrow> slab_unlink (store64 m q (load64 m cur)) fl (Some q) (load64 m cur) page_start page_end
      else slab_unlink m fl (Some cur) (load64 m cur) page_start page_end)"

text \<open>Putting an object back: its contents, the mark against a second release, and the link.\<close>

definition slab_push :: "mem \<Rightarrow> addr \<Rightarrow> nat \<Rightarrow> addr \<Rightarrow> mem" where
  "slab_push m ptr sz fl = store64 (store64 (memset m ptr 0 sz) (ptr + 8) SLAB_FREE_MAGIC) ptr fl"

definition kfree_slab :: "kmem \<Rightarrow> addr \<Rightarrow> nat \<Rightarrow> nat \<Rightarrow> kmem option" where
  "kfree_slab w ptr pg idx =
     (if load64 (km_mem w) (ptr + 8) = SLAB_FREE_MAGIC then Some w
      else
        let c = km_caches w idx;
            m1 = slab_push (km_mem w) ptr (unat (obj_size c)) (free_list c);
            st1 = upd_page (km_phys w) pg (\<lambda>d. d\<lparr>p_slab_free_count := p_slab_free_count d + 1\<rparr>)
        in if objs_per_page c \<le> ucast (p_slab_free_count (page_array st1 pg))
           then do {
             let page_start = p_phys_addr (page_array st1 pg);
             (m2, fl) \<leftarrow> slab_unlink m1 ptr None ptr page_start (page_start + 4096);
             let st2 = upd_page st1 pg (\<lambda>d. d\<lparr>p_flags := p_flags d AND NOT PAGE_FLAG_SLAB,
                         p_slab_cache := None, p_slab_free_count := 0\<rparr>);
             st3 \<leftarrow> free_page st2 page_start;
             Some (upd_cache (w\<lparr>km_mem := m2, km_phys := st3\<rparr>) idx (\<lambda>c. c\<lparr>free_list := fl\<rparr>)) }
           else Some (upd_cache (w\<lparr>km_mem := m1, km_phys := st1\<rparr>) idx (\<lambda>c. c\<lparr>free_list := ptr\<rparr>)))"

definition kfree :: "kmem \<Rightarrow> addr \<Rightarrow> kmem option" where
  "kfree w ptr =
     (if ptr = NULL then Some w
      else
        let st = km_phys w; pg = get_page_struct st ptr;
            release = (\<lambda>st'. w\<lparr>km_phys := st'\<rparr>)
        in case pg of
             None \<Rightarrow> map_option release (free_pages st ptr 0)
           | Some p \<Rightarrow>
               if p_flags (page_array st p) AND PAGE_FLAG_SLAB \<noteq> 0
               then case p_slab_cache (page_array st p) of
                      None \<Rightarrow> map_option release (free_page st (p_phys_addr (page_array st p)))
                    | Some idx \<Rightarrow> kfree_slab w ptr p idx
               else map_option release (free_pages st ptr (p_order (page_array st p))))"

text \<open>The bytes on the free lists.\<close>

partial_function (option) slab_count_free :: "mem \<Rightarrow> addr \<Rightarrow> u64 \<Rightarrow> u64 \<Rightarrow> u64 option" where [code]:
  "slab_count_free m obj sz acc =
     (if obj = NULL then Some acc else slab_count_free m (load64 m obj) sz (acc + sz))"

fun slab_stats_from :: "kmem \<Rightarrow> nat \<Rightarrow> nat \<Rightarrow> u64 \<Rightarrow> u64 option" where
  "slab_stats_from w i 0 acc = Some acc"
| "slab_stats_from w i (Suc n) acc =
     do { acc' \<leftarrow> slab_count_free (km_mem w) (free_list (km_caches w i)) (obj_size (km_caches w i)) acc;
          slab_stats_from w (Suc i) n acc' }"

definition slab_get_stats :: "kmem \<Rightarrow> (u64 \<times> u64) option" where
  "slab_get_stats w = do { total_free \<leftarrow> slab_stats_from w 0 SLAB_NUM_CACHES 0; Some (0, total_free) }"

end
