(* ===== verification/Buddy_inv.thy ===== *)
theory Buddy_inv
  imports Buddy
begin

text \<open>
  Correctness of the physical page allocator of \<^verbatim>\<open>kernel/mem.c\<close>.  The invariant ties the linked free
  lists to the flags and orders in the page descriptors and to a ghost set \<open>A\<close> of the blocks that
  are handed out; every block is aligned, inside the managed range, free of reserved pages, and
  disjoint from every other.  Merging keeps the free blocks maximal.
\<close>

subsection \<open>Lists and the rest of a descriptor\<close>

lemma upd_page_simps [simp]:
  "page_array (upd_page st p f) = (page_array st)(p := f (page_array st p))"
  "free_area (upd_page st p f) = free_area st"
  "total_phys_pages (upd_page st p f) = total_phys_pages st"
  "phys_mem_end (upd_page st p f) = phys_mem_end st"
  "stat_total_pages (upd_page st p f) = stat_total_pages st"
  "stat_used_pages (upd_page st p f) = stat_used_pages st"
  by (simp_all add: upd_page_def)

abbreviation nn :: "phys_mem \<Rightarrow> nat \<Rightarrow> nat option" where
  "nn st \<equiv> \<lambda>p. p_next (page_array st p)"

text \<open>Everything in the state but the links of the lists.\<close>

definition info :: "phys_mem \<Rightarrow> nat \<Rightarrow> page" where
  "info st p = (page_array st p)\<lparr>p_next := None\<rparr>"

definition same_info :: "phys_mem \<Rightarrow> phys_mem \<Rightarrow> bool" where
  "same_info st st' \<longleftrightarrow> info st' = info st \<and> total_phys_pages st' = total_phys_pages st \<and>
     phys_mem_end st' = phys_mem_end st \<and> stat_total_pages st' = stat_total_pages st \<and>
     stat_used_pages st' = stat_used_pages st"

lemma info_fields:
  "p_flags (page_array st p) = p_flags (info st p)" "p_order (page_array st p) = p_order (info st p)"
  "p_phys_addr (page_array st p) = p_phys_addr (info st p)"
  by (simp_all add: info_def)

lemma info_upd_page: "info (upd_page st p f) = (info st)(p := (f (page_array st p))\<lparr>p_next := None\<rparr>)"
  by (simp add: info_def fun_eq_iff)

lemma same_info_trans: "same_info st st' \<Longrightarrow> same_info st' st'' \<Longrightarrow> same_info st st''"
  by (simp add: same_info_def)

definition free_lists :: "phys_mem \<Rightarrow> (nat \<Rightarrow> nat list) \<Rightarrow> bool" where
  "free_lists st L \<longleftrightarrow> (\<forall>k \<le> MAX_ORDER. chain (nn st) (free_area st k) (L k))"

definition free_blocks :: "(nat \<Rightarrow> nat list) \<Rightarrow> block set" where
  "free_blocks L = {(p, k). k \<le> MAX_ORDER \<and> p \<in> set (L k)}"

lemma free_listsD: "free_lists st L \<Longrightarrow> k \<le> MAX_ORDER \<Longrightarrow> chain (nn st) (free_area st k) (L k)"
  by (simp add: free_lists_def)

lemma nn_list_add: "nn (list_add st k p) = (nn st)(p := free_area st k)"
  by (auto simp: list_add_def)

lemma list_add_lists:
  assumes "free_lists st L" and "\<forall>j \<le> MAX_ORDER. p \<notin> set (L j)"
  shows "free_lists (list_add st k p) (L(k := p # L k))"
  unfolding free_lists_def
proof (intro allI impI)
  fix j assume j: "j \<le> MAX_ORDER"
  have "chain (nn st) (free_area st j) (L j)" using free_listsD [OF assms(1) j] .
  then have "chain ((nn st)(p := free_area st k)) (free_area st j) (L j)"
    using chain_upd [of p "L j" "nn st" "free_area st k" "free_area st j"] assms(2) j by blast
  then show "chain (nn (list_add st k p)) (free_area (list_add st k p) j) ((L(k := p # L k)) j)"
    unfolding nn_list_add by (cases "j = k") (simp_all add: list_add_def)
qed

lemma list_add_same: "same_info st (list_add st k p)"
  by (simp add: same_info_def list_add_def info_def fun_eq_iff)

lemma list_prev_chain:
  "chain (nn st) h (l @ q # p # l') \<Longrightarrow> h \<noteq> Some p \<Longrightarrow> list_prev st h p = Some (Some q)"
proof (induction l arbitrary: h)
  case Nil
  then show ?case by (subst list_prev.simps) auto
next
  case (Cons a l)
  have d: "distinct ((a # l) @ q # p # l')" using Cons.prems(1) by (rule chain_distinct)
  have h: "h = Some a" and c: "chain (nn st) (nn st a) (l @ q # p # l')" using Cons.prems(1) by auto
  have "nn st a \<noteq> Some p" using c d by (cases l) auto
  then show ?case using Cons.IH [OF c] h by (subst list_prev.simps) simp
qed

lemma list_del_lists:
  assumes lists: "free_lists st L" and k: "k \<le> MAX_ORDER" and p: "p \<in> set (L k)"
    and disj: "\<forall>j \<le> MAX_ORDER. j \<noteq> k \<longrightarrow> set (L j) \<inter> set (L k) = {}"
  obtains st' where "list_del st k p = Some st'" and "free_lists st' (L(k := remove1 p (L k)))"
    and "same_info st st'"
proof -
  obtain l l' where l: "L k = l @ p # l'" using p by (meson split_list)
  have c: "chain (nn st) (free_area st k) (l @ p # l')" using free_listsD [OF lists k] l by simp
  have d: "distinct (l @ p # l')" using c by (rule chain_distinct)
  have rem: "remove1 p (L k) = l @ l'" using d l by (simp add: remove1_append)
  have others: "chain (nn st) (free_area st j) (L j)" "set (L j) \<inter> set (L k) = {}"
    if "j \<le> MAX_ORDER" "j \<noteq> k" for j
    using free_listsD [OF lists that(1)] disj that by blast+
  show thesis
  proof (cases l rule: rev_cases)
    case Nil
    let ?st = "upd_page (st\<lparr>free_area := (free_area st)(k := nn st p)\<rparr>) p (\<lambda>pg. pg\<lparr>p_next := None\<rparr>)"
    have nn: "nn ?st = (nn st)(p := None)" by auto
    have "chain (nn ?st) (free_area ?st j) ((L(k := remove1 p (L k))) j)" if j: "j \<le> MAX_ORDER" for j
    proof (cases "j = k")
      case True
      have "chain ((nn st)(p := None)) (nn st p) l'"
        using c d Nil chain_upd [of p l' "nn st" None "nn st p"] by simp
      then show ?thesis unfolding nn rem using True Nil by simp
    next
      case False
      then show ?thesis
        unfolding nn using others [OF j False] chain_upd [of p "L j" "nn st" None "free_area st j"] p by auto
    qed
    moreover have "list_del st k p = Some ?st" using c Nil by (simp add: list_del_def)
    moreover have "same_info st ?st" by (simp add: same_info_def info_def fun_eq_iff)
    ultimately show thesis using that [of ?st] by (simp add: free_lists_def)
  next
    case (snoc m q)
    let ?st = "upd_page (upd_page st q (\<lambda>pg. pg\<lparr>p_next := nn st p\<rparr>)) p (\<lambda>pg. pg\<lparr>p_next := None\<rparr>)"
    have nn: "nn ?st = (nn st)(q := nn st p, p := None)" by auto
    have c': "chain (nn st) (free_area st k) (m @ q # p # l')" using c snoc by simp
    have head: "free_area st k \<noteq> Some p" using c' d snoc by (cases m) auto
    have "chain (nn ?st) (free_area ?st j) ((L(k := remove1 p (L k))) j)" if j: "j \<le> MAX_ORDER" for j
    proof (cases "j = k")
      case True
      then show ?thesis unfolding nn rem using chain_unlink [OF c'] snoc by simp
    next
      case False
      have "p \<notin> set (L j)" "q \<notin> set (L j)" using others(2) [OF j False] l snoc by auto
      then show ?thesis
        unfolding nn using others(1) [OF j False] False by (simp add: chain_upd)
    qed
    moreover have "list_del st k p = Some ?st"
      using head list_prev_chain [OF c' head] by (simp add: list_del_def)
    moreover have "same_info st ?st" by (simp add: same_info_def info_def fun_eq_iff)
    ultimately show thesis using that [of ?st] by (simp add: free_lists_def)
  qed
qed

lemma upd_page_lists:
  assumes "free_lists st L" and "\<forall>j \<le> MAX_ORDER. p \<notin> set (L j)"
  shows "free_lists (upd_page st p f) L"
  unfolding free_lists_def
proof (intro allI impI)
  fix j assume j: "j \<le> MAX_ORDER"
  have "chain (nn (upd_page st p f)) (free_area st j) (L j) = chain (nn st) (free_area st j) (L j)"
    using assms(2) j by (intro chain_cong) auto
  then show "chain (nn (upd_page st p f)) (free_area (upd_page st p f) j) (L j)"
    using free_listsD [OF assms(1) j] by simp
qed

subsection \<open>The invariant\<close>

definition block_ok :: "phys_mem \<Rightarrow> block \<Rightarrow> bool" where
  "block_ok st = (\<lambda>(p, k). block_aligned (p, k) \<and> p + 2 ^ k \<le> total_phys_pages st \<and>
     p_order (info st p) = k \<and> p_phys_addr (info st p) = pfn_to_phys p \<and>
     (\<forall>x \<in> block_pages (p, k). p_flags (info st x) AND PAGE_FLAG_RESERVED = 0))"

definition mem_inv :: "phys_mem \<Rightarrow> (nat \<Rightarrow> nat list) \<Rightarrow> block set \<Rightarrow> bool" where
  "mem_inv st L A \<longleftrightarrow> total_phys_pages st \<le> BUDDY_MAX_PAGES \<and> free_lists st L \<and>
     (\<forall>x \<in> free_blocks L \<union> A. block_ok st x) \<and>
     (\<forall>p. p_flags (info st p) AND PAGE_FLAG_FREE \<noteq> 0 \<longleftrightarrow> (\<exists>k. (p, k) \<in> free_blocks L)) \<and>
     blocks_disjoint (free_blocks L \<union> A) \<and> free_blocks L \<inter> A = {}"

lemma mem_invD:
  assumes "mem_inv st L A"
  shows "total_phys_pages st \<le> BUDDY_MAX_PAGES" "free_lists st L"
    "\<And>x. x \<in> free_blocks L \<Longrightarrow> block_ok st x" "\<And>x. x \<in> A \<Longrightarrow> block_ok st x"
    "\<And>p. p_flags (info st p) AND PAGE_FLAG_FREE \<noteq> 0 \<longleftrightarrow> (\<exists>k. (p, k) \<in> free_blocks L)"
    "blocks_disjoint (free_blocks L \<union> A)" "free_blocks L \<inter> A = {}"
  using assms by (auto simp: mem_inv_def)

lemma block_okD:
  assumes "block_ok st (p, k)"
  shows "k \<le> MAX_ORDER" "2 ^ k dvd p" "p + 2 ^ k \<le> total_phys_pages st" "p_order (info st p) = k"
    "p_phys_addr (info st p) = pfn_to_phys p"
    "\<And>x. x \<in> block_pages (p, k) \<Longrightarrow> p_flags (info st x) AND PAGE_FLAG_RESERVED = 0"
  using assms by (auto simp: block_ok_def block_aligned_def)

lemma lists_disjoint:
  assumes "mem_inv st L A" and "j \<le> MAX_ORDER" and "k \<le> MAX_ORDER" and "j \<noteq> k"
  shows "set (L j) \<inter> set (L k) = {}"
proof -
  have "j = k" if "p \<in> set (L j)" "p \<in> set (L k)" for p
    using block_okD(4) [OF mem_invD(3) [OF assms(1)], of p j] block_okD(4) [OF mem_invD(3) [OF assms(1)], of p k]
      that assms(2,3) by (simp add: free_blocks_def)
  then show ?thesis using assms(4) by blast
qed

text \<open>An operation that changes only the descriptors \<open>X\<close> keeps the blocks that do not start there.\<close>

lemma mem_inv_change:
  assumes inv: "mem_inv st L A" and total: "total_phys_pages st' = total_phys_pages st"
    and lists: "free_lists st' L'"
    and same: "\<And>q. q \<notin> X \<Longrightarrow> info st' q = info st q"
    and res: "\<And>q. q \<in> X \<Longrightarrow> p_flags (info st' q) AND PAGE_FLAG_RESERVED = 0"
    and kept: "\<And>x. x \<in> free_blocks L' \<union> A' \<Longrightarrow> block_ok st' x \<or> x \<in> free_blocks L \<union> A \<and> fst x \<notin> X"
    and free_X: "\<And>q. q \<in> X \<Longrightarrow> p_flags (info st' q) AND PAGE_FLAG_FREE \<noteq> 0 \<longleftrightarrow> (\<exists>k. (q, k) \<in> free_blocks L')"
    and free_other: "\<And>q k. q \<notin> X \<Longrightarrow> (q, k) \<in> free_blocks L' \<longleftrightarrow> (q, k) \<in> free_blocks L"
    and disj: "blocks_disjoint (free_blocks L' \<union> A')" "free_blocks L' \<inter> A' = {}"
  shows "mem_inv st' L' A'"
proof -
  have "block_ok st' x" if "x \<in> free_blocks L' \<union> A'" for x
  proof (cases "block_ok st' x")
    case False
    with kept [OF that] have x: "x \<in> free_blocks L \<union> A" "fst x \<notin> X" by auto
    obtain p k where "x = (p, k)" by (cases x)
    then have ok: "block_ok st (p, k)" "p \<notin> X" using x mem_invD(3,4) [OF inv] by auto
    have "p_flags (info st' q) AND PAGE_FLAG_RESERVED = 0" if "q \<in> block_pages (p, k)" for q
      using res [of q] same [of q] block_okD(6) [OF ok(1) that] by (cases "q \<in> X") simp_all
    then show ?thesis using ok same [OF ok(2)] total \<open>x = (p, k)\<close> by (simp add: block_ok_def)
  qed simp
  moreover have "p_flags (info st' q) AND PAGE_FLAG_FREE \<noteq> 0 \<longleftrightarrow> (\<exists>k. (q, k) \<in> free_blocks L')" for q
    using free_X [of q] same [of q] free_other [of q] mem_invD(5) [OF inv, of q] by (cases "q \<in> X") simp_all
  ultimately show ?thesis using mem_invD(1) [OF inv] total lists disj by (simp add: mem_inv_def)
qed

text \<open>No other block starts at a page of a block.\<close>

lemma start_unique:
  assumes "mem_inv st L A" and "x \<in> free_blocks L \<union> A" and "y \<in> free_blocks L \<union> A" and "x \<noteq> y"
  shows "fst y \<notin> block_pages x"
proof
  assume "fst y \<in> block_pages x"
  moreover have "fst y \<in> block_pages y" using first_in_block [of "fst y" "snd y"] by simp
  ultimately show False using blocks_disjoint_same [OF mem_invD(6) [OF assms(1)] assms(2,3)] assms(4) by blast
qed

subsection \<open>Merging\<close>

text \<open>Replacing the two buddies by their parent in the lists.\<close>

definition merge_lists :: "(nat \<Rightarrow> nat list) \<Rightarrow> nat \<Rightarrow> nat \<Rightarrow> nat \<Rightarrow> nat \<Rightarrow> nat list" where
  "merge_lists L k p b = L(k := remove1 b (remove1 p (L k)), Suc k := min p b # L (Suc k))"

lemma merge_lists_blocks:
  assumes "distinct (L k)" and "k < MAX_ORDER"
  shows "free_blocks (merge_lists L k p b) = insert (min p b, Suc k) (free_blocks L - {(p, k), (b, k)})"
  using assms by (auto simp: free_blocks_def merge_lists_def split: if_splits)

lemma info_merge_pages:
  assumes "p \<noteq> b"
  shows "info (merge_pages st k p b) = (info st)
     (min p b := (info st (min p b))\<lparr>p_flags := PAGE_FLAG_FREE, p_order := Suc k, p_phys_addr := pfn_to_phys (min p b)\<rparr>,
      max p b := (info st (max p b))\<lparr>p_flags := 0, p_order := 0\<rparr>)"
  using assms by (auto simp: merge_pages_def Let_def info_def list_add_def fun_eq_iff min_def max_def)

lemma merge_pages_total [simp]:
  "total_phys_pages (merge_pages st k p b) = total_phys_pages st"
  "phys_mem_end (merge_pages st k p b) = phys_mem_end st"
  "stat_total_pages (merge_pages st k p b) = stat_total_pages st"
  "stat_used_pages (merge_pages st k p b) = stat_used_pages st"
  by (simp_all add: merge_pages_def Let_def list_add_def)

lemma merge_pages_lists:
  assumes "free_lists st L" and "\<forall>j \<le> MAX_ORDER. p \<notin> set (L j) \<and> b \<notin> set (L j)"
  shows "free_lists (merge_pages st k p b) (L(Suc k := min p b # L (Suc k)))"
  unfolding merge_pages_def Let_def
  using assms by (auto simp: min_def intro!: list_add_lists upd_page_lists)

text \<open>The fields that merging leaves alone.\<close>

definition same_stats :: "phys_mem \<Rightarrow> phys_mem \<Rightarrow> bool" where
  "same_stats st st' \<longleftrightarrow> total_phys_pages st' = total_phys_pages st \<and> phys_mem_end st' = phys_mem_end st \<and>
     stat_total_pages st' = stat_total_pages st \<and> stat_used_pages st' = stat_used_pages st"

text \<open>Only the descriptors \<open>X\<close> change, and no page becomes a slab page.\<close>

definition frame :: "nat set \<Rightarrow> phys_mem \<Rightarrow> phys_mem \<Rightarrow> bool" where
  "frame X st st' \<longleftrightarrow> (\<forall>q. q \<notin> X \<longrightarrow> info st' q = info st q) \<and>
     (\<forall>q. p_flags (info st' q) AND PAGE_FLAG_SLAB \<noteq> 0 \<longrightarrow> p_flags (info st q) AND PAGE_FLAG_SLAB \<noteq> 0)"

lemma frame_refl [simp]: "frame X st st"
  by (simp add: frame_def)

lemma frame_trans: "frame X st st' \<Longrightarrow> frame X st' st'' \<Longrightarrow> frame X st st''"
  by (simp add: frame_def)

lemma frame_mono: "frame X st st' \<Longrightarrow> X \<subseteq> Y \<Longrightarrow> frame Y st st'"
  by (auto simp: frame_def)

lemma merge_step:
  assumes inv: "mem_inv st L A" and p: "(p, k) \<in> free_blocks L" and b: "(p XOR 2 ^ k, k) \<in> free_blocks L"
    and k: "k < MAX_ORDER"
  obtains st1 st2 where "list_del st k p = Some st1" and "list_del st1 k (p XOR 2 ^ k) = Some st2"
    and "mem_inv (merge_pages st2 k p (p XOR 2 ^ k)) (merge_lists L k p (p XOR 2 ^ k)) A"
    and "same_stats st (merge_pages st2 k p (p XOR 2 ^ k))"
    and "frame {p, p XOR 2 ^ k} st (merge_pages st2 k p (p XOR 2 ^ k))"
proof -
  define b where "b = p XOR 2 ^ k"
  have b_in: "(b, k) \<in> free_blocks L" using b by (simp add: b_def)
  note ok = block_okD [OF mem_invD(3) [OF inv p]] and okb = block_okD [OF mem_invD(3) [OF inv b_in]]
  note bf = buddy_facts [OF ok(2), folded b_def]
  have mem: "p \<in> set (L k)" "b \<in> set (L k)" using p b_in by (simp_all add: free_blocks_def)
  have d: "distinct (L k)" using chain_distinct [OF free_listsD [OF mem_invD(2) [OF inv], of k]] k by simp
  have disj: "\<forall>j \<le> MAX_ORDER. j \<noteq> k \<longrightarrow> set (L j) \<inter> set (L k) = {}"
    using lists_disjoint [OF inv, of _ k] k by auto
  obtain st1 where st1: "list_del st k p = Some st1" "free_lists st1 (L(k := remove1 p (L k)))" "same_info st st1"
    using list_del_lists [OF mem_invD(2) [OF inv] _ mem(1) disj] k by auto
  have "b \<in> set ((L(k := remove1 p (L k))) k)" using mem(2) bf(1) by simp
  moreover have "\<forall>j \<le> MAX_ORDER. j \<noteq> k \<longrightarrow>
      set ((L(k := remove1 p (L k))) j) \<inter> set ((L(k := remove1 p (L k))) k) = {}"
    using disj d by auto
  ultimately obtain st2 where st2: "list_del st1 k b = Some st2"
      "free_lists st2 (L(k := remove1 b (remove1 p (L k))))" "same_info st1 st2"
    using list_del_lists [OF st1(2), of k b] k by auto
  have same: "same_info st st2" using st1(3) st2(3) by (rule same_info_trans)
  let ?L2 = "L(k := remove1 b (remove1 p (L k)))"
  let ?st = "merge_pages st2 k p b" and ?L = "merge_lists L k p b"
  have blocks: "free_blocks ?L = insert (min p b, Suc k) (free_blocks L - {(p, k), (b, k)})"
    using merge_lists_blocks [of L k p b] d k by simp
  have out: "\<forall>j \<le> MAX_ORDER. p \<notin> set (?L2 j) \<and> b \<notin> set (?L2 j)"
    using disj mem d by auto
  have lists: "free_lists ?st ?L"
    using merge_pages_lists [OF st2(2) out, of k] by (simp add: merge_lists_def fun_upd_def)
  have info: "info ?st = (info st)
     (min p b := (info st (min p b))\<lparr>p_flags := PAGE_FLAG_FREE, p_order := Suc k, p_phys_addr := pfn_to_phys (min p b)\<rparr>,
      max p b := (info st (max p b))\<lparr>p_flags := 0, p_order := 0\<rparr>)"
    using info_merge_pages [of p b st2 k] bf(1) same by (simp add: same_info_def)
  have total: "total_phys_pages ?st = total_phys_pages st" using same by (simp add: same_info_def)
  have start: "fst x \<notin> {p, b}" if "x \<in> free_blocks L \<union> A" "x \<noteq> (p, k)" "x \<noteq> (b, k)" for x
    using start_unique [OF inv, of "(p, k)" x] start_unique [OF inv, of "(b, k)" x] p b_in that by auto
  have fresh: "(min p b, Suc k) \<notin> free_blocks L \<union> A" using start [of "(min p b, Suc k)"] by (auto simp: min_def)
  have parent: "block_ok ?st (min p b, Suc k)"
  proof -
    have "min p b + 2 ^ Suc k \<le> total_phys_pages st" using ok(3) okb(3)
      unfolding block_pages_bound [symmetric] bf(5) by simp
    moreover have "p_flags (info ?st y) AND PAGE_FLAG_RESERVED = 0" if "y \<in> block_pages (min p b, Suc k)" for y
      using that ok(6) [of y] okb(6) [of y] unfolding bf(5) by (auto simp: info)
    ultimately show ?thesis using bf(1,4) k total by (auto simp: block_ok_def block_aligned_def info)
  qed
  have "mem_inv ?st ?L A"
  proof (rule mem_inv_change [OF inv total lists, where X = "{p, b}"])
    show "info ?st q = info st q" if "q \<notin> {p, b}" for q
      using that by (auto simp: info min_def max_def)
    show "p_flags (info ?st q) AND PAGE_FLAG_RESERVED = 0" if "q \<in> {p, b}" for q
      using that bf(1) by (auto simp: info min_def max_def)
    show "block_ok ?st x \<or> x \<in> free_blocks L \<union> A \<and> fst x \<notin> {p, b}" if "x \<in> free_blocks ?L \<union> A" for x
    proof -
      have "x = (min p b, Suc k) \<or> x \<in> free_blocks L \<union> A \<and> x \<noteq> (p, k) \<and> x \<noteq> (b, k)"
        using that mem_invD(7) [OF inv] p b_in unfolding blocks by auto
      then show ?thesis using parent start [of x] by metis
    qed
    show "p_flags (info ?st q) AND PAGE_FLAG_FREE \<noteq> 0 \<longleftrightarrow> (\<exists>k. (q, k) \<in> free_blocks ?L)" if q: "q \<in> {p, b}" for q
    proof (cases "q = min p b")
      case False
      then have "p_flags (info ?st q) = 0" using q bf(1) by (auto simp: info min_def max_def)
      moreover have "(q, j) \<notin> free_blocks ?L" for j
        using False q start [of "(q, j)"] unfolding blocks by auto
      ultimately show ?thesis by simp
    qed (use bf(1) in \<open>auto simp: info blocks min_def max_def\<close>)
    show "(q, j) \<in> free_blocks ?L \<longleftrightarrow> (q, j) \<in> free_blocks L" if "q \<notin> {p, b}" for q j
      using that by (auto simp: blocks min_def split: if_splits)
    have "free_blocks L \<union> A = insert (p, k) (insert (b, k) (free_blocks L \<union> A - {(p, k), (b, k)}))"
      using p b_in by blast
    then have "blocks_disjoint (insert (min p b, Suc k) (free_blocks L \<union> A - {(p, k), (b, k)}))"
      using blocks_disjoint_merge [OF _ _ _ bf(5)] mem_invD(6) [OF inv] by auto
    moreover have "free_blocks ?L \<union> A = insert (min p b, Suc k) (free_blocks L \<union> A - {(p, k), (b, k)})"
      using blocks mem_invD(7) [OF inv] p b_in by auto
    ultimately show "blocks_disjoint (free_blocks ?L \<union> A)" by simp
    show "free_blocks ?L \<inter> A = {}" using blocks fresh mem_invD(7) [OF inv] by auto
  qed
  moreover have "same_stats st ?st" using same by (simp add: same_info_def same_stats_def)
  moreover have "frame {p, b} st ?st" by (auto simp: frame_def info min_def max_def)
  ultimately show thesis using that st1(1) st2(1) by (simp add: b_def)
qed

lemma buddy_merge_stop:
  assumes "mem_inv st L A" and p: "(p, k) \<in> free_blocks L" and "k < MAX_ORDER \<longrightarrow> (p XOR 2 ^ k, k) \<notin> free_blocks L"
  shows "buddy_merge st p = Some (st, p)"
proof -
  have order: "p_order (info st p) = k" using block_okD(4) [OF mem_invD(3) [OF assms(1) p]] .
  have "p_order (info st b) \<noteq> k" if "p_flags (info st b) AND PAGE_FLAG_FREE \<noteq> 0" "k < MAX_ORDER" "b = p XOR 2 ^ k" for b
    using that assms(3) mem_invD(5) [OF assms(1), of b] block_okD(4) [OF mem_invD(3) [OF assms(1)]] by metis
  then show ?thesis
    by (subst buddy_merge.simps) (auto simp: info_fields order get_buddy_def Let_def)
qed

lemma buddy_merge_step:
  assumes inv: "mem_inv st L A" and p: "(p, k) \<in> free_blocks L" and b: "(p XOR 2 ^ k, k) \<in> free_blocks L"
    and k: "k < MAX_ORDER"
  obtains st' where "buddy_merge st p = buddy_merge st' (min p (p XOR 2 ^ k))"
    and "mem_inv st' (merge_lists L k p (p XOR 2 ^ k)) A" and "same_stats st st'" and "frame {p, p XOR 2 ^ k} st st'"
proof -
  obtain st1 st2 where st: "list_del st k p = Some st1" "list_del st1 k (p XOR 2 ^ k) = Some st2"
    "mem_inv (merge_pages st2 k p (p XOR 2 ^ k)) (merge_lists L k p (p XOR 2 ^ k)) A"
    "same_stats st (merge_pages st2 k p (p XOR 2 ^ k))" "frame {p, p XOR 2 ^ k} st (merge_pages st2 k p (p XOR 2 ^ k))"
    using merge_step [OF inv p b k] by blast
  note okb = block_okD [OF mem_invD(3) [OF inv b]]
  have "p_order (info st p) = k" using block_okD(4) [OF mem_invD(3) [OF inv p]] .
  moreover have "p XOR 2 ^ k < total_phys_pages st" using okb(3) by (simp add: less_le_trans [rotated])
  moreover have "p_flags (info st (p XOR 2 ^ k)) AND PAGE_FLAG_FREE \<noteq> 0" using mem_invD(5) [OF inv] b by blast
  ultimately have "buddy_merge st p = buddy_merge (merge_pages st2 k p (p XOR 2 ^ k)) (min p (p XOR 2 ^ k))"
    using st(1,2) k okb(4) buddy_facts(1) [OF block_okD(2) [OF mem_invD(3) [OF inv p]]]
    by (subst buddy_merge.simps) (auto simp: info_fields get_buddy_def Let_def min_def)
  then show thesis using that st(3-5) by blast
qed

text \<open>Merging upwards from \<open>(p, k)\<close> ends, and leaves no two buddies among the blocks of order \<open>\<ge> k0\<close> if
  there were none but for \<open>(p, k)\<close>.\<close>

abbreviation from_order :: "nat \<Rightarrow> block set \<Rightarrow> block set" where
  "from_order k0 B \<equiv> {x \<in> B. k0 \<le> snd x}"

lemma merge_lists_covered:
  assumes "mem_inv st L A" and "(p, k) \<in> free_blocks L" and "(p XOR 2 ^ k, k) \<in> free_blocks L" and "k < MAX_ORDER"
  defines "L' \<equiv> merge_lists L k p (p XOR 2 ^ k)"
  shows "free_blocks L' = insert (min p (p XOR 2 ^ k), Suc k) (free_blocks L - {(p, k), (p XOR 2 ^ k, k)})"
    and "covered (free_blocks L') = covered (free_blocks L)"
proof -
  let ?b = "p XOR 2 ^ k"
  have d: "distinct (L k)" using chain_distinct [OF free_listsD [OF mem_invD(2) [OF assms(1)], of k]] assms(4) by simp
  then show eq: "free_blocks L' = insert (min p ?b, Suc k) (free_blocks L - {(p, k), (?b, k)})"
    unfolding L'_def using merge_lists_blocks [of L k p ?b] assms(4) by simp
  have "covered (free_blocks L) = block_pages (p, k) \<union> block_pages (?b, k) \<union> covered (free_blocks L - {(p, k), (?b, k)})"
    using assms(2,3) by (auto simp: covered_def)
  then show "covered (free_blocks L') = covered (free_blocks L)"
    using buddy_facts(5) [OF block_okD(2) [OF mem_invD(3) [OF assms(1,2)]]] unfolding eq by simp
qed

lemma buddy_merge_ok:
  "mem_inv st L A \<Longrightarrow> (p, k) \<in> free_blocks L \<Longrightarrow> k0 \<le> k \<Longrightarrow>
    no_buddies (from_order k0 (free_blocks L) - {(p, k)}) \<Longrightarrow>
    \<exists>st' L' r. buddy_merge st p = Some (st', r) \<and> mem_inv st' L' A \<and> same_stats st st' \<and>
      no_buddies (from_order k0 (free_blocks L')) \<and> covered (free_blocks L') = covered (free_blocks L) \<and>
      r \<le> p \<and> (\<forall>j < k0. L' j = L j) \<and> frame (covered (free_blocks L)) st st'"
proof (induction "MAX_ORDER - k" arbitrary: st L p k)
  case (0 k st L p)
  then have "\<not> k < MAX_ORDER" by simp
  then show ?case
    using buddy_merge_stop [OF 0(2,3)] no_buddies_add [OF 0(5)] 0(2) by (fastforce simp: same_stats_def)
next
  case (Suc n k st L p)
  note inv = Suc.prems(1) and p = Suc.prems(2)
  have k: "k < MAX_ORDER" using Suc.hyps(2) by simp
  show ?case
  proof (cases "(p XOR 2 ^ k, k) \<in> free_blocks L")
    case False
    then show ?thesis
      using buddy_merge_stop [OF inv p] no_buddies_add [OF Suc.prems(4)] inv by (fastforce simp: same_stats_def)
  next
    case True
    let ?L = "merge_lists L k p (p XOR 2 ^ k)" and ?m = "min p (p XOR 2 ^ k)"
    obtain st1 where st1: "buddy_merge st p = buddy_merge st1 ?m" "mem_inv st1 ?L A" "same_stats st st1"
        "frame {p, p XOR 2 ^ k} st st1"
      using buddy_merge_step [OF inv p True k] by blast
    note blocks = merge_lists_covered [OF inv p True k]
    have "from_order k0 (free_blocks ?L) - {(?m, Suc k)} \<subseteq> from_order k0 (free_blocks L) - {(p, k)}"
      unfolding blocks(1) by auto
    then have no: "no_buddies (from_order k0 (free_blocks ?L) - {(?m, Suc k)})"
      using no_buddies_subset [OF Suc.prems(4)] by blast
    have m: "(?m, Suc k) \<in> free_blocks ?L" using blocks(1) by simp
    have "n = MAX_ORDER - Suc k" "k0 \<le> Suc k" using Suc.hyps(2) Suc.prems(3) by simp_all
    from Suc.hyps(1) [OF this(1) st1(2) m this(2) no]
    obtain st' L' r where IH: "buddy_merge st1 ?m = Some (st', r)" "mem_inv st' L' A" "same_stats st1 st'"
        "no_buddies (from_order k0 (free_blocks L'))" "covered (free_blocks L') = covered (free_blocks ?L)"
        "r \<le> ?m" "\<forall>j < k0. L' j = ?L j" "frame (covered (free_blocks ?L)) st1 st'"
      by (elim exE conjE)
    have "\<forall>j < k0. L' j = L j" using IH(7) Suc.prems(3) by (simp add: merge_lists_def)
    moreover have "{p, p XOR 2 ^ k} \<subseteq> covered (free_blocks L)" using p True by (force simp: covered_def)
    then have "frame (covered (free_blocks L)) st st'"
      using frame_trans [OF frame_mono [OF st1(4)]] IH(8) blocks(2) by simp
    ultimately show ?thesis
      using st1(1,3) IH(1-6) blocks(2) by (intro exI [of _ st'] exI [of _ L'] exI [of _ r]) (simp add: same_stats_def)
  qed
qed

subsection \<open>Releasing a block\<close>

lemma unat_pfn_to_phys: "p < BUDDY_MAX_PAGES \<Longrightarrow> unat (pfn_to_phys p) = 0x100000 + p * 4096"
  by (simp add: pfn_to_phys_def unat_word_ariths unat_of_nat)

lemma phys_to_pfn_to_phys:
  assumes "p < BUDDY_MAX_PAGES"
  shows "phys_to_pfn (pfn_to_phys p) = p" and "PHYS_MEM_BASE \<le> pfn_to_phys p" and "pfn_to_phys p \<noteq> NULL"
    and "pfn_to_phys p < KERNEL_PHYS_LIMIT"
proof -
  note u = unat_pfn_to_phys [OF assms]
  show base: "PHYS_MEM_BASE \<le> pfn_to_phys p" using u by (simp add: word_le_nat_alt)
  then show "phys_to_pfn (pfn_to_phys p) = p"
    using u by (auto simp: phys_to_pfn_def unat_div unat_sub)
  show "pfn_to_phys p \<noteq> NULL" using u by auto
  show "pfn_to_phys p < KERNEL_PHYS_LIMIT" using u assms by (simp add: word_less_nat_alt)
qed

lemma flag_bits:
  "(x OR PAGE_FLAG_FREE) AND PAGE_FLAG_FREE \<noteq> 0" "(x OR PAGE_FLAG_FREE) AND PAGE_FLAG_RESERVED = x AND PAGE_FLAG_RESERVED"
  "(x AND NOT PAGE_FLAG_FREE) AND PAGE_FLAG_FREE = 0"
  "(x AND NOT PAGE_FLAG_FREE) AND PAGE_FLAG_RESERVED = x AND PAGE_FLAG_RESERVED"
  by (simp_all add: bit.conj_disj_distrib2 and.assoc)

lemma info_list_add: "info (list_add st k p) = info st"
  using list_add_same [of st k p] by (simp add: same_info_def)

lemma list_add_simps [simp]:
  "total_phys_pages (list_add st k p) = total_phys_pages st" "phys_mem_end (list_add st k p) = phys_mem_end st"
  "stat_total_pages (list_add st k p) = stat_total_pages st" "stat_used_pages (list_add st k p) = stat_used_pages st"
  by (simp_all add: list_add_def)

lemma stat_update_inv [simp]:
  "info (st\<lparr>stat_used_pages := u\<rparr>) = info st" "free_lists (st\<lparr>stat_used_pages := u\<rparr>) L = free_lists st L"
  by (simp_all add: info_def fun_eq_iff free_lists_def)

text \<open>Putting a block that was handed out onto a free list, before merging.\<close>

definition release_page :: "phys_mem \<Rightarrow> nat \<Rightarrow> nat \<Rightarrow> phys_mem" where
  "release_page st p k =
     (list_add (upd_page st p (\<lambda>pg. pg\<lparr>p_flags := p_flags pg OR PAGE_FLAG_FREE, p_order := k, p_ref_count := 0\<rparr>)) k p)
       \<lparr>stat_used_pages := stat_release (stat_used_pages st) k\<rparr>"

lemma release_page_inv:
  assumes inv: "mem_inv st L A" and p: "(p, k) \<in> A"
  shows "mem_inv (release_page st p k) (L(k := p # L k)) (A - {(p, k)})"
    and "free_blocks (L(k := p # L k)) = insert (p, k) (free_blocks L)"
    and "frame {p} st (release_page st p k)"
proof -
  note ok = block_okD [OF mem_invD(4) [OF inv p]]
  have start: "fst x \<noteq> p" if "x \<in> free_blocks L \<union> A" "x \<noteq> (p, k)" for x
    using start_unique [OF inv, of "(p, k)" x] p that by auto
  have out: "\<forall>j \<le> MAX_ORDER. p \<notin> set (L j)"
    using start [of "(p, _)"] mem_invD(7) [OF inv] p by (auto simp: free_blocks_def)
  show blocks: "free_blocks (L(k := p # L k)) = insert (p, k) (free_blocks L)"
    using ok(1) by (auto simp: free_blocks_def split: if_splits)
  let ?st = "release_page st p k" and ?L = "L(k := p # L k)"
  have info: "info ?st = (info st)(p := (info st p)\<lparr>p_flags := p_flags (info st p) OR PAGE_FLAG_FREE, p_order := k, p_ref_count := 0\<rparr>)"
    by (simp add: release_page_def info_list_add info_upd_page fun_eq_iff) (simp add: info_def)
  have lists: "free_lists ?st ?L"
    unfolding release_page_def stat_update_inv
    by (rule list_add_lists [OF upd_page_lists [OF mem_invD(2) [OF inv] out] out])
  have "(x OR PAGE_FLAG_FREE) AND PAGE_FLAG_SLAB = x AND PAGE_FLAG_SLAB" for x :: u32
    by (simp add: bit.conj_disj_distrib2)
  then show "frame {p} st ?st" by (simp add: frame_def info)
  have total: "total_phys_pages ?st = total_phys_pages st" by (simp add: release_page_def)
  show "mem_inv ?st ?L (A - {(p, k)})"
  proof (rule mem_inv_change [OF inv total lists, where X = "{p}"])
    show "info ?st q = info st q" if "q \<notin> {p}" for q using that by (simp add: info)
    show res: "p_flags (info ?st q) AND PAGE_FLAG_RESERVED = 0" if "q \<in> {p}" for q
      using that ok(6) [of p] by (simp add: info flag_bits)
    have new: "block_ok ?st (p, k)"
    proof -
      have "p_flags (info ?st y) AND PAGE_FLAG_RESERVED = 0" if "y \<in> block_pages (p, k)" for y
        using res [of y] ok(6) [OF that] by (cases "y = p") (simp_all add: info)
      then show ?thesis using ok(1,2,3,5) total by (simp add: block_ok_def block_aligned_def info)
    qed
    show "block_ok ?st x \<or> x \<in> free_blocks L \<union> A \<and> fst x \<notin> {p}" if "x \<in> free_blocks ?L \<union> (A - {(p, k)})" for x
      using that new start [of x] unfolding blocks by (cases "x = (p, k)") auto
    show "p_flags (info ?st q) AND PAGE_FLAG_FREE \<noteq> 0 \<longleftrightarrow> (\<exists>k. (q, k) \<in> free_blocks ?L)" if "q \<in> {p}" for q
      using that flag_bits(1) unfolding blocks by (auto simp: info)
    show "(q, j) \<in> free_blocks ?L \<longleftrightarrow> (q, j) \<in> free_blocks L" if "q \<notin> {p}" for q j
      using that by (auto simp: blocks)
    have "free_blocks ?L \<union> (A - {(p, k)}) = free_blocks L \<union> A" using p blocks by auto
    then show "blocks_disjoint (free_blocks ?L \<union> (A - {(p, k)}))" using mem_invD(6) [OF inv] by simp
    show "free_blocks ?L \<inter> (A - {(p, k)}) = {}" using mem_invD(7) [OF inv] blocks by auto
  qed
qed

text \<open>The state of the allocator between calls: \<open>A\<close> is handed out, \<open>U\<close> is the set of free pages.\<close>

definition buddy_state :: "phys_mem \<Rightarrow> nat set \<Rightarrow> block set \<Rightarrow> bool" where
  "buddy_state st U A \<longleftrightarrow> (\<exists>L. mem_inv st L A \<and> no_buddies (free_blocks L) \<and> covered (free_blocks L) = U)"

lemma buddy_state_block:
  assumes "buddy_state st U A" and "(p, k) \<in> A"
  shows "p + 2 ^ k \<le> total_phys_pages st" "k \<le> MAX_ORDER" "2 ^ k dvd p" "p < BUDDY_MAX_PAGES"
    "p_flags (page_array st p) AND PAGE_FLAG_FREE = 0" "p_flags (page_array st p) AND PAGE_FLAG_RESERVED = 0"
    "p_order (page_array st p) = k" "p_phys_addr (page_array st p) = pfn_to_phys p"
    "block_pages (p, k) \<inter> U = {}"
proof -
  obtain L where inv: "mem_inv st L A" and U: "covered (free_blocks L) = U" using assms(1) by (auto simp: buddy_state_def)
  note ok = block_okD [OF mem_invD(4) [OF inv assms(2)]]
  show "p + 2 ^ k \<le> total_phys_pages st" "k \<le> MAX_ORDER" "2 ^ k dvd p" using ok(1-3) by simp_all
  have "p < p + 2 ^ k" by simp
  also have "\<dots> \<le> BUDDY_MAX_PAGES" using ok(3) mem_invD(1) [OF inv] by (rule order_trans)
  finally show "p < BUDDY_MAX_PAGES" .
  have "(p, j) \<notin> free_blocks L" for j
  proof (cases "j = k")
    case True
    then show ?thesis using mem_invD(7) [OF inv] assms(2) by auto
  next
    case False
    then show ?thesis using start_unique [OF inv, of "(p, k)" "(p, j)"] assms(2) by auto
  qed
  then show "p_flags (page_array st p) AND PAGE_FLAG_FREE = 0" using mem_invD(5) [OF inv, of p] by (simp add: info_fields)
  show "p_flags (page_array st p) AND PAGE_FLAG_RESERVED = 0" using ok(6) [of p] by (simp add: info_fields)
  show "p_order (page_array st p) = k" "p_phys_addr (page_array st p) = pfn_to_phys p"
    using ok(4,5) by (simp_all add: info_fields)
  have "block_pages (p, k) \<inter> block_pages x = {}" if "x \<in> free_blocks L" for x
    by (rule blocks_disjointD [OF mem_invD(6) [OF inv]]) (use mem_invD(7) [OF inv] assms(2) that in auto)
  then show "block_pages (p, k) \<inter> U = {}" unfolding U [symmetric] covered_def by blast
qed

lemma free_pages_ok:
  assumes state: "buddy_state st U A" and p: "(p, k) \<in> A"
  obtains st' where "free_pages st (pfn_to_phys p) k = Some st'"
    and "buddy_state st' (U \<union> block_pages (p, k)) (A - {(p, k)})"
    and "total_phys_pages st' = total_phys_pages st" "phys_mem_end st' = phys_mem_end st"
    and "stat_used_pages st' = stat_release (stat_used_pages st) k" and "frame (U \<union> block_pages (p, k)) st st'"
proof -
  obtain L where inv: "mem_inv st L A" and no: "no_buddies (free_blocks L)" and U: "covered (free_blocks L) = U"
    using state by (auto simp: buddy_state_def)
  note b = buddy_state_block [OF state p] and r = release_page_inv [OF inv p]
  note ph = phys_to_pfn_to_phys [OF b(4)]
  have "p < total_phys_pages st" using b(1) by (rule less_le_trans [rotated]) simp
  then have free: "free_pages st (pfn_to_phys p) k = map_option fst (buddy_merge (release_page st p k) p)"
    using b(2,4-7) ph(1,3) ph(2) [unfolded not_less [symmetric]]
    by (simp add: free_pages_def Let_def release_page_def)
  have "from_order 0 (free_blocks (L(k := p # L k))) - {(p, k)} \<subseteq> free_blocks L" unfolding r(2) by auto
  then have "no_buddies (from_order 0 (free_blocks (L(k := p # L k))) - {(p, k)})" by (rule no_buddies_subset [OF no])
  from buddy_merge_ok [OF r(1) _ le0 this] r(2)
  obtain st' L' q where st': "buddy_merge (release_page st p k) p = Some (st', q)" "mem_inv st' L' (A - {(p, k)})"
      "same_stats (release_page st p k) st'" "no_buddies (free_blocks L')"
      "covered (free_blocks L') = covered (free_blocks (L(k := p # L k)))"
      "frame (block_pages (p, k) \<union> U) (release_page st p k) st'"
    using U by auto
  have "buddy_state st' (U \<union> block_pages (p, k)) (A - {(p, k)})"
    unfolding buddy_state_def using st'(2,4,5) U unfolding r(2) by (intro exI [of _ L']) auto
  moreover have "frame (U \<union> block_pages (p, k)) st st'"
    by (rule frame_trans [OF frame_mono [OF r(3)] frame_mono [OF st'(6)]]) auto
  ultimately show thesis
    using that [of st'] free st'(1,3) by (simp add: same_stats_def release_page_def)
qed

subsection \<open>Splitting\<close>

lemma list_del_head:
  assumes "mem_inv st L A" and "k \<le> MAX_ORDER" and "L k = p # rest"
  obtains st' where "free_area st k = Some p" and "list_del st k p = Some st'" and "free_lists st' (L(k := rest))"
    and "same_info st st'"
proof -
  have "\<forall>j \<le> MAX_ORDER. j \<noteq> k \<longrightarrow> set (L j) \<inter> set (L k) = {}"
    using lists_disjoint [OF assms(1) _ assms(2)] by blast
  then obtain st' where "list_del st k p = Some st'" "free_lists st' (L(k := remove1 p (L k)))" "same_info st st'"
    using list_del_lists [OF mem_invD(2) [OF assms(1)] assms(2), of p] assms(3) by auto
  moreover have "free_area st k = Some p" using free_listsD [OF mem_invD(2) [OF assms(1)] assms(2)] assms(3) by simp
  ultimately show thesis using that [of st'] assms(3) by simp
qed

definition split_lists :: "(nat \<Rightarrow> nat list) \<Rightarrow> nat \<Rightarrow> nat \<Rightarrow> nat list \<Rightarrow> nat \<Rightarrow> nat list" where
  "split_lists L k p rest = L(Suc k := rest, k := (p + 2 ^ k) # p # L k)"

lemma info_split_pages:
  assumes "p \<noteq> b"
  shows "info (split_pages st k p b) = (info st)
     (p := (info st p)\<lparr>p_flags := PAGE_FLAG_FREE, p_order := k, p_phys_addr := pfn_to_phys p, p_ref_count := 0\<rparr>,
      b := (info st b)\<lparr>p_flags := PAGE_FLAG_FREE, p_order := k, p_phys_addr := pfn_to_phys b, p_ref_count := 0\<rparr>)"
  using assms by (auto simp: split_pages_def Let_def info_def list_add_def fun_eq_iff)

lemma buddy_split_ok:
  assumes inv: "mem_inv st L A" and k: "k < MAX_ORDER" and L: "L (Suc k) = p # rest"
  defines "b \<equiv> p + 2 ^ k"
  obtains st' where "buddy_split st (Suc k) = Some (st', Some p)" and "mem_inv st' (split_lists L k p rest) A"
    and "same_stats st st'" and "free_blocks (split_lists L k p rest) = insert (b, k) (insert (p, k) (free_blocks L - {(p, Suc k)}))"
    and "frame {p, b} st st'"
proof -
  have p: "(p, Suc k) \<in> free_blocks L" using k L by (simp add: free_blocks_def)
  note ok = block_okD [OF mem_invD(3) [OF inv p]]
  note h = halves [OF ok(2), folded b_def]
  have d: "distinct (L (Suc k))" using chain_distinct [OF free_listsD [OF mem_invD(2) [OF inv] ok(1)]] .
  obtain st1 where st1: "free_area st (Suc k) = Some p" "list_del st (Suc k) p = Some st1"
      "free_lists st1 (L(Suc k := rest))" "same_info st st1"
    by (rule list_del_head [of st L A "Suc k" p rest]) (use inv ok(1) L in simp_all)
  have inside: "p \<in> block_pages (p, Suc k)" "b \<in> block_pages (p, Suc k)" by (simp_all add: block_pages_def b_def)
  have start: "fst x \<notin> {p, b}" if "x \<in> free_blocks L \<union> A" "x \<noteq> (p, Suc k)" for x
    using start_unique [OF inv, of "(p, Suc k)" x] p that inside by auto
  let ?L = "split_lists L k p rest" and ?st = "split_pages st1 k p b"
  have blocks: "free_blocks ?L = insert (b, k) (insert (p, k) (free_blocks L - {(p, Suc k)}))"
    using k L d by (auto simp: free_blocks_def split_lists_def b_def split: if_splits)
  have out: "\<forall>j \<le> MAX_ORDER. p \<notin> set ((L(Suc k := rest)) j) \<and> b \<notin> set ((L(Suc k := rest)) j)"
  proof (intro allI impI)
    fix j assume j: "j \<le> MAX_ORDER"
    have "(q, j) \<in> free_blocks L" "(q, j) \<noteq> (p, Suc k)" if "q \<in> set ((L(Suc k := rest)) j)" for q
      using that j L d by (auto simp: free_blocks_def split: if_splits)
    then show "p \<notin> set ((L(Suc k := rest)) j) \<and> b \<notin> set ((L(Suc k := rest)) j)" using start by fastforce
  qed
  have pb: "p \<noteq> b" by (simp add: b_def)
  let ?L1 = "L(Suc k := rest, k := p # L k)"
  have "free_lists (list_add (upd_page (upd_page st1 p f) b g) k p) ((L(Suc k := rest))(k := p # (L(Suc k := rest)) k))" for f g
    by (rule list_add_lists, intro upd_page_lists st1(3)) (use out in auto)
  then have "free_lists (list_add (upd_page (upd_page st1 p f) b g) k p) ?L1" for f g by simp
  then have add: "free_lists (list_add (list_add (upd_page (upd_page st1 p f) b g) k p) k b) (?L1(k := b # ?L1 k))" for f g
    by (rule list_add_lists) (use out pb in auto)
  have "?L1(k := b # ?L1 k) = ?L" by (simp add: split_lists_def b_def)
  with add have lists: "free_lists ?st ?L" unfolding split_pages_def Let_def by (simp only:)
  have info: "info ?st = (info st)
     (p := (info st p)\<lparr>p_flags := PAGE_FLAG_FREE, p_order := k, p_phys_addr := pfn_to_phys p, p_ref_count := 0\<rparr>,
      b := (info st b)\<lparr>p_flags := PAGE_FLAG_FREE, p_order := k, p_phys_addr := pfn_to_phys b, p_ref_count := 0\<rparr>)"
    using info_split_pages [OF pb, of st1 k] st1(4) by (simp add: same_info_def)
  have stats: "same_stats st ?st" using st1(4) by (simp add: same_info_def same_stats_def split_pages_def Let_def)
  then have total: "total_phys_pages ?st = total_phys_pages st" by (simp add: same_stats_def)
  have new: "block_ok ?st (p, k)" "block_ok ?st (b, k)"
  proof -
    have "p + 2 ^ k \<le> total_phys_pages st" "b + 2 ^ k \<le> total_phys_pages st" using ok(3) by (simp_all add: b_def)
    moreover have "p_flags (info ?st y) AND PAGE_FLAG_RESERVED = 0" if "y \<in> block_pages (p, Suc k)" for y
      using ok(6) [OF that] by (simp add: info)
    ultimately show "block_ok ?st (p, k)" "block_ok ?st (b, k)"
      using h(1,3) k total pb unfolding block_ok_def block_aligned_def h(4) by (simp_all add: info)
  qed
  have "mem_inv ?st ?L A"
  proof (rule mem_inv_change [OF inv total lists, where X = "{p, b}"])
    show "info ?st q = info st q" if "q \<notin> {p, b}" for q using that by (simp add: info)
    show "p_flags (info ?st q) AND PAGE_FLAG_RESERVED = 0" if "q \<in> {p, b}" for q using that by (auto simp: info)
    show "block_ok ?st x \<or> x \<in> free_blocks L \<union> A \<and> fst x \<notin> {p, b}" if "x \<in> free_blocks ?L \<union> A" for x
    proof -
      have "x = (p, k) \<or> x = (b, k) \<or> x \<in> free_blocks L \<union> A \<and> x \<noteq> (p, Suc k)"
        using that mem_invD(7) [OF inv] p unfolding blocks by auto
      then show ?thesis using new start [of x] by metis
    qed
    show "p_flags (info ?st q) AND PAGE_FLAG_FREE \<noteq> 0 \<longleftrightarrow> (\<exists>k. (q, k) \<in> free_blocks ?L)" if "q \<in> {p, b}" for q
      using that unfolding blocks by (auto simp: info)
    show "(q, j) \<in> free_blocks ?L \<longleftrightarrow> (q, j) \<in> free_blocks L" if "q \<notin> {p, b}" for q j
      using that by (auto simp: blocks)
    have "free_blocks L \<union> A = insert (p, Suc k) (free_blocks L \<union> A - {(p, Suc k)})" using p by blast
    then have "blocks_disjoint (insert (b, k) (insert (p, k) (free_blocks L \<union> A - {(p, Suc k)})))"
      using blocks_disjoint_split [OF _ _ h(4,5)] mem_invD(6) [OF inv] by (auto simp: insert_commute)
    moreover have "free_blocks ?L \<union> A = insert (b, k) (insert (p, k) (free_blocks L \<union> A - {(p, Suc k)}))"
      using blocks mem_invD(7) [OF inv] p by auto
    ultimately show "blocks_disjoint (free_blocks ?L \<union> A)" by simp
    have "(p, k) \<notin> A" "(b, k) \<notin> A" using start [of "(p, k)"] start [of "(b, k)"] by auto
    moreover have "(free_blocks L - {(p, Suc k)}) \<inter> A = {}" using mem_invD(7) [OF inv] by blast
    ultimately show "free_blocks ?L \<inter> A = {}" unfolding blocks by simp
  qed
  moreover have "b + 2 ^ k \<le> total_phys_pages st1"
    using st1(4) block_okD(3) [OF new(2)] total by (simp add: same_info_def)
  then have "b < total_phys_pages st1" by (rule less_le_trans [rotated]) simp
  then have "buddy_split st (Suc k) = Some (?st, Some p)"
    using st1(1,2) k by (simp add: buddy_split_def Let_def b_def)
  moreover have "frame {p, b} st ?st" by (simp add: frame_def info)
  ultimately show thesis using that [of ?st] stats blocks by simp
qed

subsection \<open>Allocating\<close>

text \<open>Splitting down to the requested order leaves the right half in front.  Apart from that block no two
  free blocks are buddies.\<close>

lemma alloc_split_ok:
  "mem_inv st L A \<Longrightarrow> order + n \<le> MAX_ORDER \<Longrightarrow> L (order + n) = p # rest \<Longrightarrow>
    no_buddies (free_blocks L - {(p, order + n)}) \<Longrightarrow>
    \<exists>st' L' q rest'. alloc_split st order n = Some (st', True) \<and> mem_inv st' L' A \<and> same_stats st st' \<and>
      L' order = q # rest' \<and> no_buddies (free_blocks L' - {(q, order)}) \<and>
      covered (free_blocks L') = covered (free_blocks L) \<and> frame (covered (free_blocks L)) st st'"
proof (induction n arbitrary: st L p rest)
  case 0
  then show ?case by (auto simp: same_stats_def)
next
  case (Suc n)
  note inv = Suc.prems(1)
  have k: "order + n < MAX_ORDER" using Suc.prems(2) by simp
  let ?k = "order + n" and ?b = "p + 2 ^ (order + n)" and ?L = "split_lists L (order + n) p rest"
  have L: "L (Suc ?k) = p # rest" using Suc.prems(3) by simp
  obtain st1 where st1: "buddy_split st (Suc ?k) = Some (st1, Some p)" "mem_inv st1 ?L A" "same_stats st st1"
      "free_blocks ?L = insert (?b, ?k) (insert (p, ?k) (free_blocks L - {(p, Suc ?k)}))" "frame {p, ?b} st st1"
    by (rule buddy_split_ok [of st L A ?k p rest]) (use inv k L in simp_all)
  have p: "(p, Suc ?k) \<in> free_blocks L" using L k by (simp add: free_blocks_def)
  note h = halves [OF block_okD(2) [OF mem_invD(3) [OF inv p]]]
  have b_out: "(?b, ?k) \<notin> free_blocks L"
    using start_unique [OF inv, of "(p, Suc ?k)" "(?b, ?k)"] p h(4) by (auto simp: block_pages_def)
  have "no_buddies (free_blocks ?L - {(?b, ?k)})"
  proof (rule no_buddies_add [of _ p ?k])
    show "no_buddies (free_blocks ?L - {(?b, ?k)} - {(p, ?k)})"
      by (rule no_buddies_subset [OF Suc.prems(4)]) (auto simp: st1(4))
    show "?k < MAX_ORDER \<longrightarrow> (p XOR 2 ^ ?k, ?k) \<notin> free_blocks ?L - {(?b, ?k)}" using h(2) by simp
  qed
  moreover have "?L ?k = ?b # p # L ?k" by (simp add: split_lists_def)
  moreover have "?k \<le> MAX_ORDER" using k by simp
  ultimately obtain st' L' q rest' where IH: "alloc_split st1 order n = Some (st', True)" "mem_inv st' L' A"
      "same_stats st1 st'" "L' order = q # rest'" "no_buddies (free_blocks L' - {(q, order)})"
      "covered (free_blocks L') = covered (free_blocks ?L)" "frame (covered (free_blocks ?L)) st1 st'"
    using Suc.IH [of st1 ?L ?b "p # L ?k"] st1(2) by blast
  have "covered (free_blocks L) = block_pages (p, Suc ?k) \<union> covered (free_blocks L - {(p, Suc ?k)})"
    using p by (auto simp: covered_def)
  then have cov: "covered (free_blocks ?L) = covered (free_blocks L)" unfolding st1(4) h(4) by auto
  have "{p, ?b} \<subseteq> covered (free_blocks L)" unfolding cov [symmetric] st1(4) by simp
  then have "frame (covered (free_blocks L)) st st'"
    using frame_trans [OF frame_mono [OF st1(5)]] IH(7) cov by simp
  then show ?case
    using st1(1,3) IH cov by (intro exI [of _ st'] exI [of _ L'] exI [of _ q] exI [of _ rest']) (simp add: same_stats_def)
qed

lemma alloc_take_ok:
  assumes inv: "mem_inv st L A" and k: "k \<le> MAX_ORDER" and L: "L k = p # rest"
  obtains st' where "alloc_take st k p = Some (st', Some (pfn_to_phys p))"
    and "mem_inv st' (L(k := rest)) (insert (p, k) A)" and "free_blocks (L(k := rest)) = free_blocks L - {(p, k)}"
    and "total_phys_pages st' = total_phys_pages st" and "phys_mem_end st' = phys_mem_end st"
    and "stat_used_pages st' = stat_used_pages st + push_bit k 1" and "frame {p} st st'"
proof -
  have p: "(p, k) \<in> free_blocks L" using k L by (simp add: free_blocks_def)
  note ok = block_okD [OF mem_invD(3) [OF inv p]]
  have d: "distinct (L k)" using chain_distinct [OF free_listsD [OF mem_invD(2) [OF inv] k]] .
  have blocks: "free_blocks (L(k := rest)) = free_blocks L - {(p, k)}"
    using L d k by (auto simp: free_blocks_def split: if_splits)
  obtain st1 where st1: "list_del st k p = Some st1" "free_lists st1 (L(k := rest))" "same_info st st1"
    by (rule list_del_head [of st L A k p rest]) (use inv k L in simp_all)
  have start: "fst x \<noteq> p" if "x \<in> free_blocks L \<union> A" "x \<noteq> (p, k)" for x
    using start_unique [OF inv, of "(p, k)" x] p that by auto
  have out: "\<forall>j \<le> MAX_ORDER. p \<notin> set ((L(k := rest)) j)"
    using start [of "(p, _)"] blocks by (force simp: free_blocks_def set_eq_iff)
  define st2 where "st2 = (upd_page st1 p (\<lambda>pg. pg\<lparr>p_flags := p_flags pg AND NOT PAGE_FLAG_FREE, p_order := k,
                       p_ref_count := 1\<rparr>))\<lparr>stat_used_pages := stat_used_pages st1 + push_bit k 1\<rparr>"
  have info: "info st2 = (info st)(p := (info st p)\<lparr>p_flags := p_flags (info st p) AND NOT PAGE_FLAG_FREE,
      p_order := k, p_ref_count := 1\<rparr>)"
  proof -
    have "info st2 = (info st1)(p := (info st1 p)\<lparr>p_flags := p_flags (info st1 p) AND NOT PAGE_FLAG_FREE,
        p_order := k, p_ref_count := 1\<rparr>)"
      unfolding st2_def by (simp add: info_upd_page fun_eq_iff) (simp add: info_def)
    then show ?thesis using st1(3) by (simp add: same_info_def)
  qed
  have total: "total_phys_pages st2 = total_phys_pages st" using st1(3) by (simp add: st2_def same_info_def)
  have lists: "free_lists st2 (L(k := rest))" unfolding st2_def stat_update_inv by (rule upd_page_lists [OF st1(2) out])
  have new: "block_ok st2 (p, k)"
  proof -
    have "p_flags (info st2 y) AND PAGE_FLAG_RESERVED = 0" if "y \<in> block_pages (p, k)" for y
      using ok(6) [OF that] by (cases "y = p") (simp_all add: info and.assoc)
    then show ?thesis using ok(1-3,5) total by (simp add: block_ok_def block_aligned_def info)
  qed
  have "mem_inv st2 (L(k := rest)) (insert (p, k) A)"
  proof (rule mem_inv_change [OF inv total lists, where X = "{p}"])
    show "info st2 q = info st q" if "q \<notin> {p}" for q using that by (simp add: info)
    show "p_flags (info st2 q) AND PAGE_FLAG_RESERVED = 0" if "q \<in> {p}" for q
      using that block_okD(6) [OF new, of p] by simp
    show "block_ok st2 x \<or> x \<in> free_blocks L \<union> A \<and> fst x \<notin> {p}"
      if "x \<in> free_blocks (L(k := rest)) \<union> insert (p, k) A" for x
      using that new start [of x] unfolding blocks by (cases "x = (p, k)") auto
    show "p_flags (info st2 q) AND PAGE_FLAG_FREE \<noteq> 0 \<longleftrightarrow> (\<exists>j. (q, j) \<in> free_blocks (L(k := rest)))" if "q \<in> {p}" for q
    proof -
      have "(p, j) \<notin> free_blocks L - {(p, k)}" for j using start [of "(p, j)"] by auto
      then show ?thesis using that unfolding blocks by (simp add: info and.assoc)
    qed
    show "(q, j) \<in> free_blocks (L(k := rest)) \<longleftrightarrow> (q, j) \<in> free_blocks L" if "q \<notin> {p}" for q j
      using that by (auto simp: blocks)
    have "free_blocks (L(k := rest)) \<union> insert (p, k) A = free_blocks L \<union> A" using p blocks by auto
    then show "blocks_disjoint (free_blocks (L(k := rest)) \<union> insert (p, k) A)" using mem_invD(6) [OF inv] by simp
    show "free_blocks (L(k := rest)) \<inter> insert (p, k) A = {}" using mem_invD(7) [OF inv] blocks by auto
  qed
  moreover have "p < BUDDY_MAX_PAGES"
  proof -
    have "p < p + 2 ^ k" by simp
    also have "\<dots> \<le> BUDDY_MAX_PAGES" using ok(3) mem_invD(1) [OF inv] by (rule order_trans)
    finally show ?thesis .
  qed
  then have "\<not> KERNEL_PHYS_LIMIT \<le> pfn_to_phys p" using phys_to_pfn_to_phys(4) [of p] by (simp only: not_le)
  moreover have "p_phys_addr (page_array st2 p) = pfn_to_phys p"
    using block_okD(5) [OF new] by (simp only: info_fields)
  moreover have "frame {p} st st2" by (simp add: frame_def info and.assoc)
  ultimately show thesis
    using that [of st2] st1(1,3) blocks total unfolding alloc_take_def
    by (simp add: Let_def same_info_def st2_def)
qed

lemma alloc_find_spec:
  "k \<le> alloc_find fa k \<and> (alloc_find fa k \<le> MAX_ORDER \<longrightarrow> fa (alloc_find fa k) \<noteq> None) \<and>
    (\<forall>j. k \<le> j \<and> j < alloc_find fa k \<and> j \<le> MAX_ORDER \<longrightarrow> fa j = None)"
proof (induction fa k rule: alloc_find.induct)
  case (1 fa k)
  show ?case
  proof (cases "k \<le> MAX_ORDER \<and> fa k = None")
    case True
    then have step: "alloc_find fa k = alloc_find fa (Suc k)" by (subst alloc_find.simps) simp
    note IH = "1.IH" [OF True]
    have "fa j = None" if "k \<le> j \<and> j < alloc_find fa (Suc k) \<and> j \<le> MAX_ORDER" for j
      using IH True that by (cases "j = k") (simp_all add: Suc_le_eq)
    moreover have "k \<le> alloc_find fa (Suc k)" using IH by simp
    ultimately show ?thesis using IH unfolding step by blast
  next
    case False
    then have "alloc_find fa k = k" by (subst alloc_find.simps) auto
    with False show ?thesis by auto
  qed
qed

text \<open>What an allocation does to the sets of free pages and of blocks handed out: it takes an aligned run
  of free pages, and fails only if there is none.\<close>

inductive alloc_spec :: "nat set \<Rightarrow> block set \<Rightarrow> nat \<Rightarrow> nat option \<Rightarrow> nat set \<Rightarrow> block set \<Rightarrow> bool" where
  got: "2 ^ k dvd p \<Longrightarrow> block_pages (p, k) \<subseteq> U \<Longrightarrow>
    alloc_spec U A k (Some p) (U - block_pages (p, k)) (insert (p, k) A)"
| none: "\<forall>p. 2 ^ k dvd p \<longrightarrow> \<not> block_pages (p, k) \<subseteq> U \<Longrightarrow> alloc_spec U A k None U A"

lemma alloc_pages_locked_ok:
  assumes state: "buddy_state st U A" and k: "k \<le> MAX_ORDER"
  obtains (got) st' p where "alloc_pages_locked st k = Some (st', Some (pfn_to_phys p))"
      "2 ^ k dvd p" "block_pages (p, k) \<subseteq> U" "buddy_state st' (U - block_pages (p, k)) (insert (p, k) A)"
      "total_phys_pages st' = total_phys_pages st" "phys_mem_end st' = phys_mem_end st"
      "stat_used_pages st' = stat_used_pages st + push_bit k 1" "frame U st st'"
    | (none) "alloc_pages_locked st k = Some (st, None)" "\<forall>p. 2 ^ k dvd p \<longrightarrow> \<not> block_pages (p, k) \<subseteq> U"
proof -
  obtain L where inv: "mem_inv st L A" and no: "no_buddies (free_blocks L)" and U: "covered (free_blocks L) = U"
    using state by (auto simp: buddy_state_def)
  define c where "c = alloc_find (free_area st) k"
  note find = alloc_find_spec [of k "free_area st", folded c_def]
  have head: "free_area st j = None \<longleftrightarrow> L j = []" if "j \<le> MAX_ORDER" for j
    using free_listsD [OF mem_invD(2) [OF inv] that] by (cases "L j") auto
  show thesis
  proof (cases "c \<le> MAX_ORDER")
    case False
    have "\<not> block_pages (p, k) \<subseteq> U" if p: "2 ^ k dvd p" for p
    proof
      assume "block_pages (p, k) \<subseteq> U"
      moreover have "\<forall>x \<in> free_blocks L. block_aligned x"
        using mem_invD(3) [OF inv] by (auto simp: block_ok_def)
      moreover have "blocks_disjoint (free_blocks L)" using blocks_disjoint_subset [OF mem_invD(6) [OF inv]] by blast
      ultimately obtain x where "x \<in> free_blocks L" "k \<le> snd x"
        using run_in_block [of "free_blocks L" k p] no p k U by auto
      then have "L (snd x) \<noteq> []" "k \<le> snd x" "snd x \<le> MAX_ORDER" by (auto simp: free_blocks_def)
      then show False using find False head [of "snd x"] by auto
    qed
    moreover have "alloc_pages_locked st k = Some (st, None)"
      using k False by (simp add: alloc_pages_locked_def Let_def c_def)
    ultimately show thesis using none by blast
  next
    case True
    have "free_area st c \<noteq> None" using find True by blast
    then obtain p rest where L: "L c = p # rest" using head [OF True] by (cases "L c") auto
    have kc: "k + (c - k) = c" using find by simp
    have "\<exists>st' L' q rest'. alloc_split st k (c - k) = Some (st', True) \<and> mem_inv st' L' A \<and> same_stats st st' \<and>
      L' k = q # rest' \<and> no_buddies (free_blocks L' - {(q, k)}) \<and> covered (free_blocks L') = covered (free_blocks L) \<and>
      frame (covered (free_blocks L)) st st'"
      by (rule alloc_split_ok [OF inv])
        (use kc True L no_buddies_subset [OF no, of "free_blocks L - {(p, c)}"] in simp_all)
    then obtain st1 L1 q rest' where s: "alloc_split st k (c - k) = Some (st1, True)" "mem_inv st1 L1 A"
      "same_stats st st1" "L1 k = q # rest'" "no_buddies (free_blocks L1 - {(q, k)})"
      "covered (free_blocks L1) = U" "frame U st st1" using U by blast
    obtain st2 where t: "alloc_take st1 k q = Some (st2, Some (pfn_to_phys q))"
        "mem_inv st2 (L1(k := rest')) (insert (q, k) A)" "free_blocks (L1(k := rest')) = free_blocks L1 - {(q, k)}"
        "total_phys_pages st2 = total_phys_pages st1" "phys_mem_end st2 = phys_mem_end st1"
        "stat_used_pages st2 = stat_used_pages st1 + push_bit k 1" "frame {q} st1 st2"
      by (rule alloc_take_ok [of st1 L1 A k q rest']) (use s(2,4) k in simp_all)
    have q: "(q, k) \<in> free_blocks L1" using s(4) k by (simp add: free_blocks_def)
    have "covered (free_blocks L1 - {(q, k)}) = U - block_pages (q, k)"
      using covered_remove [OF blocks_disjoint_subset [OF mem_invD(6) [OF s(2)]] q] s(6) by blast
    then have "buddy_state st2 (U - block_pages (q, k)) (insert (q, k) A)"
      unfolding buddy_state_def using t(2,3) s(5) by (intro exI [of _ "L1(k := rest')"]) simp
    moreover have "block_pages (q, k) \<subseteq> U" using q s(6) by (auto simp: covered_def)
    moreover have "free_area st1 k = Some q" using free_listsD [OF mem_invD(2) [OF s(2)] k] s(4) by simp
    then have "alloc_pages_locked st k = Some (st2, Some (pfn_to_phys q))"
      using k True s(1) t(1) by (simp add: alloc_pages_locked_def Let_def c_def)
    moreover have "{q} \<subseteq> U" using calculation(2) by auto
    then have "frame U st st2" by (rule frame_trans [OF s(7) frame_mono [OF t(7)]])
    ultimately show thesis
      using got [of st2 q] block_okD(2) [OF mem_invD(3) [OF s(2) q]] t(4-6) s(3) by (simp add: same_stats_def)
  qed
qed

end
