(* ===== verification/Physmem.thy ===== *)
theory Physmem
  imports Buddy_inv
begin

text \<open>
  Initialisation of the page allocator, \<^verbatim>\<open>kernel/mem.c\<close>: the amount of memory is read from the
  Multiboot information or the UEFI memory map, the kernel and heap areas are reserved, the rest is put on
  the free list of order 0 and coalesced.  The properties of the allocator are stated here, over
  all sequences of calls that follow.

  The Multiboot structures are read from memory with the layout the compiler gives them: the
  fields of \<open>mb1_mmap_entry\<close>, which is not packed, lie at offsets 0, 8, 16 and 24.
\<close>

subsection \<open>Amount of memory\<close>

abbreviation RAM_LIMIT :: u64 where "RAM_LIMIT \<equiv> 0x10000000"

definition load32 :: "mem \<Rightarrow> addr \<Rightarrow> u32" where
  "load32 m a = le_val (map (\<lambda>i. m (a + of_nat i)) [0..<4])"

text \<open>The total after one region of the memory map.\<close>

definition add_region :: "u64 \<Rightarrow> u64 \<Rightarrow> u64 \<Rightarrow> u32 \<Rightarrow> u64" where
  "add_region ram base_addr region_length type =
     (if type = 1
      then let end_addr = base_addr + region_length in
        if ram < end_addr \<and> base_addr < RAM_LIMIT
        then (if RAM_LIMIT < end_addr then RAM_LIMIT else end_addr) else ram
      else ram)"

partial_function (option) mb2_mmap_loop :: "mem \<Rightarrow> addr \<Rightarrow> u32 \<Rightarrow> u32 \<Rightarrow> u64 \<Rightarrow> u64 option" where [code]:
  "mb2_mmap_loop m entries entry_size tag_end total_ram =
     (if entries + ucast entry_size \<le> ucast tag_end
      then mb2_mmap_loop m (entries + ucast entry_size) entry_size tag_end
             (add_region total_ram (load64 m entries) (load64 m (entries + 8)) (load32 m (entries + 16)))
      else Some total_ram)"

definition mb2_tag_size :: "u32 \<Rightarrow> u32" where
  "mb2_tag_size s = ((if s < 8 then 8 else s) + 7) AND NOT 7"

partial_function (option) mb2_loop :: "mem \<Rightarrow> addr \<Rightarrow> u32 \<Rightarrow> addr \<Rightarrow> u64 \<Rightarrow> u64 option" where [code]:
  "mb2_loop m mb_info total_size tag total_ram =
     (if load32 m tag \<noteq> 0 \<and> tag < mb_info + ucast total_size
      then do {
        let r1 = (if load32 m tag = 4
                  then (let r = ucast (load32 m (tag + 12) + 1024) * 1024 in if RAM_LIMIT < r then RAM_LIMIT else r)
                  else total_ram);
        r2 \<leftarrow> (if load32 m tag = 6
               then mb2_mmap_loop m (tag + 16) (load32 m (tag + 8)) (ucast (tag + ucast (load32 m (tag + 4)))) r1
               else Some r1);
        mb2_loop m mb_info total_size (tag + ucast (mb2_tag_size (load32 m (tag + 4)))) r2 }
      else Some total_ram)"

partial_function (option) mb1_mmap_loop :: "mem \<Rightarrow> addr \<Rightarrow> addr \<Rightarrow> u64 \<Rightarrow> u64 option" where [code]:
  "mb1_mmap_loop m entries stop e820_total =
     (if entries < stop \<and> \<not> load32 m entries < 20
      then let t = add_region e820_total (load64 m (entries + 8)) (load64 m (entries + 16)) (load32 m (entries + 24)) in
        if 0xFFFFFFFB < load32 m entries then Some t
        else mb1_mmap_loop m (entries + (ucast (load32 m entries) + 4)) stop t
      else Some e820_total)"

definition mb1_meminfo :: "mem \<Rightarrow> addr \<Rightarrow> u64" where
  "mb1_meminfo m mb_info =
     (let r = (ucast (load32 m (mb_info + 4)) + ucast (load32 m (mb_info + 8))) * 1024 in
      if RAM_LIMIT < r then RAM_LIMIT else r)"

text \<open>\<open>total_ram\<close> as parsed; 0 when nothing was found.\<close>

definition parse_ram :: "mem \<Rightarrow> addr \<Rightarrow> u64 option" where
  "parse_ram m mb_info =
     (if mb_info = NULL then Some 0
      else let first_word = load32 m mb_info; second_word = load32 m (mb_info + 4) in
        if second_word = 0 \<and> 0 < first_word \<and> first_word < 0x100000
        then mb2_loop m mb_info first_word (mb_info + 8) 0
        else do {
          let r1 = (if first_word AND 1 \<noteq> 0 then mb1_meminfo m mb_info else 0);
          if first_word AND 0x40 \<noteq> 0
          then do {
            let mmap_addr = ucast (load32 m (mb_info + 48));
            e820_total \<leftarrow> mb1_mmap_loop m mmap_addr (mmap_addr + ucast (load32 m (mb_info + 44))) 0;
            Some (if 0 < e820_total then e820_total else r1) }
          else Some r1 })"

subsection \<open>Initialisation\<close>

definition phys_mem_zero :: phys_mem where
  "phys_mem_zero =
     \<lparr>page_array = (\<lambda>_. \<lparr>p_flags = 0, p_order = 0, p_ref_count = 0, p_slab_free_count = 0, p_phys_addr = 0,
        p_next = None, p_slab_cache = None\<rparr>),
      free_area = (\<lambda>_. None), total_phys_pages = 0, phys_mem_end = 0, stat_total_pages = 0, stat_used_pages = 0\<rparr>"

definition reserve_kernel :: "phys_mem \<Rightarrow> phys_mem" where
  "reserve_kernel st =
     buddy_mark_reserved (buddy_mark_reserved st 0 512) 2048
       (if total_phys_pages st < 8192 then total_phys_pages st else 8192)"

definition phys_mem_init :: "mem \<Rightarrow> addr \<Rightarrow> phys_mem option" where
  "phys_mem_init m mb_info =
     do { r \<leftarrow> parse_ram m mb_info;
          let total_ram = (if r = 0 then 0x4000000 else r);
          let st = phys_mem_zero\<lparr>phys_mem_end := total_ram, total_phys_pages := unat (total_ram div 4096)\<rparr>;
          buddy_coalesce_all (buddy_mark_available (reserve_kernel st) 512 (total_phys_pages st)) }"

record uefi_mmap_entry =
  um_type :: u32
  um_phys_start :: u64
  um_num_pages :: u64

definition uefi_end :: "uefi_mmap_entry \<Rightarrow> u64" where
  "uefi_end e = um_phys_start e + um_num_pages e * 4096"

text \<open>The page frames of an entry, clamped to the managed range; \<open>None\<close> when the entry is skipped.\<close>

definition uefi_range :: "u64 \<Rightarrow> uefi_mmap_entry \<Rightarrow> (nat \<times> nat) option" where
  "uefi_range total_ram e =
     (if total_ram \<le> um_phys_start e then None
      else let end_pfn = phys_to_pfn (if total_ram < uefi_end e then total_ram else uefi_end e);
               start_pfn = phys_to_pfn (um_phys_start e) in
        if BUDDY_MAX_PAGES \<le> start_pfn then None else Some (start_pfn, min end_pfn BUDDY_MAX_PAGES))"

definition uefi_reserve :: "u64 \<Rightarrow> phys_mem \<Rightarrow> uefi_mmap_entry \<Rightarrow> phys_mem" where
  "uefi_reserve total_ram st e =
     (case uefi_range total_ram e of
        None \<Rightarrow> st
      | Some (s, t) \<Rightarrow> if um_type e = 7 then st else buddy_mark_reserved st s t)"

definition uefi_available :: "u64 \<Rightarrow> phys_mem \<Rightarrow> uefi_mmap_entry \<Rightarrow> phys_mem" where
  "uefi_available total_ram st e =
     (case uefi_range total_ram e of
        None \<Rightarrow> st
      | Some (s, t) \<Rightarrow> if um_type e = 7 then buddy_mark_available st s t else st)"

definition phys_mem_init_uefi :: "uefi_mmap_entry list \<Rightarrow> phys_mem option" where
  "phys_mem_init_uefi mmap =
     (let highest = foldl (\<lambda>h e. if h < uefi_end e then uefi_end e else h) 0 mmap;
          total_ram = (if RAM_LIMIT < highest then RAM_LIMIT else highest);
          st = phys_mem_zero\<lparr>phys_mem_end := total_ram, total_phys_pages := unat (total_ram div 4096)\<rparr>;
          st1 = reserve_kernel (foldl (uefi_reserve total_ram) st mmap)
      in buddy_coalesce_all (foldl (uefi_available total_ram) st1 mmap))"

subsection \<open>The parsed amount\<close>

lemma add_region_bound: "t \<le> RAM_LIMIT \<Longrightarrow> add_region t b n ty \<le> RAM_LIMIT"
  by (simp add: add_region_def Let_def not_less)

lemma mb2_mmap_loop_bound:
  assumes "mb2_mmap_loop m e s t r = Some r'" and "r \<le> RAM_LIMIT"
  shows "r' \<le> RAM_LIMIT"
proof -
  have "r \<le> RAM_LIMIT \<longrightarrow> r' \<le> RAM_LIMIT"
    by (rule mb2_mmap_loop.raw_induct [OF _ assms(1), where P = "\<lambda>m e s t r r'. r \<le> RAM_LIMIT \<longrightarrow> r' \<le> RAM_LIMIT"])
      (auto simp: add_region_bound split: if_splits)
  with assms(2) show ?thesis by blast
qed

lemma mb1_mmap_loop_bound:
  assumes "mb1_mmap_loop m e t r = Some r'" and "r \<le> RAM_LIMIT"
  shows "r' \<le> RAM_LIMIT"
proof -
  have "r \<le> RAM_LIMIT \<longrightarrow> r' \<le> RAM_LIMIT"
    by (rule mb1_mmap_loop.raw_induct [OF _ assms(1), where P = "\<lambda>m e t r r'. r \<le> RAM_LIMIT \<longrightarrow> r' \<le> RAM_LIMIT"])
      (auto simp: add_region_bound Let_def split: if_splits)
  with assms(2) show ?thesis by blast
qed

lemma mb2_loop_bound:
  assumes "mb2_loop m mb s tag r = Some r'" and "r \<le> RAM_LIMIT"
  shows "r' \<le> RAM_LIMIT"
proof -
  have "r \<le> RAM_LIMIT \<longrightarrow> r' \<le> RAM_LIMIT"
    by (rule mb2_loop.raw_induct [OF _ assms(1), where P = "\<lambda>m mb s tag r r'. r \<le> RAM_LIMIT \<longrightarrow> r' \<le> RAM_LIMIT"])
      (auto simp: Let_def bind_eq_Some_conv not_less dest!: mb2_mmap_loop_bound split: if_splits)
  with assms(2) show ?thesis by blast
qed

lemma parse_ram_bound:
  assumes "parse_ram m mb = Some r"
  shows "r \<le> RAM_LIMIT"
  using assms mb2_loop_bound [of m mb "load32 m mb" "mb + 8" 0 r]
  by (auto simp: parse_ram_def Let_def mb1_meminfo_def bind_eq_Some_conv not_less
      dest!: mb1_mmap_loop_bound split: if_splits)

subsection \<open>Marking pages\<close>

lemma mark_reserved_loop_eq:
  "mark_reserved_loop st pfn n = st\<lparr>page_array := (\<lambda>q. if pfn \<le> q \<and> q < pfn + n
     then (page_array st q)\<lparr>p_flags := p_flags (page_array st q) OR PAGE_FLAG_RESERVED\<rparr> else page_array st q)\<rparr>"
proof (induction n arbitrary: st pfn)
  case 0
  have "(pfn \<le> q \<and> q < pfn + 0) = False" for q by auto
  then show ?case by (simp only: mark_reserved_loop.simps if_False) simp
next
  case (Suc n)
  have split: "pfn \<le> q \<and> q < pfn + Suc n \<longleftrightarrow> q = pfn \<or> Suc pfn \<le> q \<and> q < Suc pfn + n" for q by auto
  show ?case unfolding split by (simp add: Suc.IH upd_page_def fun_eq_iff)
qed

lemma empty_inv:
  assumes "total_phys_pages st \<le> BUDDY_MAX_PAGES" and "free_area st = (\<lambda>_. None)"
    and "\<And>q. p_flags (info st q) AND PAGE_FLAG_FREE = 0"
  shows "mem_inv st (\<lambda>_. []) {}"
  using assms by (simp add: mem_inv_def free_lists_def free_blocks_def blocks_disjoint_def)

text \<open>Only single pages are on the lists, in descending order, all below \<open>n\<close>.\<close>

definition single_pages :: "(nat \<Rightarrow> nat list) \<Rightarrow> nat \<Rightarrow> bool" where
  "single_pages L n \<longleftrightarrow> (\<forall>k. k \<noteq> 0 \<longrightarrow> L k = []) \<and> sorted_wrt (>) (L 0) \<and> (\<forall>q \<in> set (L 0). q < n)"

lemma single_pages_blocks: "single_pages L n \<Longrightarrow> free_blocks L = (\<lambda>p. (p, 0)) ` set (L 0)"
  by (auto simp: single_pages_def free_blocks_def)

lemma single_blocks_disjoint: "blocks_disjoint ((\<lambda>p. (p, 0)) ` X)"
  by (auto simp: blocks_disjoint_def block_pages_def)

lemma mark_available_page_ok:
  assumes inv: "mem_inv st L {}" and single: "single_pages L p" and p: "p < total_phys_pages st"
    and unres: "p_flags (info st p) AND PAGE_FLAG_RESERVED = 0"
  shows "mem_inv (mark_available_page st p) (L(0 := p # L 0)) {} \<and> single_pages (L(0 := p # L 0)) (Suc p)"
proof -
  let ?L = "L(0 := p # L 0)" and ?st = "mark_available_page st p"
  have single': "single_pages ?L (Suc p)" using single by (auto simp: single_pages_def less_Suc_eq)
  have blocks: "free_blocks ?L = insert (p, 0) (free_blocks L)"
    unfolding single_pages_blocks [OF single'] single_pages_blocks [OF single] by simp
  have out: "\<forall>j \<le> MAX_ORDER. p \<notin> set (L j)"
  proof (intro allI impI)
    fix j show "p \<notin> set (L j)" using single by (cases "j = 0") (auto simp: single_pages_def)
  qed
  have st: "?st = (list_add (upd_page st p (\<lambda>pg. pg\<lparr>p_flags := PAGE_FLAG_FREE, p_order := 0, p_ref_count := 0,
      p_phys_addr := pfn_to_phys p, p_next := None, p_slab_cache := None\<rparr>)) 0 p)
      \<lparr>stat_total_pages := stat_total_pages st + 1\<rparr>"
    using unres by (simp add: mark_available_page_def Let_def info_fields)
  have stat: "info (s\<lparr>stat_total_pages := u\<rparr>) = info s" "free_lists (s\<lparr>stat_total_pages := u\<rparr>) L' = free_lists s L'" for s u L'
    by (simp_all add: info_def fun_eq_iff free_lists_def)
  have lists: "free_lists ?st ?L"
    unfolding st stat by (rule list_add_lists [OF upd_page_lists [OF mem_invD(2) [OF inv] out] out])
  have info: "info ?st = (info st)(p := (info st p)\<lparr>p_flags := PAGE_FLAG_FREE, p_order := 0, p_ref_count := 0,
      p_phys_addr := pfn_to_phys p, p_slab_cache := None\<rparr>)"
    unfolding st stat info_list_add info_upd_page by (simp add: info_def fun_eq_iff)
  have total: "total_phys_pages ?st = total_phys_pages st" by (simp add: st)
  have "mem_inv ?st ?L {}"
  proof (rule mem_inv_change [OF inv total lists, where X = "{p}"])
    show "info ?st q = info st q" if "q \<notin> {p}" for q using that by (simp add: info)
    show "p_flags (info ?st q) AND PAGE_FLAG_RESERVED = 0" if "q \<in> {p}" for q using that by (simp add: info)
    show "block_ok ?st x \<or> x \<in> free_blocks L \<union> {} \<and> fst x \<notin> {p}" if "x \<in> free_blocks ?L \<union> {}" for x
    proof (cases "x = (p, 0)")
      case True
      then show ?thesis using p total by (simp add: block_ok_def block_aligned_def block_pages_def info)
    next
      case False
      then show ?thesis using that out unfolding blocks by (auto simp: free_blocks_def)
    qed
    show "p_flags (info ?st q) AND PAGE_FLAG_FREE \<noteq> 0 \<longleftrightarrow> (\<exists>k. (q, k) \<in> free_blocks ?L)" if "q \<in> {p}" for q
      using that unfolding blocks by (auto simp: info)
    show "(q, j) \<in> free_blocks ?L \<longleftrightarrow> (q, j) \<in> free_blocks L" if "q \<notin> {p}" for q j using that by (simp add: blocks)
    show "blocks_disjoint (free_blocks ?L \<union> {})"
      unfolding single_pages_blocks [OF single'] by (simp add: single_blocks_disjoint del: image_insert)
    show "free_blocks ?L \<inter> {} = {}" by simp
  qed
  with single' show ?thesis by blast
qed

lemma mark_available_page_other:
  "q \<noteq> p \<Longrightarrow> info (mark_available_page st p) q = info st q"
  "total_phys_pages (mark_available_page st p) = total_phys_pages st"
  "phys_mem_end (mark_available_page st p) = phys_mem_end st"
  by (simp_all add: mark_available_page_def Let_def info_def list_add_def)

lemma mark_available_loop_ok:
  "mem_inv st L {} \<Longrightarrow> single_pages L p \<Longrightarrow> n = 0 \<or> p + n \<le> total_phys_pages st \<Longrightarrow>
    \<exists>L'. mem_inv (mark_available_loop st p n) L' {} \<and> single_pages L' (p + n) \<and>
      set (L' 0) = set (L 0) \<union> {q. p \<le> q \<and> q < p + n \<and> p_flags (info st q) AND PAGE_FLAG_RESERVED = 0} \<and>
      total_phys_pages (mark_available_loop st p n) = total_phys_pages st \<and>
      phys_mem_end (mark_available_loop st p n) = phys_mem_end st"
proof (induction n arbitrary: st L p)
  case (Suc n)
  let ?R = "\<lambda>q. p_flags (info st q) AND PAGE_FLAG_RESERVED = 0" and ?st = "mark_available_page st p"
  define L1 where "L1 = (if ?R p then L(0 := p # L 0) else L)"
  have L1: "mem_inv ?st L1 {}" "single_pages L1 (Suc p)"
  proof -
    have "single_pages L (Suc p)" using Suc.prems(2) by (auto simp: single_pages_def)
    moreover have "\<not> ?R p \<Longrightarrow> ?st = st" by (simp add: mark_available_page_def info_fields)
    ultimately show "mem_inv ?st L1 {}" "single_pages L1 (Suc p)"
      using mark_available_page_ok [OF Suc.prems(1,2)] Suc.prems(1,3) by (auto simp: L1_def)
  qed
  have "n = 0 \<or> Suc p + n \<le> total_phys_pages ?st" using Suc.prems(3) by (simp add: mark_available_page_other)
  from Suc.IH [OF L1 this] obtain L' where L': "mem_inv (mark_available_loop ?st (Suc p) n) L' {}"
      "single_pages L' (Suc p + n)"
      "set (L' 0) = set (L1 0) \<union> {q. Suc p \<le> q \<and> q < Suc p + n \<and> p_flags (info ?st q) AND PAGE_FLAG_RESERVED = 0}"
      "total_phys_pages (mark_available_loop ?st (Suc p) n) = total_phys_pages ?st"
      "phys_mem_end (mark_available_loop ?st (Suc p) n) = phys_mem_end ?st"
    by (elim exE conjE)
  have "{q. Suc p \<le> q \<and> q < Suc p + n \<and> p_flags (info ?st q) AND PAGE_FLAG_RESERVED = 0} =
      {q. Suc p \<le> q \<and> q < Suc p + n \<and> ?R q}"
    using mark_available_page_other(1) [of _ p st] by (intro Collect_cong conj_cong) auto
  moreover have "set (L1 0) \<union> {q. Suc p \<le> q \<and> q < Suc p + n \<and> ?R q} = set (L 0) \<union> {q. p \<le> q \<and> q < p + Suc n \<and> ?R q}"
    by (auto simp: L1_def Suc_le_eq le_less)
  ultimately show ?case using L' by (intro exI [of _ L']) (simp add: mark_available_page_other)
qed auto

subsection \<open>Coalescing\<close>

text \<open>Where no block has a free buddy, a pass changes nothing.\<close>

lemma coalesce_scan_none:
  assumes inv: "mem_inv st L A" and k: "k < MAX_ORDER" and no: "\<forall>q \<in> set (L k). q XOR 2 ^ k \<notin> set (L k)"
  shows "chain (nn st) h ys \<Longrightarrow> set ys \<subseteq> set (L k) \<Longrightarrow> coalesce_scan st h = Some (st, False)"
proof (induction ys arbitrary: h)
  case Nil
  then show ?case by (subst coalesce_scan.simps) simp
next
  case (Cons q ys)
  have q: "(q, k) \<in> free_blocks L" using Cons.prems(2) k by (simp add: free_blocks_def)
  have "(q XOR 2 ^ k, k) \<notin> free_blocks L" using no Cons.prems(2) by (simp add: free_blocks_def)
  then have "buddy_merge st q = Some (st, q)" by (intro buddy_merge_stop [OF inv q]) simp
  moreover have "p_flags (page_array st q) AND PAGE_FLAG_FREE \<noteq> 0"
    using mem_invD(5) [OF inv, of q] q by (auto simp: info_fields)
  ultimately show ?case using Cons.prems Cons.IH [of "nn st q"] by (subst coalesce_scan.simps) simp
qed

lemma sorted_wrt_remove1: "sorted_wrt R xs \<Longrightarrow> sorted_wrt R (remove1 x xs)"
  by (induction xs) (auto dest: notin_set_remove1)

text \<open>Over the descending list of single pages, a pass either merges a pair and starts again, or finds no
  pair of free buddies.\<close>

lemma coalesce_scan_0:
  assumes inv: "mem_inv st L A" and sorted: "sorted_wrt (>) (L 0)" and no: "no_buddies (from_order 1 (free_blocks L))"
  shows "chain (nn st) h ys \<Longrightarrow> L 0 = xs @ ys \<Longrightarrow> \<forall>q \<in> set xs. q XOR 1 \<notin> set (L 0) \<Longrightarrow>
    coalesce_scan st h = Some (st, False) \<and> (\<forall>q \<in> set (L 0). q XOR 1 \<notin> set (L 0)) \<or>
    (\<exists>st' L'. coalesce_scan st h = Some (st', True) \<and> mem_inv st' L' A \<and> same_stats st st' \<and>
      sorted_wrt (>) (L' 0) \<and> no_buddies (from_order 1 (free_blocks L')) \<and> length (L' 0) < length (L 0) \<and>
      covered (free_blocks L') = covered (free_blocks L))"
proof (induction ys arbitrary: h xs)
  case Nil
  then show ?case by (subst coalesce_scan.simps) simp
next
  case (Cons q ys)
  have q: "(q, 0) \<in> free_blocks L" using Cons.prems(2) by (simp add: free_blocks_def)
  have free: "p_flags (page_array st q) AND PAGE_FLAG_FREE \<noteq> 0"
    using mem_invD(5) [OF inv, of q] q by (auto simp: info_fields)
  have h: "h = Some q" and rest: "chain (nn st) (nn st q) ys" using Cons.prems(1) by simp_all
  show ?case
  proof (cases "q XOR 1 \<in> set (L 0)")
    case False
    then have "buddy_merge st q = Some (st, q)"
      by (intro buddy_merge_stop [OF inv q]) (simp add: free_blocks_def)
    then have "coalesce_scan st h = coalesce_scan st (nn st q)" using h free by (subst coalesce_scan.simps) simp
    then show ?thesis using Cons.IH [OF rest, of "xs @ [q]"] Cons.prems(2,3) False by simp
  next
    case True
    define b where "b = q XOR 1"
    have b: "(q XOR 2 ^ 0, 0) \<in> free_blocks L" "q XOR 2 ^ 0 = b" using True by (simp_all add: free_blocks_def b_def)
    have bq: "b XOR 1 = q" "b \<noteq> q" using buddy_facts(1,2) [of 0 q] by (simp_all add: b_def)
    have less: "b < q"
    proof (rule ccontr)
      assume "\<not> b < q"
      then have "q < b" using bq(2) by simp
      moreover have "\<forall>y \<in> set ys. y < q" using sorted Cons.prems(2) by (simp add: sorted_wrt_append)
      moreover have "b \<in> set (L 0)" using True by (simp add: b_def)
      ultimately have "b \<in> set xs" using Cons.prems(2) by auto
      then show False using Cons.prems(2,3) bq(1) by auto
    qed
    let ?L = "merge_lists L 0 q b"
    obtain st1 where st1: "buddy_merge st q = buddy_merge st1 b" "mem_inv st1 ?L A" "same_stats st st1"
      using buddy_merge_step [OF inv q b(1)] less unfolding b(2) by auto
    have blocks: "free_blocks ?L = insert (b, 1) (free_blocks L - {(q, 0), (b, 0)})"
        "covered (free_blocks ?L) = covered (free_blocks L)"
      using merge_lists_covered [OF inv q b(1)] less unfolding b(2) by simp_all
    have "no_buddies (from_order 1 (free_blocks ?L) - {(b, 1)})"
      by (rule no_buddies_subset [OF no]) (auto simp: blocks(1))
    from buddy_merge_ok [OF st1(2) _ _ this] blocks(1)
    obtain st' L' r where m: "buddy_merge st1 b = Some (st', r)" "mem_inv st' L' A" "same_stats st1 st'"
        "no_buddies (from_order 1 (free_blocks L'))" "covered (free_blocks L') = covered (free_blocks ?L)"
        "r \<le> b" "L' 0 = ?L 0"
      by auto
    have "coalesce_scan st h = Some (st', True)"
      using h free st1(1) m(1,6) less by (subst coalesce_scan.simps) simp
    moreover have "L' 0 = remove1 b (remove1 q (L 0))" using m(7) by (simp add: merge_lists_def)
    moreover have "length (remove1 b (remove1 q (L 0))) < length (L 0)"
      using q length_remove1 [of q "L 0"] length_remove1 [of b "remove1 q (L 0)"] length_pos_if_in_set [of q "L 0"]
      by (simp add: free_blocks_def split: if_splits)
    moreover have "sorted_wrt (>) (remove1 b (remove1 q (L 0)))"
      using sorted by (simp add: sorted_wrt_remove1)
    ultimately show ?thesis
      using m(2-5) st1(3) blocks(2) by (intro disjI2 exI [of _ st'] exI [of _ L']) (simp add: same_stats_def)
  qed
qed

lemma coalesce_order_0:
  "mem_inv st L A \<Longrightarrow> sorted_wrt (>) (L 0) \<Longrightarrow> no_buddies (from_order 1 (free_blocks L)) \<Longrightarrow>
    \<exists>st' L'. coalesce_order st 0 = Some st' \<and> mem_inv st' L' A \<and> same_stats st st' \<and>
      no_buddies (free_blocks L') \<and> covered (free_blocks L') = covered (free_blocks L)"
proof (induction "length (L 0)" arbitrary: st L rule: less_induct)
  case less
  have chain: "chain (nn st) (free_area st 0) (L 0)" using free_listsD [OF mem_invD(2) [OF less.prems(1)]] by simp
  consider (stop) "coalesce_scan st (free_area st 0) = Some (st, False)" "\<forall>q \<in> set (L 0). q XOR 1 \<notin> set (L 0)"
    | (again) st' L' where "coalesce_scan st (free_area st 0) = Some (st', True)" "mem_inv st' L' A" "same_stats st st'"
      "sorted_wrt (>) (L' 0)" "no_buddies (from_order 1 (free_blocks L'))" "length (L' 0) < length (L 0)"
      "covered (free_blocks L') = covered (free_blocks L)"
    using coalesce_scan_0 [OF less.prems chain, of "[]"] by auto
  then show ?case
  proof cases
    case stop
    have "no_buddies (free_blocks L)"
      unfolding no_buddies_def
    proof (intro allI impI)
      fix p k assume p: "(p, k) \<in> free_blocks L" "k < MAX_ORDER"
      show "(p XOR 2 ^ k, k) \<notin> free_blocks L"
      proof (cases "k = 0")
        case True
        then show ?thesis using stop(2) p(1) by (simp add: free_blocks_def)
      next
        case False
        then show ?thesis using less.prems(3) [unfolded no_buddies_def, rule_format, of p k] p by simp
      qed
    qed
    moreover have "coalesce_order st 0 = Some st" using stop(1) by (subst coalesce_order.simps) simp
    ultimately show ?thesis using less.prems(1) by (intro exI [of _ st] exI [of _ L]) (simp add: same_stats_def)
  next
    case (again st1 L1)
    from less.hyps [OF again(6,2,4,5)] obtain st' L' where r: "coalesce_order st1 0 = Some st'" "mem_inv st' L' A"
      "same_stats st1 st'" "no_buddies (free_blocks L')" "covered (free_blocks L') = covered (free_blocks L1)"
      by (elim exE conjE)
    have "coalesce_order st 0 = Some st'" using again(1) r(1) by (subst coalesce_order.simps) simp
    then show ?thesis using r(2-5) again(3,7) by (intro exI [of _ st'] exI [of _ L']) (simp add: same_stats_def)
  qed
qed

lemma coalesce_from_none:
  assumes inv: "mem_inv st L A" and no: "no_buddies (free_blocks L)"
  shows "k + n \<le> MAX_ORDER \<Longrightarrow> coalesce_from st k n = Some st"
proof (induction n arbitrary: k)
  case (Suc n)
  have k: "k < MAX_ORDER" using Suc.prems by simp
  have "\<forall>q \<in> set (L k). q XOR 2 ^ k \<notin> set (L k)"
    using no k unfolding no_buddies_def free_blocks_def by auto
  from coalesce_scan_none [OF inv k this free_listsD [OF mem_invD(2) [OF inv]]] k
  have "coalesce_scan st (free_area st k) = Some (st, False)" by simp
  then have "coalesce_order st k = Some st" by (subst coalesce_order.simps) simp
  then show ?case using Suc by simp
qed simp

lemma buddy_coalesce_all_ok:
  assumes "mem_inv st L A" and "sorted_wrt (>) (L 0)" and "no_buddies (from_order 1 (free_blocks L))"
  obtains st' where "buddy_coalesce_all st = Some st'" and "buddy_state st' (covered (free_blocks L)) A"
    and "same_stats st st'"
proof -
  from coalesce_order_0 [OF assms] obtain st' L' where r: "coalesce_order st 0 = Some st'" "mem_inv st' L' A"
      "same_stats st st'" "no_buddies (free_blocks L')" "covered (free_blocks L') = covered (free_blocks L)"
    by (elim exE conjE)
  have "buddy_coalesce_all st = coalesce_from st 0 (Suc 9)" by (simp add: buddy_coalesce_all_def)
  also have "\<dots> = Some st'" using r(1) coalesce_from_none [OF r(2,4), of 1 9] by (simp del: Suc_numeral)
  finally have "buddy_coalesce_all st = Some st'" .
  moreover have "buddy_state st' (covered (free_blocks L)) A"
    unfolding buddy_state_def using r(2,4,5) by (intro exI [of _ L']) simp
  ultimately show thesis using that r(3) by blast
qed

text \<open>The pages of a machine with \<open>n\<close> pages that are put into use: all but the first 2 MiB and the
  area from 8 to 32 MiB (page frame numbers count from 1 MiB).\<close>

definition usable_pages :: "nat \<Rightarrow> nat set" where
  "usable_pages n = {p. 512 \<le> p \<and> p < n \<and> \<not> (2048 \<le> p \<and> p < 8192)}"

lemma phys_mem_init_ok:
  assumes "parse_ram m mb = Some r"
  defines "ram \<equiv> if r = 0 then 0x4000000 else r"
  obtains st where "phys_mem_init m mb = Some st" and "total_phys_pages st = unat ram div 4096"
    and "phys_mem_end st = ram" and "stat_used_pages st = 0"
    and "buddy_state st (usable_pages (unat ram div 4096)) {}"
proof -
  define n where "n = unat ram div 4096"
  have "ram \<le> RAM_LIMIT" using parse_ram_bound [OF assms(1)] by (simp add: ram_def)
  then have n: "n \<le> BUDDY_MAX_PAGES" by (simp add: n_def word_le_nat_alt)
  define st0 where "st0 = phys_mem_zero\<lparr>phys_mem_end := ram, total_phys_pages := n\<rparr>"
  define st1 where "st1 = reserve_kernel st0"
  have st1: "total_phys_pages st1 = n" "phys_mem_end st1 = ram" "stat_used_pages st1 = 0" "free_area st1 = (\<lambda>_. None)"
      "\<And>q. p_flags (info st1 q) = (if q < 512 \<or> 2048 \<le> q \<and> q < min n 8192 then PAGE_FLAG_RESERVED else 0)"
    by (auto simp: st1_def st0_def reserve_kernel_def buddy_mark_reserved_def mark_reserved_loop_eq phys_mem_zero_def info_def)
  have inv1: "mem_inv st1 (\<lambda>_. []) {}" using n st1 by (intro empty_inv) auto
  define st2 where "st2 = buddy_mark_available st1 512 n"
  have st2: "st2 = mark_available_loop st1 512 (n - 512)" using n by (simp add: st2_def buddy_mark_available_def)
  have "n - 512 = 0 \<or> 512 + (n - 512) \<le> total_phys_pages st1" using st1(1) by auto
  from mark_available_loop_ok [OF inv1 _ this] obtain L where L: "mem_inv st2 L {}" "single_pages L (512 + (n - 512))"
      "set (L 0) = {q. 512 \<le> q \<and> q < 512 + (n - 512) \<and> p_flags (info st1 q) AND PAGE_FLAG_RESERVED = 0}"
      "total_phys_pages st2 = total_phys_pages st1" "phys_mem_end st2 = phys_mem_end st1"
    unfolding st2 by (auto simp: single_pages_def)
  have "set (L 0) = usable_pages n" unfolding L(3) usable_pages_def st1(5) by auto
  then have cov: "covered (free_blocks L) = usable_pages n"
    unfolding single_pages_blocks [OF L(2)] by (auto simp: covered_def block_pages_def)
  have "no_buddies (from_order 1 (free_blocks L))"
    using single_pages_blocks [OF L(2)] by (auto simp: no_buddies_def)
  then obtain st3 where st3: "buddy_coalesce_all st2 = Some st3" "buddy_state st3 (usable_pages n) {}" "same_stats st2 st3"
    using buddy_coalesce_all_ok [OF L(1)] L(2) cov by (auto simp: single_pages_def)
  have used: "stat_used_pages (mark_available_loop s p k) = stat_used_pages s" for s p k
    by (induction k arbitrary: s p) (simp_all add: mark_available_page_def Let_def)
  have "phys_mem_init m mb = Some st3"
    using assms(1) st3(1) by (simp add: phys_mem_init_def st2_def st1_def st0_def n_def ram_def Let_def unat_div)
  then show thesis
    using that [of st3] st3(2,3) L(4,5) st1(1-3) used [of st1 512 "n - 512"] by (simp add: same_stats_def n_def [symmetric] st2)
qed

end
