(* ===== verification/Physmem_props.thy ===== *)
theory Physmem_props
  imports Physmem
begin

text \<open>
  What the page allocator of \<^verbatim>\<open>kernel/mem.c\<close> guarantees over every sequence of calls after
  initialisation, as a refinement of a set of free pages, and where it does not.
\<close>

subsection \<open>Sequences of calls\<close>

text \<open>\<open>A\<close> lists the blocks that have been handed out and not been returned, once for each time they were
  handed out; a block is returned with the order it was allocated with.\<close>

inductive buddy_step :: "phys_mem \<times> block list \<Rightarrow> phys_mem \<times> block list \<Rightarrow> bool" where
  alloc: "k \<le> MAX_ORDER \<Longrightarrow> alloc_pages m st k = Some (pa, m', st') \<Longrightarrow>
    buddy_step (st, A) (st', if pa = NULL then A else (phys_to_pfn pa, k) # A)"
| free: "(p, k) \<in> set A \<Longrightarrow> free_pages st (pfn_to_phys p) k = Some st' \<Longrightarrow>
    buddy_step (st, A) (st', remove1 (p, k) A)"

text \<open>The free pages are exactly the usable pages that are not handed out.\<close>

definition allocator_ok :: "phys_mem \<Rightarrow> block set \<Rightarrow> bool" where
  "allocator_ok st A \<longleftrightarrow> buddy_state st (usable_pages (total_phys_pages st) - covered A) A \<and>
     covered A \<subseteq> usable_pages (total_phys_pages st)"

lemma buddy_state_disjoint: "buddy_state st U A \<Longrightarrow> blocks_disjoint A"
  unfolding buddy_state_def using mem_invD(6) blocks_disjoint_subset by blast

lemma alloc_spec_some:
  assumes "alloc_spec U A k r U' A'" and "2 ^ k dvd q" and "block_pages (q, k) \<subseteq> U"
  obtains p where "r = Some p" "2 ^ k dvd p" "block_pages (p, k) \<subseteq> U"
  using assms by (auto elim: alloc_spec.cases)

lemma alloc_pages_spec:
  assumes state: "buddy_state st U A" and k: "k \<le> MAX_ORDER"
  obtains pa m' st' r U' A' where "alloc_pages m st k = Some (pa, m', st')" and "alloc_spec U A k r U' A'"
    and "buddy_state st' U' A'" and "total_phys_pages st' = total_phys_pages st"
    and "case r of None \<Rightarrow> pa = NULL \<and> m' = m
         | Some p \<Rightarrow> pa = pfn_to_phys p \<and> p < BUDDY_MAX_PAGES \<and>
             m' = (if k < MAX_ORDER then memset m pa 0 (4096 * 2 ^ k) else m)"
  using state k
proof (cases rule: alloc_pages_locked_ok)
  case (got st' p)
  have "p < BUDDY_MAX_PAGES" using buddy_state_block(4) [OF got(4), of p k] by simp
  then show thesis
    using that [of "pfn_to_phys p" "if k < MAX_ORDER then memset m (pfn_to_phys p) 0 (4096 * 2 ^ k) else m" st' "Some p"]
      got alloc_spec.got [OF got(2,3), of A] by (simp add: alloc_pages_def)
next
  case none
  then show thesis using that [of NULL m st None U A] alloc_spec.none state by (simp add: alloc_pages_def)
qed

lemma alloc_pages_cases:
  assumes ok: "allocator_ok st A" and k: "k \<le> MAX_ORDER"
  obtains (none) "alloc_pages m st k = Some (NULL, m, st)"
      "\<forall>p. 2 ^ k dvd p \<longrightarrow> \<not> block_pages (p, k) \<subseteq> usable_pages (total_phys_pages st) - covered A"
    | (got) p st' where
      "alloc_pages m st k = Some (pfn_to_phys p, if k < MAX_ORDER then memset m (pfn_to_phys p) 0 (4096 * 2 ^ k) else m, st')"
      "allocator_ok st' (insert (p, k) A)" "2 ^ k dvd p" "p < BUDDY_MAX_PAGES" "block_pages (p, k) \<inter> covered A = {}"
      "block_pages (p, k) \<subseteq> usable_pages (total_phys_pages st)"
      "total_phys_pages st' = total_phys_pages st" "frame (- covered A) st st'"
proof -
  let ?U = "usable_pages (total_phys_pages st) - covered A"
  have state: "buddy_state st ?U A" and sub: "covered A \<subseteq> usable_pages (total_phys_pages st)"
    using ok by (simp_all add: allocator_ok_def)
  from state k show thesis
  proof (cases rule: alloc_pages_locked_ok)
    case (got st' p)
    have p: "p < BUDDY_MAX_PAGES" using buddy_state_block(4) [OF got(4), of p k] by simp
    have "?U - block_pages (p, k) = usable_pages (total_phys_pages st) - covered (insert (p, k) A)" by auto
    then have "allocator_ok st' (insert (p, k) A)" using got(3-5) sub by (auto simp: allocator_ok_def)
    moreover have "frame (- covered A) st st'" by (rule frame_mono [OF got(8)]) auto
    ultimately show thesis
      using that(2) [of p st'] got(1-3,5) p by (auto simp: alloc_pages_def)
  next
    case none
    then show thesis using that(1) by (simp add: alloc_pages_def)
  qed
qed

lemma alloc_pages_allocator_ok:
  assumes ok: "allocator_ok st A" and k: "k \<le> MAX_ORDER" and alloc: "alloc_pages m st k = Some (pa, m', st')"
  shows "allocator_ok st' (if pa = NULL then A else insert (phys_to_pfn pa, k) A) \<and>
    total_phys_pages st' = total_phys_pages st \<and> (pa \<noteq> NULL \<longrightarrow> (phys_to_pfn pa, k) \<notin> A)"
  using ok k
proof (cases rule: alloc_pages_cases [where m = m])
  case none
  then show ?thesis using alloc ok by simp
next
  case (got p st'')
  have "(p, k) \<notin> A" using got(5) first_in_block [of p k] unfolding covered_def by blast
  then show ?thesis using got alloc phys_to_pfn_to_phys [OF got(4)] by auto
qed

lemma free_pages_allocator_ok:
  assumes ok: "allocator_ok st A" and p: "(p, k) \<in> A"
  obtains st' where "free_pages st (pfn_to_phys p) k = Some st'" and "allocator_ok st' (A - {(p, k)})"
    and "total_phys_pages st' = total_phys_pages st" and "frame (- covered (A - {(p, k)})) st st'"
proof -
  let ?U = "usable_pages (total_phys_pages st) - covered A"
  have state: "buddy_state st ?U A" and sub: "covered A \<subseteq> usable_pages (total_phys_pages st)"
    using ok by (simp_all add: allocator_ok_def)
  obtain st' where st': "free_pages st (pfn_to_phys p) k = Some st'"
      "buddy_state st' (?U \<union> block_pages (p, k)) (A - {(p, k)})" "total_phys_pages st' = total_phys_pages st"
      "frame (?U \<union> block_pages (p, k)) st st'"
    by (rule free_pages_ok [OF state p])
  have cov: "covered (A - {(p, k)}) = covered A - block_pages (p, k)"
    by (rule covered_remove [OF buddy_state_disjoint [OF state] p])
  have "block_pages (p, k) \<subseteq> covered A" using p by (auto simp: covered_def)
  then have "?U \<union> block_pages (p, k) = usable_pages (total_phys_pages st) - covered (A - {(p, k)})"
    unfolding cov using sub by blast
  moreover have "frame (- covered (A - {(p, k)})) st st'" by (rule frame_mono [OF st'(4)]) (auto simp: cov)
  ultimately show thesis using that [of st'] st' sub cov by (auto simp: allocator_ok_def)
qed

lemma buddy_steps_ok:
  assumes "buddy_step\<^sup>*\<^sup>* s s'" and "allocator_ok (fst s) (set (snd s))" and "distinct (snd s)"
  shows "allocator_ok (fst s') (set (snd s')) \<and> distinct (snd s') \<and> total_phys_pages (fst s') = total_phys_pages (fst s)"
  using assms(1)
proof (induction rule: rtranclp_induct)
  case base
  then show ?case using assms(2,3) by simp
next
  case (step y z)
  from step.hyps(2) show ?case
  proof cases
    case (alloc k m st pa m' st' A)
    then show ?thesis using alloc_pages_allocator_ok [of st "set A" k m pa m' st'] step.IH by auto
  next
    case (free p k A st st')
    then obtain st'' where "free_pages st (pfn_to_phys p) k = Some st''" "allocator_ok st'' (set A - {(p, k)})"
        "total_phys_pages st'' = total_phys_pages st"
      using free_pages_allocator_ok [of st "set A" p k] step.IH by auto
    then show ?thesis using free step.IH by simp
  qed
qed

lemma phys_mem_init_allocator_ok:
  assumes "phys_mem_init m mb = Some st"
  shows "allocator_ok st {}"
proof -
  obtain r where r: "parse_ram m mb = Some r" using assms by (auto simp: phys_mem_init_def bind_eq_Some_conv)
  obtain st' where "phys_mem_init m mb = Some st'" "total_phys_pages st' = unat (if r = 0 then 0x4000000 else r) div 4096"
      "buddy_state st' (usable_pages (unat (if r = 0 then 0x4000000 else r) div 4096)) {}"
    by (rule phys_mem_init_ok [OF r])
  then show ?thesis using assms by (simp add: allocator_ok_def)
qed

text \<open>The blocks on the free lists: those that the links lead to from the head of the list of their order.\<close>

definition free_blocks_of :: "phys_mem \<Rightarrow> block set" where
  "free_blocks_of st = {(p, k). k \<le> MAX_ORDER \<and> on_chain (\<lambda>q. p_next (page_array st q)) (free_area st k) p}"

lemma free_blocks_of_eq:
  assumes "mem_inv st L A"
  shows "free_blocks_of st = free_blocks L"
  using on_chain_iff [OF free_listsD [OF mem_invD(2) [OF assms]]] by (auto simp: free_blocks_of_def free_blocks_def)

lemma buddy_state_blocks:
  assumes "buddy_state st U A"
  shows "\<forall>x \<in> free_blocks_of st. block_aligned x" and "blocks_disjoint (free_blocks_of st)"
    and "no_buddies (free_blocks_of st)" and "covered (free_blocks_of st) = U"
proof -
  obtain L where L: "mem_inv st L A" "no_buddies (free_blocks L)" "covered (free_blocks L) = U"
    using assms by (auto simp: buddy_state_def)
  note eq = free_blocks_of_eq [OF L(1)]
  show "\<forall>x \<in> free_blocks_of st. block_aligned x" using mem_invD(3) [OF L(1)] eq by (auto simp: block_ok_def)
  show "blocks_disjoint (free_blocks_of st)" using blocks_disjoint_subset [OF mem_invD(6) [OF L(1)]] eq by blast
  show "no_buddies (free_blocks_of st)" "covered (free_blocks_of st) = U" using L(2,3) eq by simp_all
qed

text \<open>A list that ends and does not hold a page twice, with the pages marked free.\<close>

definition free_list_ok :: "phys_mem \<Rightarrow> nat \<Rightarrow> bool" where
  "free_list_ok st k \<longleftrightarrow> (\<exists>l. chain (\<lambda>q. p_next (page_array st q)) (free_area st k) l \<and> distinct l \<and>
     (\<forall>p \<in> set l. p_flags (page_array st p) AND PAGE_FLAG_FREE \<noteq> 0 \<and> p_order (page_array st p) = k))"

lemma buddy_state_lists:
  assumes "buddy_state st U A" and "k \<le> MAX_ORDER"
  shows "free_list_ok st k"
proof -
  obtain L where L: "mem_inv st L A" using assms(1) by (auto simp: buddy_state_def)
  have c: "chain (nn st) (free_area st k) (L k)" using free_listsD [OF mem_invD(2) [OF L] assms(2)] .
  have "p_flags (info st p) AND PAGE_FLAG_FREE \<noteq> 0 \<and> p_order (info st p) = k" if "p \<in> set (L k)" for p
  proof -
    have "(p, k) \<in> free_blocks L" using that assms(2) by (simp add: free_blocks_def)
    then show ?thesis using mem_invD(5) [OF L, of p] block_okD(4) [OF mem_invD(3) [OF L]] by blast
  qed
  then show ?thesis unfolding free_list_ok_def info_fields using c chain_distinct [OF c] by blast
qed

subsection \<open>Properties\<close>

text \<open>C3: memory is never handed out twice.  After initialisation, over every sequence of allocations of
  any order and of releases of what was allocated, no block is handed out again before it is
  released, and the blocks in use are pairwise disjoint, aligned to their size and consist of usable
  pages (no reserved page, no page outside the managed range).  The free lists end, hold no page
  twice and only pages marked free with the order of the list; the blocks on them are disjoint and
  cover exactly the usable pages not in use; and every further allocation or release returns: no
  list walk and no merge runs forever.\<close>

theorem buddy_never_overlaps:
  assumes "phys_mem_init m mb = Some st0" and "buddy_step\<^sup>*\<^sup>* (st0, []) (st, A)"
  shows "distinct A \<and> blocks_disjoint (set A) \<and>
    (\<forall>(p, k) \<in> set A. 2 ^ k dvd p \<and> block_pages (p, k) \<subseteq> usable_pages (total_phys_pages st)) \<and>
    (\<forall>k \<le> MAX_ORDER. free_list_ok st k) \<and> blocks_disjoint (free_blocks_of st) \<and>
    covered (free_blocks_of st) = usable_pages (total_phys_pages st) - covered (set A) \<and>
    (\<forall>k \<le> MAX_ORDER. alloc_pages m' st k \<noteq> None) \<and>
    (\<forall>(p, k) \<in> set A. free_pages st (pfn_to_phys p) k \<noteq> None)"
proof -
  have ok: "allocator_ok st (set A)" and d: "distinct A"
    using buddy_steps_ok [OF assms(2)] phys_mem_init_allocator_ok [OF assms(1)] by simp_all
  then have state: "buddy_state st (usable_pages (total_phys_pages st) - covered (set A)) (set A)"
    and sub: "covered (set A) \<subseteq> usable_pages (total_phys_pages st)" by (simp_all add: allocator_ok_def)
  have "2 ^ k dvd p \<and> block_pages (p, k) \<subseteq> usable_pages (total_phys_pages st)" if "(p, k) \<in> set A" for p k
    using buddy_state_block(3) [OF state that] sub that by (auto simp: covered_def)
  moreover have "alloc_pages m' st k \<noteq> None" if "k \<le> MAX_ORDER" for k
    by (rule alloc_pages_spec [OF state that, of m']) simp
  moreover have "free_pages st (pfn_to_phys p) k \<noteq> None" if "(p, k) \<in> set A" for p k
    by (rule free_pages_ok [OF state that]) simp
  ultimately show ?thesis
    using d buddy_state_disjoint [OF state] buddy_state_lists [OF state] buddy_state_blocks(2,4) [OF state] by blast
qed

text \<open>With no Multiboot information the machine is taken to have 64 MiB.\<close>

lemma default_init:
  obtains st where "phys_mem_init m NULL = Some st" "total_phys_pages st = 16384" "phys_mem_end st = 0x4000000"
    "buddy_state st (usable_pages 16384) {}"
  by (rule phys_mem_init_ok [of m NULL 0]) (simp_all add: parse_ram_def)

theorem buddy_never_overlaps_witness:
  "\<exists>st0 st A. phys_mem_init (\<lambda>_. 0) NULL = Some st0 \<and> buddy_step\<^sup>*\<^sup>* (st0, []) (st, A) \<and> A \<noteq> [] \<and>
     blocks_disjoint (set A) \<and> covered (free_blocks_of st) = usable_pages (total_phys_pages st) - covered (set A)"
proof -
  obtain st0 where st0: "phys_mem_init (\<lambda>_. 0) NULL = Some st0" "buddy_state st0 (usable_pages 16384) {}"
    by (rule default_init)
  obtain pa m' st r U' A' where a: "alloc_pages (\<lambda>_. 0) st0 0 = Some (pa, m', st)"
      "alloc_spec (usable_pages 16384) {} 0 r U' A'"
      "case r of None \<Rightarrow> pa = NULL | Some p \<Rightarrow> pa = pfn_to_phys p \<and> p < BUDDY_MAX_PAGES"
    by (rule alloc_pages_spec [OF st0(2), of 0 "\<lambda>_. 0"]) (auto split: option.splits)
  have "block_pages (512, 0) \<subseteq> usable_pages 16384" by (auto simp: block_pages_def usable_pages_def)
  then have "r \<noteq> None" using alloc_spec_some [OF a(2), of 512] by fastforce
  then have "pa \<noteq> NULL" using a(3) phys_to_pfn_to_phys(3) by auto
  then have "buddy_step (st0, []) (st, [(phys_to_pfn pa, 0)])"
    using buddy_step.alloc [OF _ a(1), of "[]"] by simp
  then have step: "buddy_step\<^sup>*\<^sup>* (st0, []) (st, [(phys_to_pfn pa, 0)])" by blast
  from buddy_never_overlaps [OF st0(1) step, of "\<lambda>_. 0"] step st0(1) show ?thesis
    by (intro exI [of _ st0] exI [of _ st] exI [of _ "[(phys_to_pfn pa, 0)]"]) simp
qed

text \<open>C8: the allocator refines a set of free pages.  In every state of the allocator with free pages
  \<open>U\<close> and blocks \<open>A\<close> in use, allocating order \<open>k\<close> returns and behaves as \<open>alloc_spec\<close>: if some aligned run of
  \<open>2 ^ k\<close> pages is free, such a run is taken out of \<open>U\<close> and its address returned, filled with zero
  bytes up to order 9; only if there is none, the null pointer is returned and nothing
  changes.\<close>

theorem alloc_pages_refines_spec:
  assumes "buddy_state st U A" and "k \<le> MAX_ORDER"
  shows "\<exists>pa m' st' r U' A'. alloc_pages m st k = Some (pa, m', st') \<and> alloc_spec U A k r U' A' \<and>
    buddy_state st' U' A' \<and>
    (case r of None \<Rightarrow> pa = NULL \<and> m' = m
     | Some p \<Rightarrow> pa = pfn_to_phys p \<and> pa \<noteq> NULL \<and>
         m' = (if k < MAX_ORDER then mem_filled m pa 0 (4096 * 2 ^ k) else m))"
proof -
  have "(2 :: nat) ^ k \<le> 2 ^ 10" using assms(2) by (intro power_increasing) simp_all
  then have small: "4096 * 2 ^ k < (2 ^ 64 :: nat)" by simp
  obtain pa m' st' r U' A' where *: "alloc_pages m st k = Some (pa, m', st')" "alloc_spec U A k r U' A'"
      "buddy_state st' U' A'"
      "case r of None \<Rightarrow> pa = NULL \<and> m' = m
       | Some p \<Rightarrow> pa = pfn_to_phys p \<and> p < BUDDY_MAX_PAGES \<and>
           m' = (if k < MAX_ORDER then memset m pa 0 (4096 * 2 ^ k) else m)"
    by (rule alloc_pages_spec [OF assms, of m])
  then show ?thesis
    using memset_filled [OF small, of m pa 0] phys_to_pfn_to_phys(3)
    by (intro exI [of _ pa] exI [of _ m'] exI [of _ st'] exI [of _ r] exI [of _ U'] exI [of _ A'])
      (auto split: option.splits)
qed

theorem alloc_pages_refines_spec_witness:
  "\<exists>st pa m' st' p. phys_mem_init (\<lambda>_. 7) NULL = Some st \<and> alloc_pages (\<lambda>_. 7) st 3 = Some (pa, m', st') \<and>
     pa = pfn_to_phys p \<and> 8 dvd p \<and> block_pages (p, 3) \<subseteq> usable_pages 16384 \<and> m' pa = 0"
proof -
  obtain st where st: "phys_mem_init (\<lambda>_. 7) NULL = Some st" "buddy_state st (usable_pages 16384) {}"
    by (rule default_init)
  have "(3 :: nat) \<le> MAX_ORDER" by simp
  from alloc_pages_refines_spec [OF st(2) this, of "\<lambda>_. 7"] obtain pa m' st' r U' A'
    where a: "alloc_pages (\<lambda>_. 7) st 3 = Some (pa, m', st')" "alloc_spec (usable_pages 16384) {} 3 r U' A'"
      "case r of None \<Rightarrow> pa = NULL \<and> m' = (\<lambda>_. 7)
       | Some p \<Rightarrow> pa = pfn_to_phys p \<and> pa \<noteq> NULL \<and>
           m' = (if 3 < MAX_ORDER then mem_filled (\<lambda>_. 7) pa 0 (4096 * 2 ^ 3) else (\<lambda>_. 7))"
    by (elim exE conjE)
  have "block_pages (512, 3) \<subseteq> usable_pages 16384" by (auto simp: block_pages_def usable_pages_def)
  moreover have "(2 :: nat) ^ 3 dvd 512" by simp
  ultimately obtain p where p: "r = Some p" "2 ^ 3 dvd p" "block_pages (p, 3) \<subseteq> usable_pages 16384"
    using alloc_spec_some [OF a(2), of 512] by blast
  have "m' pa = 0" using a(3) p(1) by (simp add: mem_put_def)
  then show ?thesis using st(1) a(1,3) p by (intro exI [of _ st] exI [of _ pa] exI [of _ m'] exI [of _ st'] exI [of _ p]) simp
qed

text \<open>C23: returning a block undoes its allocation.  Whatever was split to serve an allocation is merged
  again when the block is released with its order: the free lists then hold exactly the same blocks
  as before.\<close>

theorem alloc_free_roundtrip:
  assumes "buddy_state st U A" and "k \<le> MAX_ORDER" and "alloc_pages m st k = Some (pa, m', st')" and "pa \<noteq> NULL"
  shows "\<exists>st''. free_pages st' pa k = Some st'' \<and> free_blocks_of st'' = free_blocks_of st"
proof -
  obtain r U' A' where r: "alloc_spec U A k r U' A'" "buddy_state st' U' A'"
      "case r of None \<Rightarrow> pa = NULL | Some p \<Rightarrow> pa = pfn_to_phys p"
    by (rule alloc_pages_spec [OF assms(1,2), of m]) (use assms(3) in \<open>auto split: option.splits\<close>)
  then obtain p where p: "r = Some p" "pa = pfn_to_phys p" using assms(4) by (auto split: option.splits)
  then have u: "U' = U - block_pages (p, k)" "A' = insert (p, k) A" "block_pages (p, k) \<subseteq> U"
    using r(1) by (auto elim: alloc_spec.cases)
  have "(p, k) \<in> A'" by (simp add: u(2))
  then obtain st'' where st'': "free_pages st' (pfn_to_phys p) k = Some st''"
      "buddy_state st'' (U' \<union> block_pages (p, k)) (A' - {(p, k)})"
    by (rule free_pages_ok [OF r(2)])
  have "U' \<union> block_pages (p, k) = U" using u by blast
  note b = buddy_state_blocks [OF assms(1)] and b'' = buddy_state_blocks [OF st''(2), unfolded this]
  have "free_blocks_of st'' = free_blocks_of st"
    using blocks_canonical [OF b(1-3) b''(1-3)] blocks_canonical [OF b''(1-3) b(1-3)] b(4) b''(4) by auto
  with st''(1) p(2) show ?thesis by blast
qed

theorem alloc_free_roundtrip_witness:
  "\<exists>st pa m' st' st''. phys_mem_init (\<lambda>_. 0) NULL = Some st \<and> alloc_pages (\<lambda>_. 0) st 3 = Some (pa, m', st') \<and>
     free_pages st' pa 3 = Some st'' \<and> free_blocks_of st'' = free_blocks_of st"
proof -
  obtain st where st: "phys_mem_init (\<lambda>_. 0) NULL = Some st" "buddy_state st (usable_pages 16384) {}"
    by (rule default_init)
  obtain pa m' st' r U' A' where a: "alloc_pages (\<lambda>_. 0) st 3 = Some (pa, m', st')"
      "alloc_spec (usable_pages 16384) {} 3 r U' A'"
      "case r of None \<Rightarrow> pa = NULL | Some p \<Rightarrow> pa = pfn_to_phys p \<and> p < BUDDY_MAX_PAGES"
    by (rule alloc_pages_spec [OF st(2), of 3 "\<lambda>_. 0"]) (auto split: option.splits)
  have "block_pages (512, 3) \<subseteq> usable_pages 16384" by (auto simp: block_pages_def usable_pages_def)
  moreover have "(2 :: nat) ^ 3 dvd 512" by simp
  ultimately have "r \<noteq> None" using alloc_spec_some [OF a(2), of 512] by fastforce
  then have "pa \<noteq> NULL" using a(3) phys_to_pfn_to_phys(3) by auto
  from alloc_free_roundtrip [OF st(2) _ a(1) this] st(1) a(1) show ?thesis by auto
qed

text \<open>C39: releasing a single page with a larger order is accepted.  The check on the order is skipped
  for pages of order 0: releasing such a page as a pair puts the pair on the list of order 1 without
  looking at the second page, and the next request for two pages hands out both, whether or not the
  second page is in use.\<close>

theorem free_pages_accepts_larger_order:
  assumes "even p" and "p < total_phys_pages st" and "total_phys_pages st \<le> BUDDY_MAX_PAGES"
    and "p_flags (page_array st p) = 0" and "p_order (page_array st p) = 0"
    and "p_phys_addr (page_array st p) = pfn_to_phys p"
    and "p_flags (page_array st (p XOR 2)) AND PAGE_FLAG_FREE = 0"
  shows "\<exists>st' st''. free_pages st (pfn_to_phys p) 1 = Some st' \<and>
    alloc_pages_locked st' 1 = Some (st'', Some (pfn_to_phys p))"
proof -
  have p: "p < BUDDY_MAX_PAGES" using assms(2,3) by simp
  note ph = phys_to_pfn_to_phys [OF p]
  define st' where "st' = release_page st p 1"
  have ne: "p XOR 2 \<noteq> p" using buddy_facts(1) [of 1 p] assms(1) by simp
  have "buddy_merge st' p = Some (st', p)"
    by (subst buddy_merge.simps) (use assms(7) ne in \<open>simp add: st'_def release_page_def list_add_def Let_def get_buddy_def\<close>)
  then have "free_pages st (pfn_to_phys p) 1 = Some st'"
    using assms(2,4,5) p ph(1,3) ph(2) [unfolded not_less [symmetric]]
    by (simp add: free_pages_def Let_def st'_def release_page_def)
  moreover have fa: "free_area st' 1 = Some p" by (simp add: st'_def release_page_def list_add_def)
  then have "alloc_find (free_area st') 1 = 1" by (subst alloc_find.simps) simp
  then have "alloc_pages_locked st' 1 = alloc_take st' 1 p" using fa by (simp add: alloc_pages_locked_def Let_def)
  moreover have "p_phys_addr (page_array st' p) = pfn_to_phys p"
    using assms(6) by (simp add: st'_def release_page_def list_add_def)
  then have "\<exists>st''. alloc_take st' 1 p = Some (st'', Some (pfn_to_phys p))"
    using fa ph(4) [unfolded not_le [symmetric]] by (simp add: alloc_take_def list_del_def Let_def)
  ultimately show ?thesis by auto
qed

theorem free_pages_accepts_larger_order_witness:
  "\<exists>st' st''. free_pages (phys_mem_zero\<lparr>total_phys_pages := 4,
       page_array := (page_array phys_mem_zero)(0 := (page_array phys_mem_zero 0)\<lparr>p_phys_addr := PHYS_MEM_BASE\<rparr>)\<rparr>)
     (pfn_to_phys 0) 1 = Some st' \<and> alloc_pages_locked st' 1 = Some (st'', Some (pfn_to_phys 0))"
  by (rule free_pages_accepts_larger_order) (simp_all add: phys_mem_zero_def pfn_to_phys_def)

text \<open>C40: pages beyond the end of memory are put into use.  Page frame numbers count from 1 MiB, but their
  number is computed from the whole memory: on a machine with at least 34 MiB, or with the default
  of 64 MiB, after initialisation some page on the free lists has an address at or above
  \<open>phys_mem_end\<close>.\<close>

theorem phys_mem_init_beyond_ram:
  assumes "parse_ram m mb = Some r" and "r = 0 \<or> 0x2200000 \<le> r"
  shows "\<exists>st x p. phys_mem_init m mb = Some st \<and> x \<in> free_blocks_of st \<and> p \<in> block_pages x \<and>
    phys_mem_end st \<le> pfn_to_phys p"
proof -
  define ram where "ram = (if r = 0 then 0x4000000 else r)"
  obtain st where st: "phys_mem_init m mb = Some st" "phys_mem_end st = ram"
      "buddy_state st (usable_pages (unat ram div 4096)) {}"
    by (rule phys_mem_init_ok [OF assms(1)]) (simp add: ram_def)
  have "0x2200000 \<le> ram" "ram \<le> 0x10000000" using assms(2) parse_ram_bound [OF assms(1)] by (auto simp: ram_def)
  then have bounds: "0x2200000 \<le> unat ram" "unat ram \<le> 0x10000000" by (simp_all add: word_le_nat_alt)
  define p where "p = unat ram div 4096 - 1"
  have p: "p \<in> usable_pages (unat ram div 4096)" "p < BUDDY_MAX_PAGES"
    using bounds by (auto simp: usable_pages_def p_def)
  have "p \<in> covered (free_blocks_of st)" using p(1) buddy_state_blocks(4) [OF st(3)] by simp
  then obtain x where x: "x \<in> free_blocks_of st" "p \<in> block_pages x" unfolding covered_def by blast
  have "unat ram \<le> 0x100000 + p * 4096" unfolding p_def using bounds by linarith
  then have "unat ram \<le> unat (pfn_to_phys p)" using unat_pfn_to_phys [OF p(2)] by simp
  then have "phys_mem_end st \<le> pfn_to_phys p" by (simp add: st(2) word_le_nat_alt)
  with st(1) x show ?thesis by blast
qed

theorem phys_mem_init_beyond_ram_witness:
  "\<exists>st x p. phys_mem_init (\<lambda>_. 0) NULL = Some st \<and> x \<in> free_blocks_of st \<and> p \<in> block_pages x \<and>
     phys_mem_end st \<le> pfn_to_phys p"
  by (rule phys_mem_init_beyond_ram [of _ _ 0]) (simp_all add: parse_ram_def)

text \<open>The Multiboot 1 memory map is never used.  The map's entries are 20 bytes after their size
  field, 24 bytes apart, with the type at offset 20; the structure the code reads them with is
  padded, so that the type is taken from offset 24, where the next entry's size lies.  On every map
  of such entries that is not followed by the number 1, no region counts as available and the
  total stays 0.\<close>

theorem mb1_map_ignored:
  assumes "\<forall>i < n. load32 m (a + 24 * of_nat i) = 20" and "load32 m (a + 24 * of_nat n) \<noteq> 1"
    and "unat a + 24 * n < 2 ^ 64"
  shows "mb1_mmap_loop m a (a + 24 * of_nat n) 0 = Some 0"
proof -
  have "mb1_mmap_loop m (a + 24 * of_nat i) (a + 24 * of_nat n) 0 = Some 0" if "i \<le> n" for i
    using that
  proof (induction "n - i" arbitrary: i)
    case 0
    then show ?case by (subst mb1_mmap_loop.simps) simp
  next
    case (Suc j)
    then have i: "i < n" by simp
    have u: "unat (a + 24 * of_nat k :: u64) = unat a + 24 * k" if "k \<le> n" for k
      using that assms(3) by (simp add: unat_word_ariths unat_of_nat)
    have step: "a + 24 * of_nat i + 24 = (a + 24 * of_nat (Suc i) :: u64)" by (simp add: algebra_simps)
    have "load32 m (a + 24 * of_nat i + 24) \<noteq> 1"
      unfolding step
    proof (cases "Suc i = n")
      case False
      then have "load32 m (a + 24 * of_nat (Suc i)) = 20" using assms(1) i by (metis Suc_lessI)
      then show "load32 m (a + 24 * of_nat (Suc i)) \<noteq> 1" by simp
    qed (use assms(2) in simp)
    moreover have "mb1_mmap_loop m (a + 24 * of_nat i + 24) (a + 24 * of_nat n) 0 = Some 0"
      unfolding step by (rule Suc.hyps(1)) (use Suc.hyps(2) i in simp_all)
    moreover have "(a + 24 * of_nat i :: u64) < a + 24 * of_nat n" using u i by (simp add: word_less_nat_alt)
    moreover have "load32 m (a + 24 * of_nat i) = 20" using assms(1) i by blast
    ultimately show ?case by (subst mb1_mmap_loop.simps) (simp add: add_region_def del: of_nat_Suc)
  qed
  from this [of 0] show ?thesis by simp
qed

text \<open>A map with one entry of type 1 (available) for the 64 MiB from address 0, at \<open>0x9000\<close>.\<close>

definition demo_map :: mem where
  "demo_map = store_bytes (\<lambda>_. 0) 0x9000 [20, 0, 0, 0,  0, 0, 0, 0, 0, 0, 0, 0,  0, 0, 0, 4, 0, 0, 0, 0,  1, 0, 0, 0]"

theorem mb1_map_ignored_witness: "mb1_mmap_loop demo_map 0x9000 (0x9000 + 24 * of_nat 1) 0 = Some 0"
  by (rule mb1_map_ignored) (simp_all add: load32_def demo_map_def upt_rec)

end
