(* ===== verification/Slab_inv.thy ===== *)
theory Slab_inv
  imports Slab Physmem_props
begin

text \<open>
  Correctness of the kernel heap of \<^verbatim>\<open>kernel/mem.c\<close>: every object is on the free list of its cache or in
  use, the free lists and the counts in the page descriptors agree, a page goes back to the page
  allocator exactly when its last object is released, and no call writes to memory in use.
\<close>

subsection \<open>Regions of memory\<close>

definition region :: "addr \<Rightarrow> nat \<Rightarrow> nat set" where
  "region a n = {unat a ..< unat a + n}"

lemma region_iff: "unat a + n \<le> 2 ^ 64 \<Longrightarrow> unat (x - a) < n \<longleftrightarrow> unat x \<in> region a n"
  using unat_bound [of x] by (auto simp: region_def unat_sub_if')

lemma memset_region:
  "unat a + n \<le> 2 ^ 64 \<Longrightarrow> n < 2 ^ 64 \<Longrightarrow> memset m a 0 n x = (if unat x \<in> region a n then 0 else m x)"
  by (simp add: memset_filled mem_put_def region_iff)

lemma store64_region: "unat a + 8 \<le> 2 ^ 64 \<Longrightarrow> unat x \<notin> region a 8 \<Longrightarrow> store64 m a v x = m x"
  using region_iff [of a 8 x] by (simp add: store64_def store_bytes_apply)

lemma load64_cong:
  assumes "unat a + 8 \<le> 2 ^ 64" and "\<And>x. unat x \<in> region a 8 \<Longrightarrow> m' x = m x"
  shows "load64 m' a = load64 m a"
proof -
  have "m' (a + of_nat i) = m (a + of_nat i)" if "i < 8" for i
    using that assms(1) by (intro assms(2)) (simp add: region_def unat_plus_of_nat)
  then show ?thesis unfolding load64_def by (intro arg_cong [where f = le_val] map_cong) auto
qed

subsection \<open>Lists in memory\<close>

definition ptr :: "addr \<Rightarrow> addr option" where
  "ptr a = (if a = NULL then None else Some a)"

abbreviation mchain :: "mem \<Rightarrow> addr \<Rightarrow> addr list \<Rightarrow> bool" where
  "mchain m fl l \<equiv> chain (\<lambda>a. ptr (load64 m a)) (ptr fl) l"

lemma ptr_simps [simp]: "ptr NULL = None" "ptr a = Some b \<longleftrightarrow> b = a \<and> a \<noteq> NULL" "ptr a = None \<longleftrightarrow> a = NULL"
  by (auto simp: ptr_def)

lemma mchain_cong: "(\<And>a. a \<in> set l \<Longrightarrow> load64 m' a = load64 m a) \<Longrightarrow> mchain m' fl l = mchain m fl l"
  by (rule chain_cong) simp

lemma mchain_Cons [simp]: "mchain m fl (a # l) \<longleftrightarrow> fl = a \<and> a \<noteq> NULL \<and> mchain m (load64 m a) l"
  by auto

lemma mchain_not_null: "mchain m fl l \<Longrightarrow> NULL \<notin> set l"
  by (induction l arbitrary: fl) auto

subsection \<open>Objects\<close>

definition osz :: "nat \<Rightarrow> nat" where "osz c = 32 * 2 ^ c"
definition cnt :: "nat \<Rightarrow> nat" where "cnt c = 2 ^ (7 - c)"

lemma osz_cnt: "c < SLAB_NUM_CACHES \<Longrightarrow> osz c * cnt c = 4096"
  by (simp add: osz_def cnt_def power_add [symmetric] mult.assoc)

lemma osz_ge: "32 \<le> osz c"
  by (simp add: osz_def)

definition obj :: "nat \<Rightarrow> nat \<Rightarrow> nat \<Rightarrow> addr" where
  "obj c p i = pfn_to_phys p + of_nat (i * osz c)"

definition objs :: "nat \<Rightarrow> nat \<Rightarrow> addr set" where
  "objs c p = obj c p ` {..<cnt c}"

definition page_bytes :: "nat \<Rightarrow> nat set" where
  "page_bytes p = {0x100000 + p * 4096 ..< 0x100000 + (p + 1) * 4096}"

lemma obj_end:
  assumes "c < SLAB_NUM_CACHES" and "i < cnt c"
  shows "i * osz c + osz c \<le> 4096"
proof -
  have "(i + 1) * osz c \<le> cnt c * osz c" using assms(2) by (intro mult_le_mono1) simp
  then show ?thesis using osz_cnt [OF assms(1)] by (simp add: mult.commute add.commute)
qed

lemma unat_obj:
  assumes "c < SLAB_NUM_CACHES" and "p < BUDDY_MAX_PAGES" and "i < cnt c"
  shows "unat (obj c p i) = 0x100000 + p * 4096 + i * osz c"
proof -
  have "i * osz c < 4096" using obj_end [OF assms(1,3)] osz_ge [of c] by linarith
  then show ?thesis
    unfolding obj_def using unat_plus_of_nat [of "pfn_to_phys p" "i * osz c"] unat_pfn_to_phys [OF assms(2)] assms(2) by simp
qed

lemma obj_region:
  assumes "c < SLAB_NUM_CACHES" and "p < BUDDY_MAX_PAGES" and "a \<in> objs c p"
  shows "region a (osz c) \<subseteq> page_bytes p" and "phys_to_pfn a = p" and "a \<noteq> NULL" and "unat a + osz c \<le> 2 ^ 60"
proof -
  obtain i where i: "a = obj c p i" "i < cnt c" using assms(3) by (auto simp: objs_def)
  note u = unat_obj [OF assms(1,2) i(2)] and e = obj_end [OF assms(1) i(2)]
  show "region a (osz c) \<subseteq> page_bytes p" using u e by (auto simp: region_def page_bytes_def i(1))
  show "unat a + osz c \<le> 2 ^ 60" using u e assms(2) by (simp add: i(1))
  show "a \<noteq> NULL" using u by (auto simp: i(1))
  have "i * osz c < 4096" using e osz_ge [of c] by linarith
  moreover have "\<not> a < PHYS_MEM_BASE" using u by (simp add: i(1) word_less_nat_alt)
  moreover have "unat (a - PHYS_MEM_BASE) = p * 4096 + i * osz c" using u by (simp add: i(1) unat_sub_if')
  ultimately show "phys_to_pfn a = p" by (simp add: phys_to_pfn_def unat_div)
qed

lemma page_bytes_disjoint: "p \<noteq> q \<Longrightarrow> page_bytes p \<inter> page_bytes q = {}"
  by (auto simp: page_bytes_def)

lemma objs_disjoint:
  assumes "c < SLAB_NUM_CACHES" and "p < BUDDY_MAX_PAGES" and "a \<in> objs c p" and "b \<in> objs c p" and "a \<noteq> b"
  shows "region a (osz c) \<inter> region b (osz c) = {}"
proof -
  obtain i j where ij: "a = obj c p i" "i < cnt c" "b = obj c p j" "j < cnt c" using assms(3,4) by (auto simp: objs_def)
  then have "i \<noteq> j" using assms(5) by auto
  then consider "i + 1 \<le> j" | "j + 1 \<le> i" by linarith
  then have "i * osz c + osz c \<le> j * osz c \<or> j * osz c + osz c \<le> i * osz c"
  proof cases
    case 1
    then have "(i + 1) * osz c \<le> j * osz c" by (rule mult_le_mono1)
    then show ?thesis by (simp add: add.commute)
  next
    case 2
    then have "(j + 1) * osz c \<le> i * osz c" by (rule mult_le_mono1)
    then show ?thesis by (simp add: add.commute)
  qed
  then show ?thesis unfolding ij(1,3) region_def unat_obj [OF assms(1,2) ij(2)] unat_obj [OF assms(1,2) ij(4)] by auto
qed

lemma card_objs:
  assumes "c < SLAB_NUM_CACHES" and "p < BUDDY_MAX_PAGES"
  shows "finite (objs c p)" and "card (objs c p) = cnt c" and "inj_on (obj c p) {..<cnt c}"
proof -
  show inj: "inj_on (obj c p) {..<cnt c}"
  proof (rule inj_onI)
    fix i j assume i: "i \<in> {..<cnt c}" and j: "j \<in> {..<cnt c}" and eq: "obj c p i = obj c p j"
    have ui: "unat (obj c p i) = 0x100000 + p * 4096 + i * osz c" using unat_obj [OF assms, of i] i by simp
    have uj: "unat (obj c p j) = 0x100000 + p * 4096 + j * osz c" using unat_obj [OF assms, of j] j by simp
    have "0x100000 + p * 4096 + i * osz c = 0x100000 + p * 4096 + j * osz c"
      unfolding ui [symmetric] uj [symmetric] eq by (rule refl)
    then have "i * osz c = j * osz c" by (rule add_left_imp_eq)
    then show "i = j" by (simp add: osz_def)
  qed
  show "finite (objs c p)" by (simp add: objs_def)
  show "card (objs c p) = cnt c" unfolding objs_def using card_image [OF inj] by simp
qed

subsection \<open>Carving a page\<close>

lemma carve_cond:
  assumes "c < SLAB_NUM_CACHES" and "i \<le> cnt c"
  shows "of_nat (i * osz c) + of_nat (osz c) \<le> (4096 :: u64) \<longleftrightarrow> i < cnt c"
proof -
  have full: "cnt c * osz c = 4096" using osz_cnt [OF assms(1)] by (simp only: mult.commute)
  have "i * osz c \<le> cnt c * osz c" using assms(2) by (rule mult_le_mono1)
  then have i: "i * osz c \<le> 4096" by (simp only: full)
  have c: "osz c \<le> 4096" using obj_end [OF assms(1), of 0] by (simp add: cnt_def)
  have "unat (of_nat (i * osz c) + of_nat (osz c) :: u64) = i * osz c + osz c"
    using i c by (simp add: of_nat_add [symmetric] unat_of_nat_u64 del: of_nat_add of_nat_mult)
  then have "of_nat (i * osz c) + of_nat (osz c) \<le> (4096 :: u64) \<longleftrightarrow> i * osz c + osz c \<le> 4096"
    by (simp add: word_le_nat_alt)
  also have "\<dots> \<longleftrightarrow> (i + 1) * osz c \<le> cnt c * osz c" unfolding full by (simp add: add.commute)
  also have "\<dots> \<longleftrightarrow> i < cnt c"
  proof -
    have "0 < osz c" by (simp add: osz_def)
    then show ?thesis by (simp only: mult_le_cancel2) auto
  qed
  finally show ?thesis .
qed

lemma slab_carve_ok:
  assumes c: "c < SLAB_NUM_CACHES" and p: "p < BUDDY_MAX_PAGES"
  shows "i \<le> cnt c \<Longrightarrow> mchain m fl l \<Longrightarrow>
    \<forall>a \<in> set l. unat a + 8 \<le> 2 ^ 64 \<and> (\<forall>j. i \<le> j \<and> j < cnt c \<longrightarrow> region a 8 \<inter> region (obj c p j) (osz c) = {}) \<Longrightarrow>
    \<exists>m' fl'. slab_carve m (pfn_to_phys p) (of_nat (osz c)) (of_nat (i * osz c)) fl = Some (m', fl') \<and>
      mchain m' fl' (rev (map (obj c p) [i..<cnt c]) @ l) \<and> (\<forall>x. unat x \<notin> page_bytes p \<longrightarrow> m' x = m x)"
proof (induction "cnt c - i" arbitrary: i m fl l)
  case 0
  then have "i = cnt c" by simp
  then show ?case using 0 carve_cond [OF c, of i] by (subst slab_carve.simps) simp
next
  case (Suc n)
  then have i: "i < cnt c" by simp
  let ?a = "obj c p i" and ?m = "store64 m (obj c p i) fl"
  have a_in: "?a \<in> objs c p" using i by (simp add: objs_def)
  note r = obj_region [OF c p a_in]
  have a8: "unat ?a + 8 \<le> 2 ^ 64" "region ?a 8 \<subseteq> region ?a (osz c)"
    using r(4) osz_ge [of c] by (auto simp: region_def)
  have keep: "load64 ?m a = load64 m a" if "a \<in> set l" for a
  proof (rule load64_cong)
    show "unat a + 8 \<le> 2 ^ 64" using Suc.prems(3) that by blast
    have "region a 8 \<inter> region ?a (osz c) = {}" using Suc.prems(3) that i by blast
    then show "?m x = m x" if "unat x \<in> region a 8" for x
      using store64_region [OF a8(1)] a8(2) that by blast
  qed
  have chain: "mchain ?m ?a (?a # l)" using Suc.prems(2) mchain_cong [OF keep] r(3) by simp
  have apart: "\<forall>a \<in> set (?a # l). unat a + 8 \<le> 2 ^ 64 \<and>
      (\<forall>j. Suc i \<le> j \<and> j < cnt c \<longrightarrow> region a 8 \<inter> region (obj c p j) (osz c) = {})"
  proof
    fix a assume "a \<in> set (?a # l)"
    then consider "a = ?a" | "a \<in> set l" by auto
    then show "unat a + 8 \<le> 2 ^ 64 \<and> (\<forall>j. Suc i \<le> j \<and> j < cnt c \<longrightarrow> region a 8 \<inter> region (obj c p j) (osz c) = {})"
    proof cases
      case 1
      have "region ?a 8 \<inter> region (obj c p j) (osz c) = {}" if j: "Suc i \<le> j" "j < cnt c" for j
      proof -
        have "?a \<noteq> obj c p j" using inj_onD [OF card_objs(3) [OF c p], of i j] i j by auto
        then show ?thesis
          using objs_disjoint [OF c p a_in, of "obj c p j"] a8(2) j by (auto simp: objs_def)
      qed
      then show ?thesis using 1 a8(1) by simp
    next
      case 2
      then show ?thesis using Suc.prems(3) by auto
    qed
  qed
  have "n = cnt c - Suc i" "Suc i \<le> cnt c" using Suc.hyps(2) i by simp_all
  from Suc.hyps(1) [OF this chain apart]
  obtain m' fl' where IH: "slab_carve ?m (pfn_to_phys p) (of_nat (osz c)) (of_nat (Suc i * osz c)) ?a = Some (m', fl')"
      "mchain m' fl' (rev (map (obj c p) [Suc i..<cnt c]) @ ?a # l)" "\<forall>x. unat x \<notin> page_bytes p \<longrightarrow> m' x = ?m x"
    by (elim exE conjE)
  have "slab_carve m (pfn_to_phys p) (of_nat (osz c)) (of_nat (i * osz c)) fl = Some (m', fl')"
    using IH(1) carve_cond [OF c, of i] i
    by (subst slab_carve.simps) (simp add: obj_def add.commute)
  moreover have "m' x = m x" if "unat x \<notin> page_bytes p" for x
    using IH(3) that store64_region [OF a8(1), of x m fl] a8(2) r(1) by auto
  moreover have "rev (map (obj c p) [i..<cnt c]) @ l = rev (map (obj c p) [Suc i..<cnt c]) @ ?a # l"
    using i by (simp add: upt_conv_Cons)
  ultimately show ?case using IH(2) by auto
qed

subsection \<open>Unlinking the objects of a page\<close>

text \<open>Addresses whose first words do not overlap.\<close>

definition words_apart :: "addr set \<Rightarrow> bool" where
  "words_apart X \<longleftrightarrow> (\<forall>a \<in> X. unat a + 8 \<le> 2 ^ 64 \<and> (\<forall>b \<in> X. a \<noteq> b \<longrightarrow> region a 8 \<inter> region b 8 = {}))"

lemma words_apart_load:
  assumes "words_apart X" and "a \<in> X" and "b \<in> X" and "a \<noteq> b"
  shows "load64 (store64 m a v) b = load64 m b"
proof (rule load64_cong)
  show "unat b + 8 \<le> 2 ^ 64" using assms by (auto simp: words_apart_def)
  show "store64 m a v x = m x" if "unat x \<in> region b 8" for x
    using store64_region [of a x m v] assms that unfolding words_apart_def by blast
qed

lemma words_apart_chain:
  assumes "words_apart X" and "q \<in> X" and "set l \<subseteq> X"
  shows "chain (\<lambda>a. ptr (load64 (store64 m q v) a)) h l = chain ((\<lambda>a. ptr (load64 m a))(q := ptr v)) h l"
  by (rule chain_cong) (use words_apart_load [OF assms(1,2)] assms(3) in auto)

lemma slab_unlink_ok:
  fixes lo hi :: u64
  defines "inside \<equiv> \<lambda>a. lo \<le> a \<and> a < hi"
  shows "words_apart (set (kept @ rest)) \<Longrightarrow> mchain m fl (kept @ rest) \<Longrightarrow> \<forall>a \<in> set kept. \<not> inside a \<Longrightarrow>
    prev = (if kept = [] then None else Some (last kept)) \<Longrightarrow> ptr cur = (if rest = [] then None else Some (hd rest)) \<Longrightarrow>
    \<exists>m' fl'. slab_unlink m fl prev cur lo hi = Some (m', fl') \<and> mchain m' fl' (kept @ filter (\<lambda>a. \<not> inside a) rest) \<and>
      (\<forall>x. (\<forall>a \<in> set (kept @ rest). \<not> inside a \<longrightarrow> unat x \<notin> region a 8) \<longrightarrow> m' x = m x)"
proof (induction rest arbitrary: kept m fl prev cur)
  case Nil
  then show ?case by (subst slab_unlink.simps) simp
next
  case (Cons a rest)
  have cur: "cur = a" "a \<noteq> NULL" using Cons.prems(5) by simp_all
  have suffix: "mchain m a (a # rest)" using chain_suffix [OF Cons.prems(2)] cur(2) by simp
  then have next': "ptr (load64 m a) = (if rest = [] then None else Some (hd rest))" by (cases rest) auto
  show ?case
  proof (cases "inside a")
    case False
    have step: "slab_unlink m fl prev cur lo hi = slab_unlink m fl (Some a) (load64 m a) lo hi"
      using False cur by (subst slab_unlink.simps) (auto simp: inside_def)
    show ?thesis unfolding step using Cons.IH [of "kept @ [a]" m fl "Some a" "load64 m a"] Cons.prems(1-3) False next' by auto
  next
    case True
    have apart: "words_apart (set (kept @ rest))" using Cons.prems(1) by (auto simp: words_apart_def)
    show ?thesis
    proof (cases kept rule: rev_cases)
      case Nil
      then have step: "slab_unlink m fl prev cur lo hi = slab_unlink m (load64 m a) None (load64 m a) lo hi"
        using True cur Cons.prems(4) by (subst slab_unlink.simps) (simp add: inside_def)
      show ?thesis
        unfolding step
        using Cons.IH [of "[]" m "load64 m a" None "load64 m a"] apart suffix True next' Nil by auto
    next
      case (snoc pre q)
      let ?m = "store64 m q (load64 m a)"
      have step: "slab_unlink m fl prev cur lo hi = slab_unlink ?m fl (Some q) (load64 m a) lo hi"
        using True cur Cons.prems(4) snoc by (subst slab_unlink.simps) (simp add: inside_def)
      have q: "q \<in> set (kept @ a # rest)" "\<not> inside q" "unat q + 8 \<le> 2 ^ 64"
        using snoc Cons.prems(1,3) by (auto simp: words_apart_def)
      have "chain ((\<lambda>b. ptr (load64 m b))(q := ptr (load64 m a), a := None)) (ptr fl) (pre @ q # rest)"
        using chain_unlink [of "\<lambda>b. ptr (load64 m b)" "ptr fl" pre q a rest] Cons.prems(2) snoc by simp
      moreover have "a \<notin> set (pre @ q # rest)" using chain_distinct [OF Cons.prems(2)] snoc by auto
      ultimately have "chain ((\<lambda>b. ptr (load64 m b))(q := ptr (load64 m a))) (ptr fl) (kept @ rest)"
        using chain_upd [of a "pre @ q # rest" "(\<lambda>b. ptr (load64 m b))(q := ptr (load64 m a))" None "ptr fl"] snoc by simp
      then have chain: "mchain ?m fl (kept @ rest)"
        using words_apart_chain [OF Cons.prems(1) q(1), of "kept @ rest" m "load64 m a" "ptr fl"] by auto
      have prev: "Some q = (if kept = [] then None else Some (last kept))" using snoc by simp
      from Cons.IH [OF apart chain Cons.prems(3) prev next'] obtain m' fl' where
        IH: "slab_unlink ?m fl (Some q) (load64 m a) lo hi = Some (m', fl')"
          "mchain m' fl' (kept @ filter (\<lambda>a. \<not> inside a) rest)"
          "\<forall>x. (\<forall>a \<in> set (kept @ rest). \<not> inside a \<longrightarrow> unat x \<notin> region a 8) \<longrightarrow> m' x = ?m x"
        by (elim exE conjE)
      have "m' x = m x" if "\<forall>b \<in> set (kept @ a # rest). \<not> inside b \<longrightarrow> unat x \<notin> region b 8" for x
        using IH(3) that store64_region [OF q(3), of x m] q(1,2) by auto
      then show ?thesis unfolding step using IH(1,2) True by simp
    qed
  qed
qed

subsection \<open>The invariant\<close>

text \<open>Changing what the page allocator does not look at in the descriptor of a block in use.\<close>

lemma allocator_ok_upd:
  assumes ok: "allocator_ok st A" and p: "(p, k) \<in> A"
    and f: "\<And>d. p_order (f d) = p_order d" "\<And>d. p_phys_addr (f d) = p_phys_addr d"
      "\<And>d. p_flags (f d) AND PAGE_FLAG_FREE = p_flags d AND PAGE_FLAG_FREE"
      "\<And>d. p_flags (f d) AND PAGE_FLAG_RESERVED = p_flags d AND PAGE_FLAG_RESERVED"
  shows "allocator_ok (upd_page st p f) A"
proof -
  obtain L where inv: "mem_inv st L A" and L: "no_buddies (free_blocks L)"
      "covered (free_blocks L) = usable_pages (total_phys_pages st) - covered A"
    using ok by (auto simp: allocator_ok_def buddy_state_def)
  note b = buddy_state_block [OF conjunct1 [OF ok [unfolded allocator_ok_def]] p]
  have not_free: "(p, j) \<notin> free_blocks L" for j
    using mem_invD(5) [OF inv, of p] b(5) by (auto simp: info_fields)
  then have out: "\<forall>j \<le> MAX_ORDER. p \<notin> set (L j)" by (auto simp: free_blocks_def)
  let ?st = "upd_page st p f"
  have fields: "p_order (info ?st q) = p_order (info st q)" "p_phys_addr (info ?st q) = p_phys_addr (info st q)"
      "p_flags (info ?st q) AND PAGE_FLAG_FREE = p_flags (info st q) AND PAGE_FLAG_FREE"
      "p_flags (info ?st q) AND PAGE_FLAG_RESERVED = p_flags (info st q) AND PAGE_FLAG_RESERVED" for q
    using f by (auto simp: info_def)
  have "mem_inv ?st L A"
    using inv upd_page_lists [OF mem_invD(2) [OF inv] out, of f]
    by (simp add: mem_inv_def block_ok_def fields)
  then show ?thesis using ok L by (auto simp: allocator_ok_def buddy_state_def)
qed

definition slab_blocks :: "(nat \<Rightarrow> nat set) \<Rightarrow> block set" where
  "slab_blocks P = {(p, 0) | p. \<exists>c < SLAB_NUM_CACHES. p \<in> P c}"

definition slab_page :: "phys_mem \<Rightarrow> nat \<Rightarrow> nat \<Rightarrow> addr set \<Rightarrow> bool" where
  "slab_page st c p F \<longleftrightarrow> p_flags (info st p) AND PAGE_FLAG_SLAB \<noteq> 0 \<and> p_slab_cache (info st p) = Some c \<and>
     unat (p_slab_free_count (info st p)) = card (F \<inter> objs c p)"

text \<open>\<open>P c\<close> are the pages of cache \<open>c\<close>, \<open>V c\<close> its objects in use, \<open>l c\<close> its free list, \<open>B\<close> the blocks that
  large requests and other users of the page allocator hold.\<close>

definition cache_ok :: "kmem \<Rightarrow> nat \<Rightarrow> nat set \<Rightarrow> addr set \<Rightarrow> addr list \<Rightarrow> bool" where
  "cache_ok w c Pc Vc lc \<longleftrightarrow>
     obj_size (km_caches w c) = of_nat (osz c) \<and> objs_per_page (km_caches w c) = of_nat (cnt c) \<and>
     mchain (km_mem w) (free_list (km_caches w c)) lc \<and> set lc \<inter> Vc = {} \<and>
     set lc \<union> Vc = (\<Union>p \<in> Pc. objs c p) \<and> (\<forall>p \<in> Pc. slab_page (km_phys w) c p (set lc))"

definition slab_inv ::
  "kmem \<Rightarrow> (nat \<Rightarrow> nat set) \<Rightarrow> (nat \<Rightarrow> addr set) \<Rightarrow> block set \<Rightarrow> (nat \<Rightarrow> addr list) \<Rightarrow> bool" where
  "slab_inv w P V B l \<longleftrightarrow> allocator_ok (km_phys w) (slab_blocks P \<union> B) \<and> slab_blocks P \<inter> B = {} \<and>
     (\<forall>c < SLAB_NUM_CACHES. cache_ok w c (P c) (V c) (l c)) \<and>
     (\<forall>q. p_flags (info (km_phys w) q) AND PAGE_FLAG_SLAB \<noteq> 0 \<longrightarrow> (\<exists>c < SLAB_NUM_CACHES. q \<in> P c))"

lemma slab_inv_page:
  assumes "slab_inv w P V B l" and "c < SLAB_NUM_CACHES" and "p \<in> P c"
  shows "(p, 0) \<in> slab_blocks P \<union> B" "p < BUDDY_MAX_PAGES" "p < total_phys_pages (km_phys w)"
    "p \<in> covered (slab_blocks P \<union> B)" "slab_page (km_phys w) c p (set (l c))" "(p, 0) \<notin> B"
    "p_phys_addr (page_array (km_phys w) p) = pfn_to_phys p"
proof -
  show in_A: "(p, 0) \<in> slab_blocks P \<union> B" using assms by (auto simp: slab_blocks_def)
  have ok: "allocator_ok (km_phys w) (slab_blocks P \<union> B)" using assms(1) by (simp add: slab_inv_def)
  note b = buddy_state_block [OF conjunct1 [OF ok [unfolded allocator_ok_def]] in_A]
  show "p < BUDDY_MAX_PAGES" "p < total_phys_pages (km_phys w)" "p_phys_addr (page_array (km_phys w) p) = pfn_to_phys p"
    using b(1,4,8) by simp_all
  show "p \<in> covered (slab_blocks P \<union> B)" using in_A unfolding covered_def by (force simp: block_pages_def)
  show "slab_page (km_phys w) c p (set (l c))" using assms by (auto simp: slab_inv_def cache_ok_def)
  show "(p, 0) \<notin> B" using assms by (auto simp: slab_inv_def slab_blocks_def)
qed

lemma slab_inv_cache: "slab_inv w P V B l \<Longrightarrow> c < SLAB_NUM_CACHES \<Longrightarrow> cache_ok w c (P c) (V c) (l c)"
  by (simp add: slab_inv_def)

lemma slab_pages_unique:
  assumes "slab_inv w P V B l" and "c < SLAB_NUM_CACHES" and "c' < SLAB_NUM_CACHES" and "p \<in> P c" and "p \<in> P c'"
  shows "c = c'"
  using slab_inv_page(5) [OF assms(1,2,4)] slab_inv_page(5) [OF assms(1,3,5)] by (simp add: slab_page_def)

lemma cache_okD:
  assumes "cache_ok w c Pc Vc lc"
  shows "obj_size (km_caches w c) = of_nat (osz c)" "objs_per_page (km_caches w c) = of_nat (cnt c)"
    "mchain (km_mem w) (free_list (km_caches w c)) lc" "set lc \<inter> Vc = {}"
    "set lc \<union> Vc = (\<Union>p \<in> Pc. objs c p)" "\<And>p. p \<in> Pc \<Longrightarrow> slab_page (km_phys w) c p (set lc)"
  using assms by (auto simp: cache_ok_def)

lemma slab_object_page:
  assumes "slab_inv w P V B l" and "c < SLAB_NUM_CACHES" and "a \<in> set (l c) \<union> V c"
  obtains p where "p \<in> P c" and "a \<in> objs c p"
proof -
  have "a \<in> (\<Union>p \<in> P c. objs c p)" using assms(3) cache_okD(5) [OF slab_inv_cache [OF assms(1,2)]] by simp
  then show thesis using that by blast
qed

text \<open>The objects of all caches, in use or free, do not overlap.\<close>

lemma slab_objects_apart:
  assumes inv: "slab_inv w P V B l" and c: "c < SLAB_NUM_CACHES" "c' < SLAB_NUM_CACHES"
    and a: "a \<in> set (l c) \<union> V c" and b: "b \<in> set (l c') \<union> V c'" and ne: "(a, c) \<noteq> (b, c')"
  shows "region a (osz c) \<inter> region b (osz c') = {}"
proof -
  obtain p where p: "p \<in> P c" "a \<in> objs c p" by (rule slab_object_page [OF inv c(1) a])
  obtain q where q: "q \<in> P c'" "b \<in> objs c' q" by (rule slab_object_page [OF inv c(2) b])
  note rp = obj_region(1) [OF c(1) slab_inv_page(2) [OF inv c(1) p(1)] p(2)]
    and rq = obj_region(1) [OF c(2) slab_inv_page(2) [OF inv c(2) q(1)] q(2)]
  show ?thesis
  proof (cases "p = q")
    case True
    then have cc: "c = c'" using slab_pages_unique [OF inv c p(1)] q(1) by simp
    then show ?thesis using objs_disjoint [OF c(1) slab_inv_page(2) [OF inv c(1) p(1)] p(2), of b] q(2) ne True by auto
  next
    case False
    then show ?thesis using rp rq page_bytes_disjoint [of p q] by blast
  qed
qed

lemma cache_ok_frame:
  assumes "cache_ok w c Pc Vc lc" and "km_caches w' c = km_caches w c"
    and "\<And>a. a \<in> set lc \<Longrightarrow> load64 (km_mem w') a = load64 (km_mem w) a"
    and "\<And>p. p \<in> Pc \<Longrightarrow> info (km_phys w') p = info (km_phys w) p"
  shows "cache_ok w' c Pc Vc lc"
  using assms(1,2,4) mchain_cong [OF assms(3)] by (simp add: cache_ok_def slab_page_def)

lemma slab_word:
  assumes inv: "slab_inv w P V B l" and c: "c < SLAB_NUM_CACHES" and a: "a \<in> set (l c) \<union> V c"
  shows "unat a + 8 \<le> 2 ^ 64" "region a 8 \<subseteq> region a (osz c)" "unat a + osz c \<le> 2 ^ 60"
proof -
  obtain p where p: "p \<in> P c" "a \<in> objs c p" by (rule slab_object_page [OF inv c a])
  show "unat a + osz c \<le> 2 ^ 60" using obj_region(4) [OF c slab_inv_page(2) [OF inv c p(1)] p(2)] .
  then show "unat a + 8 \<le> 2 ^ 64" "region a 8 \<subseteq> region a (osz c)" using osz_ge [of c] by (auto simp: region_def)
qed

text \<open>Memory that changes only inside one object of cache \<open>c\<close> keeps the links of all other objects.\<close>

lemma slab_load_other:
  assumes inv: "slab_inv w P V B l" and c: "c < SLAB_NUM_CACHES" and a: "a \<in> set (l c) \<union> V c"
    and same: "\<And>x. unat x \<notin> region a (osz c) \<Longrightarrow> m' x = km_mem w x"
    and c': "c' < SLAB_NUM_CACHES" and b: "b \<in> set (l c') \<union> V c'" and ne: "(a, c) \<noteq> (b, c')"
  shows "load64 m' b = load64 (km_mem w) b"
proof (rule load64_cong)
  show "unat b + 8 \<le> 2 ^ 64" using slab_word(1) [OF inv c' b] .
  have "region a (osz c) \<inter> region b (osz c') = {}" by (rule slab_objects_apart [OF inv c c' a b ne])
  then show "m' x = km_mem w x" if "unat x \<in> region b 8" for x
    using same [of x] slab_word(2) [OF inv c' b] that by blast
qed

lemma objs_unique:
  assumes "slab_inv w P V B l" and "c < SLAB_NUM_CACHES" and "p \<in> P c" and "q \<in> P c" and "a \<in> objs c p" and "a \<in> objs c q"
  shows "p = q"
  using obj_region(2) [OF assms(2) slab_inv_page(2) [OF assms(1-3)] assms(5)]
    obj_region(2) [OF assms(2) slab_inv_page(2) [OF assms(1,2,4)] assms(6)] by simp

lemma slab_get_page:
  assumes inv: "slab_inv w P V B l" and c: "c < SLAB_NUM_CACHES" and p: "p \<in> P c" and a: "a \<in> objs c p"
  shows "get_page_struct (km_phys w) a = Some p"
  using obj_region(2) [OF c slab_inv_page(2) [OF inv c p] a] slab_inv_page(2,3) [OF inv c p]
  by (simp add: get_page_struct_def Let_def)

text \<open>The state after a change to cache \<open>c\<close>, one of its objects \<open>a\<close> and the descriptor of the page \<open>p\<close> of \<open>a\<close>.\<close>

lemma slab_inv_object:
  assumes inv: "slab_inv w P V B l" and c: "c < SLAB_NUM_CACHES" and p: "p \<in> P c" and a: "a \<in> objs c p"
    and mem: "\<And>x. unat x \<notin> region a (osz c) \<Longrightarrow> km_mem w' x = km_mem w x"
    and caches: "\<And>i. i \<noteq> c \<Longrightarrow> km_caches w' i = km_caches w i"
    and phys: "km_phys w' = upd_page (km_phys w) p (\<lambda>d. d\<lparr>p_slab_free_count := n\<rparr>)"
    and ok: "cache_ok w' c (P c) Vc lc"
  shows "slab_inv w' P (V(c := Vc)) B (l(c := lc))"
proof -
  have info: "info (km_phys w') q = (if q = p then (info (km_phys w) p)\<lparr>p_slab_free_count := n\<rparr> else info (km_phys w) q)" for q
    by (simp add: phys info_def)
  have a_in: "a \<in> set (l c) \<union> V c" using cache_okD(5) [OF slab_inv_cache [OF inv c]] a p by blast
  have "cache_ok w' i (P i) (V i) (l i)" if i: "i < SLAB_NUM_CACHES" "i \<noteq> c" for i
  proof (rule cache_ok_frame [OF slab_inv_cache [OF inv i(1)] caches [OF i(2)]])
    show "load64 (km_mem w') b = load64 (km_mem w) b" if "b \<in> set (l i)" for b
      by (rule slab_load_other [OF inv c a_in mem i(1)]) (use i(2) that in auto)
    show "info (km_phys w') q = info (km_phys w) q" if "q \<in> P i" for q
      using slab_pages_unique [OF inv i(1) c that] p i(2) info by auto
  qed
  moreover have "allocator_ok (km_phys w') (slab_blocks P \<union> B)"
    unfolding phys by (rule allocator_ok_upd [OF _ slab_inv_page(1) [OF inv c p]]) (use inv in \<open>simp_all add: slab_inv_def\<close>)
  moreover have "p_flags (info (km_phys w') q) = p_flags (info (km_phys w) q)" for q by (simp add: info)
  ultimately show ?thesis using inv ok unfolding slab_inv_def by (auto simp: less_Suc_eq)
qed

subsection \<open>Taking an object\<close>

lemma slab_counts:
  assumes "slab_inv w P V B l" and "c < SLAB_NUM_CACHES" and "p \<in> P c"
  shows "finite (X \<inter> objs c p)" "card (X \<inter> objs c p) \<le> cnt c" "cnt c \<le> 128"
proof -
  note o = card_objs [OF assms(2) slab_inv_page(2) [OF assms]]
  show "finite (X \<inter> objs c p)" using o(1) by simp
  show "card (X \<inter> objs c p) \<le> cnt c" using card_mono [OF o(1), of "X \<inter> objs c p"] o(2) by simp
  have "cnt c \<le> 2 ^ 7" unfolding cnt_def by (rule power_increasing) simp_all
  then show "cnt c \<le> 128" by simp
qed

lemma unat_osz: "c < SLAB_NUM_CACHES \<Longrightarrow> unat (of_nat (osz c) :: u64) = osz c \<and> osz c \<le> 4096"
  using obj_end [of c 0] by (simp add: cnt_def unat_of_nat_u64)

lemma slab_pop_ok:
  assumes inv: "slab_inv w P V B l" and c: "c < SLAB_NUM_CACHES" and l: "l c = a # rest"
  obtains w' where "slab_pop w c = (a, w')" and "slab_inv w' P (V(c := insert a (V c))) B (l(c := rest))"
    and "\<And>x. km_mem w' x = (if unat x \<in> region a (osz c) then 0 else km_mem w x)"
    and "\<And>i. growing (km_caches w' i) = growing (km_caches w i)"
proof -
  note ok = cache_okD [OF slab_inv_cache [OF inv c]]
  have a_in: "a \<in> set (l c) \<union> V c" using l by simp
  obtain p where p: "p \<in> P c" "a \<in> objs c p" by (rule slab_object_page [OF inv c a_in])
  have fl: "free_list (km_caches w c) = a" "mchain (km_mem w) (load64 (km_mem w) a) rest"
    using ok(3) unfolding l mchain_Cons by simp_all
  have d: "a \<notin> set rest" using chain_distinct [OF ok(3)] l by simp
  have pg: "p_flags (info (km_phys w) p) AND PAGE_FLAG_SLAB \<noteq> 0" "p_slab_cache (info (km_phys w) p) = Some c"
      "unat (p_slab_free_count (info (km_phys w) p)) = card (set (l c) \<inter> objs c p)"
    using ok(6) [OF p(1)] by (simp_all add: slab_page_def)
  have split: "set (l c) \<inter> objs c p = insert a (set rest \<inter> objs c p)" using l p(2) by auto
  have card: "card (set (l c) \<inter> objs c p) = Suc (card (set rest \<inter> objs c p))"
    unfolding split using d slab_counts(1) [OF inv c p(1)] by simp
  let ?n = "p_slab_free_count (info (km_phys w) p)"
  have n: "0 < ?n" "unat (?n - 1) = card (set rest \<inter> objs c p)" using pg(3) card by (auto simp: word_less_nat_alt unat_sub_if')
  let ?st = "upd_page (km_phys w) p (\<lambda>d. d\<lparr>p_slab_free_count := ?n - 1\<rparr>)"
  have st: "upd_page (km_phys w) p (\<lambda>d. d\<lparr>p_slab_free_count := p_slab_free_count d - 1\<rparr>) = ?st"
    by (simp add: upd_page_def info_def)
  define w' where "w' = upd_cache (w\<lparr>km_mem := memset (km_mem w) a 0 (osz c), km_phys := ?st\<rparr>) c
     (\<lambda>k. k\<lparr>free_list := load64 (km_mem w) a\<rparr>)"
  have "p_flags (page_array (km_phys w) p) AND PAGE_FLAG_SLAB \<noteq> 0" "0 < p_slab_free_count (page_array (km_phys w) p)"
    using pg(1) n(1) by (simp_all add: info_def)
  then have pop: "slab_pop w c = (a, w')"
    using fl(1) slab_get_page [OF inv c p] ok(1) unat_osz [OF c] st by (simp add: slab_pop_def Let_def w'_def)
  have mem: "km_mem w' x = (if unat x \<in> region a (osz c) then 0 else km_mem w x)" for x
    unfolding w'_def upd_cache_def using memset_region [of a "osz c" "km_mem w" x] slab_word(3) [OF inv c a_in] unat_osz [OF c] by simp
  have links: "load64 (km_mem w') b = load64 (km_mem w) b" if "b \<in> set rest" for b
    by (rule slab_load_other [OF inv c a_in _ c]) (use mem d l that in auto)
  have "cache_ok w' c (P c) (insert a (V c)) rest"
    unfolding cache_ok_def
  proof (intro conjI ballI)
    show "obj_size (km_caches w' c) = of_nat (osz c)" "objs_per_page (km_caches w' c) = of_nat (cnt c)"
      using ok(1,2) by (simp_all add: w'_def upd_cache_def)
    have "free_list (km_caches w' c) = load64 (km_mem w) a" by (simp add: w'_def upd_cache_def)
    then show "mchain (km_mem w') (free_list (km_caches w' c)) rest" using fl(2) mchain_cong [OF links] by simp
    show "set rest \<inter> insert a (V c) = {}" using ok(4) d l by auto
    show "set rest \<union> insert a (V c) = (\<Union>p \<in> P c. objs c p)" using ok(5) l by auto
    fix q assume q: "q \<in> P c"
    show "slab_page (km_phys w') c q (set rest)"
    proof (cases "q = p")
      case True
      then show ?thesis using pg n(2) by (simp add: slab_page_def w'_def upd_cache_def info_upd_page) (simp add: info_def)
    next
      case False
      have "a \<notin> objs c q" using objs_unique [OF inv c p(1) q p(2)] False by blast
      then have "set rest \<inter> objs c q = set (l c) \<inter> objs c q" using l by auto
      then show ?thesis using ok(6) [OF q] False by (simp add: slab_page_def w'_def upd_cache_def info_upd_page)
    qed
  qed
  then have "slab_inv w' P (V(c := insert a (V c))) B (l(c := rest))"
    by (intro slab_inv_object [OF inv c p]) (simp_all add: mem, simp_all add: w'_def upd_cache_def)
  moreover have "growing (km_caches w' i) = growing (km_caches w i)" for i by (simp add: w'_def upd_cache_def)
  ultimately show thesis using that pop mem by blast
qed

end
