(* ===== verification/Slab_ops.thy ===== *)
theory Slab_ops
  imports Slab_inv
begin

text \<open>
  The operations of the kernel heap of \<^verbatim>\<open>kernel/mem.c\<close> keep its invariant: growing a cache, \<open>kmalloc\<close> and
  \<open>kfree\<close> on every path, and what this means for a sequence of calls.
\<close>

subsection \<open>Growing a cache\<close>

lemma nat8_cases:
  assumes "c < SLAB_NUM_CACHES"
  shows "c = 0 \<or> c = 1 \<or> c = 2 \<or> c = 3 \<or> c = 4 \<or> c = 5 \<or> c = 6 \<or> c = 7"
  using assms by linarith

lemma carve_size:
  assumes "c < SLAB_NUM_CACHES" and "s = (of_nat (osz c) :: u64)"
  shows "((if s < 8 then 8 else s) + 7) AND NOT 7 = s"
  using nat8_cases [OF assms(1)] by (elim disjE) (simp_all add: assms(2) osz_def)

lemma unat_cnt:
  assumes "c < SLAB_NUM_CACHES"
  shows "unat (ucast (of_nat (cnt c) :: u64) :: u32) = cnt c" and "unat (of_nat (cnt c) :: u64) = cnt c" and "cnt c \<le> 128"
  using nat8_cases [OF assms] by (elim disjE; simp add: cnt_def)+

lemma slab_flag_bits:
  "(x OR PAGE_FLAG_SLAB) AND PAGE_FLAG_SLAB \<noteq> 0" "(x OR PAGE_FLAG_SLAB) AND PAGE_FLAG_FREE = x AND PAGE_FLAG_FREE"
  "(x OR PAGE_FLAG_SLAB) AND PAGE_FLAG_RESERVED = x AND PAGE_FLAG_RESERVED"
  "(x AND NOT PAGE_FLAG_SLAB) AND PAGE_FLAG_SLAB = 0" "(x AND NOT PAGE_FLAG_SLAB) AND PAGE_FLAG_FREE = x AND PAGE_FLAG_FREE"
  "(x AND NOT PAGE_FLAG_SLAB) AND PAGE_FLAG_RESERVED = x AND PAGE_FLAG_RESERVED"
  by (simp_all add: bit.conj_disj_distrib2 and.assoc)

lemma page_bytes_region: "p < BUDDY_MAX_PAGES \<Longrightarrow> region (pfn_to_phys p) 4096 = page_bytes p"
  by (simp add: region_def page_bytes_def unat_pfn_to_phys)

text \<open>The links of a cache survive a change to a page that is not one of its pages.\<close>

lemma slab_load_page:
  assumes inv: "slab_inv w P V B l" and c: "c < SLAB_NUM_CACHES" and a: "a \<in> set (l c) \<union> V c" and p: "p \<notin> P c"
    and same: "\<And>x. unat x \<notin> page_bytes p \<Longrightarrow> m' x = km_mem w x"
  shows "load64 m' a = load64 (km_mem w) a"
proof (rule load64_cong)
  obtain q where q: "q \<in> P c" "a \<in> objs c q" by (rule slab_object_page [OF inv c a])
  show "unat a + 8 \<le> 2 ^ 64" using slab_word(1) [OF inv c a] .
  have "region a 8 \<subseteq> page_bytes q"
    using obj_region(1) [OF c slab_inv_page(2) [OF inv c q(1)] q(2)] slab_word(2) [OF inv c a] by blast
  then show "m' x = km_mem w x" if "unat x \<in> region a 8" for x
    using same [of x] page_bytes_disjoint [of p q] q(1) p that by blast
qed

lemma slab_blocks_insert:
  "c < SLAB_NUM_CACHES \<Longrightarrow> slab_blocks (P(c := insert p (P c))) = insert (p, 0) (slab_blocks P)"
  by (auto simp: slab_blocks_def)

text \<open>No page is left.\<close>

definition exhausted :: "kmem \<Rightarrow> bool" where
  "exhausted w \<longleftrightarrow> covered (free_blocks_of (km_phys w)) = {}"

text \<open>A page \<open>p\<close> taken from the page allocator, cut into objects of cache \<open>c\<close> and entered in its descriptor.\<close>

lemma slab_inv_grown:
  assumes inv: "slab_inv w P V B l" and c: "c < SLAB_NUM_CACHES" and l: "l c = []"
    and st: "allocator_ok st (insert (p, 0) (slab_blocks P \<union> B))" "frame (- covered (slab_blocks P \<union> B)) (km_phys w) st"
    and p: "p < BUDDY_MAX_PAGES" "p \<notin> covered (slab_blocks P \<union> B)"
    and mem: "\<And>x. unat x \<notin> page_bytes p \<Longrightarrow> m x = km_mem w x" "mchain m fl lc" "set lc = objs c p"
    and n: "unat n = cnt c"
  defines "w' \<equiv> upd_cache (w\<lparr>km_mem := m, km_phys := upd_page st p (\<lambda>d. d\<lparr>p_flags := p_flags d OR PAGE_FLAG_SLAB,
      p_slab_cache := Some c, p_slab_free_count := n\<rparr>)\<rparr>) c (\<lambda>k. k\<lparr>free_list := fl\<rparr>)"
  shows "slab_inv w' (P(c := insert p (P c))) V B (l(c := lc))"
proof -
  note ok = cache_okD [OF slab_inv_cache [OF inv c]]
  have notin: "p \<notin> P i" if "i < SLAB_NUM_CACHES" for i using slab_inv_page(4) [OF inv that] p(2) by blast
  have old: "info (km_phys w') q = info (km_phys w) q" if "q \<in> P i" "i < SLAB_NUM_CACHES" for q i
    using slab_inv_page(4) [OF inv that(2,1)] st(2) notin [OF that(2)] that(1)
    by (auto simp: w'_def upd_cache_def info_upd_page frame_def)
  have new: "p_flags (info (km_phys w') p) AND PAGE_FLAG_SLAB \<noteq> 0" "p_slab_cache (info (km_phys w') p) = Some c"
      "p_slab_free_count (info (km_phys w') p) = n"
    using slab_flag_bits(1) by (simp_all add: w'_def upd_cache_def info_upd_page)
  have load: "load64 (km_mem w') a = load64 (km_mem w) a" if "a \<in> set (l i)" "i < SLAB_NUM_CACHES" for a i
    by (rule slab_load_page [OF inv that(2) _ notin [OF that(2)]]) (use that mem(1) in \<open>auto simp: w'_def upd_cache_def\<close>)
  have others: "cache_ok w' i (P i) (V i) (l i)" if i: "i < SLAB_NUM_CACHES" "i \<noteq> c" for i
    by (rule cache_ok_frame [OF slab_inv_cache [OF inv i(1)]]) (use i old load in \<open>auto simp: w'_def upd_cache_def\<close>)
  have apart: "objs c p \<inter> objs c q = {}" if "q \<in> P c" for q
    using obj_region(2) [OF c p(1)] obj_region(2) [OF c slab_inv_page(2) [OF inv c that]] notin [OF c] that by fastforce
  have "cache_ok w' c (insert p (P c)) (V c) lc"
    unfolding cache_ok_def
  proof (intro conjI ballI)
    show "obj_size (km_caches w' c) = of_nat (osz c)" "objs_per_page (km_caches w' c) = of_nat (cnt c)"
      using ok(1,2) by (simp_all add: w'_def upd_cache_def)
    show "mchain (km_mem w') (free_list (km_caches w' c)) lc" using mem(2) by (simp add: w'_def upd_cache_def)
    show "set lc \<inter> V c = {}" "set lc \<union> V c = (\<Union>q \<in> insert p (P c). objs c q)" using ok(5) l mem(3) apart by auto
    fix q assume "q \<in> insert p (P c)"
    then consider "q = p" | "q \<in> P c" by blast
    then show "slab_page (km_phys w') c q (set lc)"
    proof cases
      case 1
      then show ?thesis using new n mem(3) card_objs(2) [OF c p(1)] by (simp add: slab_page_def)
    next
      case 2
      then show ?thesis using ok(6) [OF 2] old [OF 2 c] apart [OF 2] mem(3) l by (simp add: slab_page_def)
    qed
  qed
  moreover have "allocator_ok (km_phys w') (insert (p, 0) (slab_blocks P \<union> B))"
    unfolding w'_def upd_cache_def
    by (simp, rule allocator_ok_upd [OF st(1), of p 0]) (simp_all add: slab_flag_bits)
  moreover have "(p, 0) \<notin> B" using p(2) by (auto simp: covered_def block_pages_def)
  moreover have "\<exists>i < SLAB_NUM_CACHES. q \<in> (P(c := insert p (P c))) i" if f: "p_flags (info (km_phys w') q) AND PAGE_FLAG_SLAB \<noteq> 0" for q
  proof (cases "q = p")
    case True
    then show ?thesis using c by (intro exI [of _ c]) simp
  next
    case False
    then have "\<exists>i < SLAB_NUM_CACHES. q \<in> P i"
      using f inv st(2) by (auto simp: w'_def upd_cache_def info_upd_page frame_def slab_inv_def)
    then show ?thesis by auto
  qed
  ultimately show ?thesis
    using inv others c unfolding slab_inv_def slab_blocks_insert [OF c] by auto
qed

lemma slab_grow_ok:
  assumes inv: "slab_inv w P V B l" and c: "c < SLAB_NUM_CACHES" and l: "l c = []"
  obtains (none) "slab_grow w c = Some (- 1, w)" "exhausted w"
    | (got) p w' where "slab_grow w c = Some (0, w')" "p < BUDDY_MAX_PAGES" "p \<notin> covered (slab_blocks P \<union> B)"
      "slab_inv w' (P(c := insert p (P c))) V B (l(c := rev (map (obj c p) [0..<cnt c])))"
      "\<And>x. unat x \<notin> page_bytes p \<Longrightarrow> km_mem w' x = km_mem w x" "\<And>i. growing (km_caches w' i) = growing (km_caches w i)"
proof -
  have ok: "allocator_ok (km_phys w) (slab_blocks P \<union> B)" using inv by (simp add: slab_inv_def)
  note cok = cache_okD [OF slab_inv_cache [OF inv c]]
  have k: "(0 :: nat) \<le> MAX_ORDER" by simp
  from ok k show thesis
  proof (cases rule: alloc_pages_cases [where m = "km_mem w"])
    case none
    have "covered (free_blocks_of (km_phys w)) = usable_pages (total_phys_pages (km_phys w)) - covered (slab_blocks P \<union> B)"
      using ok unfolding allocator_ok_def by (elim conjE) (rule buddy_state_blocks(4))
    also have "\<dots> = {}" using none(2) by (auto simp: block_pages_def)
    finally show thesis using that(1) none(1) by (simp add: exhausted_def slab_grow_def alloc_page_def)
  next
    case (got p st)
    have p: "p \<notin> covered (slab_blocks P \<union> B)" using got(5) by (simp add: block_pages_def)
    have tot: "p < total_phys_pages st"
      using buddy_state_block(1) [OF conjunct1 [OF got(2) [unfolded allocator_ok_def]], of p 0] by simp
    let ?m = "memset (km_mem w) (pfn_to_phys p) 0 4096"
    have m: "?m x = km_mem w x" if "unat x \<notin> page_bytes p" for x
      using memset_region [of "pfn_to_phys p" 4096] unat_pfn_to_phys [OF got(4)] got(4) that
      by (simp add: page_bytes_region)
    have fl: "mchain ?m (free_list (km_caches w c)) []" using cok(3) l by simp
    from slab_carve_ok [OF c got(4) _ fl, of 0] obtain m' fl' where carve:
      "slab_carve ?m (pfn_to_phys p) (of_nat (osz c)) 0 (free_list (km_caches w c)) = Some (m', fl')"
      "mchain m' fl' (rev (map (obj c p) [0..<cnt c]))" "\<And>x. unat x \<notin> page_bytes p \<Longrightarrow> m' x = ?m x"
      by auto
    let ?n = "ucast (of_nat (cnt c) :: u64) :: u32"
    define w' where "w' = upd_cache (w\<lparr>km_mem := m', km_phys := upd_page st p (\<lambda>d. d\<lparr>p_flags := p_flags d OR PAGE_FLAG_SLAB,
      p_slab_cache := Some c, p_slab_free_count := ?n\<rparr>)\<rparr>) c (\<lambda>k. k\<lparr>free_list := fl'\<rparr>)"
    have "get_page_struct st (pfn_to_phys p) = Some p"
      using phys_to_pfn_to_phys(1) [OF got(4)] got(4) tot by (simp add: get_page_struct_def Let_def)
    then have "slab_grow w c = Some (0, w')"
      using got(1) carve(1) phys_to_pfn_to_phys(3) [OF got(4)] carve_size [OF c cok(1)] cok(1,2)
      by (simp add: slab_grow_def alloc_page_def w'_def Let_def)
    moreover have "slab_inv w' (P(c := insert p (P c))) V B (l(c := rev (map (obj c p) [0..<cnt c])))"
      unfolding w'_def
      by (rule slab_inv_grown [OF inv c l got(2,8,4) p _ carve(2)])
        (use m carve(3) unat_cnt(1) [OF c] in \<open>auto simp: objs_def lessThan_atLeast0\<close>)
    moreover have "growing (km_caches w' i) = growing (km_caches w i)" for i by (simp add: w'_def upd_cache_def)
    ultimately show thesis using that(2) [of w' p] got(4) p m carve(3) by (simp add: w'_def upd_cache_def)
  qed
qed

subsection \<open>Memory in use\<close>

text \<open>The bytes of the objects in use and of the blocks \<open>B\<close>.\<close>

definition in_use :: "(nat \<Rightarrow> addr set) \<Rightarrow> block set \<Rightarrow> nat set" where
  "in_use V B = (\<Union>c \<in> {..<SLAB_NUM_CACHES}. \<Union>a \<in> V c. region a (osz c)) \<union> (\<Union>p \<in> covered B. page_bytes p)"

lemma in_use_pages:
  assumes "slab_inv w P V B l"
  shows "in_use V B \<subseteq> (\<Union>p \<in> covered (slab_blocks P \<union> B). page_bytes p)"
proof -
  have "region a (osz c) \<subseteq> (\<Union>p \<in> covered (slab_blocks P \<union> B). page_bytes p)" if c: "c < SLAB_NUM_CACHES" and a: "a \<in> V c" for a c
  proof -
    have "a \<in> set (l c) \<union> V c" using a by simp
    then obtain p where p: "p \<in> P c" "a \<in> objs c p" by (rule slab_object_page [OF assms c])
    show ?thesis
      using obj_region(1) [OF c slab_inv_page(2) [OF assms c p(1)] p(2)] slab_inv_page(4) [OF assms c p(1)] by blast
  qed
  moreover have "covered B \<subseteq> covered (slab_blocks P \<union> B)" by (auto simp: covered_def)
  ultimately show ?thesis unfolding in_use_def by blast
qed

lemma page_unused:
  assumes "slab_inv w P V B l" and "p \<notin> covered (slab_blocks P \<union> B)"
  shows "page_bytes p \<inter> in_use V B = {}"
proof -
  have "page_bytes p \<inter> page_bytes q = {}" if "q \<in> covered (slab_blocks P \<union> B)" for q
    using page_bytes_disjoint [of p q] that assms(2) by blast
  then show ?thesis using in_use_pages [OF assms(1)] by blast
qed

lemma slab_page_not_large:
  assumes inv: "slab_inv w P V B l" and c: "c < SLAB_NUM_CACHES" and p: "p \<in> P c"
  shows "p \<notin> covered B"
proof
  assume "p \<in> covered B"
  then obtain x where x: "x \<in> B" "p \<in> block_pages x" by (auto simp: covered_def)
  have "blocks_disjoint (slab_blocks P \<union> B)"
    using inv buddy_state_disjoint by (auto simp: slab_inv_def allocator_ok_def)
  from blocks_disjoint_same [OF this, of x "(p, 0)"] x slab_inv_page(1) [OF inv c p]
  have "x = (p, 0)" by (auto simp: block_pages_def)
  then show False using x(1) slab_inv_page(6) [OF inv c p] by simp
qed

lemma object_unused:
  assumes inv: "slab_inv w P V B l" and c: "c < SLAB_NUM_CACHES" and a: "a \<in> set (l c) \<union> V c"
  shows "region a (osz c) \<inter> in_use (V(c := V c - {a})) B = {}"
proof -
  obtain p where p: "p \<in> P c" "a \<in> objs c p" by (rule slab_object_page [OF inv c a])
  have "region a (osz c) \<inter> page_bytes q = {}" if "q \<in> covered B" for q
    using obj_region(1) [OF c slab_inv_page(2) [OF inv c p(1)] p(2)] page_bytes_disjoint [of p q]
      slab_page_not_large [OF inv c p(1)] that by blast
  moreover have "region a (osz c) \<inter> region b (osz i) = {}" if "i < SLAB_NUM_CACHES" "b \<in> (V(c := V c - {a})) i" for b i
    by (rule slab_objects_apart [OF inv c that(1) a]) (use that in \<open>auto split: if_splits\<close>)
  ultimately show ?thesis unfolding in_use_def by blast
qed

lemma in_use_insert:
  assumes "c < SLAB_NUM_CACHES"
  shows "in_use (V(c := insert a (V c))) B = region a (osz c) \<union> in_use V B"
proof -
  let ?f = "\<lambda>V c. \<Union>a \<in> V c. region a (osz c)"
  have split: "(\<Union>i \<in> {..<SLAB_NUM_CACHES}. ?f W i) = ?f W c \<union> (\<Union>i \<in> {..<SLAB_NUM_CACHES} - {c}. ?f W i)" for W
    using assms by blast
  have "(\<Union>i \<in> {..<SLAB_NUM_CACHES} - {c}. ?f (V(c := insert a (V c))) i) = (\<Union>i \<in> {..<SLAB_NUM_CACHES} - {c}. ?f V i)" by auto
  then show ?thesis unfolding in_use_def split by auto
qed

lemma slab_inv_growing: "slab_inv (upd_cache w i (\<lambda>k. k\<lparr>growing := b\<rparr>)) P V B l = slab_inv w P V B l"
proof -
  let ?w = "upd_cache w i (\<lambda>k. k\<lparr>growing := b\<rparr>)"
  have "obj_size (km_caches ?w c) = obj_size (km_caches w c)" "objs_per_page (km_caches ?w c) = objs_per_page (km_caches w c)"
    "free_list (km_caches ?w c) = free_list (km_caches w c)" "km_mem ?w = km_mem w" "km_phys ?w = km_phys w" for c
    by (simp_all add: upd_cache_def)
  then show ?thesis by (simp add: slab_inv_def cache_ok_def)
qed

subsection \<open>kmalloc\<close>

text \<open>A page is only kept while one of its objects is in use.\<close>

definition tight :: "(nat \<Rightarrow> nat set) \<Rightarrow> (nat \<Rightarrow> addr set) \<Rightarrow> bool" where
  "tight P V \<longleftrightarrow> (\<forall>c < SLAB_NUM_CACHES. \<forall>p \<in> P c. V c \<inter> objs c p \<noteq> {})"

definition idle :: "kmem \<Rightarrow> bool" where
  "idle w \<longleftrightarrow> (\<forall>i. \<not> growing (km_caches w i))"

lemma slab_pop_unused:
  assumes inv: "slab_inv w P V B l" and c: "c < SLAB_NUM_CACHES" and l: "l c = a # rest"
  obtains w' where "slab_pop w c = (a, w')" and "slab_inv w' P (V(c := insert a (V c))) B (l(c := rest))"
    and "\<And>x. unat x \<in> region a (osz c) \<Longrightarrow> km_mem w' x = 0" and "\<And>x. unat x \<in> in_use V B \<Longrightarrow> km_mem w' x = km_mem w x"
    and "a \<noteq> NULL" and "a \<notin> V c" and "\<And>i. growing (km_caches w' i) = growing (km_caches w i)"
proof -
  have a: "a \<in> set (l c) \<union> V c" using l by simp
  obtain p where p: "p \<in> P c" "a \<in> objs c p" by (rule slab_object_page [OF inv c a])
  have out: "a \<notin> V c" using cache_okD(4) [OF slab_inv_cache [OF inv c]] l by auto
  then have "V(c := V c - {a}) = V" by auto
  then have "region a (osz c) \<inter> in_use V B = {}" using object_unused [OF inv c a] by simp
  then show thesis
    using slab_pop_ok [OF inv c l] that out obj_region(3) [OF c slab_inv_page(2) [OF inv c p(1)] p(2)]
    by (smt (verit) disjoint_iff)
qed

lemma kmalloc_small_ok:
  assumes inv: "slab_inv w P V B l" and c: "c < SLAB_NUM_CACHES" and idle: "idle w" and tight: "tight P V"
  obtains (none) w' where "kmalloc_small w c = Some (NULL, w')" "slab_inv w' P V B l" "km_mem w' = km_mem w" "idle w'" "exhausted w"
    | (got) a w' P' l' where "kmalloc_small w c = Some (a, w')" "slab_inv w' P' (V(c := insert a (V c))) B l'"
      "\<And>x. unat x \<in> region a (osz c) \<Longrightarrow> km_mem w' x = 0" "\<And>x. unat x \<in> in_use V B \<Longrightarrow> km_mem w' x = km_mem w x"
      "a \<noteq> NULL" "a \<notin> V c" "idle w'" "tight P' (V(c := insert a (V c)))"
proof (cases "l c")
  case (Cons a rest)
  have "free_list (km_caches w c) \<noteq> NULL"
    using cache_okD(3) [OF slab_inv_cache [OF inv c]] Cons by (auto simp: ptr_def)
  then have small: "kmalloc_small w c = Some (slab_pop w c)" by (simp add: kmalloc_small_def)
  have "tight P (V(c := insert a (V c)))" using tight by (auto simp: tight_def)
  then show thesis
    using slab_pop_unused [OF inv c Cons] that(2) small idle unfolding idle_def by metis
next
  case Nil
  let ?w = "upd_cache w c (\<lambda>k. k\<lparr>growing := True\<rparr>)"
  let ?done = "\<lambda>u. upd_cache u c (\<lambda>k. k\<lparr>growing := False\<rparr>)"
  have fl: "free_list (km_caches w c) = NULL"
    using cache_okD(3) [OF slab_inv_cache [OF inv c]] Nil by (simp add: ptr_def split: if_splits)
  have ng: "\<not> growing (km_caches w i)" for i using idle by (simp add: idle_def)
  have inv': "slab_inv ?w P V B l" using inv by (simp add: slab_inv_growing)
  from inv' c Nil show thesis
  proof (cases rule: slab_grow_ok)
    case none
    have "kmalloc_small w c = Some (NULL, ?done ?w)"
      using fl ng none by (simp add: kmalloc_small_def)
    moreover have "idle (?done ?w)" "km_mem (?done ?w) = km_mem w" using idle by (simp_all add: idle_def upd_cache_def)
    moreover have "exhausted w" using none(2) by (simp add: exhausted_def upd_cache_def)
    ultimately show thesis using that(1) inv' slab_inv_growing by metis
  next
    case (got p w1)
    let ?l = "l(c := rev (map (obj c p) [0..<cnt c]))"
    have "0 < cnt c" by (simp add: cnt_def)
    then have "[0..<cnt c] = [0..<cnt c - 1] @ [cnt c - 1]" using upt_Suc_append [of 0 "cnt c - 1"] by simp
    then have lc: "?l c = obj c p (cnt c - 1) # rev (map (obj c p) [0..<cnt c - 1])" by simp
    have inv1: "slab_inv (?done w1) (P(c := insert p (P c))) V B ?l" using got(4) by (simp add: slab_inv_growing)
    obtain w' where w': "slab_pop (?done w1) c = (obj c p (cnt c - 1), w')"
        "slab_inv w' (P(c := insert p (P c))) (V(c := insert (obj c p (cnt c - 1)) (V c))) B (?l(c := rev (map (obj c p) [0..<cnt c - 1])))"
        "\<And>x. unat x \<in> region (obj c p (cnt c - 1)) (osz c) \<Longrightarrow> km_mem w' x = 0"
        "\<And>x. unat x \<in> in_use V B \<Longrightarrow> km_mem w' x = km_mem (?done w1) x"
        "obj c p (cnt c - 1) \<noteq> NULL" "obj c p (cnt c - 1) \<notin> V c" "\<And>i. growing (km_caches w' i) = growing (km_caches (?done w1) i)"
      by (rule slab_pop_unused [OF inv1 c lc]) blast
    have "free_list (km_caches (?done w1) c) \<noteq> NULL"
      using cache_okD(3) [OF slab_inv_cache [OF inv1 c]] lc by (auto simp: ptr_def)
    then have small: "kmalloc_small w c = Some (obj c p (cnt c - 1), w')"
      using fl ng got(1) w'(1) by (simp add: kmalloc_small_def)
    have mem: "km_mem w' x = km_mem w x" if "unat x \<in> in_use V B" for x
      using w'(4) [OF that] got(5) [of x] page_unused [OF inv got(3)] that by (auto simp: upd_cache_def)
    have "idle w'" using w'(7) got(6) ng by (simp add: idle_def upd_cache_def)
    moreover have "obj c p (cnt c - 1) \<in> objs c p" by (simp add: objs_def cnt_def)
    then have "tight (P(c := insert p (P c))) (V(c := insert (obj c p (cnt c - 1)) (V c)))"
      using tight by (auto simp: tight_def)
    ultimately show thesis using that(2) small w'(2,3,5,6) mem by blast
  qed
qed

text \<open>Changes outside the pages of the caches.\<close>

lemma slab_inv_outside:
  assumes inv: "slab_inv w P V B l" and alloc: "allocator_ok st (slab_blocks P \<union> B')" "slab_blocks P \<inter> B' = {}"
    and frame: "frame (- covered (slab_blocks P)) (km_phys w) st"
    and mem: "\<And>x q. q \<in> covered (slab_blocks P) \<Longrightarrow> unat x \<in> page_bytes q \<Longrightarrow> m x = km_mem w x"
  shows "slab_inv (w\<lparr>km_mem := m, km_phys := st\<rparr>) P V B' l"
proof -
  have page: "p \<in> covered (slab_blocks P)" if "p \<in> P i" "i < SLAB_NUM_CACHES" for p i
    using that by (force simp: covered_def slab_blocks_def block_pages_def)
  have "cache_ok (w\<lparr>km_mem := m, km_phys := st\<rparr>) i (P i) (V i) (l i)" if i: "i < SLAB_NUM_CACHES" for i
  proof (rule cache_ok_frame [OF slab_inv_cache [OF inv i]], simp_all)
    show "info st q = info (km_phys w) q" if "q \<in> P i" for q
      using page [OF that i] frame by (simp add: frame_def)
    fix a assume "a \<in> set (l i)"
    then have a: "a \<in> set (l i) \<union> V i" by simp
    obtain q where q: "q \<in> P i" "a \<in> objs i q" by (rule slab_object_page [OF inv i a])
    have "region a 8 \<subseteq> page_bytes q"
      using obj_region(1) [OF i slab_inv_page(2) [OF inv i q(1)] q(2)] slab_word(2) [OF inv i a] by blast
    then show "load64 m a = load64 (km_mem w) a"
      using slab_word(1) [OF inv i a] mem [OF page [OF q(1) i]] by (intro load64_cong) auto
  qed
  then show ?thesis using inv alloc frame unfolding slab_inv_def by (auto simp: frame_def)
qed

lemma block_region:
  assumes "p + 2 ^ k \<le> BUDDY_MAX_PAGES"
  shows "region (pfn_to_phys p) (4096 * 2 ^ k) = (\<Union>q \<in> block_pages (p, k). page_bytes q)"
proof -
  have "p < BUDDY_MAX_PAGES" using assms one_le_power [of "2 :: nat" k] by linarith
  then have "region (pfn_to_phys p) (4096 * 2 ^ k) = {0x100000 + p * 4096 ..< 0x100000 + (p + 2 ^ k) * 4096}"
    unfolding region_def by (simp add: unat_pfn_to_phys algebra_simps)
  also have "\<dots> = (\<Union>q \<in> block_pages (p, k). page_bytes q)"
  proof (intro set_eqI iffI)
    fix x :: nat
    assume x: "x \<in> {0x100000 + p * 4096 ..< 0x100000 + (p + 2 ^ k) * 4096}"
    have "(x - 0x100000) div 4096 \<in> block_pages (p, k)" using x by (auto simp: block_pages_def)
    moreover have "x \<in> page_bytes ((x - 0x100000) div 4096)" using x by (auto simp: page_bytes_def)
    ultimately show "x \<in> (\<Union>q \<in> block_pages (p, k). page_bytes q)" by blast
  next
    fix x :: nat
    assume "x \<in> (\<Union>q \<in> block_pages (p, k). page_bytes q)"
    then obtain q where q: "p \<le> q" "q + 1 \<le> p + 2 ^ k" "x \<in> page_bytes q" by (auto simp: block_pages_def)
    have "(q + 1) * 4096 \<le> (p + 2 ^ k) * 4096" using q(2) by (rule mult_le_mono1)
    then show "x \<in> {0x100000 + p * 4096 ..< 0x100000 + (p + 2 ^ k) * 4096}" using q(1,3) by (auto simp: page_bytes_def)
  qed
  finally show ?thesis .
qed

lemma kmalloc_order_fits: "kmalloc_order n k \<le> MAX_ORDER \<Longrightarrow> unat n \<le> 2 ^ kmalloc_order n k"
proof (induction n k rule: kmalloc_order.induct)
  case (1 n k)
  show ?case
  proof (cases "push_bit k 1 < n \<and> k \<le> MAX_ORDER")
    case True
    then have step: "kmalloc_order n k = kmalloc_order n (Suc k)" by (subst kmalloc_order.simps) simp
    show ?thesis using 1 True unfolding step by simp
  next
    case False
    then have stop: "kmalloc_order n k = k" by (subst kmalloc_order.simps) auto
    then have k: "k \<le> 10" "\<not> push_bit k 1 < n" using False 1(2) by auto
    have "(2 :: nat) ^ k \<le> 2 ^ 10" using k(1) by (rule power_increasing) simp
    then have "unat (push_bit k 1 :: u64) = 2 ^ k"
      using unat_of_nat_u64 [of "2 ^ k"] by (simp add: push_bit_eq_mult)
    then show ?thesis unfolding stop using k(2) by (simp add: word_less_nat_alt)
  qed
qed

lemma slab_size_to_index_fits:
  assumes "sz \<le> 4096"
  shows "slab_size_to_index sz < SLAB_NUM_CACHES" and "unat sz \<le> osz (slab_size_to_index sz)"
proof -
  show "slab_size_to_index sz < SLAB_NUM_CACHES" by (simp add: slab_size_to_index_def)
  show "unat sz \<le> osz (slab_size_to_index sz)"
    using assms by (auto simp: slab_size_to_index_def osz_def word_le_nat_alt)
qed

lemma kmalloc_order_small: "n \<le> 512 \<Longrightarrow> k \<le> 9 \<Longrightarrow> kmalloc_order n k \<le> 9"
proof (induction n k rule: kmalloc_order.induct)
  case (1 n k)
  show ?case
  proof (cases "push_bit k 1 < n \<and> k \<le> MAX_ORDER")
    case True
    have "k \<noteq> 9" using True 1(2) by (auto simp: push_bit_eq_mult)
    then have "Suc k \<le> 9" using 1(3) by simp
    then show ?thesis using 1(1) [OF True 1(2)] True by (subst kmalloc_order.simps) simp
  next
    case False
    then show ?thesis using 1(3) by (subst kmalloc_order.simps) auto
  qed
qed

lemma kmalloc_pages:
  assumes "\<not> 0xFFFFFFFFFFFFFFFF - 4096 < (sz :: u64)"
  shows "unat sz \<le> 4096 * unat ((sz + 4096 - 1) div 4096)" and "sz \<le> 0x200000 \<Longrightarrow> (sz + 4096 - 1) div 4096 \<le> 512"
proof -
  have le: "unat sz \<le> 2 ^ 64 - 1 - 4096" using assms by (simp add: word_less_nat_alt not_less)
  then have "unat (sz + 4096 - 1) = unat sz + 4095" by (simp add: unat_word_ariths unat_sub_if')
  then have d: "unat ((sz + 4096 - 1) div 4096) = (unat sz + 4095) div 4096" by (simp add: unat_div)
  show "unat sz \<le> 4096 * unat ((sz + 4096 - 1) div 4096)" unfolding d by linarith
  show "(sz + 4096 - 1) div 4096 \<le> 512" if "sz \<le> 0x200000" using that d by (simp add: word_le_nat_alt)
qed

lemma slab_inv_alloc:
  assumes inv: "slab_inv w P V B l" and k: "k \<le> MAX_ORDER"
  obtains (none) "alloc_pages (km_mem w) (km_phys w) k = Some (NULL, km_mem w, km_phys w)"
    | (got) p m st where "alloc_pages (km_mem w) (km_phys w) k = Some (pfn_to_phys p, m, st)"
      "slab_inv (w\<lparr>km_mem := m, km_phys := st\<rparr>) P V (insert (p, k) B) l" "p + 2 ^ k \<le> BUDDY_MAX_PAGES"
      "block_pages (p, k) \<inter> covered (slab_blocks P \<union> B) = {}" "pfn_to_phys p \<noteq> NULL"
      "\<And>x. unat x \<in> in_use V B \<Longrightarrow> m x = km_mem w x"
      "\<And>x. k < MAX_ORDER \<Longrightarrow> unat x \<in> region (pfn_to_phys p) (4096 * 2 ^ k) \<Longrightarrow> m x = 0"
proof -
  have ok: "allocator_ok (km_phys w) (slab_blocks P \<union> B)" using inv by (simp add: slab_inv_def)
  from ok k show thesis
  proof (cases rule: alloc_pages_cases [where m = "km_mem w"])
    case none
    then show thesis using that(1) by simp
  next
    case (got p st)
    define m where "m = (if k < MAX_ORDER then memset (km_mem w) (pfn_to_phys p) 0 (4096 * 2 ^ k) else km_mem w)"
    have state: "buddy_state st (usable_pages (total_phys_pages st) - covered (insert (p, k) (slab_blocks P \<union> B))) (insert (p, k) (slab_blocks P \<union> B))"
      using got(2) by (simp add: allocator_ok_def)
    have "p + 2 ^ k \<le> total_phys_pages st" using buddy_state_block(1) [OF state, of p k] by simp
    moreover have "total_phys_pages st \<le> BUDDY_MAX_PAGES" using state mem_invD(1) by (auto simp: buddy_state_def)
    ultimately have p: "p + 2 ^ k \<le> BUDDY_MAX_PAGES" by simp
    have "(2 :: nat) ^ k \<le> 2 ^ 10" using k by (intro power_increasing) simp_all
    then have zero: "m x = (if k < MAX_ORDER \<and> unat x \<in> region (pfn_to_phys p) (4096 * 2 ^ k) then 0 else km_mem w x)" for x
      using memset_region [of "pfn_to_phys p" "4096 * 2 ^ k" "km_mem w" x] unat_pfn_to_phys [OF got(4)] got(4) by (simp add: m_def)
    have keep: "m x = km_mem w x" if "q \<notin> block_pages (p, k)" "unat x \<in> page_bytes q" for x q
    proof -
      have "page_bytes q \<inter> page_bytes r = {}" if "r \<in> block_pages (p, k)" for r
        using page_bytes_disjoint [of q r] that \<open>q \<notin> block_pages (p, k)\<close> by blast
      then have "unat x \<notin> region (pfn_to_phys p) (4096 * 2 ^ k)" unfolding block_region [OF p] using that(2) by blast
      then show ?thesis using zero by simp
    qed
    have "slab_inv (w\<lparr>km_mem := m, km_phys := st\<rparr>) P V (insert (p, k) B) l"
    proof (rule slab_inv_outside [OF inv])
      show "allocator_ok st (slab_blocks P \<union> insert (p, k) B)" using got(2) by simp
      have "(p, k) \<notin> slab_blocks P"
      proof
        assume "(p, k) \<in> slab_blocks P"
        then have "p \<in> covered (slab_blocks P \<union> B)" unfolding covered_def using first_in_block [of p k] by blast
        then show False using got(5) first_in_block [of p k] by blast
      qed
      then show "slab_blocks P \<inter> insert (p, k) B = {}" using inv by (simp add: slab_inv_def)
      show "frame (- covered (slab_blocks P)) (km_phys w) st" by (rule frame_mono [OF got(8)]) auto
      show "m x = km_mem w x" if "q \<in> covered (slab_blocks P)" "unat x \<in> page_bytes q" for x q
        by (rule keep [OF _ that(2)]) (use got(5) that(1) in auto)
    qed
    moreover have "m x = km_mem w x" if x: "unat x \<in> in_use V B" for x
    proof -
      obtain q where "q \<in> covered (slab_blocks P \<union> B)" "unat x \<in> page_bytes q" using in_use_pages [OF inv] x by blast
      then show ?thesis by (intro keep) (use got(5) in auto)
    qed
    ultimately show thesis using that(2) [of p m st] got(1) [folded m_def] got(5) p zero phys_to_pfn_to_phys(3) [OF got(4)] by simp
  qed
qed

lemma kmalloc_ok:
  assumes inv: "slab_inv w P V B l" and idle: "idle w" and tight: "tight P V"
  obtains (none) w' where "kmalloc w sz = Some (NULL, w')" "slab_inv w' P V B l" "km_mem w' = km_mem w" "idle w'"
      "sz \<noteq> 0 \<Longrightarrow> sz \<le> 4096 \<Longrightarrow> exhausted w"
    | (small) c a w' P' l' where "kmalloc w sz = Some (a, w')" "c < SLAB_NUM_CACHES" "unat sz \<le> osz c"
      "slab_inv w' P' (V(c := insert a (V c))) B l'"
      "\<And>x. unat x \<in> region a (osz c) \<Longrightarrow> km_mem w' x = 0" "\<And>x. unat x \<in> in_use V B \<Longrightarrow> km_mem w' x = km_mem w x"
      "a \<noteq> NULL" "a \<notin> V c" "idle w'" "tight P' (V(c := insert a (V c)))"
    | (large) p k w' where "kmalloc w sz = Some (pfn_to_phys p, w')" "unat sz \<le> 4096 * 2 ^ k"
      "slab_inv w' P V (insert (p, k) B) l" "p + 2 ^ k \<le> BUDDY_MAX_PAGES"
      "block_pages (p, k) \<inter> covered (slab_blocks P \<union> B) = {}" "pfn_to_phys p \<noteq> NULL"
      "\<And>x. unat x \<in> in_use V B \<Longrightarrow> km_mem w' x = km_mem w x" "idle w'"
      "\<And>x. sz \<le> 0x200000 \<Longrightarrow> unat x \<in> region (pfn_to_phys p) (4096 * 2 ^ k) \<Longrightarrow> km_mem w' x = 0"
proof -
  let ?k = "kmalloc_order ((sz + 4096 - 1) div 4096) 0"
  consider (zero) "sz = 0" | (small) "sz \<noteq> 0" "sz \<le> 4096"
    | (toobig) "\<not> sz \<le> 4096" "0xFFFFFFFFFFFFFFFF - 4096 < sz \<or> MAX_ORDER < ?k"
    | (large) "\<not> sz \<le> 4096" "\<not> 0xFFFFFFFFFFFFFFFF - 4096 < sz" "?k \<le> MAX_ORDER" by fastforce
  then show thesis
  proof cases
    case zero
    then show thesis using that(1) inv idle by (simp add: kmalloc_def)
  next
    case toobig
    then have "kmalloc w sz = Some (NULL, w)" by (auto simp: kmalloc_def Let_def)
    then show thesis using that(1) inv idle toobig(1) by simp
  next
    case small
    note f = slab_size_to_index_fits [OF small(2)]
    have eq: "kmalloc w sz = kmalloc_small w (slab_size_to_index sz)" using small by (simp add: kmalloc_def)
    from inv f(1) idle tight show thesis
    proof (cases rule: kmalloc_small_ok)
      case (none w')
      then show thesis using that(1) eq by simp
    next
      case (got a w' P' l')
      then show thesis using that(2) [of a w' "slab_size_to_index sz" P' l'] eq f by simp
    qed
  next
    case large
    note n = kmalloc_pages [OF large(2)]
    have nz: "sz \<noteq> 0" using large(1) by auto
    have eq: "kmalloc w sz = do { (ptr, m, st) \<leftarrow> alloc_pages (km_mem w) (km_phys w) ?k; Some (ptr, w\<lparr>km_mem := m, km_phys := st\<rparr>) }"
      using large nz by (simp add: kmalloc_def Let_def)
    from inv large(3) show thesis
    proof (cases rule: slab_inv_alloc)
      case none
      then show thesis using that(1) [of w] eq inv idle large(1) by simp
    next
      case (got p m st)
      have fits: "unat sz \<le> 4096 * 2 ^ ?k"
        using n(1) kmalloc_order_fits [OF large(3)] by (meson le_trans mult_le_mono2)
      have "?k < MAX_ORDER" if "sz \<le> 0x200000" using kmalloc_order_small [OF n(2) [OF that], of 0] by simp
      moreover have "idle (w\<lparr>km_mem := m, km_phys := st\<rparr>)" using idle by (simp add: idle_def)
      ultimately show thesis using that(3) [of p "w\<lparr>km_mem := m, km_phys := st\<rparr>" ?k] eq got fits by simp
    qed
  qed
qed

subsection \<open>kfree\<close>

lemma slab_push_mem:
  assumes "unat a + osz c \<le> 2 ^ 60" and "c < SLAB_NUM_CACHES"
  shows "unat x \<notin> region a (osz c) \<Longrightarrow> slab_push m a (osz c) fl x = m x" and "load64 (slab_push m a (osz c) fl) a = fl"
proof -
  have u: "unat (a + 8) = unat a + 8" using assms(1) unat_plus_of_nat [of a 8] osz_ge [of c] by simp
  have sub: "region (a + 8) 8 \<subseteq> region a (osz c)" "region a 8 \<subseteq> region a (osz c)"
    using osz_ge [of c] by (auto simp: region_def u)
  show "slab_push m a (osz c) fl x = m x" if x: "unat x \<notin> region a (osz c)"
  proof -
    have "unat x \<notin> region a 8" "unat x \<notin> region (a + 8) 8" using x sub by blast+
    then show ?thesis
      using x store64_region [of a x] store64_region [of "a + 8" x] memset_region [of a "osz c" m x] assms
        unat_osz [OF assms(2)] osz_ge [of c] u
      by (simp add: slab_push_def)
  qed
  show "load64 (slab_push m a (osz c) fl) a = fl" by (simp add: slab_push_def)
qed

text \<open>Putting an object back on the free list of its cache.\<close>

lemma slab_push_ok:
  assumes inv: "slab_inv w P V B l" and c: "c < SLAB_NUM_CACHES" and a: "a \<in> V c" and p: "p \<in> P c" "a \<in> objs c p"
  defines "w' \<equiv> upd_cache (w\<lparr>km_mem := slab_push (km_mem w) a (osz c) (free_list (km_caches w c)),
      km_phys := upd_page (km_phys w) p (\<lambda>d. d\<lparr>p_slab_free_count := p_slab_free_count d + 1\<rparr>)\<rparr>) c (\<lambda>k. k\<lparr>free_list := a\<rparr>)"
  shows "slab_inv w' P (V(c := V c - {a})) B (l(c := a # l c))"
    and "\<And>x. unat x \<notin> region a (osz c) \<Longrightarrow> km_mem w' x = km_mem w x"
proof -
  note ok = cache_okD [OF slab_inv_cache [OF inv c]]
  have a_in: "a \<in> set (l c) \<union> V c" using a by simp
  note push = slab_push_mem [OF slab_word(3) [OF inv c a_in] c]
  show mem: "km_mem w' x = km_mem w x" if "unat x \<notin> region a (osz c)" for x
    using push(1) [OF that] by (simp add: w'_def upd_cache_def)
  have out: "a \<notin> set (l c)" using ok(4) a by blast
  let ?n = "p_slab_free_count (info (km_phys w) p)"
  have pg: "p_flags (info (km_phys w) p) AND PAGE_FLAG_SLAB \<noteq> 0" "p_slab_cache (info (km_phys w) p) = Some c"
      "unat ?n = card (set (l c) \<inter> objs c p)"
    using ok(6) [OF p(1)] by (simp_all add: slab_page_def)
  have "set (a # l c) \<inter> objs c p = insert a (set (l c) \<inter> objs c p)" using p(2) by auto
  then have card: "card (set (a # l c) \<inter> objs c p) = Suc (unat ?n)"
    using out pg(3) slab_counts(1) [OF inv c p(1)] by simp
  have "unat ?n \<le> 128" using pg(3) slab_counts(2,3) [OF inv c p(1)] le_trans by metis
  then have n: "unat (?n + 1) = card (set (a # l c) \<inter> objs c p)" unfolding card by (simp add: unat_word_ariths)
  have st: "km_phys w' = upd_page (km_phys w) p (\<lambda>d. d\<lparr>p_slab_free_count := ?n + 1\<rparr>)"
    by (simp add: w'_def upd_cache_def upd_page_def info_def)
  have links: "load64 (km_mem w') b = load64 (km_mem w) b" if "b \<in> set (l c)" for b
    by (rule slab_load_other [OF inv c a_in _ c]) (use mem out that in auto)
  have "cache_ok w' c (P c) (V c - {a}) (a # l c)"
    unfolding cache_ok_def
  proof (intro conjI ballI)
    show "obj_size (km_caches w' c) = of_nat (osz c)" "objs_per_page (km_caches w' c) = of_nat (cnt c)"
      using ok(1,2) by (simp_all add: w'_def upd_cache_def)
    have "a \<noteq> NULL" using obj_region(3) [OF c slab_inv_page(2) [OF inv c p(1)] p(2)] .
    moreover have "mchain (km_mem w') (load64 (km_mem w') a) (l c)"
      using push(2) ok(3) mchain_cong [OF links] by (simp add: w'_def upd_cache_def)
    ultimately show "mchain (km_mem w') (free_list (km_caches w' c)) (a # l c)"
      by (simp add: mchain_Cons) (simp add: w'_def upd_cache_def)
    show "set (a # l c) \<inter> (V c - {a}) = {}" "set (a # l c) \<union> (V c - {a}) = (\<Union>p \<in> P c. objs c p)"
      using ok(4,5) a by auto
    fix q assume q: "q \<in> P c"
    show "slab_page (km_phys w') c q (set (a # l c))"
    proof (cases "q = p")
      case True
      then show ?thesis using pg n by (simp add: slab_page_def st info_upd_page) (simp add: info_def)
    next
      case False
      have "a \<notin> objs c q" using objs_unique [OF inv c p(1) q p(2)] False by blast
      then have "set (a # l c) \<inter> objs c q = set (l c) \<inter> objs c q" by auto
      then show ?thesis using ok(6) [OF q] False by (simp add: slab_page_def st info_upd_page)
    qed
  qed
  then show "slab_inv w' P (V(c := V c - {a})) B (l(c := a # l c))"
    by (intro slab_inv_object [OF inv c p mem _ st]) (simp_all add: w'_def upd_cache_def)
qed

text \<open>Taking a page whose objects are all free out of its cache.\<close>

lemma inside_page:
  assumes "c < SLAB_NUM_CACHES" and "p < BUDDY_MAX_PAGES" and "q < BUDDY_MAX_PAGES" and "a \<in> objs c q"
  shows "pfn_to_phys p \<le> a \<and> a < pfn_to_phys p + 4096 \<longleftrightarrow> q = p"
proof -
  have "unat (pfn_to_phys p + 4096) = unat (pfn_to_phys p) + 4096"
    using unat_plus_of_nat [of "pfn_to_phys p" 4096] unat_pfn_to_phys [OF assms(2)] assms(2) by simp
  then have "pfn_to_phys p \<le> a \<and> a < pfn_to_phys p + 4096 \<longleftrightarrow> unat a \<in> page_bytes p"
    by (auto simp: word_le_nat_alt word_less_nat_alt page_bytes_def unat_pfn_to_phys [OF assms(2)])
  moreover have "unat a \<in> region a (osz c)" using osz_ge [of c] by (simp add: region_def)
  then have "unat a \<in> page_bytes q" using obj_region(1) [OF assms(1,3,4)] by blast
  ultimately show ?thesis using page_bytes_disjoint [of p q] by blast
qed

lemma slab_list_apart:
  assumes inv: "slab_inv w P V B l" and c: "c < SLAB_NUM_CACHES"
  shows "words_apart (set (l c))"
  unfolding words_apart_def
proof (intro ballI conjI impI)
  fix a b assume a: "a \<in> set (l c)"
  then show "unat a + 8 \<le> 2 ^ 64" using slab_word(1) [OF inv c, of a] by simp
  assume b: "b \<in> set (l c)" and "a \<noteq> b"
  then have "region a (osz c) \<inter> region b (osz c) = {}" using slab_objects_apart [OF inv c c, of a b] a by simp
  then show "region a 8 \<inter> region b 8 = {}" using slab_word(2) [OF inv c] a b by blast
qed

lemma slab_unlink_page:
  assumes inv: "slab_inv w P V B l" and c: "c < SLAB_NUM_CACHES" and p: "p \<in> P c"
  obtains m fl where
    "slab_unlink (km_mem w) (free_list (km_caches w c)) None (free_list (km_caches w c)) (pfn_to_phys p) (pfn_to_phys p + 4096) = Some (m, fl)"
    and "mchain m fl (filter (\<lambda>a. a \<notin> objs c p) (l c))"
    and "\<And>x. (\<forall>a \<in> set (l c). unat x \<notin> region a (osz c)) \<Longrightarrow> m x = km_mem w x"
proof -
  let ?in = "\<lambda>a. pfn_to_phys p \<le> a \<and> a < pfn_to_phys p + 4096"
  have in_p: "?in a \<longleftrightarrow> a \<in> objs c p" if a: "a \<in> set (l c)" for a
  proof -
    have "a \<in> set (l c) \<union> V c" using a by simp
    then obtain q where q: "q \<in> P c" "a \<in> objs c q" by (rule slab_object_page [OF inv c])
    then show ?thesis
      using inside_page [OF c slab_inv_page(2) [OF inv c p] slab_inv_page(2) [OF inv c q(1)] q(2)]
        objs_unique [OF inv c p q(1) _ q(2)] by blast
  qed
  have f: "filter (\<lambda>a. \<not> ?in a) (l c) = filter (\<lambda>a. a \<notin> objs c p) (l c)" using in_p by (intro filter_cong) auto
  note ok = cache_okD(3) [OF slab_inv_cache [OF inv c]]
  have hd: "ptr (free_list (km_caches w c)) = (if l c = [] then None else Some (hd (l c)))" using ok by (cases "l c") auto
  from slab_unlink_ok [of "[]" "l c" "km_mem w" "free_list (km_caches w c)" "pfn_to_phys p" "pfn_to_phys p + 4096" None
      "free_list (km_caches w c)"]
  obtain m fl where u: "slab_unlink (km_mem w) (free_list (km_caches w c)) None (free_list (km_caches w c)) (pfn_to_phys p) (pfn_to_phys p + 4096) = Some (m, fl)"
      "mchain m fl (filter (\<lambda>a. \<not> ?in a) (l c))" "\<forall>x. (\<forall>a \<in> set (l c). \<not> ?in a \<longrightarrow> unat x \<notin> region a 8) \<longrightarrow> m x = km_mem w x"
    using slab_list_apart [OF inv c] ok hd by auto
  have "m x = km_mem w x" if "\<forall>a \<in> set (l c). unat x \<notin> region a (osz c)" for x
    using u(3) that slab_word(2) [OF inv c] by blast
  then show thesis using that u(1) u(2) [unfolded f] by blast
qed

lemma free_unused:
  assumes "slab_inv w P V B l" and "c < SLAB_NUM_CACHES" and "a \<in> set (l c)"
  shows "region a (osz c) \<inter> in_use V B = {}"
proof -
  have "V(c := V c - {a}) = V" using cache_okD(4) [OF slab_inv_cache [OF assms(1,2)]] assms(3) by (intro ext) auto
  then show ?thesis using object_unused [OF assms(1,2), of a] assms(3) by simp
qed

lemma slab_blocks_remove:
  assumes "slab_inv w P V B l" and "c < SLAB_NUM_CACHES" and "p \<in> P c"
  shows "slab_blocks P \<union> B - {(p, 0)} = slab_blocks (P(c := P c - {p})) \<union> B"
proof -
  have "i = c" if "i < SLAB_NUM_CACHES" "p \<in> P i" for i using slab_pages_unique [OF assms(1) that(1) assms(2) that(2) assms(3)] .
  then have "slab_blocks P - {(p, 0)} = slab_blocks (P(c := P c - {p}))" using assms(2) by (force simp: slab_blocks_def)
  then show ?thesis using slab_inv_page(6) [OF assms] by blast
qed

lemma slab_reclaim_inv:
  assumes inv: "slab_inv w P V B l" and c: "c < SLAB_NUM_CACHES" and p: "p \<in> P c" and free: "objs c p \<subseteq> set (l c)"
    and m: "mchain m fl (filter (\<lambda>a. a \<notin> objs c p) (l c))" "\<And>x. (\<forall>a \<in> set (l c). unat x \<notin> region a (osz c)) \<Longrightarrow> m x = km_mem w x"
    and st: "allocator_ok st (slab_blocks (P(c := P c - {p})) \<union> B)" "p_flags (info st p) AND PAGE_FLAG_SLAB = 0"
      "\<And>q. q \<noteq> p \<Longrightarrow> q \<in> covered (slab_blocks P \<union> B) \<Longrightarrow> info st q = info (km_phys w) q"
      "\<And>q. q \<noteq> p \<Longrightarrow> p_flags (info st q) AND PAGE_FLAG_SLAB \<noteq> 0 \<Longrightarrow> p_flags (info (km_phys w) q) AND PAGE_FLAG_SLAB \<noteq> 0"
  defines "w' \<equiv> upd_cache (w\<lparr>km_mem := m, km_phys := st\<rparr>) c (\<lambda>k. k\<lparr>free_list := fl\<rparr>)"
  shows "slab_inv w' (P(c := P c - {p})) V B (l(c := filter (\<lambda>a. a \<notin> objs c p) (l c)))"
proof -
  note ok = cache_okD [OF slab_inv_cache [OF inv c]]
  let ?P = "P(c := P c - {p})" and ?l = "filter (\<lambda>a. a \<notin> objs c p) (l c)"
  have apart: "objs c p \<inter> objs c q = {}" if "q \<in> P c" "q \<noteq> p" for q
    using objs_unique [OF inv c p that(1)] that(2) by blast
  have pages: "info (km_phys w') q = info (km_phys w) q" if "q \<in> P i" "i < SLAB_NUM_CACHES" "q \<noteq> p" for q i
    using st(3) [OF that(3) slab_inv_page(4) [OF inv that(2,1)]] by (simp add: w'_def upd_cache_def)
  have "cache_ok w' c (P c - {p}) (V c) ?l"
    unfolding cache_ok_def
  proof (intro conjI ballI)
    show "obj_size (km_caches w' c) = of_nat (osz c)" "objs_per_page (km_caches w' c) = of_nat (cnt c)"
      using ok(1,2) by (simp_all add: w'_def upd_cache_def)
    show "mchain (km_mem w') (free_list (km_caches w' c)) ?l" using m(1) by (simp add: w'_def upd_cache_def)
    show "set ?l \<inter> V c = {}" using ok(4) by auto
    have "V c \<inter> objs c p = {}" using ok(4) free by blast
    then have "set ?l \<union> V c = (\<Union>q \<in> P c. objs c q) - objs c p" using ok(5) by auto
    then show "set ?l \<union> V c = (\<Union>q \<in> P c - {p}. objs c q)" using apart p by blast
    fix q assume q: "q \<in> P c - {p}"
    then have "set ?l \<inter> objs c q = set (l c) \<inter> objs c q" using apart [of q] by auto
    then show "slab_page (km_phys w') c q (set ?l)" using ok(6) [of q] q pages [of q c] c by (simp add: slab_page_def)
  qed
  moreover have "cache_ok w' i (P i) (V i) (l i)" if i: "i < SLAB_NUM_CACHES" "i \<noteq> c" for i
  proof (rule cache_ok_frame [OF slab_inv_cache [OF inv i(1)]])
    show "km_caches w' i = km_caches w i" using i by (simp add: w'_def upd_cache_def)
    show "info (km_phys w') q = info (km_phys w) q" if "q \<in> P i" for q
      using pages [OF that i(1)] slab_pages_unique [OF inv i(1) c that] p i(2) by blast
    fix b assume b: "b \<in> set (l i)"
    then have w: "unat b + 8 \<le> 2 ^ 64" "region b 8 \<subseteq> region b (osz i)" using slab_word [OF inv i(1), of b] by simp_all
    have "region b (osz i) \<inter> region a (osz c) = {}" if "a \<in> set (l c)" for a
      by (rule slab_objects_apart [OF inv i(1) c]) (use b i(2) that in auto)
    then have "km_mem w' x = km_mem w x" if "unat x \<in> region b 8" for x
      using m(2) [of x] w(2) that by (auto simp: w'_def upd_cache_def)
    then show "load64 (km_mem w') b = load64 (km_mem w) b" using w(1) by (intro load64_cong) auto
  qed
  moreover have "\<exists>i < SLAB_NUM_CACHES. q \<in> ?P i" if f: "p_flags (info st q) AND PAGE_FLAG_SLAB \<noteq> 0" for q
  proof -
    have q: "q \<noteq> p" using st(2) f by auto
    then obtain i where "i < SLAB_NUM_CACHES" "q \<in> P i" using st(4) [OF q f] inv by (auto simp: slab_inv_def)
    then show ?thesis using q by (intro exI [of _ i]) auto
  qed
  moreover have "slab_blocks ?P \<inter> B = {}" using inv by (auto simp: slab_inv_def slab_blocks_def split: if_splits)
  moreover have "km_phys w' = st" by (simp add: w'_def upd_cache_def)
  ultimately show ?thesis using st(1) unfolding slab_inv_def by simp
qed

lemma slab_reclaim_ok:
  assumes inv: "slab_inv w P V B l" and c: "c < SLAB_NUM_CACHES" and p: "p \<in> P c" and free: "objs c p \<subseteq> set (l c)"
  obtains m fl st where
    "slab_unlink (km_mem w) (free_list (km_caches w c)) None (free_list (km_caches w c)) (pfn_to_phys p) (pfn_to_phys p + 4096) = Some (m, fl)"
    and "free_page (upd_page (km_phys w) p (\<lambda>d. d\<lparr>p_flags := p_flags d AND NOT PAGE_FLAG_SLAB, p_slab_cache := None,
      p_slab_free_count := 0\<rparr>)) (pfn_to_phys p) = Some st"
    and "slab_inv (upd_cache (w\<lparr>km_mem := m, km_phys := st\<rparr>) c (\<lambda>k. k\<lparr>free_list := fl\<rparr>)) (P(c := P c - {p})) V B
      (l(c := filter (\<lambda>a. a \<notin> objs c p) (l c)))"
    and "\<And>x. unat x \<in> in_use V B \<Longrightarrow> m x = km_mem w x"
proof -
  let ?A = "slab_blocks P \<union> B"
  let ?st = "upd_page (km_phys w) p (\<lambda>d. d\<lparr>p_flags := p_flags d AND NOT PAGE_FLAG_SLAB, p_slab_cache := None, p_slab_free_count := 0\<rparr>)"
  note in_A = slab_inv_page(1) [OF inv c p]
  have "allocator_ok (km_phys w) ?A" using inv by (simp add: slab_inv_def)
  then have ok: "allocator_ok ?st ?A" by (rule allocator_ok_upd [OF _ in_A]) (simp_all add: and.assoc)
  obtain st where st: "free_pages ?st (pfn_to_phys p) 0 = Some st" "allocator_ok st (?A - {(p, 0)})"
      "frame (- covered (?A - {(p, 0)})) ?st st"
    by (rule free_pages_allocator_ok [OF ok in_A])
  have "blocks_disjoint ?A" using ok buddy_state_disjoint by (auto simp: allocator_ok_def)
  from covered_remove [OF this in_A] have cov: "covered (?A - {(p, 0)}) = covered ?A - {p}" by (simp add: block_pages_def)
  obtain m fl where u:
    "slab_unlink (km_mem w) (free_list (km_caches w c)) None (free_list (km_caches w c)) (pfn_to_phys p) (pfn_to_phys p + 4096) = Some (m, fl)"
    "mchain m fl (filter (\<lambda>a. a \<notin> objs c p) (l c))" "\<And>x. (\<forall>a \<in> set (l c). unat x \<notin> region a (osz c)) \<Longrightarrow> m x = km_mem w x"
    by (rule slab_unlink_page [OF inv c p]) blast
  have f: "p_flags (info st q) AND PAGE_FLAG_SLAB \<noteq> 0 \<Longrightarrow> p_flags (info ?st q) AND PAGE_FLAG_SLAB \<noteq> 0" for q
    using st(3) by (simp add: frame_def)
  have inv': "slab_inv (upd_cache (w\<lparr>km_mem := m, km_phys := st\<rparr>) c (\<lambda>k. k\<lparr>free_list := fl\<rparr>)) (P(c := P c - {p})) V B
      (l(c := filter (\<lambda>a. a \<notin> objs c p) (l c)))"
  proof (rule slab_reclaim_inv [OF inv c p free u(2,3)])
    show "allocator_ok st (slab_blocks (P(c := P c - {p})) \<union> B)" using st(2) slab_blocks_remove [OF inv c p] by simp
    show "p_flags (info st p) AND PAGE_FLAG_SLAB = 0" using f [of p] by (auto simp: info_upd_page and.assoc)
    show "info st q = info (km_phys w) q" if "q \<noteq> p" "q \<in> covered ?A" for q
      using st(3) that unfolding cov by (simp add: frame_def info_upd_page)
    show "p_flags (info (km_phys w) q) AND PAGE_FLAG_SLAB \<noteq> 0" if "q \<noteq> p" "p_flags (info st q) AND PAGE_FLAG_SLAB \<noteq> 0" for q
      using f [OF that(2)] that(1) by (simp add: info_upd_page)
  qed
  have "m x = km_mem w x" if "unat x \<in> in_use V B" for x
    using u(3) [of x] free_unused [OF inv c] that by blast
  then show thesis using that u(1) st(1) inv' unfolding free_page_def by blast
qed

lemma kfree_object:
  assumes inv: "slab_inv w P V B l" and c: "c < SLAB_NUM_CACHES" and p: "p \<in> P c" "a \<in> objs c p"
  shows "kfree w a = kfree_slab w a p c"
proof -
  have "p_flags (page_array (km_phys w) p) AND PAGE_FLAG_SLAB \<noteq> 0" "p_slab_cache (page_array (km_phys w) p) = Some c"
    using slab_inv_page(5) [OF inv c p(1)] by (simp_all add: slab_page_def info_def)
  then show ?thesis
    using slab_get_page [OF inv c p] obj_region(3) [OF c slab_inv_page(2) [OF inv c p(1)] p(2)] by (simp add: kfree_def Let_def)
qed

text \<open>The test for an empty page: the count in the descriptor has reached the number of objects.\<close>

lemma page_free_iff:
  assumes inv: "slab_inv w P V B l" and c: "c < SLAB_NUM_CACHES" and p: "p \<in> P c"
  shows "objs_per_page (km_caches w c) \<le> ucast (p_slab_free_count (page_array (km_phys w) p)) \<longleftrightarrow> objs c p \<subseteq> set (l c)"
proof -
  let ?n = "p_slab_free_count (page_array (km_phys w) p)"
  have n: "unat ?n = card (set (l c) \<inter> objs c p)"
    using slab_inv_page(5) [OF inv c p] by (simp add: slab_page_def info_def)
  note o = card_objs [OF c slab_inv_page(2) [OF inv c p]]
  have "unat (ucast ?n :: u64) = unat ?n" by (simp add: unat_ucast_up)
  then have "objs_per_page (km_caches w c) \<le> ucast ?n \<longleftrightarrow> cnt c \<le> card (set (l c) \<inter> objs c p)"
    using cache_okD(2) [OF slab_inv_cache [OF inv c]] unat_cnt(2) [OF c] n by (simp add: word_le_nat_alt)
  also have "\<dots> \<longleftrightarrow> objs c p \<subseteq> set (l c)"
  proof
    assume "cnt c \<le> card (set (l c) \<inter> objs c p)"
    then have "set (l c) \<inter> objs c p = objs c p" using card_seteq [OF o(1), of "set (l c) \<inter> objs c p"] o(2) by simp
    then show "objs c p \<subseteq> set (l c)" by blast
  next
    assume "objs c p \<subseteq> set (l c)"
    then have "set (l c) \<inter> objs c p = objs c p" by blast
    then show "cnt c \<le> card (set (l c) \<inter> objs c p)" using o(2) by simp
  qed
  finally show ?thesis .
qed

lemma kfree_slab_ok:
  assumes inv: "slab_inv w P V B l" and c: "c < SLAB_NUM_CACHES" and a: "a \<in> V c" and idle: "idle w" and tight: "tight P V"
  obtains (refused) "kfree w a = Some w" "load64 (km_mem w) (a + 8) = SLAB_FREE_MAGIC"
    | (freed) w' P' l' where "kfree w a = Some w'" "slab_inv w' P' (V(c := V c - {a})) B l'" "idle w'"
      "tight P' (V(c := V c - {a}))" "\<And>x. unat x \<in> in_use (V(c := V c - {a})) B \<Longrightarrow> km_mem w' x = km_mem w x"
proof (cases "load64 (km_mem w) (a + 8) = SLAB_FREE_MAGIC")
  case True
  have "a \<in> set (l c) \<union> V c" using a by simp
  then obtain p where "p \<in> P c" "a \<in> objs c p" by (rule slab_object_page [OF inv c])
  then show thesis using that(1) kfree_object [OF inv c] True by (simp add: kfree_slab_def)
next
  case False
  have a_in: "a \<in> set (l c) \<union> V c" using a by simp
  obtain p where p: "p \<in> P c" "a \<in> objs c p" by (rule slab_object_page [OF inv c a_in])
  define m1 where "m1 = slab_push (km_mem w) a (osz c) (free_list (km_caches w c))"
  define st1 where "st1 = upd_page (km_phys w) p (\<lambda>d. d\<lparr>p_slab_free_count := p_slab_free_count d + 1\<rparr>)"
  define w1 where "w1 = upd_cache (w\<lparr>km_mem := m1, km_phys := st1\<rparr>) c (\<lambda>k. k\<lparr>free_list := a\<rparr>)"
  let ?V = "V(c := V c - {a})" and ?l = "l(c := a # l c)"
  have inv1: "slab_inv w1 P ?V B ?l" and mem1: "\<And>x. unat x \<notin> region a (osz c) \<Longrightarrow> km_mem w1 x = km_mem w x"
    using slab_push_ok [OF inv c a p] by (simp_all add: w1_def m1_def st1_def)
  have mem: "km_mem w1 x = km_mem w x" if "unat x \<in> in_use ?V B" for x
    using mem1 [of x] object_unused [OF inv c a_in] that by blast
  have w1: "km_mem w1 = m1" "km_phys w1 = st1" "free_list (km_caches w1 c) = a" "obj_size (km_caches w1 c) = obj_size (km_caches w c)"
      "objs_per_page (km_caches w1 c) = objs_per_page (km_caches w c)" "idle w1"
    using idle by (simp_all add: w1_def upd_cache_def idle_def)
  have others: "?V c \<inter> objs c q \<noteq> {}" if "q \<in> P c" "q \<noteq> p" for q
    using tight objs_unique [OF inv c p(1) that(1) p(2)] that c by (auto simp: tight_def)
  have start: "p_phys_addr (page_array st1 p) = pfn_to_phys p" using slab_inv_page(7) [OF inv1 c p(1)] w1(2) by simp
  have size: "unat (obj_size (km_caches w c)) = osz c"
    using cache_okD(1) [OF slab_inv_cache [OF inv c]] unat_osz [OF c] by simp
  have full: "objs_per_page (km_caches w c) \<le> ucast (p_slab_free_count (page_array st1 p)) \<longleftrightarrow> objs c p \<subseteq> set (a # l c)"
    using page_free_iff [OF inv1 c p(1)] w1(2,5) by simp
  show thesis
  proof (cases "objs c p \<subseteq> set (a # l c)")
    case no: False
    have "kfree w a = Some w1"
      using kfree_object [OF inv c p] False no full size by (simp add: kfree_slab_def Let_def w1_def m1_def st1_def)
    moreover obtain b where b: "b \<in> objs c p" "b \<notin> set (a # l c)" using no by blast
    then have "b \<in> ?V c" using cache_okD(5) [OF slab_inv_cache [OF inv c]] p(1) by auto
    then have "tight P ?V" using tight others b(1) unfolding tight_def by (metis disjoint_iff fun_upd_apply)
    ultimately show thesis using that(2) inv1 w1(6) mem by blast
  next
    case yes: True
    then have free: "objs c p \<subseteq> set (?l c)" by simp
    obtain m fl st where r:
      "slab_unlink (km_mem w1) (free_list (km_caches w1 c)) None (free_list (km_caches w1 c)) (pfn_to_phys p) (pfn_to_phys p + 4096) = Some (m, fl)"
      "free_page (upd_page (km_phys w1) p (\<lambda>d. d\<lparr>p_flags := p_flags d AND NOT PAGE_FLAG_SLAB, p_slab_cache := None,
        p_slab_free_count := 0\<rparr>)) (pfn_to_phys p) = Some st"
      "slab_inv (upd_cache (w1\<lparr>km_mem := m, km_phys := st\<rparr>) c (\<lambda>k. k\<lparr>free_list := fl\<rparr>)) (P(c := P c - {p})) ?V B
        (?l(c := filter (\<lambda>a. a \<notin> objs c p) (?l c)))"
      "\<And>x. unat x \<in> in_use ?V B \<Longrightarrow> m x = km_mem w1 x"
      by (rule slab_reclaim_ok [OF inv1 c p(1) free]) blast
    define w2 where "w2 = upd_cache (w1\<lparr>km_mem := m, km_phys := st\<rparr>) c (\<lambda>k. k\<lparr>free_list := fl\<rparr>)"
    have "w2 = upd_cache (w\<lparr>km_mem := m, km_phys := st\<rparr>) c (\<lambda>k. k\<lparr>free_list := fl\<rparr>)"
      by (simp add: w2_def w1_def upd_cache_def)
    then have "kfree w a = Some w2"
      using kfree_object [OF inv c p] False yes full size start r(1,2)
      unfolding w1 by (simp add: kfree_slab_def Let_def m1_def [symmetric] st1_def [symmetric] del: upd_page_simps)
    moreover have "tight (P(c := P c - {p})) ?V" using tight others unfolding tight_def by (auto split: if_splits)
    moreover have "idle w2" using w1(6) by (simp add: w2_def upd_cache_def idle_def)
    moreover have "km_mem w2 x = km_mem w x" if "unat x \<in> in_use ?V B" for x
      using r(4) mem that by (simp add: w2_def upd_cache_def)
    ultimately show thesis using that(2) r(3) w2_def by blast
  qed
qed

lemma kfree_large_ok:
  assumes inv: "slab_inv w P V B l" and p: "(p, k) \<in> B" and idle: "idle w"
  obtains w' where "kfree w (pfn_to_phys p) = Some w'" "slab_inv w' P V (B - {(p, k)}) l" "km_mem w' = km_mem w" "idle w'"
proof -
  let ?A = "slab_blocks P \<union> B"
  have in_A: "(p, k) \<in> ?A" using p by simp
  have ok: "allocator_ok (km_phys w) ?A" and dis: "slab_blocks P \<inter> B = {}" using inv by (simp_all add: slab_inv_def)
  note b = buddy_state_block [OF conjunct1 [OF ok [unfolded allocator_ok_def]] in_A]
  obtain st where st: "free_pages (km_phys w) (pfn_to_phys p) k = Some st" "allocator_ok st (?A - {(p, k)})"
      "frame (- covered (?A - {(p, k)})) (km_phys w) st"
    by (rule free_pages_allocator_ok [OF ok in_A])
  have "p \<in> covered B" unfolding covered_def using p first_in_block [of p k] by blast
  then have "p_flags (info (km_phys w) p) AND PAGE_FLAG_SLAB = 0"
    using inv slab_page_not_large [OF inv] unfolding slab_inv_def by blast
  then have "p_flags (page_array (km_phys w) p) AND PAGE_FLAG_SLAB = 0" by (simp add: info_def)
  moreover have "p < total_phys_pages (km_phys w)" using b(1) one_le_power [of "2 :: nat" k] by linarith
  then have "get_page_struct (km_phys w) (pfn_to_phys p) = Some p"
    using phys_to_pfn_to_phys(1) [OF b(4)] b(4) by (simp add: get_page_struct_def Let_def)
  ultimately have "kfree w (pfn_to_phys p) = Some (w\<lparr>km_phys := st\<rparr>)"
    using phys_to_pfn_to_phys(3) [OF b(4)] b(7) st(1) by (simp add: kfree_def Let_def)
  moreover have "slab_inv (w\<lparr>km_mem := km_mem w, km_phys := st\<rparr>) P V (B - {(p, k)}) l"
  proof (rule slab_inv_outside [OF inv])
    have "?A - {(p, k)} = slab_blocks P \<union> (B - {(p, k)})" using dis p by blast
    then show "allocator_ok st (slab_blocks P \<union> (B - {(p, k)}))" "slab_blocks P \<inter> (B - {(p, k)}) = {}"
        "frame (- covered (slab_blocks P)) (km_phys w) st"
      using st(2) dis frame_mono [OF st(3)] by auto
  qed simp
  ultimately show thesis using that [of "w\<lparr>km_phys := st\<rparr>"] idle by (simp add: idle_def)
qed

end
