(* ===== verification/Slab_props.thy ===== *)
theory Slab_props
  imports Slab_ops
begin

text \<open>
  What \<open>kmalloc\<close> and \<open>kfree\<close> of \<^verbatim>\<open>kernel/mem.c\<close> guarantee to their callers, over every sequence of calls and
  of writes to the memory they hand out.
\<close>

subsection \<open>The heap after initialisation\<close>

definition no_slab :: "phys_mem \<Rightarrow> bool" where
  "no_slab st \<longleftrightarrow> (\<forall>q. p_flags (page_array st q) AND PAGE_FLAG_SLAB = 0)"

lemma no_slab_upd:
  assumes "no_slab st" and "\<And>d. p_flags d AND PAGE_FLAG_SLAB = 0 \<Longrightarrow> p_flags (f d) AND PAGE_FLAG_SLAB = 0"
  shows "no_slab (upd_page st p f)"
  using assms by (simp add: no_slab_def)

lemma no_slab_list_add: "no_slab st \<Longrightarrow> no_slab (list_add st k p)"
  by (simp add: list_add_def no_slab_def)

lemma no_slab_list_del: "no_slab st \<Longrightarrow> list_del st k p = Some st' \<Longrightarrow> no_slab st'"
  by (auto simp: list_del_def no_slab_def bind_eq_Some_conv split: if_splits option.splits)

lemma no_slab_merge_pages: "no_slab st \<Longrightarrow> no_slab (merge_pages st k p b)"
  unfolding merge_pages_def Let_def by (intro no_slab_list_add no_slab_upd) simp_all

lemma no_slab_buddy_merge:
  assumes "buddy_merge st p = Some r" and "no_slab st"
  shows "no_slab (fst r)"
proof -
  have "no_slab st \<longrightarrow> no_slab (fst r)"
    by (rule buddy_merge.raw_induct [OF _ assms(1), where P = "\<lambda>st p r. no_slab st \<longrightarrow> no_slab (fst r)"])
      (auto simp: Let_def bind_eq_Some_conv split: if_split_asm option.split_asm, (meson no_slab_list_del no_slab_merge_pages)+)
  then show ?thesis using assms(2) by blast
qed

lemma no_slab_coalesce_scan:
  assumes "coalesce_scan st h = Some r" and "no_slab st"
  shows "no_slab (fst r)"
proof -
  have "no_slab st \<longrightarrow> no_slab (fst r)"
    by (rule coalesce_scan.raw_induct [OF _ assms(1), where P = "\<lambda>st h r. no_slab st \<longrightarrow> no_slab (fst r)"])
      (auto simp: Let_def bind_eq_Some_conv dest!: no_slab_buddy_merge split: if_splits option.splits)
  then show ?thesis using assms(2) by blast
qed

lemma no_slab_coalesce_order:
  assumes "coalesce_order st k = Some st'" and "no_slab st"
  shows "no_slab st'"
proof -
  have "no_slab st \<longrightarrow> no_slab st'"
    by (rule coalesce_order.raw_induct [OF _ assms(1), where P = "\<lambda>st h st'. no_slab st \<longrightarrow> no_slab st'"])
      (auto simp: Let_def bind_eq_Some_conv dest!: no_slab_coalesce_scan split: if_splits)
  then show ?thesis using assms(2) by blast
qed

lemma no_slab_coalesce_from: "coalesce_from st k n = Some st' \<Longrightarrow> no_slab st \<Longrightarrow> no_slab st'"
  by (induction n arbitrary: st k) (auto simp: bind_eq_Some_conv dest!: no_slab_coalesce_order)

lemma no_slab_mark_available: "no_slab st \<Longrightarrow> no_slab (mark_available_loop st p n)"
proof (induction n arbitrary: st p)
  case (Suc n)
  have "no_slab (s\<lparr>stat_total_pages := u\<rparr>) = no_slab s" for s u by (simp add: no_slab_def)
  then have "no_slab (mark_available_page st p)"
    using Suc.prems no_slab_list_add [OF no_slab_upd [OF Suc.prems]] by (simp add: mark_available_page_def Let_def)
  then show ?case using Suc.IH by simp
qed simp

lemma no_slab_mark_reserved: "no_slab st \<Longrightarrow> no_slab (mark_reserved_loop st p n)"
  by (simp add: mark_reserved_loop_eq no_slab_def bit.conj_disj_distrib2)

lemma phys_mem_init_no_slab:
  assumes "phys_mem_init m mb = Some st"
  shows "no_slab st"
proof -
  obtain r st0 n where st0: "buddy_coalesce_all (buddy_mark_available (reserve_kernel st0) 512 n) = Some st"
      "st0 = phys_mem_zero\<lparr>phys_mem_end := r, total_phys_pages := n\<rparr>"
    using assms by (auto simp: phys_mem_init_def bind_eq_Some_conv Let_def)
  have "no_slab st0" by (simp add: no_slab_def st0(2) phys_mem_zero_def)
  then have "no_slab (buddy_mark_available (reserve_kernel st0) 512 n)"
    by (simp add: reserve_kernel_def buddy_mark_reserved_def buddy_mark_available_def no_slab_mark_reserved no_slab_mark_available)
  then show ?thesis using no_slab_coalesce_from st0(1) unfolding buddy_coalesce_all_def by blast
qed

text \<open>The caches are static objects, so all their fields are zero before \<open>slab_init\<close>.\<close>

definition kmem_boot :: "mem \<Rightarrow> phys_mem \<Rightarrow> kmem" where
  "kmem_boot m st = slab_init \<lparr>km_mem = m, km_phys = st,
     km_caches = (\<lambda>_. \<lparr>obj_size = 0, objs_per_page = 0, free_list = NULL, growing = False\<rparr>)\<rparr>"

lemma slab_index_to_size_osz:
  assumes "c < SLAB_NUM_CACHES"
  shows "slab_index_to_size c = of_nat (osz c)" and "4096 div slab_index_to_size c = of_nat (cnt c)"
  using nat8_cases [OF assms] by (elim disjE; simp add: slab_index_to_size_def osz_def cnt_def push_bit_eq_mult)+

lemma kmem_boot_ok:
  assumes "phys_mem_init m mb = Some st"
  shows "slab_inv (kmem_boot m st) (\<lambda>_. {}) (\<lambda>_. {}) {} (\<lambda>_. [])" and "idle (kmem_boot m st)"
proof -
  have "slab_blocks (\<lambda>_. {}) = {}" by (simp add: slab_blocks_def)
  moreover have "cache_ok (kmem_boot m st) c {} {} []" if "c < SLAB_NUM_CACHES" for c
    using slab_index_to_size_osz [OF that] that by (simp add: cache_ok_def kmem_boot_def slab_init_def ptr_def)
  ultimately show "slab_inv (kmem_boot m st) (\<lambda>_. {}) (\<lambda>_. {}) {} (\<lambda>_. [])"
    using phys_mem_init_allocator_ok [OF assms] phys_mem_init_no_slab [OF assms]
    by (simp add: slab_inv_def no_slab_def info_def) (simp add: kmem_boot_def slab_init_def)
  show "idle (kmem_boot m st)" by (simp add: idle_def kmem_boot_def slab_init_def)
qed

subsection \<open>Sequences of calls\<close>

text \<open>\<open>H\<close> holds the address and the requested size of every piece of memory that the callers own; between
  the calls they write what they like to it.  \<open>R\<close> collects what was passed to \<open>kfree\<close> while its second word was
  the mark of a free object.\<close>

type_synonym pieces = "(addr \<times> nat) set"

inductive heap_step :: "kmem \<times> pieces \<times> pieces \<Rightarrow> kmem \<times> pieces \<times> pieces \<Rightarrow> bool" where
  alloc: "kmalloc w sz = Some (a, w') \<Longrightarrow>
    heap_step (w, H, R) (w', if a = NULL then H else insert (a, unat sz) H, R)"
| free: "(a, n) \<in> H \<Longrightarrow> kfree w a = Some w' \<Longrightarrow>
    heap_step (w, H, R) (w', H - {(a, n)}, if load64 (km_mem w) (a + 8) = SLAB_FREE_MAGIC then insert (a, n) R else R)"
| put: "(a, n) \<in> H \<Longrightarrow> \<forall>x. unat x \<notin> region a n \<longrightarrow> m' x = km_mem w x \<Longrightarrow>
    heap_step (w, H, R) (w\<lparr>km_mem := m'\<rparr>, H, R)"

text \<open>The object or block behind a piece of memory.\<close>

definition owned :: "(nat \<Rightarrow> addr set) \<Rightarrow> block set \<Rightarrow> addr \<Rightarrow> nat \<Rightarrow> bool" where
  "owned V B a n \<longleftrightarrow> (\<exists>c < SLAB_NUM_CACHES. a \<in> V c \<and> n \<le> osz c) \<or>
     (\<exists>p k. (p, k) \<in> B \<and> a = pfn_to_phys p \<and> n \<le> 4096 * 2 ^ k)"

definition heap_inv ::
  "(nat \<Rightarrow> nat set) \<Rightarrow> (nat \<Rightarrow> addr set) \<Rightarrow> block set \<Rightarrow> (nat \<Rightarrow> addr list) \<Rightarrow> kmem \<Rightarrow> pieces \<Rightarrow> pieces \<Rightarrow> bool" where
  "heap_inv P V B l w H R \<longleftrightarrow> slab_inv w P V B l \<and> idle w \<and> tight P V \<and> inj_on fst H \<and>
     (\<forall>(a, n) \<in> H. owned V B a n) \<and> (\<forall>c < SLAB_NUM_CACHES. V c \<subseteq> fst ` (H \<union> R)) \<and>
     (\<forall>(p, k) \<in> B. pfn_to_phys p \<in> fst ` (H \<union> R))"

lemma heap_invD:
  assumes "heap_inv P V B l w H R"
  shows "slab_inv w P V B l" "idle w" "tight P V" "inj_on fst H" "\<And>a n. (a, n) \<in> H \<Longrightarrow> owned V B a n"
    "\<And>c a. c < SLAB_NUM_CACHES \<Longrightarrow> a \<in> V c \<Longrightarrow> a \<in> fst ` (H \<union> R)" "\<And>p k. (p, k) \<in> B \<Longrightarrow> pfn_to_phys p \<in> fst ` (H \<union> R)"
  using assms unfolding heap_inv_def by auto

lemma heap_invI:
  assumes "slab_inv w P V B l" "idle w" "tight P V" "inj_on fst H" "\<And>a n. (a, n) \<in> H \<Longrightarrow> owned V B a n"
    "\<And>c. c < SLAB_NUM_CACHES \<Longrightarrow> V c \<subseteq> fst ` (H \<union> R)" "\<And>p k. (p, k) \<in> B \<Longrightarrow> pfn_to_phys p \<in> fst ` (H \<union> R)"
  shows "heap_inv P V B l w H R"
  using assms unfolding heap_inv_def by auto

lemma large_block:
  assumes "slab_inv w P V B l" and "(p, k) \<in> B"
  shows "p + 2 ^ k \<le> BUDDY_MAX_PAGES" "p < BUDDY_MAX_PAGES" "p \<in> covered B" "block_pages (p, k) \<subseteq> covered B"
    "unat (pfn_to_phys p) \<in> page_bytes p"
proof -
  have ok: "buddy_state (km_phys w) (usable_pages (total_phys_pages (km_phys w)) - covered (slab_blocks P \<union> B)) (slab_blocks P \<union> B)"
    using assms(1) by (simp add: slab_inv_def allocator_ok_def)
  have "total_phys_pages (km_phys w) \<le> BUDDY_MAX_PAGES" using ok mem_invD(1) by (auto simp: buddy_state_def)
  then show "p + 2 ^ k \<le> BUDDY_MAX_PAGES" using buddy_state_block(1) [OF ok, of p k] assms(2) by simp
  show p: "p < BUDDY_MAX_PAGES" using buddy_state_block(4) [OF ok, of p k] assms(2) by simp
  show "block_pages (p, k) \<subseteq> covered B" using assms(2) by (auto simp: covered_def)
  then show "p \<in> covered B" using first_in_block [of p k] by blast
  show "unat (pfn_to_phys p) \<in> page_bytes p" using unat_pfn_to_phys [OF p] by (simp add: page_bytes_def)
qed

lemma owned_in_use:
  assumes "slab_inv w P V B l" and "owned V B a n"
  shows "region a n \<subseteq> in_use V B" "unat a \<in> in_use V B"
proof -
  have "region a n \<subseteq> in_use V B \<and> unat a \<in> in_use V B"
    using assms(2) unfolding owned_def
  proof (elim disjE exE conjE)
    fix c assume c: "c < SLAB_NUM_CACHES" "a \<in> V c" "n \<le> osz c"
    have "region a n \<subseteq> region a (osz c)" "unat a \<in> region a (osz c)" using c(3) osz_ge [of c] by (auto simp: region_def)
    then show ?thesis using c(1,2) unfolding in_use_def by blast
  next
    fix p k assume p: "(p, k) \<in> B" "a = pfn_to_phys p" "n \<le> 4096 * 2 ^ k"
    have "region a n \<subseteq> region (pfn_to_phys p) (4096 * 2 ^ k)" using p(2,3) by (auto simp: region_def)
    then show ?thesis using large_block [OF assms(1) p(1)] block_region [of p k] p(2) unfolding in_use_def by blast
  qed
  then show "region a n \<subseteq> in_use V B" "unat a \<in> in_use V B" by simp_all
qed

lemma pages_disjoint: "X \<inter> Y = {} \<Longrightarrow> (\<Union>p \<in> X. page_bytes p) \<inter> (\<Union>q \<in> Y. page_bytes q) = {}"
proof (rule equals0I)
  fix x assume dis: "X \<inter> Y = {}" and x: "x \<in> (\<Union>p \<in> X. page_bytes p) \<inter> (\<Union>q \<in> Y. page_bytes q)"
  from x obtain p q where pq: "p \<in> X" "x \<in> page_bytes p" "q \<in> Y" "x \<in> page_bytes q" by (elim IntE UN_E)
  have "p \<noteq> q" using dis pq(1,3) by auto
  then have "page_bytes p \<inter> page_bytes q = {}" by (rule page_bytes_disjoint)
  then show False using pq(2,4) by auto
qed

text \<open>Two pieces at different addresses do not overlap.\<close>

lemma owned_disjoint:
  assumes inv: "slab_inv w P V B l" and a: "owned V B a n" and b: "owned V B b k" and ne: "a \<noteq> b"
  shows "region a n \<inter> region b k = {}"
proof -
  have small: "region a n \<inter> region b k = {}" if c: "c < SLAB_NUM_CACHES" "a \<in> V c" "n \<le> osz c" and b: "owned V B b k" "a \<noteq> b" for a b n k c
  proof -
    have "owned (V(c := V c - {a})) B b k" using b by (auto simp: owned_def)
    then have "region b k \<subseteq> in_use (V(c := V c - {a})) B"
      unfolding owned_def
    proof (elim disjE exE conjE)
      fix i assume i: "i < SLAB_NUM_CACHES" "b \<in> (V(c := V c - {a})) i" "k \<le> osz i"
      have "region b k \<subseteq> region b (osz i)" using i(3) by (auto simp: region_def)
      then show ?thesis using i(1,2) unfolding in_use_def by blast
    next
      fix p j assume p: "(p, j) \<in> B" "b = pfn_to_phys p" "k \<le> 4096 * 2 ^ j"
      have "region b k \<subseteq> region (pfn_to_phys p) (4096 * 2 ^ j)" using p(2,3) by (auto simp: region_def)
      then show ?thesis using large_block [OF inv p(1)] block_region [of p j] unfolding in_use_def by blast
    qed
    moreover have "region a n \<subseteq> region a (osz c)" using c(3) by (auto simp: region_def)
    ultimately show ?thesis using object_unused [OF inv c(1), of a] c(2) by blast
  qed
  consider c where "c < SLAB_NUM_CACHES" "a \<in> V c" "n \<le> osz c" | c where "c < SLAB_NUM_CACHES" "b \<in> V c" "k \<le> osz c"
    | p i q j where "(p, i) \<in> B" "a = pfn_to_phys p" "n \<le> 4096 * 2 ^ i" "(q, j) \<in> B" "b = pfn_to_phys q" "k \<le> 4096 * 2 ^ j"
    using a b unfolding owned_def by blast
  then show ?thesis
  proof cases
    case 1
    then show ?thesis using small b ne by blast
  next
    case 2
    then show ?thesis using small [of _ b k a n] a ne by blast
  next
    case (3 p i q j)
    note p = 3(1-3) and q = 3(4-6)
    have dis: "blocks_disjoint (slab_blocks P \<union> B)"
      using inv buddy_state_disjoint by (auto simp: slab_inv_def allocator_ok_def)
    have "(p, i) \<noteq> (q, j)" using ne p(2) q(2) by auto
    then have "block_pages (p, i) \<inter> block_pages (q, j) = {}"
      using blocks_disjoint_same [OF dis, of "(p, i)" "(q, j)"] p(1) q(1) by blast
    then have "region (pfn_to_phys p) (4096 * 2 ^ i) \<inter> region (pfn_to_phys q) (4096 * 2 ^ j) = {}"
      unfolding block_region [OF large_block(1) [OF inv p(1)]] block_region [OF large_block(1) [OF inv q(1)]]
      by (rule pages_disjoint)
    moreover have "region a n \<subseteq> region (pfn_to_phys p) (4096 * 2 ^ i)" "region b k \<subseteq> region (pfn_to_phys q) (4096 * 2 ^ j)"
      using p(2,3) q(2,3) by (auto simp: region_def)
    ultimately show ?thesis by blast
  qed
qed

lemma in_use_mono: "(\<And>c. c < SLAB_NUM_CACHES \<Longrightarrow> V c \<subseteq> V' c) \<Longrightarrow> B \<subseteq> B' \<Longrightarrow> in_use V B \<subseteq> in_use V' B'"
  unfolding in_use_def covered_def by (intro Un_mono UN_mono) auto

lemma owned_mono: "owned V B a n \<Longrightarrow> (\<And>c. c < SLAB_NUM_CACHES \<Longrightarrow> V c \<subseteq> V' c) \<Longrightarrow> B \<subseteq> B' \<Longrightarrow> owned V' B' a n"
  unfolding owned_def by blast

text \<open>What one allocation does for the caller.\<close>

definition served :: "kmem \<Rightarrow> pieces \<Rightarrow> u64 \<Rightarrow> addr \<Rightarrow> kmem \<Rightarrow> bool" where
  "served w H sz a w' \<longleftrightarrow> (\<forall>(b, k) \<in> H. \<forall>x. unat x \<in> region b k \<longrightarrow> km_mem w' x = km_mem w x) \<and>
     (a \<noteq> NULL \<and> sz \<le> 0x200000 \<longrightarrow> (\<forall>x. unat x \<in> region a (unat sz) \<longrightarrow> km_mem w' x = 0)) \<and>
     (a = NULL \<and> sz \<noteq> 0 \<and> sz \<le> 4096 \<longrightarrow> exhausted w)"

lemma heap_alloc:
  assumes inv: "heap_inv P V B l w H R"
  obtains a w' P' V' B' l' where "kmalloc w sz = Some (a, w')" "served w H sz a w'"
    "heap_inv P' V' B' l' w' (if a = NULL then H else insert (a, unat sz) H) R"
proof -
  note h = heap_invD [OF inv]
  have piece: "region b k \<subseteq> in_use V B" if "(b, k) \<in> H" for b k using owned_in_use(1) [OF h(1) h(5) [OF that]] .
  from h(1-3) show thesis
  proof (cases rule: kmalloc_ok [where sz = sz])
    case (none w')
    then have "heap_inv P V B l w' H R" using inv by (simp add: heap_inv_def)
    then show thesis using that [of NULL w'] none by (simp add: served_def)
  next
    case (small c a w' P' l')
    let ?V = "V(c := insert a (V c))"
    have "?V(c := ?V c - {a}) = V" using small(8) by auto
    then have "region a (osz c) \<inter> in_use V B = {}" using object_unused [OF small(4,2), of a] by simp
    moreover have "unat a \<in> region a (osz c)" using osz_ge [of c] by (simp add: region_def)
    ultimately have fresh: "a \<noteq> b" if "(b, k) \<in> H" for b k using owned_in_use(2) [OF h(1) h(5) [OF that]] by auto
    have "owned ?V B b k" if "(b, k) \<in> H" for b k by (rule owned_mono [OF h(5) [OF that]]) auto
    moreover have "owned ?V B a (unat sz)" using small(2,3) by (auto simp: owned_def)
    moreover have "inj_on fst (insert (a, unat sz) H)" using h(4) fresh by (force simp: inj_on_insert)
    moreover have "?V i \<subseteq> fst ` (insert (a, unat sz) H \<union> R)" if "i < SLAB_NUM_CACHES" for i
      using h(6) [OF that] by auto
    ultimately have "heap_inv P' ?V B l' w' (insert (a, unat sz) H) R"
      using small(4,9,10) h(7) unfolding heap_inv_def by auto
    moreover have "served w H sz a w'"
      using small(3,5,6,7) piece unfolding served_def by (fastforce simp: region_def)
    ultimately show thesis using that small(1,7) by simp
  next
    case (large p k w')
    let ?B = "insert (p, k) B" and ?a = "pfn_to_phys p"
    note b = large_block [OF large(3), of p k]
    have "page_bytes p \<inter> in_use V B = {}" by (rule page_unused [OF h(1)]) (use large(5) first_in_block [of p k] in blast)
    then have fresh: "?a \<noteq> b" if "(b, j) \<in> H" for b j using owned_in_use(2) [OF h(1) h(5) [OF that]] b(5) by auto
    have "owned V ?B b j" if "(b, j) \<in> H" for b j by (rule owned_mono [OF h(5) [OF that]]) auto
    moreover have "owned V ?B ?a (unat sz)" using large(2) by (auto simp: owned_def)
    moreover have "inj_on fst (insert (?a, unat sz) H)" using h(4) fresh by (force simp: inj_on_insert)
    ultimately have "heap_inv P V ?B l w' (insert (?a, unat sz) H) R"
      using large(3,8) h(3,6,7) unfolding heap_inv_def by auto
    moreover have "served w H sz ?a w'"
      using large(2,6,7,9) piece unfolding served_def by (fastforce simp: region_def)
    ultimately show thesis using that large(1,6) by simp
  qed
qed

lemma heap_free:
  assumes inv: "heap_inv P V B l w H R" and a: "(a, n) \<in> H"
  obtains w' P' V' B' l' where "kfree w a = Some w'"
    "heap_inv P' V' B' l' w' (H - {(a, n)}) (if load64 (km_mem w) (a + 8) = SLAB_FREE_MAGIC then insert (a, n) R else R)"
    "\<And>b k x. (b, k) \<in> H \<Longrightarrow> (b, k) \<noteq> (a, n) \<Longrightarrow> unat x \<in> region b k \<Longrightarrow> km_mem w' x = km_mem w x"
proof -
  note h = heap_invD [OF inv]
  have other: "b \<noteq> a" if "(b, k) \<in> H" "(b, k) \<noteq> (a, n)" for b k using inj_onD [OF h(4) _ that(1) a] that(2) by auto
  have keep: "x \<in> fst ` (H - {(a, n)} \<union> Q)" if "x \<in> fst ` (H \<union> R)" "x \<noteq> a" "R \<subseteq> Q" for x Q using that by auto
  have left: "inj_on fst (H - {(a, n)})" using h(4) by (rule inj_on_subset) auto
  consider (small) c where "c < SLAB_NUM_CACHES" "a \<in> V c" | (large) p k where "(p, k) \<in> B" "a = pfn_to_phys p"
    using h(5) [OF a] unfolding owned_def by blast
  then show thesis
  proof cases
    case (small c)
    let ?V = "V(c := V c - {a})"
    have own: "owned ?V B b k" if "(b, k) \<in> H - {(a, n)}" for b k
      using h(5) [of b k] other [of b k] that unfolding owned_def by fastforce
    have gone: "region a (osz c) \<inter> in_use ?V B = {}" by (rule object_unused [OF h(1) small(1)]) (use small in simp)
    have "unat a \<in> region a (osz c)" using osz_ge [of c] by (simp add: region_def)
    then have a_out: "unat a \<notin> in_use ?V B" using gone by blast
    from h(1) small h(2,3) show thesis
    proof (cases rule: kfree_slab_ok)
      case refused
      have "H - {(a, n)} \<union> insert (a, n) R = insert (a, n) (H \<union> R)" by auto
      then have "heap_inv P V B l w (H - {(a, n)}) (insert (a, n) R)" using inv left unfolding heap_inv_def by auto
      then show thesis using that refused by auto
    next
      case (freed w' P' l')
      define Q where "Q = (if load64 (km_mem w) (a + 8) = SLAB_FREE_MAGIC then insert (a, n) R else R)"
      then have RQ: "R \<subseteq> Q" by auto
      have "x \<noteq> a" if "i < SLAB_NUM_CACHES" "x \<in> ?V i" for i x
        using owned_in_use(2) [OF freed(2), of x 0] a_out that by (auto simp: owned_def)
      then have V: "?V i \<subseteq> fst ` (H - {(a, n)} \<union> Q)" if "i < SLAB_NUM_CACHES" for i
        using h(6) [OF that] that RQ by (intro subsetI keep) (auto split: if_splits)
      have "pfn_to_phys p \<noteq> a" if "(p, k) \<in> B" for p k
        using owned_in_use(2) [OF freed(2), of "pfn_to_phys p" 0] a_out that by (auto simp: owned_def)
      then have B: "pfn_to_phys p \<in> fst ` (H - {(a, n)} \<union> Q)" if "(p, k) \<in> B" for p k
        using h(7) [OF that] that RQ by (intro keep) auto
      have "heap_inv P' ?V B l' w' (H - {(a, n)}) Q" by (rule heap_invI [OF freed(2-4) left own V B])
      moreover have "km_mem w' x = km_mem w x" if "(b, k) \<in> H" "(b, k) \<noteq> (a, n)" "unat x \<in> region b k" for b k x
        using freed(5) owned_in_use(1) [OF freed(2) own, of b k] that by auto
      ultimately show thesis using that freed(1) unfolding Q_def by blast
    qed
  next
    case (large p k)
    obtain w' where w': "kfree w a = Some w'" "slab_inv w' P V (B - {(p, k)}) l" "km_mem w' = km_mem w" "idle w'"
      using kfree_large_ok [OF h(1) large(1) h(2)] large(2) by metis
    define Q where "Q = (if load64 (km_mem w) (a + 8) = SLAB_FREE_MAGIC then insert (a, n) R else R)"
    then have RQ: "R \<subseteq> Q" by auto
    let ?B = "B - {(p, k)}"
    have own: "owned V ?B b j" if "(b, j) \<in> H - {(a, n)}" for b j
      using h(5) [of b j] other [of b j] that large(2) unfolding owned_def by fastforce
    have "x \<noteq> a" if "i < SLAB_NUM_CACHES" "x \<in> V i" for i x
    proof
      assume "x = a"
      moreover have "unat x \<in> region x (osz i)" using osz_ge [of i] by (simp add: region_def)
      ultimately show False
        using object_unused [OF h(1) that(1), of x] that(2) large_block(3,5) [OF h(1) large(1)] large(2)
        unfolding in_use_def by blast
    qed
    then have V: "V i \<subseteq> fst ` (H - {(a, n)} \<union> Q)" if "i < SLAB_NUM_CACHES" for i
      using h(6) [OF that] that RQ by (intro subsetI keep) auto
    have "pfn_to_phys q \<noteq> a" if q: "(q, j) \<in> ?B" for q j
    proof
      assume "pfn_to_phys q = a"
      then have "phys_to_pfn (pfn_to_phys p) = phys_to_pfn (pfn_to_phys q)" using large(2) by (simp only:)
      then have pq: "p = q"
        unfolding phys_to_pfn_to_phys(1) [OF large_block(2) [OF h(1) large(1)]]
          phys_to_pfn_to_phys(1) [OF large_block(2) [OF w'(2) q]] .
      have dis: "blocks_disjoint (slab_blocks P \<union> B)"
        using h(1) buddy_state_disjoint by (auto simp: slab_inv_def allocator_ok_def)
      have "(p, k) = (q, j)"
        by (rule blocks_disjoint_same [OF dis, of _ _ p]) (use large(1) q pq first_in_block in \<open>simp_all add: block_pages_def\<close>)
      then show False using q by simp
    qed
    then have B: "pfn_to_phys q \<in> fst ` (H - {(a, n)} \<union> Q)" if "(q, j) \<in> ?B" for q j
      using h(7) [of q j] that RQ by (intro keep) auto
    have "heap_inv P V ?B l w' (H - {(a, n)}) Q" by (rule heap_invI [OF w'(2,4) h(3) left own V B])
    then show thesis using that w'(1,3) unfolding Q_def by simp
  qed
qed

lemma slab_inv_put:
  assumes inv: "slab_inv w P V B l" and a: "owned V B a n" and m: "\<forall>x. unat x \<notin> region a n \<longrightarrow> m x = km_mem w x"
  shows "slab_inv (w\<lparr>km_mem := m\<rparr>) P V B l"
  using a unfolding owned_def
proof (elim disjE exE conjE)
  fix c assume c: "c < SLAB_NUM_CACHES" "a \<in> V c" "n \<le> osz c"
  have "unat x \<notin> region a n" if "unat x \<notin> region a (osz c)" for x :: u64
    using that c(3) by (auto simp: region_def)
  then have same: "m x = km_mem w x" if "unat x \<notin> region a (osz c)" for x using m that by blast
  have "cache_ok (w\<lparr>km_mem := m\<rparr>) i (P i) (V i) (l i)" if i: "i < SLAB_NUM_CACHES" for i
  proof (rule cache_ok_frame [OF slab_inv_cache [OF inv i]], simp_all)
    fix b assume b: "b \<in> set (l i)"
    have "(a, c) \<noteq> (b, i)" using b c(2) cache_okD(4) [OF slab_inv_cache [OF inv i]] by auto
    then show "load64 m b = load64 (km_mem w) b"
      by (intro slab_load_other [OF inv c(1) _ same i]) (use b c(2) in auto)
  qed
  then show ?thesis using inv by (simp add: slab_inv_def)
next
  fix p k assume p: "(p, k) \<in> B" "a = pfn_to_phys p" "n \<le> 4096 * 2 ^ k"
  have sub: "region a n \<subseteq> (\<Union>q \<in> block_pages (p, k). page_bytes q)"
    using block_region [OF large_block(1) [OF inv p(1)]] p(2,3) by (auto simp: region_def)
  have dis: "covered (slab_blocks P) \<inter> covered B = {}"
  proof -
    have "block_pages (p, 0) = {p}" for p by (auto simp: block_pages_def)
    then have "covered (slab_blocks P) \<subseteq> {p. \<exists>c < SLAB_NUM_CACHES. p \<in> P c}"
      by (auto simp: slab_blocks_def covered_def)
    then show ?thesis using slab_page_not_large [OF inv] by blast
  qed
  have "page_bytes q \<inter> region a n = {}" if q: "q \<in> covered (slab_blocks P)" for q
  proof -
    have "{q} \<inter> block_pages (p, k) = {}" using dis q large_block(4) [OF inv p(1)] by blast
    from pages_disjoint [OF this] show ?thesis using sub by blast
  qed
  then have "slab_inv (w\<lparr>km_mem := m, km_phys := km_phys w\<rparr>) P V B l"
    using inv m by (intro slab_inv_outside [OF inv]) (auto simp: slab_inv_def)
  then show ?thesis by simp
qed

lemma heap_step_inv:
  assumes step: "heap_step (w, H, R) (w', H', R')" and inv: "\<exists>P V B l. heap_inv P V B l w H R"
  shows "\<exists>P V B l. heap_inv P V B l w' H' R'"
proof -
  obtain P V B l where inv: "heap_inv P V B l w H R" using inv by blast
  from step show ?thesis
  proof cases
    case (alloc sz a)
    obtain b u P' V' B' l' where u: "kmalloc w sz = Some (b, u)"
        "heap_inv P' V' B' l' u (if b = NULL then H else insert (b, unat sz) H) R"
      by (rule heap_alloc [OF inv, of sz])
    have "w' = u \<and> H' = (if b = NULL then H else insert (b, unat sz) H) \<and> R' = R" using u(1) alloc by simp
    then show ?thesis using u(2) by blast
  next
    case (free a n)
    obtain u P' V' B' l' where u: "kfree w a = Some u"
        "heap_inv P' V' B' l' u (H - {(a, n)}) (if load64 (km_mem w) (a + 8) = SLAB_FREE_MAGIC then insert (a, n) R else R)"
      by (rule heap_free [OF inv free(3)])
    have "w' = u" using u(1) free(4) by simp
    then show ?thesis using u(2) free(1,2) by blast
  next
    case (put a n m')
    note h = heap_invD [OF inv]
    have "slab_inv w' P V B l" using slab_inv_put [OF h(1) h(5) [OF put(4)] put(5)] put(1) by simp
    moreover have "idle w'" using h(2) put(1) by (simp add: idle_def)
    ultimately show ?thesis using inv put(2,3) unfolding heap_inv_def by blast
  qed
qed

lemma heap_steps_inv:
  assumes "heap_step\<^sup>*\<^sup>* s s'" and "\<exists>P V B l. heap_inv P V B l (fst s) (fst (snd s)) (snd (snd s))"
  shows "\<exists>P V B l. heap_inv P V B l (fst s') (fst (snd s')) (snd (snd s'))"
  using assms
proof (induction rule: rtranclp_induct)
  case (step y z)
  obtain w H R w' H' R' where "y = (w, H, R)" "z = (w', H', R')" by (metis prod.collapse)
  then show ?case using step heap_step_inv [of w H R w' H' R'] by auto
qed

lemma heap_reachable:
  assumes "phys_mem_init m mb = Some st" and "heap_step\<^sup>*\<^sup>* (kmem_boot m st, {}, {}) (w, H, R)"
  obtains P V B l where "heap_inv P V B l w H R"
proof -
  have "heap_inv (\<lambda>_. {}) (\<lambda>_. {}) {} (\<lambda>_. []) (kmem_boot m st) {} {}"
    using kmem_boot_ok [OF assms(1)] by (intro heap_invI) (auto simp: tight_def)
  then show thesis using heap_steps_inv [OF assms(2)] that by auto
qed

lemma owned_bounds:
  assumes inv: "slab_inv w P V B l" and a: "owned V B a n"
  shows "a \<noteq> NULL" "unat a + n \<le> 2 ^ 60"
proof -
  have "a \<noteq> NULL \<and> unat a + n \<le> 2 ^ 60"
    using a unfolding owned_def
  proof (elim disjE exE conjE)
    fix c assume c: "c < SLAB_NUM_CACHES" "a \<in> V c" "n \<le> osz c"
    then have a: "a \<in> set (l c) \<union> V c" by simp
    obtain p where "p \<in> P c" "a \<in> objs c p" by (rule slab_object_page [OF inv c(1) a])
    then show ?thesis using obj_region(3) [OF c(1) slab_inv_page(2) [OF inv c(1)]] slab_word(3) [OF inv c(1) a] c(3) by auto
  next
    fix p k assume p: "(p, k) \<in> B" "a = pfn_to_phys p" "n \<le> 4096 * 2 ^ k"
    note b = large_block [OF inv p(1)]
    have "(p + 2 ^ k) * 4096 \<le> BUDDY_MAX_PAGES * 4096" using b(1) by (rule mult_le_mono1)
    then show ?thesis using p(2,3) unat_pfn_to_phys [OF b(2)] phys_to_pfn_to_phys(3) [OF b(2)] by (simp add: add_mult_distrib)
  qed
  then show "a \<noteq> NULL" "unat a + n \<le> 2 ^ 60" by simp_all
qed

subsection \<open>Properties\<close>

text \<open>C2: the kernel heap is safe.  After initialisation, over every sequence of calls of \<open>kmalloc\<close> with any
  size, of \<open>kfree\<close> of what was handed out, and of writes by the owners to their memory: pieces in use lie
  in the address space and do not overlap; \<open>kmalloc\<close> returns, keeps the contents of every piece in
  use, hands out memory filled with zero bytes (for up to 2 MiB), and gives the null pointer
  for a small request only when no page is free; and \<open>kfree\<close> of a piece returns and keeps the
  contents of all others.\<close>

theorem kernel_heap_safe:
  assumes "phys_mem_init m mb = Some st" and "heap_step\<^sup>*\<^sup>* (kmem_boot m st, {}, {}) (w, H, R)"
  shows "(\<forall>(a, n) \<in> H. a \<noteq> NULL \<and> unat a + n \<le> 2 ^ 60) \<and>
    (\<forall>x \<in> H. \<forall>y \<in> H. x \<noteq> y \<longrightarrow> region (fst x) (snd x) \<inter> region (fst y) (snd y) = {}) \<and>
    (\<exists>a w'. kmalloc w sz = Some (a, w') \<and> served w H sz a w') \<and>
    (\<forall>(a, n) \<in> H. \<exists>w'. kfree w a = Some w' \<and>
      (\<forall>(b, k) \<in> H - {(a, n)}. \<forall>x. unat x \<in> region b k \<longrightarrow> km_mem w' x = km_mem w x))"
proof -
  obtain P V B l where inv: "heap_inv P V B l w H R" by (rule heap_reachable [OF assms])
  note h = heap_invD [OF inv]
  have "region (fst x) (snd x) \<inter> region (fst y) (snd y) = {}" if "x \<in> H" "y \<in> H" "x \<noteq> y" for x y
    using owned_disjoint [OF h(1) h(5) h(5), of "fst x" "snd x" "fst y" "snd y"] inj_onD [OF h(4), of x y] that by auto
  moreover have "\<exists>w'. kfree w a = Some w' \<and> (\<forall>(b, k) \<in> H - {(a, n)}. \<forall>x. unat x \<in> region b k \<longrightarrow> km_mem w' x = km_mem w x)"
    if a: "(a, n) \<in> H" for a n
    by (rule heap_free [OF inv a]) blast
  moreover have "\<exists>a w'. kmalloc w sz = Some (a, w') \<and> served w H sz a w'"
    by (rule heap_alloc [OF inv, of sz]) blast
  ultimately show ?thesis using owned_bounds [OF h(1) h(5)] by blast
qed

text \<open>C15: no page is lost.  In the same sequences, when nothing is in use any more and no piece was released
  with the mark of a free object in its second word, every usable page is back in the free lists of
  the page allocator: the last release of an object of a page takes the page out of its cache.\<close>

theorem kernel_heap_returns_pages:
  assumes "phys_mem_init m mb = Some st" and "heap_step\<^sup>*\<^sup>* (kmem_boot m st, {}, {}) (w, {}, {})"
  shows "covered (free_blocks_of (km_phys w)) = usable_pages (total_phys_pages (km_phys w))"
proof -
  obtain P V B l where inv: "heap_inv P V B l w {} {}" by (rule heap_reachable [OF assms])
  note h = heap_invD [OF inv]
  have "P c = {}" if "c < SLAB_NUM_CACHES" for c using h(3,6) that by (auto simp: tight_def)
  then have "slab_blocks P \<union> B = {}" using h(7) by (auto simp: slab_blocks_def)
  then show ?thesis using h(1) buddy_state_blocks(4) by (auto simp: slab_inv_def allocator_ok_def)
qed

lemma boot_not_exhausted:
  obtains st where "phys_mem_init m NULL = Some st" "\<not> exhausted (kmem_boot m st)"
proof -
  obtain st where st: "phys_mem_init m NULL = Some st" "buddy_state st (usable_pages 16384) {}" by (rule default_init)
  have "(512 :: nat) \<in> usable_pages 16384" by (simp add: usable_pages_def)
  then have "\<not> exhausted (kmem_boot m st)"
    using buddy_state_blocks(4) [OF st(2)] by (auto simp: exhausted_def kmem_boot_def slab_init_def)
  then show thesis using that st(1) by blast
qed

theorem kernel_heap_safe_witness:
  "\<exists>st a w w'. phys_mem_init (\<lambda>_. 7) NULL = Some st \<and> kmalloc (kmem_boot (\<lambda>_. 7) st) 100 = Some (a, w) \<and> a \<noteq> NULL \<and>
     km_mem w a = 0 \<and> kfree w a = Some w'"
proof -
  obtain st where st: "phys_mem_init (\<lambda>_. 7) NULL = Some st" "\<not> exhausted (kmem_boot (\<lambda>_. 7) st)" by (rule boot_not_exhausted)
  from kernel_heap_safe [OF st(1) rtranclp.rtrancl_refl, of 100] obtain a w where
    a: "kmalloc (kmem_boot (\<lambda>_. 7) st) 100 = Some (a, w)" "served (kmem_boot (\<lambda>_. 7) st) {} 100 a w" by blast
  have nn: "a \<noteq> NULL" using a(2) st(2) by (auto simp: served_def)
  then have zero: "km_mem w a = 0" using a(2) by (simp add: served_def region_def)
  have "heap_step (kmem_boot (\<lambda>_. 7) st, {}, {}) (w, {(a, 100)}, {})" using heap_step.alloc [OF a(1)] nn by simp
  then have "heap_step\<^sup>*\<^sup>* (kmem_boot (\<lambda>_. 7) st, {}, {}) (w, {(a, 100)}, {})" by blast
  from kernel_heap_safe [OF st(1) this] obtain w' where "kfree w a = Some w'" by blast
  then show ?thesis using st(1) a(1) nn zero by blast
qed

theorem kernel_heap_returns_pages_witness:
  "\<exists>st a w w'. phys_mem_init (\<lambda>_. 7) NULL = Some st \<and> kmalloc (kmem_boot (\<lambda>_. 7) st) 100 = Some (a, w) \<and> a \<noteq> NULL \<and>
     kfree w a = Some w' \<and> covered (free_blocks_of (km_phys w')) = usable_pages (total_phys_pages (km_phys w'))"
proof -
  let ?w0 = "\<lambda>st. kmem_boot (\<lambda>_. 7) st"
  obtain st where st: "phys_mem_init (\<lambda>_. 7) NULL = Some st" "\<not> exhausted (?w0 st)" by (rule boot_not_exhausted)
  obtain P V B l where i0: "heap_inv P V B l (?w0 st) {} {}" by (rule heap_reachable [OF st(1) rtranclp.rtrancl_refl])
  obtain a w where a: "kmalloc (?w0 st) 100 = Some (a, w)" "served (?w0 st) {} 100 a w" by (rule heap_alloc [OF i0, of 100])
  have nn: "a \<noteq> NULL" using a(2) st(2) by (auto simp: served_def)
  have s1: "heap_step (?w0 st, {}, {}) (w, {(a, 100)}, {})" using heap_step.alloc [OF a(1)] nn by simp
  then have r1: "heap_step\<^sup>*\<^sup>* (?w0 st, {}, {}) (w, {(a, 100)}, {})" by blast
  obtain P V B l where i1: "heap_inv P V B l w {(a, 100)} {}" by (rule heap_reachable [OF st(1) r1])
  have bound: "unat a + 100 \<le> 2 ^ 60" using owned_bounds(2) [OF heap_invD(1) [OF i1] heap_invD(5) [OF i1], of a 100] by simp
  have "load64 (km_mem w) (a + 8) = load64 (\<lambda>_. 0) (a + 8)"
  proof (rule load64_cong)
    have u: "unat (a + 8) = unat a + 8" using bound unat_plus_of_nat [of a 8] by simp
    show "unat (a + 8) + 8 \<le> 2 ^ 64" using bound u by simp
    show "km_mem w x = 0" if "unat x \<in> region (a + 8) 8" for x using a(2) nn that u by (auto simp: served_def region_def)
  qed
  also have "\<dots> = 0" by (simp add: load64_def map_replicate_const numeral_eq_Suc)
  finally have unmarked: "load64 (km_mem w) (a + 8) \<noteq> SLAB_FREE_MAGIC" by simp
  obtain w' where w': "kfree w a = Some w'" by (rule heap_free [OF i1, of a 100]) simp
  have "heap_step (w, {(a, 100)}, {}) (w', {}, {})" using heap_step.free [OF _ w', of 100 "{(a, 100)}" "{}"] unmarked by simp
  with r1 have "heap_step\<^sup>*\<^sup>* (?w0 st, {}, {}) (w', {}, {})" by (rule rtranclp.rtrancl_into_rtrancl)
  from kernel_heap_returns_pages [OF st(1) this] show ?thesis using st(1) a(1) nn w' by blast
qed

end
