(* ===== verification/Blockdev.thy ===== *)
theory Blockdev
  imports Bytes
begin

text \<open>
  Block devices, \<^verbatim>\<open>kernel/block_dev.c\<close>, and the RAM disk of \<^verbatim>\<open>kernel/ramdisk.c\<close>.  A driver works on device
  contents of some type \<open>'d\<close>; a read yields the return value and the bytes stored into the caller's
  buffer, a write the return value and the new contents.  The interface that file systems rely on is the
  locale \<open>block_driver\<close>, which the RAM disk provides.
\<close>

subsection \<open>The abstraction layer\<close>

record 'd block_device =
  bd_name :: "u8 list"
  bd_block_size :: u32
  bd_total_sectors :: u64
  bd_read :: "('d \<Rightarrow> u64 \<Rightarrow> int \<Rightarrow> int \<times> u8 list) option"
  bd_write :: "('d \<Rightarrow> u8 list \<Rightarrow> u64 \<Rightarrow> int \<Rightarrow> int \<times> 'd) option"

definition block_dev_register :: "'d block_device list \<Rightarrow> 'd block_device option \<Rightarrow> int \<times> 'd block_device list" where
  "block_dev_register l bdev = (case bdev of None \<Rightarrow> (- 1, l) | Some b \<Rightarrow> (0, b # l))"

fun block_dev_find :: "'d block_device list \<Rightarrow> u8 list \<Rightarrow> 'd block_device option" where
  "block_dev_find [] name = None"
| "block_dev_find (b # l) name = (if bd_name b = name then Some b else block_dev_find l name)"

definition block_dev_read :: "'d block_device \<Rightarrow> 'd \<Rightarrow> u64 \<Rightarrow> int \<Rightarrow> int \<times> u8 list" where
  "block_dev_read b d sector count =
     (case bd_read b of
        None \<Rightarrow> (- 1, [])
      | Some rd \<Rightarrow>
          if count \<le> 0 then (- 1, [])
          else if bd_total_sectors b < sector \<or> bd_total_sectors b - sector < of_int count then (- 1, [])
          else rd d sector count)"

definition block_dev_write :: "'d block_device \<Rightarrow> 'd \<Rightarrow> u8 list \<Rightarrow> u64 \<Rightarrow> int \<Rightarrow> int \<times> 'd" where
  "block_dev_write b d buf sector count =
     (case bd_write b of
        None \<Rightarrow> (- 1, d)
      | Some wr \<Rightarrow>
          if count \<le> 0 then (- 1, d)
          else if bd_total_sectors b < sector \<or> bd_total_sectors b - sector < of_int count then (- 1, d)
          else wr d buf sector count)"

subsection \<open>The RAM disk\<close>

definition ramdisk_read :: "u32 \<Rightarrow> u8 list \<Rightarrow> u64 \<Rightarrow> int \<Rightarrow> int \<times> u8 list" where
  "ramdisk_read block_size d sector count =
     (if count \<le> 0 then (- 1, [])
      else let byte_offset = sector * ucast block_size; byte_count = of_int count * ucast block_size in
        if of_nat (length d) < byte_offset + byte_count then (- 1, [])
        else if byte_offset + byte_count < byte_offset then (- 1, [])
        else (0, take (unat byte_count) (drop (unat byte_offset) d)))"

definition ramdisk_write :: "u32 \<Rightarrow> u8 list \<Rightarrow> u8 list \<Rightarrow> u64 \<Rightarrow> int \<Rightarrow> int \<times> u8 list" where
  "ramdisk_write block_size d buf sector count =
     (if count \<le> 0 then (- 1, d)
      else let byte_offset = sector * ucast block_size; byte_count = of_int count * ucast block_size in
        if of_nat (length d) < byte_offset + byte_count then (- 1, d)
        else if byte_offset + byte_count < byte_offset then (- 1, d)
        else (0, overwrite d (unat byte_offset) (take (unat byte_count) buf)))"

text \<open>\<open>ramdisk0\<close>, and the device for a size in MiB; its contents are the first \<open>size\<close> bytes of the static buffer.\<close>

definition ramdisk_name :: "u8 list" where
  "ramdisk_name = [0x72, 0x61, 0x6D, 0x64, 0x69, 0x73, 0x6B, 0x30]"

definition ramdisk_size :: "u64 \<Rightarrow> u64" where
  "ramdisk_size size_mb =
     (let size = (if size_mb \<noteq> 0 then size_mb * 1024 * 1024 else 0x100000)
      in if 0x100000 < size then 0x100000 else size)"

definition ramdisk_dev :: "u64 \<Rightarrow> u8 list block_device" where
  "ramdisk_dev size_mb = \<lparr>bd_name = ramdisk_name, bd_block_size = 512, bd_total_sectors = ramdisk_size size_mb div 512,
     bd_read = Some (ramdisk_read 512), bd_write = Some (ramdisk_write 512)\<rparr>"

definition ramdisk_init ::
  "bool \<Rightarrow> bool \<Rightarrow> u8 list \<Rightarrow> u8 list block_device list \<Rightarrow> u64 \<Rightarrow> int \<times> u8 list block_device list \<times> u8 list" where
  "ramdisk_init bdev_ok priv_ok ramdisk_buffer l size_mb =
     (if \<not> bdev_ok then (- 1, l, [])
      else if \<not> priv_ok then (- 1, l, [])
      else let (r, l') = block_dev_register l (Some (ramdisk_dev size_mb))
           in (r, l', take (unat (ramdisk_size size_mb)) ramdisk_buffer))"

subsection \<open>The interface\<close>

text \<open>What a driver promises for devices with contents \<open>d\<close> that satisfy \<open>ok\<close>: reads and writes inside the device
  succeed, a read returns what was last written, and writes change nothing else.\<close>

locale block_driver =
  fixes rd :: "'d \<Rightarrow> u64 \<Rightarrow> int \<Rightarrow> int \<times> u8 list" and wr :: "'d \<Rightarrow> u8 list \<Rightarrow> u64 \<Rightarrow> int \<Rightarrow> int \<times> 'd"
    and ok :: "'d \<Rightarrow> bool" and sz :: nat and cap :: nat
  assumes cap_small: "cap * sz < 2 ^ 40"
    and read_ok: "ok d \<Longrightarrow> 0 < c \<Longrightarrow> unat s + nat c \<le> cap \<Longrightarrow>
      fst (rd d s c) = 0 \<and> length (snd (rd d s c)) = nat c * sz"
    and write_ok: "ok d \<Longrightarrow> 0 < c \<Longrightarrow> unat s + nat c \<le> cap \<Longrightarrow> length buf = nat c * sz \<Longrightarrow>
      fst (wr d buf s c) = 0 \<and> ok (snd (wr d buf s c))"
    and read_written: "ok d \<Longrightarrow> 0 < c \<Longrightarrow> unat s + nat c \<le> cap \<Longrightarrow> length buf = nat c * sz \<Longrightarrow>
      snd (rd (snd (wr d buf s c)) s c) = buf"
    and read_other: "ok d \<Longrightarrow> 0 < c \<Longrightarrow> unat s + nat c \<le> cap \<Longrightarrow> length buf = nat c * sz \<Longrightarrow>
      0 < c' \<Longrightarrow> unat s' + nat c' \<le> cap \<Longrightarrow> unat s + nat c \<le> unat s' \<or> unat s' + nat c' \<le> unat s \<Longrightarrow>
      snd (rd (snd (wr d buf s c)) s' c') = snd (rd d s' c')"

text \<open>The RAM disk is such a driver, for every sector size and capacity.\<close>

lemma ramdisk_range:
  fixes bsz :: u32 and s :: u64
  assumes "unat bsz = sz" and "cap * sz < 2 ^ 40" and "0 < c" and "unat s + nat c \<le> cap"
  shows "unat (s * ucast bsz :: u64) = unat s * sz" and "unat (of_int c * ucast bsz :: u64) = nat c * sz"
    and "unat (s * ucast bsz + of_int c * ucast bsz :: u64) = unat s * sz + nat c * sz"
    and "unat s * sz + nat c * sz \<le> cap * sz"
proof -
  have bs: "unat (ucast bsz :: u64) = sz" using assms(1) by (simp add: unat_ucast_up)
  have le: "(unat s + nat c) * sz \<le> cap * sz" using assms(4) by (rule mult_le_mono1)
  then show sum: "unat s * sz + nat c * sz \<le> cap * sz" by (simp add: add_mult_distrib)
  show s: "unat (s * ucast bsz :: u64) = unat s * sz" using sum assms(2) bs by (simp add: unat_word_ariths)
  have "of_int c = (of_nat (nat c) :: u64)" using assms(3) by (simp add: of_nat_nat)
  then have "of_int c * ucast bsz = (of_nat (nat c * sz) :: u64)"
    using arg_cong [OF bs, of "of_nat :: nat \<Rightarrow> u64"] by simp
  then show n: "unat (of_int c * ucast bsz :: u64) = nat c * sz" using sum assms(2) by (simp add: unat_of_nat del: of_nat_mult)
  show "unat (s * ucast bsz + of_int c * ucast bsz :: u64) = unat s * sz + nat c * sz"
    using unat_plus_le [of "s * ucast bsz :: u64" "of_int c * ucast bsz"] s n sum assms(2) by simp
qed

lemma ramdisk_ops:
  fixes bsz :: u32 and s :: u64
  assumes "unat bsz = sz" and "cap * sz < 2 ^ 40" and "0 < c" and "unat s + nat c \<le> cap" and "length d = cap * sz"
  shows "ramdisk_read bsz d s c = (0, take (nat c * sz) (drop (unat s * sz) d))"
    and "length buf = nat c * sz \<Longrightarrow> ramdisk_write bsz d buf s c = (0, overwrite d (unat s * sz) buf)"
proof -
  note r = ramdisk_range [OF assms(1-4)]
  have "\<not> of_nat (length d) < s * ucast bsz + of_int c * ucast bsz"
    using r assms(2,5) by (simp add: word_less_nat_alt unat_of_nat del: of_nat_mult)
  moreover have "\<not> s * ucast bsz + of_int c * ucast bsz < s * ucast bsz" using r by (simp add: word_less_nat_alt)
  ultimately show "ramdisk_read bsz d s c = (0, take (nat c * sz) (drop (unat s * sz) d))"
      "length buf = nat c * sz \<Longrightarrow> ramdisk_write bsz d buf s c = (0, overwrite d (unat s * sz) buf)"
    using assms(3) r by (simp_all add: ramdisk_read_def ramdisk_write_def Let_def)
qed

lemma ramdisk_driver:
  assumes "unat bsz = sz" and "cap * sz < 2 ^ 40"
  shows "block_driver (ramdisk_read bsz) (ramdisk_write bsz) (\<lambda>d. length d = cap * sz) sz cap"
proof
  show "cap * sz < 2 ^ 40" by (rule assms(2))
next
  fix d :: "u8 list" and c :: int and s :: u64
  assume h: "length d = cap * sz" "0 < c" "unat s + nat c \<le> cap"
  note r = ramdisk_range [OF assms h(2,3)]
  show "fst (ramdisk_read bsz d s c) = 0 \<and> length (snd (ramdisk_read bsz d s c)) = nat c * sz"
    using ramdisk_ops(1) [OF assms h(2,3,1)] r(4) h(1) by simp
  fix buf :: "u8 list"
  assume buf: "length buf = nat c * sz"
  note w = ramdisk_ops(2) [OF assms h(2,3,1) buf]
  have fit: "unat s * sz + length buf \<le> length d" using r(4) h(1) buf by simp
  then have len: "length (overwrite d (unat s * sz) buf) = cap * sz" using h(1) by simp
  then show "fst (ramdisk_write bsz d buf s c) = 0 \<and> length (snd (ramdisk_write bsz d buf s c)) = cap * sz"
    using w by simp
  show "snd (ramdisk_read bsz (snd (ramdisk_write bsz d buf s c)) s c) = buf"
    using w ramdisk_ops(1) [OF assms h(2,3) len] take_overwrite [OF fit] buf by simp
  fix c' :: int and s' :: u64
  assume h': "0 < c'" "unat s' + nat c' \<le> cap" "unat s + nat c \<le> unat s' \<or> unat s' + nat c' \<le> unat s"
  have "(unat s + nat c) * sz \<le> unat s' * sz \<or> (unat s' + nat c') * sz \<le> unat s * sz"
    using h'(3) mult_le_mono1 by blast
  then have apart: "unat s' * sz + nat c' * sz \<le> unat s * sz \<or> unat s * sz + length buf \<le> unat s' * sz"
    using buf by (auto simp: add_mult_distrib)
  show "snd (ramdisk_read bsz (snd (ramdisk_write bsz d buf s c)) s' c') = snd (ramdisk_read bsz d s' c')"
    using w ramdisk_ops(1) [OF assms h'(1,2) len] ramdisk_ops(1) [OF assms h'(1,2) h(1)]
      slice_overwrite [OF fit apart] ramdisk_range(4) [OF assms h'(1,2)] h(1) by simp
qed

interpretation ramdisk: block_driver "ramdisk_read 512" "ramdisk_write 512" "\<lambda>d. length d = 2048 * 512" 512 2048
  by (rule ramdisk_driver) simp_all

end
