(* ===== verification/Journal.thy ===== *)
theory Journal
  imports Blockdev
begin

text \<open>
  The write-ahead log, \<^verbatim>\<open>kernel/journal.c\<close>: the on-disk formats byte by byte, transactions, the commit
  protocol, recovery and the self tests.

  \<open>None\<close> is undefined behaviour: a division by a zero sector size, an access behind a buffer, or memory that
  is released twice.  Requests for kernel memory take their outcomes from a list in the state; after
  the end of the list they succeed.  Buffers from \<open>kmalloc\<close> start as zero bytes.
\<close>

subsection \<open>State\<close>

abbreviation ENOSPC :: int where "ENOSPC \<equiv> 28"
abbreviation EROFS :: int where "EROFS \<equiv> 30"
abbreviation EIO :: int where "EIO \<equiv> 5"

abbreviation JOURNAL_MAGIC_SB :: u32 where "JOURNAL_MAGIC_SB \<equiv> 0x4A524E4C"
abbreviation JOURNAL_MAGIC_DESC :: u32 where "JOURNAL_MAGIC_DESC \<equiv> 0x5452414E"
abbreviation JOURNAL_MAGIC_COMMIT :: u32 where "JOURNAL_MAGIC_COMMIT \<equiv> 0x434F4D54"
abbreviation MAX_JOURNAL_BLOCKS :: u32 where "MAX_JOURNAL_BLOCKS \<equiv> 1024"

text \<open>The two arrays of the current transaction are one list of target blocks and data.\<close>

record 'd journal_handle =
  j_bdev :: "'d block_device"
  j_block_size :: u32
  j_start :: u64
  j_blocks :: u64
  j_head :: u64
  j_tail :: u64
  j_sequence :: u64
  j_in_transaction :: bool
  j_txn :: "(u32 \<times> u8 list) list"
  j_txn_capacity :: u32
  j_dirty :: bool
  j_fs_total_blocks :: u64

record 'd jworld =
  jw_dev :: 'd
  jw_journal :: "'d journal_handle"
  jw_initialized :: bool
  jw_allocs :: "bool list"

definition upd_journal :: "'d jworld \<Rightarrow> ('d journal_handle \<Rightarrow> 'd journal_handle) \<Rightarrow> 'd jworld" where
  "upd_journal w f = w\<lparr>jw_journal := f (jw_journal w)\<rparr>"

definition alloc_ok :: "'d jworld \<Rightarrow> bool" where
  "alloc_ok w = (case jw_allocs w of [] \<Rightarrow> True | a # _ \<Rightarrow> a)"

definition alloc_next :: "'d jworld \<Rightarrow> 'd jworld" where
  "alloc_next w = w\<lparr>jw_allocs := tl (jw_allocs w)\<rparr>"

subsection \<open>Helpers\<close>

definition calc_checksum :: "u8 list \<Rightarrow> u32" where
  "calc_checksum data = foldl (\<lambda>sum b. (push_bit 1 sum OR drop_bit 31 sum) XOR ucast b) 0 data"

definition journal_to_device :: "'d journal_handle \<Rightarrow> u64 \<Rightarrow> u64" where
  "journal_to_device j offset = j_start j + offset"

definition sectors_per_block :: "'d journal_handle \<Rightarrow> u32 ub" where
  "sectors_per_block j =
     (if bd_block_size (j_bdev j) = 0 then None else Some (j_block_size j div bd_block_size (j_bdev j)))"

definition journal_write_block :: "'d jworld \<Rightarrow> u64 \<Rightarrow> u8 list \<Rightarrow> (int \<times> 'd jworld) ub" where
  "journal_write_block w offset data =
     do { spb \<leftarrow> sectors_per_block (jw_journal w);
          let sector = journal_to_device (jw_journal w) offset * ucast spb;
          let (r, d) = block_dev_write (j_bdev (jw_journal w)) (jw_dev w) data sector (sint spb);
          Some (r, w\<lparr>jw_dev := d\<rparr>) }"

text \<open>A read replaces the first bytes of the buffer \<open>buf\<close>.\<close>

definition journal_read_block :: "'d jworld \<Rightarrow> u64 \<Rightarrow> u8 list \<Rightarrow> (int \<times> u8 list) ub" where
  "journal_read_block w offset buf =
     do { spb \<leftarrow> sectors_per_block (jw_journal w);
          let sector = journal_to_device (jw_journal w) offset * ucast spb;
          let (r, data) = block_dev_read (j_bdev (jw_journal w)) (jw_dev w) sector (sint spb);
          Some (r, data @ drop (length data) buf) }"

definition block_buf :: "'d jworld \<Rightarrow> u8 list" where
  "block_buf w = replicate (unat (j_block_size (jw_journal w))) 0"

definition jsb_fields :: "'d journal_handle \<Rightarrow> u8 list" where
  "jsb_fields j =
     le_bytes 4 JOURNAL_MAGIC_SB @ le_bytes 4 (j_block_size j) @ le_bytes 4 (0 :: u32) @
     le_bytes 8 (j_start j) @ le_bytes 8 (j_blocks j) @ le_bytes 8 (j_head j) @ le_bytes 8 (j_tail j) @
     le_bytes 8 (j_sequence j) @ le_bytes 4 (if j_dirty j then 1 else 0 :: u32)"

definition jsb_bytes :: "'d journal_handle \<Rightarrow> u8 list" where
  "jsb_bytes j =
     jsb_fields j @ le_bytes 4 (calc_checksum (jsb_fields j)) @ replicate (unat (j_block_size j) - 60) 0"

definition write_jsb :: "'d jworld \<Rightarrow> (int \<times> 'd jworld) ub" where
  "write_jsb w =
     (let w1 = alloc_next w in
      if \<not> alloc_ok w then Some (- 1, w1)
      else journal_write_block w1 0 (jsb_bytes (jw_journal w1)))"

definition free_transaction :: "'d jworld \<Rightarrow> 'd jworld" where
  "free_transaction w = upd_journal w (\<lambda>j. j\<lparr>j_txn := [], j_txn_capacity := 0, j_in_transaction := False\<rparr>)"

text \<open>Making room: the tail moves on while the head has caught up with it.\<close>

partial_function (option) advance_tail :: "'d jworld \<Rightarrow> 'd jworld option" where [code]:
  "advance_tail w =
     (if j_head (jw_journal w) \<ge> j_tail (jw_journal w) + (j_blocks (jw_journal w) - 1)
      then if \<not> alloc_ok w then Some (alloc_next w)
        else do {
          (r, buf) \<leftarrow> journal_read_block (alloc_next w) (j_tail (jw_journal w)) (block_buf w);
          advance_tail (upd_journal (alloc_next w) (\<lambda>j. j\<lparr>j_tail := j_tail j +
            (if r = 0 \<and> fld32 0 buf = JOURNAL_MAGIC_DESC then ucast (1 + fld32 12 buf + 1) else 1)\<rparr>)) }
      else Some w)"

definition advance_head :: "'d jworld \<Rightarrow> u64 \<Rightarrow> 'd jworld ub" where
  "advance_head w n =
     do { w1 \<leftarrow> advance_tail (upd_journal w (\<lambda>j. j\<lparr>j_head := j_head j + n\<rparr>));
          let w2 = (if j_head (jw_journal w1) \<ge> j_blocks (jw_journal w1)
            then upd_journal w1 (\<lambda>j. j\<lparr>j_head := j_head j - j_blocks j,
                   j_tail := (if j_tail j \<ge> j_blocks j then j_tail j - j_blocks j else j_tail j)\<rparr>)
            else w1);
          (r, w3) \<leftarrow> write_jsb w2;
          Some w3 }"

subsection \<open>Transactions\<close>

definition journal_begin :: "'d jworld \<Rightarrow> u32 \<Rightarrow> int \<times> 'd jworld" where
  "journal_begin w max_blocks =
     (if \<not> jw_initialized w then (- 1, w)
      else if j_in_transaction (jw_journal w) then (- 1, w)
      else
        let max1 = (if max_blocks = 0 then 1 else max_blocks);
            desc_capacity = (ucast ((ucast (j_block_size (jw_journal w)) - 36 :: u64) div 20) :: u32);
            max2 = (if max1 > desc_capacity then desc_capacity else max1);
            w1 = alloc_next (alloc_next w)
        in if \<not> alloc_ok w \<or> \<not> alloc_ok (alloc_next w) then (- 1, w1)
           else (0, upd_journal w1 (\<lambda>j. j\<lparr>j_in_transaction := True, j_txn := [], j_txn_capacity := max2\<rparr>)))"

definition journal_write :: "'d jworld \<Rightarrow> u64 \<Rightarrow> u8 list \<Rightarrow> (int \<times> 'd jworld) ub" where
  "journal_write w fs_block data =
     (let j = jw_journal w in
      if \<not> jw_initialized w \<or> \<not> j_in_transaction j then Some (- 1, w)
      else if unat (j_txn_capacity j) \<le> length (j_txn j) then Some (- 1, w)
      else if \<not> alloc_ok w then Some (- 1, alloc_next w)
      else if length data < unat (j_block_size j) then None
      else Some (0, upd_journal (alloc_next w)
        (\<lambda>j. j\<lparr>j_txn := j_txn j @ [(ucast fs_block, take (unat (j_block_size j)) data)]\<rparr>)))"

subsection \<open>Commit\<close>

definition desc_header :: "u64 \<Rightarrow> u32 \<Rightarrow> u32 \<Rightarrow> u8 list" where
  "desc_header seq n csum =
     le_bytes 4 JOURNAL_MAGIC_DESC @ le_bytes 8 seq @ le_bytes 4 n @ le_bytes 4 csum @ replicate 16 0"

definition desc_entry :: "u32 \<times> u8 list \<Rightarrow> u8 list" where
  "desc_entry e = le_bytes 8 (ucast (fst e) :: u64) @ le_bytes 4 (calc_checksum (snd e)) @ replicate 8 0"

text \<open>The header's checksum is taken over its first 32 bytes while its own field is still zero.\<close>

definition desc_bytes :: "nat \<Rightarrow> u64 \<Rightarrow> (u32 \<times> u8 list) list \<Rightarrow> u8 list ub" where
  "desc_bytes block_size seq txn =
     (let n = of_nat (length txn) :: u32;
          used = desc_header seq n (calc_checksum (take 32 (desc_header seq n 0))) @ concat (map desc_entry txn)
      in if block_size < length used then None else Some (used @ replicate (block_size - length used) 0))"

text \<open>The commit record is a local variable of 32 bytes, but a whole block is written from its address:
  \<open>stk\<close> are the bytes that follow it on the stack.\<close>

definition commit_fields :: "u64 \<Rightarrow> u32 \<Rightarrow> u8 list" where
  "commit_fields seq csum = le_bytes 4 JOURNAL_MAGIC_COMMIT @ le_bytes 8 seq @ le_bytes 4 csum @ replicate 16 0"

definition commit_bytes :: "u8 list \<Rightarrow> u64 \<Rightarrow> u8 list" where
  "commit_bytes stk seq = commit_fields seq (calc_checksum (take 28 (commit_fields seq 0))) @ stk"

fun write_data_blocks :: "'d jworld \<Rightarrow> u64 \<Rightarrow> (u32 \<times> u8 list) list \<Rightarrow> (int \<times> 'd jworld) ub" where
  "write_data_blocks w pos [] = Some (0, w)"
| "write_data_blocks w pos (e # es) =
     do { (r, w1) \<leftarrow> journal_write_block w pos (snd e);
          if r < 0 then Some (- 1, w1) else write_data_blocks w1 (pos + 1) es }"

fun checkpoint_blocks :: "'d jworld \<Rightarrow> u32 \<Rightarrow> (u32 \<times> u8 list) list \<Rightarrow> int \<times> 'd jworld" where
  "checkpoint_blocks w spb [] = (0, w)"
| "checkpoint_blocks w spb (e # es) =
     (let (r, d) = block_dev_write (j_bdev (jw_journal w)) (jw_dev w) (snd e) (ucast (fst e * spb)) (sint spb)
      in if r < 0 then (- 1, w\<lparr>jw_dev := d\<rparr>) else checkpoint_blocks (w\<lparr>jw_dev := d\<rparr>) spb es)"

text \<open>Phases 1 to 3: the descriptor, the data and the commit record are in the log.\<close>

definition commit_log :: "'d jworld \<Rightarrow> u8 list \<Rightarrow> u64 \<Rightarrow> (int \<times> 'd jworld) ub" where
  "commit_log w stk seq =
     do { desc \<leftarrow> desc_bytes (unat (j_block_size (jw_journal w))) seq (j_txn (jw_journal w));
          (r0, w1) \<leftarrow> write_jsb (upd_journal w (\<lambda>j. j\<lparr>j_dirty := True\<rparr>));
          let head = j_head (jw_journal w1); let txn = j_txn (jw_journal w1);
          (r1, w2) \<leftarrow> journal_write_block w1 head desc;
          if r1 < 0 then Some (- 1, w2)
          else do {
            (r2, w3) \<leftarrow> write_data_blocks w2 (head + 1) txn;
            if r2 < 0 then Some (- 1, w3)
            else do {
              (r3, w4) \<leftarrow> journal_write_block w3 (head + 1 + of_nat (length txn)) (commit_bytes stk seq);
              Some (if r3 < 0 then - 1 else 0, w4) } } }"

definition journal_commit :: "'d jworld \<Rightarrow> u8 list \<Rightarrow> (int \<times> 'd jworld) ub" where
  "journal_commit w stk =
     (let j = jw_journal w in
      if \<not> jw_initialized w \<or> \<not> j_in_transaction j then Some (- 1, w)
      else if j_txn j = [] then Some (0, free_transaction w)
      else
        let w0 = alloc_next (upd_journal w (\<lambda>j. j\<lparr>j_sequence := j_sequence j + 1\<rparr>)) in
        if \<not> alloc_ok w then Some (- 1, free_transaction w0)
        else do {
          (r, w1) \<leftarrow> commit_log w0 stk (j_sequence j);
          if r < 0 then Some (- 1, free_transaction w1)
          else do {
            spb \<leftarrow> sectors_per_block (jw_journal w1);
            let (r', w2) = checkpoint_blocks w1 spb (j_txn (jw_journal w1));
            if r' < 0 then Some (- 1, free_transaction w2)
            else do {
              w3 \<leftarrow> advance_head w2 (1 + of_nat (length (j_txn j)) + 1);
              (r'', w4) \<leftarrow> write_jsb (upd_journal w3 (\<lambda>j. j\<lparr>j_dirty := False\<rparr>));
              Some (0, free_transaction w4) } } })"

definition journal_rollback :: "'d jworld \<Rightarrow> int \<times> 'd jworld" where
  "journal_rollback w =
     (if \<not> jw_initialized w \<or> \<not> j_in_transaction (jw_journal w) then (- 1, w) else (0, free_transaction w))"

subsection \<open>Recovery\<close>

text \<open>Replaying the \<open>n\<close> remaining blocks of the transaction whose descriptor block is \<open>desc\<close>.\<close>

fun replay_blocks :: "'d jworld \<Rightarrow> u32 \<Rightarrow> u8 list \<Rightarrow> u64 \<Rightarrow> nat \<Rightarrow> nat \<Rightarrow> 'd jworld ub" where
  "replay_blocks w spb desc pos i 0 = Some w"
| "replay_blocks w spb desc pos i (Suc n) =
     (let j = jw_journal w; at = 36 + 20 * i in
      if unat (j_block_size j) < at + 20 then None
      else
        let fs_block = fld64 at desc; csum = fld32 (at + 8) desc in
        if 0 < j_fs_total_blocks j \<and> j_fs_total_blocks j \<le> fs_block then replay_blocks w spb desc pos (Suc i) n
        else if \<not> alloc_ok w then replay_blocks (alloc_next w) spb desc pos (Suc i) n
        else do {
          (r, data) \<leftarrow> journal_read_block (alloc_next w) (pos + 1 + of_nat i) (block_buf w);
          let w1 = (if r = 0 \<and> calc_checksum data = csum
            then (alloc_next w)\<lparr>jw_dev := snd (block_dev_write (j_bdev j) (jw_dev w) data (fs_block * ucast spb) (sint spb))\<rparr>
            else alloc_next w);
          replay_blocks w1 spb desc pos (Suc i) n })"

text \<open>Descriptor and commit record are read into the same buffer: when the sequence number of the commit
  record is compared with that of the descriptor, the descriptor has already been overwritten.\<close>

partial_function (option) recover_loop :: "'d jworld \<Rightarrow> u64 \<Rightarrow> u64 \<Rightarrow> u8 list \<Rightarrow> 'd jworld option" where [code]:
  "recover_loop w pos end' buf =
     (if pos < end'
      then do {
        (r1, hdr) \<leftarrow> journal_read_block w pos buf;
        if r1 < 0 then Some w
        else if fld32 0 hdr \<noteq> JOURNAL_MAGIC_DESC then recover_loop w (pos + 1) end' hdr
        else if end' \<le> pos + 1 + ucast (fld32 12 hdr) then Some w
        else do {
          (r2, cmt) \<leftarrow> journal_read_block w (pos + 1 + ucast (fld32 12 hdr)) hdr;
          if r2 < 0 then Some w
          else if fld32 0 cmt \<noteq> JOURNAL_MAGIC_COMMIT \<or> fld64 4 cmt \<noteq> fld64 4 cmt
          then recover_loop w (pos + 1 + ucast (fld32 12 hdr) + 1) end' cmt
          else do {
            (r3, desc) \<leftarrow> journal_read_block w pos cmt;
            if r3 < 0 then Some w
            else do {
              spb \<leftarrow> sectors_per_block (jw_journal w);
              w1 \<leftarrow> replay_blocks w spb desc pos 0 (unat (fld32 12 desc));
              recover_loop w1 (pos + 1 + ucast (fld32 12 hdr) + 1) end' desc } } } }
      else Some w)"

definition journal_recover :: "'d jworld \<Rightarrow> (int \<times> 'd jworld) ub" where
  "journal_recover w =
     (if \<not> jw_initialized w then Some (- 1, w)
      else if \<not> alloc_ok w then Some (- 1, alloc_next w)
      else do {
        w1 \<leftarrow> recover_loop (alloc_next w) (j_tail (jw_journal w)) (j_head (jw_journal w)) (block_buf w);
        (r, w2) \<leftarrow> write_jsb (upd_journal w1 (\<lambda>j. j\<lparr>j_tail := j_head j, j_dirty := False\<rparr>));
        Some (0, w2) })"

subsection \<open>Initialisation\<close>

definition journal_fresh :: "'d block_device \<Rightarrow> u32 \<Rightarrow> u64 \<Rightarrow> u64 \<Rightarrow> u64 \<Rightarrow> 'd journal_handle" where
  "journal_fresh b block_size journal_start journal_blocks fs_total_blocks =
     \<lparr>j_bdev = b, j_block_size = block_size, j_start = journal_start, j_blocks = journal_blocks, j_head = 0,
      j_tail = 0, j_sequence = 0, j_in_transaction = False, j_txn = [], j_txn_capacity = 0, j_dirty = False,
      j_fs_total_blocks = fs_total_blocks\<rparr>"

text \<open>After a recovery the buffer, already released before it, is released again.\<close>

definition journal_init ::
  "'d jworld \<Rightarrow> 'd block_device option \<Rightarrow> u64 \<Rightarrow> u64 \<Rightarrow> u32 \<Rightarrow> u64 \<Rightarrow> (int \<times> 'd jworld) ub" where
  "journal_init w bdev journal_start journal_blocks block_size fs_total_blocks =
     (case bdev of
        None \<Rightarrow> Some (- 1, w)
      | Some b \<Rightarrow>
          if journal_blocks < 8 \<or> block_size < 512 then Some (- 1, w)
          else if bd_block_size b = 0 \<or> block_size div bd_block_size b = 0 then None
          else if bd_total_sectors b div ucast (block_size div bd_block_size b) < 128 then Some (- ENOSPC, w)
          else if bd_write b = None then Some (- EROFS, w)
          else
            let w1 = alloc_next (w\<lparr>jw_journal := journal_fresh b block_size journal_start journal_blocks fs_total_blocks\<rparr>) in
            if \<not> alloc_ok w then Some (- 1, w1)
            else do {
              (r, buf) \<leftarrow> journal_read_block w1 0 (block_buf w1);
              if r = 0 \<and> fld32 0 buf = JOURNAL_MAGIC_SB
              then
                let w2 = upd_journal w1 (\<lambda>j. j\<lparr>j_head := fld64 28 buf, j_tail := fld64 36 buf,
                           j_sequence := fld64 44 buf, j_dirty := (fld32 52 buf \<noteq> 0)\<rparr>) in
                if fld32 56 buf \<noteq> calc_checksum (take 56 buf)
                then do {
                  (r', w3) \<leftarrow> write_jsb (upd_journal w2 (\<lambda>j. j\<lparr>j_dirty := False\<rparr>));
                  Some (0, w3\<lparr>jw_initialized := True\<rparr>) }
                else if j_dirty (jw_journal w2)
                then do {
                  (r', w3) \<leftarrow> journal_recover w2;
                  if r' < 0 then Some (- 1, w3) else None }
                else Some (0, w2\<lparr>jw_initialized := True\<rparr>)
              else do {
                (r', w3) \<leftarrow> write_jsb (upd_journal w1 (\<lambda>j. j\<lparr>j_head := 1, j_tail := 1, j_sequence := 1, j_dirty := False\<rparr>));
                if r' \<noteq> 0 then Some (- EIO, w3) else Some (0, w3\<lparr>jw_initialized := True\<rparr>) } })"

subsection \<open>Queries and validation\<close>

definition journal_sync :: "'d jworld \<Rightarrow> (int \<times> 'd jworld) ub" where
  "journal_sync w = (if \<not> jw_initialized w then Some (- 1, w) else write_jsb w)"

definition journal_get_stats :: "'d jworld \<Rightarrow> u64 \<times> u64 \<times> u64 \<times> bool" where
  "journal_get_stats w =
     (let j = jw_journal w in
      if \<not> jw_initialized w then (0, 0, 0, False)
      else (j_blocks j, if j_head j \<ge> j_tail j then j_head j - j_tail j else 0, j_sequence j - 1, j_dirty j))"

definition journal_is_clean :: "'d jworld \<Rightarrow> bool" where
  "journal_is_clean w \<longleftrightarrow> (if \<not> jw_initialized w then True else \<not> j_dirty (jw_journal w))"

fun validate_blocks :: "'d jworld \<Rightarrow> u8 list \<Rightarrow> nat \<Rightarrow> nat \<Rightarrow> (int \<times> 'd jworld) ub" where
  "validate_blocks w jdbs i 0 = Some (0, w)"
| "validate_blocks w jdbs i (Suc n) =
     (if \<not> alloc_ok w then validate_blocks (alloc_next w) jdbs (Suc i) n
      else do {
        (r, data) \<leftarrow> journal_read_block (alloc_next w) 0 (block_buf w);
        if r = 0
        then if length jdbs < 20 * i + 12 then None
          else if calc_checksum data \<noteq> fld32 (20 * i + 8) jdbs then Some (- EIO, alloc_next w)
          else validate_blocks (alloc_next w) jdbs (Suc i) n
        else validate_blocks (alloc_next w) jdbs (Suc i) n })"

definition journal_validate_transaction ::
  "'d jworld \<Rightarrow> u8 list option \<Rightarrow> u8 list option \<Rightarrow> u32 \<Rightarrow> (int \<times> 'd jworld) ub" where
  "journal_validate_transaction w txn_hdr jdbs num_blocks =
     (case txn_hdr of
        None \<Rightarrow> Some (- EINVAL, w)
      | Some h \<Rightarrow>
          if \<not> jw_initialized w then Some (- EINVAL, w)
          else if calc_checksum (take 32 h) \<noteq> fld32 16 h then Some (- EIO, w)
          else if num_blocks = 0 \<or> MAX_JOURNAL_BLOCKS < num_blocks then Some (- EINVAL, w)
          else case jdbs of
                 None \<Rightarrow> Some (0, w)
               | Some b \<Rightarrow> validate_blocks w b 0 (unat num_blocks))"

subsection \<open>Self tests\<close>

text \<open>What the tests report.  Both hand a buffer of 512 bytes to \<open>journal_write\<close>, which copies a whole block from it.\<close>

datatype verdict = Skipped | Begin_failed | Write_failed | Recovery_failed | Passed | Failed

definition zero_padded :: "string \<Rightarrow> u8 list" where
  "zero_padded s = map of_char s @ replicate (512 - length s) 0"

definition journal_fault_injection_test :: "'d jworld \<Rightarrow> (verdict \<times> 'd jworld) ub" where
  "journal_fault_injection_test w =
     (if \<not> jw_initialized w then Some (Skipped, w)
      else
        let saved = jw_journal w; (r1, w1) = journal_begin w 1 in
        if r1 < 0 then Some (Begin_failed, w1)
        else do {
          (r2, w2) \<leftarrow> journal_write w1 0 (zero_padded ''test_data_for_fault_injection'');
          let w3 = snd (journal_rollback w2);
          if r2 < 0 then Some (Write_failed, w3)
          else do {
            (r4, w4) \<leftarrow> journal_recover w3;
            if r4 < 0 then Some (Recovery_failed, w4)
            else do {
              (r5, w5) \<leftarrow> write_jsb (upd_journal w4 (\<lambda>j. j\<lparr>j_head := j_head saved, j_tail := j_tail saved,
                 j_sequence := j_sequence saved, j_dirty := j_dirty saved\<rparr>));
              Some (if journal_is_clean w4 then Passed else Failed, w5) } } })"

definition journal_crash_test :: "'d jworld \<Rightarrow> (verdict \<times> 'd jworld) ub" where
  "journal_crash_test w =
     (if \<not> jw_initialized w then Some (Skipped, w)
      else
        let (r1, w1) = journal_begin w 1 in
        if r1 < 0 then Some (Begin_failed, w1)
        else do {
          (r2, w2) \<leftarrow> journal_write w1 0 (zero_padded ''test_value'');
          let w3 = snd (journal_rollback w2);
          if r2 < 0 then Some (Write_failed, w3)
          else Some (if journal_is_clean w3 then Passed else Failed, w3) })"

end
