(* ===== verification/Journal_props.thy ===== *)
theory Journal_props
  imports Journal
begin

text \<open>
  What the log of \<^verbatim>\<open>kernel/journal.c\<close> guarantees on a working device, and where its protocol fails.  The device
  is seen as an array of file system blocks, which the locale \<open>journal_device\<close> derives from the driver's
  interface.
\<close>

subsection \<open>The device as an array of blocks\<close>

locale journal_device = block_driver rd wr ok sz cap
  for rd :: "'d \<Rightarrow> u64 \<Rightarrow> int \<Rightarrow> int \<times> u8 list" and wr and ok and sz and cap +
  fixes b :: "'d block_device" and bs :: nat
  assumes dev: "bd_read b = Some rd" "bd_write b = Some wr" "bd_total_sectors b = of_nat cap" "unat (bd_block_size b) = sz"
    and block_size: "0 < sz" "sz dvd bs" "512 \<le> bs" "bs < 2 ^ 31"
begin

definition spb :: nat where
  "spb = bs div sz"

definition nblocks :: nat where
  "nblocks = cap div spb"

definition blk :: "'d \<Rightarrow> nat \<Rightarrow> u8 list" where
  "blk d k = snd (rd d (of_nat (k * spb)) (int spb))"

lemma spb_pos: "0 < spb" and spb_sz: "spb * sz = bs" and spb_small: "spb < 2 ^ 31"
proof -
  show "spb * sz = bs" unfolding spb_def using block_size(2) by simp
  then show "0 < spb" using block_size(1,3) by (cases spb) auto
  have "spb \<le> bs" unfolding spb_def by (rule div_le_dividend)
  then show "spb < 2 ^ 31" using block_size(4) by linarith
qed

lemma block_range:
  assumes "k < nblocks"
  shows "unat (of_nat (k * spb) :: u64) = k * spb" and "k * spb + spb \<le> cap" and "cap < 2 ^ 40"
proof -
  have "(k + 1) * spb \<le> nblocks * spb" using assms by (intro mult_le_mono1) simp
  also have "\<dots> \<le> cap" unfolding nblocks_def by (rule div_times_less_eq_dividend)
  finally show fit: "k * spb + spb \<le> cap" by simp
  have "cap * 1 \<le> cap * sz" using block_size(1) by (intro mult_le_mono2) simp
  then show small: "cap < 2 ^ 40" using cap_small by linarith
  have "k * spb \<le> cap" using fit by simp
  then have "k * spb < 2 ^ 64" using small by simp
  then show "unat (of_nat (k * spb) :: u64) = k * spb" by (simp add: unat_of_nat del: of_nat_mult)
qed

text \<open>\<open>d'\<close> is \<open>d\<close> with block \<open>k\<close> replaced.\<close>

definition updated :: "'d \<Rightarrow> nat \<Rightarrow> u8 list \<Rightarrow> 'd \<Rightarrow> bool" where
  "updated d k data d' \<longleftrightarrow> ok d' \<and> (\<forall>i < nblocks. blk d' i = (if i = k then data else blk d i))"

lemma length_blk: "ok d \<Longrightarrow> k < nblocks \<Longrightarrow> length (blk d k) = bs"
  using read_ok [of d "int spb" "of_nat (k * spb)"] block_range [of k] spb_pos spb_sz by (simp add: blk_def)

lemma dev_read:
  assumes "ok d" and "k < nblocks"
  shows "block_dev_read b d (of_nat (k * spb)) (int spb) = (0, blk d k)"
proof -
  note r = block_range [OF assms(2)]
  have "\<not> of_nat cap < (of_nat (k * spb) :: u64)" "\<not> of_nat cap - of_nat (k * spb) < (of_int (int spb) :: u64)"
    using r spb_small by (simp_all add: word_less_nat_alt unat_of_nat unat_sub_if' r(1) del: of_nat_mult)
  then show ?thesis
    using dev spb_pos read_ok [OF assms(1), of "int spb" "of_nat (k * spb)"] r
    by (simp add: block_dev_read_def blk_def prod_eq_iff del: of_nat_mult)
qed

lemma dev_write:
  assumes "ok d" and "k < nblocks" and "length data = bs"
  obtains d' where "block_dev_write b d data (of_nat (k * spb)) (int spb) = (0, d')" and "updated d k data d'"
proof -
  note r = block_range [OF assms(2)]
  have "\<not> of_nat cap < (of_nat (k * spb) :: u64)" "\<not> of_nat cap - of_nat (k * spb) < (of_int (int spb) :: u64)"
    using r spb_small by (simp_all add: word_less_nat_alt unat_of_nat unat_sub_if' r(1) del: of_nat_mult)
  then have w: "block_dev_write b d data (of_nat (k * spb)) (int spb) = wr d data (of_nat (k * spb)) (int spb)"
    using dev spb_pos by (simp add: block_dev_write_def del: of_nat_mult)
  have pre: "0 < int spb" "unat (of_nat (k * spb) :: u64) + nat (int spb) \<le> cap" "length data = nat (int spb) * sz"
    using r spb_pos spb_sz assms(3) by (simp_all del: of_nat_mult)
  let ?d = "snd (wr d data (of_nat (k * spb)) (int spb))"
  note ok = write_ok [OF assms(1) pre]
  have "blk ?d i = (if i = k then data else blk d i)" if i: "i < nblocks" for i
  proof (cases "i = k")
    case True
    then show ?thesis using read_written [OF assms(1) pre] by (simp add: blk_def del: of_nat_mult)
  next
    case False
    note ri = block_range [OF i]
    have "(i + 1) * spb \<le> k * spb \<or> (k + 1) * spb \<le> i * spb" using False by (cases "i < k") (auto intro!: mult_le_mono1 simp del: mult_Suc)
    then have "k * spb + spb \<le> i * spb \<or> i * spb + spb \<le> k * spb" by auto
    then show ?thesis
      using read_other [OF assms(1) pre, of "int spb" "of_nat (i * spb)"] ri r False spb_pos by (simp add: blk_def del: of_nat_mult)
  qed
  then have "updated d k data ?d" using ok by (simp add: updated_def)
  then show thesis using that w ok by (simp add: prod_eq_iff)
qed

end

context journal_device
begin

text \<open>A journal on this device whose area lies inside it; requests for memory succeed.\<close>

definition good :: "'d jworld \<Rightarrow> bool" where
  "good w \<longleftrightarrow> ok (jw_dev w) \<and> j_bdev (jw_journal w) = b \<and> j_block_size (jw_journal w) = of_nat bs \<and> jw_allocs w = [] \<and>
     0 < j_blocks (jw_journal w) \<and> unat (j_start (jw_journal w)) + unat (j_blocks (jw_journal w)) \<le> nblocks"

definition base :: "'d jworld \<Rightarrow> nat" where
  "base w = unat (j_start (jw_journal w))"

lemma good_alloc [simp]: "good w \<Longrightarrow> alloc_ok w" "good w \<Longrightarrow> alloc_next w = w"
  by (simp_all add: good_def alloc_ok_def alloc_next_def)

lemma good_buf [simp]: "good w \<Longrightarrow> length (block_buf w) = bs" "good w \<Longrightarrow> unat (j_block_size (jw_journal w)) = bs"
  using block_size(4) by (simp_all add: good_def block_buf_def unat_of_nat)

lemma good_dev: "good w \<Longrightarrow> ok d \<Longrightarrow> good (w\<lparr>jw_dev := d\<rparr>)" "base (w\<lparr>jw_dev := d\<rparr>) = base w"
  by (simp_all add: good_def base_def)

lemma nblocks_small: "nblocks < 2 ^ 40"
proof (cases nblocks)
  case (Suc n)
  then have n: "n < nblocks" by simp
  have "n + 1 \<le> n * spb + spb" using spb_pos by (cases spb) auto
  then show ?thesis using block_range(2,3) [OF n] Suc by linarith
qed simp

lemma spb_word:
  assumes "good w"
  shows "sectors_per_block (jw_journal w) = Some (of_nat spb)" and "sint (of_nat spb :: u32) = int spb"
    and "unat (of_nat spb :: u32) = spb"
proof -
  have "unat (of_nat bs :: u32) = bs" using block_size(4) by (simp add: unat_of_nat)
  moreover show u: "unat (of_nat spb :: u32) = spb" using spb_small by (simp add: unat_of_nat)
  ultimately have "of_nat bs div bd_block_size b = (of_nat spb :: u32)"
    using dev(4) by (simp add: word_unat_eq_iff unat_div spb_def)
  moreover have "bd_block_size b \<noteq> 0" using dev(4) block_size(1) by auto
  ultimately show "sectors_per_block (jw_journal w) = Some (of_nat spb)"
    using assms by (simp add: sectors_per_block_def good_def)
  have "sint (of_nat spb :: u32) = signed_take_bit 31 (int spb)" by (simp add: signed_of_nat)
  also have "\<dots> = int spb" using spb_small by (intro signed_take_bit_int_eq_self) simp_all
  finally show "sint (of_nat spb :: u32) = int spb" .
qed

lemma sector_of:
  assumes "good w" and "unat off < unat (j_blocks (jw_journal w))"
  shows "journal_to_device (jw_journal w) off * ucast (of_nat spb :: u32) = of_nat ((base w + unat off) * spb)"
    and "base w + unat off < nblocks"
proof -
  show k: "base w + unat off < nblocks" using assms by (simp add: good_def base_def)
  have "journal_to_device (jw_journal w) off = of_nat (base w + unat off)" by (simp add: journal_to_device_def base_def)
  moreover have "ucast (of_nat spb :: u32) = (of_nat spb :: u64)"
    using spb_word(3) [OF assms(1)] by (simp add: word_unat_eq_iff unat_ucast_up unat_of_nat)
  ultimately show "journal_to_device (jw_journal w) off * ucast (of_nat spb :: u32) = of_nat ((base w + unat off) * spb)" by simp
qed

lemma read_block:
  assumes "good w" and "unat off < unat (j_blocks (jw_journal w))" and "length buf = bs"
  shows "journal_read_block w off buf = Some (0, blk (jw_dev w) (base w + unat off))"
  using assms dev_read [of "jw_dev w" "base w + unat off"] sector_of [OF assms(1,2)] spb_word(1,2) [OF assms(1)]
    length_blk [of "jw_dev w" "base w + unat off"]
  by (simp add: journal_read_block_def good_def del: of_nat_mult of_nat_add)

lemma write_block:
  assumes "good w" and "unat off < unat (j_blocks (jw_journal w))" and "length data = bs"
  obtains d' where "journal_write_block w off data = Some (0, w\<lparr>jw_dev := d'\<rparr>)" and "updated (jw_dev w) (base w + unat off) data d'"
proof -
  note s = sector_of [OF assms(1,2)]
  have g: "ok (jw_dev w)" "j_bdev (jw_journal w) = b" using assms(1) by (simp_all add: good_def)
  obtain d' where "block_dev_write b (jw_dev w) data (of_nat ((base w + unat off) * spb)) (int spb) = (0, d')"
      "updated (jw_dev w) (base w + unat off) data d'"
    by (rule dev_write [OF g(1) s(2) assms(3)])
  then show thesis using that g(2) s(1) spb_word(1,2) [OF assms(1)] by (simp add: journal_write_block_def del: of_nat_mult of_nat_add)
qed

lemma length_jsb: "good w \<Longrightarrow> length (jsb_bytes (jw_journal w)) = bs"
  using block_size(3) good_buf(2) [of w] by (simp add: jsb_bytes_def jsb_fields_def)

lemma write_jsb_ok:
  assumes "good w"
  obtains d' where "write_jsb w = Some (0, w\<lparr>jw_dev := d'\<rparr>)" and "updated (jw_dev w) (base w) (jsb_bytes (jw_journal w)) d'"
proof -
  have "unat (0 :: u64) < unat (j_blocks (jw_journal w))" using assms by (simp add: good_def word_less_nat_alt)
  from write_block [OF assms this length_jsb [OF assms]] show thesis using that assms by (auto simp: write_jsb_def)
qed

end

subsection \<open>Committing a transaction\<close>

text \<open>The blocks after a transaction has been carried out.\<close>

fun apply_txn :: "(u32 \<times> u8 list) list \<Rightarrow> (nat \<Rightarrow> u8 list) \<Rightarrow> nat \<Rightarrow> u8 list" where
  "apply_txn [] f = f"
| "apply_txn (e # es) f = apply_txn es (f(unat (fst e) := snd e))"

lemma apply_txn_other: "k \<notin> (\<lambda>e. unat (fst e)) ` set es \<Longrightarrow> apply_txn es f k = f k"
  by (induction es arbitrary: f) auto

lemma apply_txn_cong: "f k = g k \<Longrightarrow> apply_txn es f k = apply_txn es g k"
proof (induction es arbitrary: f g)
  case (Cons e es)
  then have "(f(unat (fst e) := snd e)) k = (g(unat (fst e) := snd e)) k" by simp
  then show ?case unfolding apply_txn.simps by (rule Cons.IH)
qed simp

text \<open>The log entry of a transaction: descriptor, data, commit record.\<close>

definition log_entry :: "nat \<Rightarrow> u64 \<Rightarrow> u8 list \<Rightarrow> (u32 \<times> u8 list) list \<Rightarrow> u8 list list" where
  "log_entry bs seq stk txn = the (desc_bytes bs seq txn) # map snd txn @ [commit_bytes stk seq]"

lemma length_desc_entry [simp]: "length (desc_entry e) = 20" and length_desc_header [simp]: "length (desc_header seq n c) = 36"
  and length_commit_fields [simp]: "length (commit_fields seq c) = 32"
  by (simp_all add: desc_entry_def desc_header_def commit_fields_def)

lemma length_entries [simp]: "length (concat (map desc_entry txn)) = 20 * length txn"
  by (induction txn) simp_all

lemma desc_bytes_some:
  assumes "36 + 20 * length txn \<le> bs"
  shows "desc_bytes bs seq txn = Some (the (desc_bytes bs seq txn))" and "length (the (desc_bytes bs seq txn)) = bs"
  using assms by (simp_all add: desc_bytes_def Let_def)

context journal_device
begin

lemma write_data_blocks_ok:
  "good w \<Longrightarrow> \<forall>e \<in> set es. length (snd e) = bs \<Longrightarrow> unat pos + length es \<le> unat (j_blocks (jw_journal w)) \<Longrightarrow>
    \<exists>d'. write_data_blocks w pos es = Some (0, w\<lparr>jw_dev := d'\<rparr>) \<and> ok d' \<and>
      (\<forall>i < nblocks. blk d' i = (if base w + unat pos \<le> i \<and> i < base w + unat pos + length es
         then snd (es ! (i - (base w + unat pos))) else blk (jw_dev w) i))"
proof (induction es arbitrary: w pos)
  case Nil
  then show ?case by (intro exI [of _ "jw_dev w"]) (auto simp: good_def)
next
  case (Cons e es)
  have pos: "unat pos < unat (j_blocks (jw_journal w))" using Cons.prems(3) by simp
  have e: "length (snd e) = bs" using Cons.prems(2) by simp
  obtain d1 where d1: "journal_write_block w pos (snd e) = Some (0, w\<lparr>jw_dev := d1\<rparr>)"
      "updated (jw_dev w) (base w + unat pos) (snd e) d1"
    by (rule write_block [OF Cons.prems(1) pos e])
  have "unat pos + 1 < 2 ^ 64" using pos unat_bound [of "j_blocks (jw_journal w)"] by simp
  then have pos1: "unat (pos + 1) = unat pos + 1" by (simp add: unat_word_ariths)
  have good1: "good (w\<lparr>jw_dev := d1\<rparr>)" using Cons.prems(1) d1(2) by (simp add: good_dev updated_def)
  have "\<forall>e \<in> set es. length (snd e) = bs" "unat (pos + 1) + length es \<le> unat (j_blocks (jw_journal (w\<lparr>jw_dev := d1\<rparr>)))"
    using Cons.prems(2,3) pos1 by simp_all
  from Cons.IH [OF good1 this] obtain d' where
    IH: "write_data_blocks (w\<lparr>jw_dev := d1\<rparr>) (pos + 1) es = Some (0, w\<lparr>jw_dev := d1, jw_dev := d'\<rparr>)" "ok d'"
      "\<forall>i < nblocks. blk d' i = (if base w + unat (pos + 1) \<le> i \<and> i < base w + unat (pos + 1) + length es
         then snd (es ! (i - (base w + unat (pos + 1)))) else blk (jw_dev (w\<lparr>jw_dev := d1\<rparr>)) i)"
    unfolding good_dev(2) by (elim exE conjE)
  have "blk d' i = (if base w + unat pos \<le> i \<and> i < base w + unat pos + length (e # es)
      then snd ((e # es) ! (i - (base w + unat pos))) else blk (jw_dev w) i)" if i: "i < nblocks" for i
    using IH(3) [rule_format, OF i] d1(2) i pos1 by (auto simp: updated_def nth_Cons' not_less le_Suc_eq)
  then show ?case using d1(1) IH(1,2) by (intro exI [of _ d']) simp
qed

lemma checkpoint_ok:
  "good w \<Longrightarrow> \<forall>e \<in> set es. length (snd e) = bs \<and> unat (fst e) < nblocks \<and> unat (fst e) * spb < 2 ^ 32 \<Longrightarrow>
    \<exists>d'. checkpoint_blocks w (of_nat spb) es = (0, w\<lparr>jw_dev := d'\<rparr>) \<and> ok d' \<and>
      (\<forall>i < nblocks. blk d' i = apply_txn es (blk (jw_dev w)) i)"
proof (induction es arbitrary: w)
  case Nil
  then show ?case by (intro exI [of _ "jw_dev w"]) (simp add: good_def)
next
  case (Cons e es)
  have e: "length (snd e) = bs" "unat (fst e) < nblocks" "unat (fst e) * spb < 2 ^ 32" using Cons.prems(2) by simp_all
  have g: "ok (jw_dev w)" "j_bdev (jw_journal w) = b" using Cons.prems(1) by (simp_all add: good_def)
  have "unat (fst e * of_nat spb) = unat (fst e) * spb"
    using e(3) spb_word(3) [OF Cons.prems(1)] by (simp add: unat_word_ariths)
  then have sector: "ucast (fst e * of_nat spb) = (of_nat (unat (fst e) * spb) :: u64)"
    using e(3) by (simp add: word_unat_eq_iff unat_ucast_up unat_of_nat del: of_nat_mult)
  obtain d1 where d1: "block_dev_write b (jw_dev w) (snd e) (of_nat (unat (fst e) * spb)) (int spb) = (0, d1)"
      "updated (jw_dev w) (unat (fst e)) (snd e) d1"
    by (rule dev_write [OF g(1) e(2,1)])
  have good1: "good (w\<lparr>jw_dev := d1\<rparr>)" using Cons.prems(1) d1(2) by (simp add: good_dev updated_def)
  have "\<forall>e \<in> set es. length (snd e) = bs \<and> unat (fst e) < nblocks \<and> unat (fst e) * spb < 2 ^ 32" using Cons.prems(2) by simp
  from Cons.IH [OF good1 this] obtain d' where
    IH: "checkpoint_blocks (w\<lparr>jw_dev := d1\<rparr>) (of_nat spb) es = (0, w\<lparr>jw_dev := d1, jw_dev := d'\<rparr>)" "ok d'"
      "\<forall>i < nblocks. blk d' i = apply_txn es (blk (jw_dev (w\<lparr>jw_dev := d1\<rparr>))) i"
    by (elim exE conjE)
  have "blk d' i = apply_txn (e # es) (blk (jw_dev w)) i" if i: "i < nblocks" for i
    using IH(3) [rule_format, OF i] apply_txn_cong [of "blk d1" i "(blk (jw_dev w))(unat (fst e) := snd e)" es] d1(2) i
    by (simp add: updated_def)
  moreover have "checkpoint_blocks w (of_nat spb) (e # es) = (0, w\<lparr>jw_dev := d'\<rparr>)"
    using d1(1) IH(1) g(2) sector spb_word(2) [OF Cons.prems(1)] by (simp del: of_nat_mult)
  ultimately show ?case using IH(2) by blast
qed

text \<open>The state a commit starts from: room for the entry before the end of the area.\<close>

definition ready :: "'d jworld \<Rightarrow> bool" where
  "ready w \<longleftrightarrow> good w \<and> j_txn (jw_journal w) \<noteq> [] \<and> (\<forall>e \<in> set (j_txn (jw_journal w)). length (snd e) = bs) \<and>
     36 + 20 * length (j_txn (jw_journal w)) \<le> bs \<and> 1 \<le> unat (j_head (jw_journal w)) \<and>
     unat (j_head (jw_journal w)) + length (j_txn (jw_journal w)) + 2 \<le> unat (j_blocks (jw_journal w))"

lemma commit_log_ok:
  fixes seq :: u64 and stk :: "u8 list"
  assumes ready: "ready w" and stk: "length stk = bs - 32"
  defines "h \<equiv> base w + unat (j_head (jw_journal w))" and "txn \<equiv> j_txn (jw_journal w)"
  obtains d' where
    "commit_log w stk seq = Some (0, (upd_journal w (\<lambda>j. j\<lparr>j_dirty := True\<rparr>))\<lparr>jw_dev := d'\<rparr>)" and "ok d'"
    and "blk d' (base w) = jsb_bytes ((jw_journal w)\<lparr>j_dirty := True\<rparr>)"
    and "\<forall>i < length txn + 2. blk d' (h + i) = log_entry bs seq stk txn ! i"
    and "\<forall>i < nblocks. i \<noteq> base w \<and> \<not> (h \<le> i \<and> i < h + length txn + 2) \<longrightarrow> blk d' i = blk (jw_dev w) i"
proof -
  define w0 where "w0 = upd_journal w (\<lambda>j. j\<lparr>j_dirty := True\<rparr>)"
  let ?head = "j_head (jw_journal w)" and ?n = "length txn"
  have g: "good w" "\<forall>e \<in> set txn. length (snd e) = bs" "36 + 20 * ?n \<le> bs" "1 \<le> unat ?head"
      "unat ?head + ?n + 2 \<le> unat (j_blocks (jw_journal w))"
    using ready by (simp_all add: ready_def txn_def)
  have w0: "good w0" "base w0 = base w" "jw_journal w0 = (jw_journal w)\<lparr>j_dirty := True\<rparr>" "jw_dev w0 = jw_dev w"
    using g(1) by (simp_all add: w0_def upd_journal_def good_def base_def)
  have small: "unat ?head + ?n + 2 < 2 ^ 64" using g(5) unat_bound [of "j_blocks (jw_journal w)"] by simp
  have n: "unat (of_nat ?n :: u64) = ?n" using small by (simp add: unat_of_nat)
  have pos: "unat (?head + 1) = unat ?head + 1" "unat (?head + 1 + of_nat ?n) = unat ?head + 1 + ?n"
    using small n by (simp_all add: unat_word_ariths)
  obtain d1 where d1: "write_jsb w0 = Some (0, w0\<lparr>jw_dev := d1\<rparr>)" "updated (jw_dev w0) (base w0) (jsb_bytes (jw_journal w0)) d1"
    by (rule write_jsb_ok [OF w0(1)])
  have good1: "good (w0\<lparr>jw_dev := d1\<rparr>)" using w0(1) d1(2) by (simp add: good_dev updated_def)
  obtain dsc where desc: "desc_bytes bs seq txn = Some dsc" "length dsc = bs" using desc_bytes_some [OF g(3), of seq] by auto
  have p2: "unat ?head < unat (j_blocks (jw_journal (w0\<lparr>jw_dev := d1\<rparr>)))" using g(5) by (simp add: w0(3))
  obtain d2 where d2: "journal_write_block (w0\<lparr>jw_dev := d1\<rparr>) ?head dsc = Some (0, w0\<lparr>jw_dev := d1, jw_dev := d2\<rparr>)"
      "updated (jw_dev (w0\<lparr>jw_dev := d1\<rparr>)) (base (w0\<lparr>jw_dev := d1\<rparr>) + unat ?head) dsc d2"
    by (rule write_block [OF good1 p2 desc(2)])
  have good2: "good (w0\<lparr>jw_dev := d2\<rparr>)" using w0(1) d2(2) by (simp add: good_dev updated_def)
  have p3: "unat (?head + 1) + length txn \<le> unat (j_blocks (jw_journal (w0\<lparr>jw_dev := d2\<rparr>)))" using g(5) pos by (simp add: w0(3))
  from write_data_blocks_ok [OF good2 g(2) p3] obtain d3 where d3:
    "write_data_blocks (w0\<lparr>jw_dev := d2\<rparr>) (?head + 1) txn = Some (0, w0\<lparr>jw_dev := d2, jw_dev := d3\<rparr>)" "ok d3"
    "\<forall>i < nblocks. blk d3 i = (if base w + unat (?head + 1) \<le> i \<and> i < base w + unat (?head + 1) + length txn
       then snd (txn ! (i - (base w + unat (?head + 1)))) else blk (jw_dev (w0\<lparr>jw_dev := d2\<rparr>)) i)"
    unfolding good_dev(2) w0(2) by (elim exE conjE)
  have good3: "good (w0\<lparr>jw_dev := d3\<rparr>)" using w0(1) d3(2) by (simp add: good_dev)
  have p4: "unat (?head + 1 + of_nat ?n) < unat (j_blocks (jw_journal (w0\<lparr>jw_dev := d3\<rparr>)))" using g(5) pos(2) by (simp add: w0(3))
  have cb: "length (commit_bytes stk seq) = bs" using stk block_size(3) by (simp add: commit_bytes_def)
  obtain d4 where d4: "journal_write_block (w0\<lparr>jw_dev := d3\<rparr>) (?head + 1 + of_nat ?n) (commit_bytes stk seq) = Some (0, w0\<lparr>jw_dev := d3, jw_dev := d4\<rparr>)"
      "updated (jw_dev (w0\<lparr>jw_dev := d3\<rparr>)) (base (w0\<lparr>jw_dev := d3\<rparr>) + unat (?head + 1 + of_nat ?n)) (commit_bytes stk seq) d4"
    by (rule write_block [OF good3 p4 cb])
  have run: "commit_log w stk seq = Some (0, w0\<lparr>jw_dev := d4\<rparr>)"
    using desc(1) good_buf(2) [OF g(1)] d1(1) d2(1) d3(1) d4(1)
    by (simp add: commit_log_def Let_def w0_def [symmetric] txn_def [symmetric] w0(3))
  have fit: "h + ?n + 2 \<le> nblocks" "base w < nblocks" "base w < h"
    using g(1,4,5) by (auto simp: good_def base_def h_def word_less_nat_alt)
  have blk4: "blk d4 i = (if i = h + 1 + ?n then commit_bytes stk seq else if h + 1 \<le> i \<and> i < h + 1 + ?n then snd (txn ! (i - (h + 1)))
      else if i = h then dsc else if i = base w then jsb_bytes ((jw_journal w)\<lparr>j_dirty := True\<rparr>)
      else blk (jw_dev w) i)" if i: "i < nblocks" for i
    using d1(2) d2(2) d3(3) [rule_format, OF i] d4(2) i pos fit(3)
    by (simp add: updated_def good_dev(2) w0 h_def add.assoc)
  have "blk d4 (h + i) = log_entry bs seq stk txn ! i" if i: "i < ?n + 2" for i
  proof -
    consider "i = 0" | k where "i = Suc k" "k < ?n" | "i = Suc ?n" using i by (cases i) (auto simp: less_Suc_eq)
    then show ?thesis
      using blk4 [of "h + i"] fit(1) by cases (simp_all add: log_entry_def nth_append desc(1))
  qed
  moreover have "blk d4 (base w) = jsb_bytes ((jw_journal w)\<lparr>j_dirty := True\<rparr>)" using blk4 [of "base w"] fit by simp
  moreover have "ok d4" using d4(2) by (simp add: updated_def)
  ultimately show thesis using that [of d4] run blk4 by (simp add: w0_def)
qed

end

context journal_device
begin

text \<open>The blocks outside the log area.\<close>

definition outside :: "'d jworld \<Rightarrow> nat \<Rightarrow> bool" where
  "outside w i \<longleftrightarrow> i < nblocks \<and> \<not> (base w \<le> i \<and> i < base w + unat (j_blocks (jw_journal w)))"

definition commit_ready :: "'d jworld \<Rightarrow> bool" where
  "commit_ready w \<longleftrightarrow> ready w \<and> jw_initialized w \<and> j_in_transaction (jw_journal w) \<and> 1 \<le> unat (j_tail (jw_journal w)) \<and>
     unat (j_tail (jw_journal w)) \<le> unat (j_head (jw_journal w)) \<and>
     unat (j_head (jw_journal w)) + length (j_txn (jw_journal w)) + 2 < unat (j_blocks (jw_journal w)) \<and>
     (\<forall>e \<in> set (j_txn (jw_journal w)). outside w (unat (fst e)) \<and> unat (fst e) * spb < 2 ^ 32)"

lemma good_upd:
  assumes "good w" and "j_bdev (f (jw_journal w)) = j_bdev (jw_journal w)" "j_block_size (f (jw_journal w)) = j_block_size (jw_journal w)"
    "j_start (f (jw_journal w)) = j_start (jw_journal w)" "j_blocks (f (jw_journal w)) = j_blocks (jw_journal w)"
  shows "good (upd_journal w f)" and "base (upd_journal w f) = base w"
  using assms by (simp_all add: good_def base_def upd_journal_def)

lemma advance_head_ok:
  assumes "good w" and "1 \<le> unat (j_tail (jw_journal w))" and "unat (j_tail (jw_journal w)) \<le> unat (j_blocks (jw_journal w))"
    and "unat (j_head (jw_journal w) + n) < unat (j_blocks (jw_journal w))"
  obtains d' where "advance_head w n = Some ((upd_journal w (\<lambda>j. j\<lparr>j_head := j_head j + n\<rparr>))\<lparr>jw_dev := d'\<rparr>)" and "ok d'"
    and "\<forall>i < nblocks. i \<noteq> base w \<longrightarrow> blk d' i = blk (jw_dev w) i"
proof -
  let ?j = "jw_journal w" and ?w = "upd_journal w (\<lambda>j. j\<lparr>j_head := j_head j + n\<rparr>)"
  have g: "good ?w" "base ?w = base w" using good_upd [OF assms(1), of "\<lambda>j. j\<lparr>j_head := j_head j + n\<rparr>"] by simp_all
  have "unat (j_blocks ?j) < 2 ^ 40" using assms(1) nblocks_small by (simp add: good_def)
  then have "unat (j_tail ?j + (j_blocks ?j - 1)) = unat (j_tail ?j) + (unat (j_blocks ?j) - 1)"
    using assms(1,3) by (simp add: unat_word_ariths unat_sub_if' good_def word_less_nat_alt)
  then have "\<not> j_tail ?j + (j_blocks ?j - 1) \<le> j_head ?j + n" using assms(2,4) by (simp add: word_le_nat_alt)
  then have tail: "advance_tail ?w = Some ?w" by (subst advance_tail.simps) (simp add: upd_journal_def)
  have head: "\<not> j_blocks ?j \<le> j_head ?j + n" using assms(4) by (simp add: word_le_nat_alt)
  obtain d' where d': "write_jsb ?w = Some (0, ?w\<lparr>jw_dev := d'\<rparr>)" "updated (jw_dev ?w) (base ?w) (jsb_bytes (jw_journal ?w)) d'"
    by (rule write_jsb_ok [OF g(1)])
  have "advance_head w n = Some (?w\<lparr>jw_dev := d'\<rparr>)"
    using tail head d'(1) by (simp add: advance_head_def Let_def) (simp add: upd_journal_def)
  then show thesis using that d'(2) g(2) by (simp add: updated_def upd_journal_def)
qed

lemma journal_commit_ok:
  assumes ready: "commit_ready w" and stk: "length stk = bs - 32"
  defines "txn \<equiv> j_txn (jw_journal w)"
  obtains d' where "journal_commit w stk = Some (0, (upd_journal w (\<lambda>j. j\<lparr>j_head := j_head j + (1 + of_nat (length txn) + 1),
        j_sequence := j_sequence j + 1, j_dirty := False, j_txn := [], j_txn_capacity := 0, j_in_transaction := False\<rparr>))\<lparr>jw_dev := d'\<rparr>)"
    and "ok d'" and "\<forall>i. outside w i \<longrightarrow> blk d' i = apply_txn txn (blk (jw_dev w)) i"
    and "\<forall>i < length txn + 2. blk d' (base w + unat (j_head (jw_journal w)) + i) = log_entry bs (j_sequence (jw_journal w)) stk txn ! i"
    and "\<forall>i < unat (j_head (jw_journal w)). 0 < i \<longrightarrow> blk d' (base w + i) = blk (jw_dev w) (base w + i)"
proof -
  let ?j = "jw_journal w" and ?n = "length txn"
  define w0 where "w0 = upd_journal w (\<lambda>j. j\<lparr>j_sequence := j_sequence j + 1\<rparr>)"
  have r: "ready w" "jw_initialized w" "j_in_transaction ?j" "1 \<le> unat (j_tail ?j)" "unat (j_tail ?j) \<le> unat (j_head ?j)"
      "unat (j_head ?j) + ?n + 2 < unat (j_blocks ?j)"
      "\<forall>e \<in> set txn. outside w (unat (fst e)) \<and> unat (fst e) * spb < 2 ^ 32" "txn \<noteq> []"
    using ready by (simp_all add: commit_ready_def txn_def ready_def)
  have g: "good w" "\<forall>e \<in> set txn. length (snd e) = bs" "1 \<le> unat (j_head ?j)" using r(1) by (simp_all add: ready_def txn_def)
  have w0: "ready w0" "good w0" "base w0 = base w" "jw_dev w0 = jw_dev w" "j_txn (jw_journal w0) = txn" "j_head (jw_journal w0) = j_head ?j"
    using r(1) g(1) by (auto simp: w0_def upd_journal_def ready_def good_def base_def txn_def)
  define w1 where "w1 = upd_journal w0 (\<lambda>j. j\<lparr>j_dirty := True\<rparr>)"
  obtain d1 where d1: "commit_log w0 stk (j_sequence ?j) = Some (0, w1\<lparr>jw_dev := d1\<rparr>)" "ok d1"
      "\<forall>i < ?n + 2. blk d1 (base w + unat (j_head ?j) + i) = log_entry bs (j_sequence ?j) stk txn ! i"
      "\<forall>i < nblocks. i \<noteq> base w \<and> \<not> (base w + unat (j_head ?j) \<le> i \<and> i < base w + unat (j_head ?j) + ?n + 2) \<longrightarrow> blk d1 i = blk (jw_dev w) i"
    using commit_log_ok [OF w0(1) stk, of "j_sequence ?j"] unfolding w0(3-6) w1_def by blast
  have w1: "good (w1\<lparr>jw_dev := d1\<rparr>)" "base (w1\<lparr>jw_dev := d1\<rparr>) = base w" "jw_journal (w1\<lparr>jw_dev := d1\<rparr>) = ?j\<lparr>j_sequence := j_sequence ?j + 1, j_dirty := True\<rparr>"
    using g(1) d1(2) by (simp_all add: w1_def w0_def upd_journal_def good_def base_def)
  have es: "\<forall>e \<in> set txn. length (snd e) = bs \<and> unat (fst e) < nblocks \<and> unat (fst e) * spb < 2 ^ 32"
    using g(2) r(7) by (auto simp: outside_def)
  from checkpoint_ok [OF w1(1) es] obtain d2 where d2: "checkpoint_blocks (w1\<lparr>jw_dev := d1\<rparr>) (of_nat spb) txn = (0, w1\<lparr>jw_dev := d1, jw_dev := d2\<rparr>)"
      "ok d2" "\<forall>i < nblocks. blk d2 i = apply_txn txn (blk (jw_dev (w1\<lparr>jw_dev := d1\<rparr>))) i"
    by (elim exE conjE)
  have w2: "good (w1\<lparr>jw_dev := d2\<rparr>)" "base (w1\<lparr>jw_dev := d2\<rparr>) = base w" "jw_journal (w1\<lparr>jw_dev := d2\<rparr>) = jw_journal (w1\<lparr>jw_dev := d1\<rparr>)"
    using w1(1,2) d2(2) good_dev by (simp_all add: good_def)
  have "unat (j_head ?j + (1 + of_nat ?n + 1)) = unat (j_head ?j) + ?n + 2"
  proof -
    have "unat (j_head ?j) + ?n + 2 < 2 ^ 64" using r(6) unat_bound [of "j_blocks ?j"] by simp
    then show ?thesis by (simp add: unat_word_ariths unat_of_nat)
  qed
  then have a: "1 \<le> unat (j_tail (jw_journal (w1\<lparr>jw_dev := d2\<rparr>)))" "unat (j_tail (jw_journal (w1\<lparr>jw_dev := d2\<rparr>))) \<le> unat (j_blocks (jw_journal (w1\<lparr>jw_dev := d2\<rparr>)))"
      "unat (j_head (jw_journal (w1\<lparr>jw_dev := d2\<rparr>)) + (1 + of_nat ?n + 1)) < unat (j_blocks (jw_journal (w1\<lparr>jw_dev := d2\<rparr>)))"
    using r(4-6) unfolding w2(3) w1(3) by simp_all
  obtain d3 where d3: "advance_head (w1\<lparr>jw_dev := d2\<rparr>) (1 + of_nat ?n + 1) =
        Some ((upd_journal (w1\<lparr>jw_dev := d2\<rparr>) (\<lambda>j. j\<lparr>j_head := j_head j + (1 + of_nat ?n + 1)\<rparr>))\<lparr>jw_dev := d3\<rparr>)" "ok d3"
      "\<forall>i < nblocks. i \<noteq> base w \<longrightarrow> blk d3 i = blk d2 i"
    using advance_head_ok [OF w2(1) a] unfolding w2(2) by auto
  define w3 where "w3 = upd_journal w (\<lambda>j. j\<lparr>j_sequence := j_sequence j + 1, j_head := j_head j + (1 + of_nat ?n + 1), j_dirty := False\<rparr>)"
  have w3: "good (w3\<lparr>jw_dev := d3\<rparr>)" "base (w3\<lparr>jw_dev := d3\<rparr>) = base w"
    using g(1) d3(2) by (simp_all add: w3_def upd_journal_def good_def base_def)
  obtain d4 where d4: "write_jsb (w3\<lparr>jw_dev := d3\<rparr>) = Some (0, w3\<lparr>jw_dev := d3, jw_dev := d4\<rparr>)"
      "updated (jw_dev (w3\<lparr>jw_dev := d3\<rparr>)) (base w) (jsb_bytes (jw_journal (w3\<lparr>jw_dev := d3\<rparr>))) d4"
    using write_jsb_ok [OF w3(1)] unfolding w3(2) by blast
  have step: "upd_journal ((upd_journal (w1\<lparr>jw_dev := d2\<rparr>) (\<lambda>j. j\<lparr>j_head := j_head j + (1 + of_nat ?n + 1)\<rparr>))\<lparr>jw_dev := d3\<rparr>) (\<lambda>j. j\<lparr>j_dirty := False\<rparr>) = w3\<lparr>jw_dev := d3\<rparr>"
    by (simp add: w3_def w1_def w0_def upd_journal_def)
  have init: "journal_commit w stk = do {
      (r, w1) \<leftarrow> commit_log w0 stk (j_sequence ?j);
      if r < 0 then Some (- 1, free_transaction w1)
      else do {
        spb \<leftarrow> sectors_per_block (jw_journal w1);
        let (r', w2) = checkpoint_blocks w1 spb (j_txn (jw_journal w1));
        if r' < 0 then Some (- 1, free_transaction w2)
        else do {
          w3 \<leftarrow> advance_head w2 (1 + of_nat ?n + 1);
          (r'', w4) \<leftarrow> write_jsb (upd_journal w3 (\<lambda>j. j\<lparr>j_dirty := False\<rparr>));
          Some (0, free_transaction w4) } } }"
    using r(2,3,8) g(1) w0(2) good_alloc unfolding journal_commit_def Let_def txn_def [symmetric] w0_def [symmetric] by simp
  have txn1: "j_txn (jw_journal (w1\<lparr>jw_dev := d1\<rparr>)) = txn" unfolding w1(3) by (simp add: txn_def)
  have run: "journal_commit w stk = Some (0, free_transaction (w3\<lparr>jw_dev := d4\<rparr>))"
    unfolding init d1(1) using spb_word(1) [OF w1(1)] txn1 d2(1) d3(1) d4(1) step by simp
  have sp: "i \<noteq> base w" if "outside w i" for i using that g(1) by (auto simp: outside_def good_def word_less_nat_alt)
  have out: "blk d4 i = apply_txn txn (blk (jw_dev w)) i" if i: "outside w i" for i
  proof -
    have n: "i < nblocks" using i by (simp add: outside_def)
    have "blk d1 i = blk (jw_dev w) i" using d1(4) i sp [OF i] r(6) by (auto simp: outside_def)
    then show ?thesis
      using d4(2) d3(3) d2(3) n sp [OF i] apply_txn_cong [of "blk d1" i "blk (jw_dev w)" txn] by (simp add: updated_def)
  qed
  have log: "blk d4 (base w + unat (j_head ?j) + i) = log_entry bs (j_sequence ?j) stk txn ! i" if i: "i < ?n + 2" for i
  proof -
    let ?k = "base w + unat (j_head ?j) + i"
    have k: "?k < nblocks" "?k \<noteq> base w" "\<not> outside w ?k" using g(1,3) r(6) i by (auto simp: good_def base_def outside_def)
    have "apply_txn txn (blk d1) ?k = blk d1 ?k" using r(7) k(3) by (intro apply_txn_other) auto
    then show ?thesis using d4(2) d3(3) d2(3) d1(3) k i g(3) by (simp add: updated_def)
  qed
  have kept: "blk d4 (base w + i) = blk (jw_dev w) (base w + i)" if i: "i < unat (j_head ?j)" "0 < i" for i
  proof -
    let ?k = "base w + i"
    have k: "?k < nblocks" "?k \<noteq> base w" "\<not> outside w ?k" using g(1) r(6) i by (auto simp: good_def base_def outside_def)
    have "apply_txn txn (blk d1) ?k = blk d1 ?k" using r(7) k(3) by (intro apply_txn_other) auto
    then show ?thesis using d4(2) d3(3) d2(3) d1(4) k i by (simp add: updated_def)
  qed
  have "free_transaction (w3\<lparr>jw_dev := d4\<rparr>) = (upd_journal w (\<lambda>j. j\<lparr>j_head := j_head j + (1 + of_nat ?n + 1),
        j_sequence := j_sequence j + 1, j_dirty := False, j_txn := [], j_txn_capacity := 0, j_in_transaction := False\<rparr>))\<lparr>jw_dev := d4\<rparr>"
    by (simp add: free_transaction_def w3_def upd_journal_def)
  then show thesis using that [of d4] run out log kept d4(2) by (simp add: updated_def)
qed

end

subsection \<open>Recovery\<close>

lemma apply_txn_append: "apply_txn (xs @ ys) f = apply_txn ys (apply_txn xs f)"
  by (induction xs arbitrary: f) simp_all

text \<open>The fields that recovery reads from a log entry.\<close>

lemma drop_entries: "i \<le> length txn \<Longrightarrow> drop (20 * i) (concat (map desc_entry txn) @ zs) = concat (map desc_entry (drop i txn)) @ zs"
proof (induction i arbitrary: txn)
  case (Suc i)
  then obtain e es where txn: "txn = e # es" by (cases txn) auto
  have "drop (20 * Suc i) (concat (map desc_entry txn) @ zs) = drop (20 * i) (drop 20 (concat (map desc_entry txn) @ zs))"
    by (simp only: drop_drop mult_Suc_right add.commute)
  also have "drop 20 (concat (map desc_entry txn) @ zs) = concat (map desc_entry es) @ zs" by (simp add: txn)
  finally show ?case using Suc by (simp add: txn)
qed simp

lemma desc_fields:
  fixes seq :: u64
  assumes "36 + 20 * length txn \<le> bs" and "bs < 2 ^ 31"
  defines "D \<equiv> the (desc_bytes bs seq txn)"
  shows "fld32 0 D = JOURNAL_MAGIC_DESC" and "unat (fld32 12 D) = length txn"
    and "i < length txn \<Longrightarrow> fld64 (36 + 20 * i) D = ucast (fst (txn ! i))"
    and "i < length txn \<Longrightarrow> fld32 (36 + 20 * i + 8) D = calc_checksum (snd (txn ! i))"
proof -
  obtain c zs where D: "D = desc_header seq (of_nat (length txn)) c @ concat (map desc_entry txn) @ zs"
    using assms(1) by (simp add: D_def desc_bytes_def Let_def)
  show "fld32 0 D = JOURNAL_MAGIC_DESC" unfolding D by (simp add: desc_header_def)
  have "fld32 12 D = of_nat (length txn)" unfolding D by (simp add: desc_header_def fld32_append)
  then show "unat (fld32 12 D) = length txn" using assms(1,2) by (simp add: unat_of_nat)
  assume i: "i < length txn"
  then have "drop (20 * i) (concat (map desc_entry txn) @ zs) = desc_entry (txn ! i) @ concat (map desc_entry (drop (Suc i) txn)) @ zs"
    using drop_entries [of i txn zs] Cons_nth_drop_Suc [OF i] by (metis append.assoc concat.simps(2) less_imp_le list.simps(9))
  then have at: "drop (36 + 20 * i) D = desc_entry (txn ! i) @ concat (map desc_entry (drop (Suc i) txn)) @ zs"
    unfolding D by simp
  show "fld64 (36 + 20 * i) D = ucast (fst (txn ! i))"
    unfolding fld64_def at by (simp add: desc_entry_def)
  have "drop (36 + 20 * i + 8) D = drop 8 (drop (36 + 20 * i) D)" by (simp add: add.commute)
  then show "fld32 (36 + 20 * i + 8) D = calc_checksum (snd (txn ! i))"
    unfolding fld32_def at by (simp add: desc_entry_def)
qed

lemma commit_fields_magic: "fld32 0 (commit_bytes stk seq) = JOURNAL_MAGIC_COMMIT"
  by (simp add: commit_bytes_def commit_fields_def)

context journal_device
begin

text \<open>A transaction recovery can carry out.\<close>

definition txn_ok :: "'d jworld \<Rightarrow> (u32 \<times> u8 list) list \<Rightarrow> bool" where
  "txn_ok w txn \<longleftrightarrow> 36 + 20 * length txn \<le> bs \<and>
     (\<forall>e \<in> set txn. length (snd e) = bs \<and> outside w (unat (fst e)) \<and>
       (j_fs_total_blocks (jw_journal w) = 0 \<or> unat (fst e) < unat (j_fs_total_blocks (jw_journal w))))"

lemma txn_ok_dev [simp]: "txn_ok (w\<lparr>jw_dev := d\<rparr>) txn = txn_ok w txn" "outside (w\<lparr>jw_dev := d\<rparr>) i = outside w i"
  by (simp_all add: txn_ok_def outside_def base_def)

lemma replay_step:
  assumes "good w" and "length data = bs" and "outside w (unat f)"
  obtains d' where "block_dev_write (j_bdev (jw_journal w)) (jw_dev w) data (ucast (f :: u32) * ucast (of_nat spb :: u32)) (sint (of_nat spb :: u32)) = (0, d')"
    and "updated (jw_dev w) (unat f) data d'"
proof -
  have g: "ok (jw_dev w)" "j_bdev (jw_journal w) = b" and n: "unat f < nblocks" using assms(1,3) by (simp_all add: good_def outside_def)
  have "ucast f = (of_nat (unat f) :: u64)" "ucast (of_nat spb :: u32) = (of_nat spb :: u64)"
    using spb_word(3) [OF assms(1)] unat_bound [of f] by (simp_all add: word_unat_eq_iff unat_ucast_up unat_of_nat)
  then have "ucast f * ucast (of_nat spb :: u32) = (of_nat (unat f * spb) :: u64)" by simp
  then show thesis using dev_write [OF g(1) n assms(2)] that g(2) spb_word(2) [OF assms(1)] by metis
qed

lemma replay_blocks_ok:
  fixes seq :: u64 and pos :: u64
  assumes "txn_ok w0 txn" and "j_blocks (jw_journal w0) = blks" and "unat pos + 1 + length txn \<le> unat blks"
  shows "good w \<Longrightarrow> jw_journal w = jw_journal w0 \<Longrightarrow> i + n = length txn \<Longrightarrow>
    \<forall>k < length txn. blk (jw_dev w) (base w + unat pos + 1 + k) = snd (txn ! k) \<Longrightarrow>
    \<exists>d'. replay_blocks w (of_nat spb) (the (desc_bytes bs seq txn)) pos i n = Some (w\<lparr>jw_dev := d'\<rparr>) \<and> ok d' \<and>
      (\<forall>k < nblocks. blk d' k = apply_txn (drop i txn) (blk (jw_dev w)) k)"
proof (induction n arbitrary: i w)
  case 0
  then show ?case by (intro exI [of _ "jw_dev w"]) (simp add: good_def)
next
  case (Suc n)
  let ?D = "the (desc_bytes bs seq txn)" and ?e = "txn ! i"
  have fit: "36 + 20 * length txn \<le> bs" using assms(1) by (simp add: txn_ok_def)
  have i: "i < length txn" using Suc.prems(3) by simp
  then have e: "length (snd ?e) = bs" "outside w (unat (fst ?e))"
      "j_fs_total_blocks (jw_journal w) = 0 \<or> unat (fst ?e) < unat (j_fs_total_blocks (jw_journal w))"
    using assms(1) nth_mem [OF i] Suc.prems(2) by (auto simp: txn_ok_def outside_def base_def)
  note D = desc_fields(3,4) [OF fit block_size(4) i, of seq]
  have "\<not> unat (j_block_size (jw_journal w)) < 36 + 20 * i + 20" using good_buf(2) [OF Suc.prems(1)] i fit by simp
  moreover have "\<not> (0 < j_fs_total_blocks (jw_journal w) \<and> j_fs_total_blocks (jw_journal w) \<le> fld64 (36 + 20 * i) ?D)"
    using e(3) D(1) by (auto simp: word_le_nat_alt unat_ucast_up)
  moreover have pos: "unat (pos + 1 + of_nat i) = unat pos + 1 + i"
    using assms(3) i unat_bound [of blks] by (simp add: unat_word_ariths unat_of_nat)
  have "unat (pos + 1 + of_nat i) < unat (j_blocks (jw_journal w))" using pos i assms(2,3) Suc.prems(2) by simp
  from read_block [OF Suc.prems(1) this good_buf(1) [OF Suc.prems(1)]]
  have "journal_read_block w (pos + 1 + of_nat i) (block_buf w) = Some (0, snd ?e)"
    using pos Suc.prems(4) i by (simp add: add.assoc)
  ultimately have step: "replay_blocks w (of_nat spb) ?D pos i (Suc n) =
      replay_blocks (w\<lparr>jw_dev := snd (block_dev_write (j_bdev (jw_journal w)) (jw_dev w) (snd ?e) (ucast (fst ?e) * ucast (of_nat spb :: u32)) (sint (of_nat spb :: u32)))\<rparr>)
        (of_nat spb) ?D pos (Suc i) n"
    using Suc.prems(1) D by (auto simp: Let_def)
  obtain d1 where d1: "block_dev_write (j_bdev (jw_journal w)) (jw_dev w) (snd ?e) (ucast (fst ?e) * ucast (of_nat spb :: u32)) (sint (of_nat spb :: u32)) = (0, d1)"
      "updated (jw_dev w) (unat (fst ?e)) (snd ?e) d1"
    by (rule replay_step [OF Suc.prems(1) e(1,2)])
  have good1: "good (w\<lparr>jw_dev := d1\<rparr>)" using Suc.prems(1) d1(2) by (simp add: good_dev updated_def)
  have keep: "\<forall>k < length txn. blk (jw_dev (w\<lparr>jw_dev := d1\<rparr>)) (base (w\<lparr>jw_dev := d1\<rparr>) + unat pos + 1 + k) = snd (txn ! k)"
  proof (intro allI impI)
    fix k assume k: "k < length txn"
    let ?x = "base w + unat pos + 1 + k"
    have "?x < nblocks" "\<not> outside w ?x" using Suc.prems(1,2) assms(2,3) k by (auto simp: good_def base_def outside_def)
    then have "blk d1 ?x = blk (jw_dev w) ?x" using d1(2) e(2) by (auto simp: updated_def)
    then show "blk (jw_dev (w\<lparr>jw_dev := d1\<rparr>)) (base (w\<lparr>jw_dev := d1\<rparr>) + unat pos + 1 + k) = snd (txn ! k)"
      using Suc.prems(4) k by (simp add: good_dev(2))
  qed
  have "jw_journal (w\<lparr>jw_dev := d1\<rparr>) = jw_journal w0" "Suc i + n = length txn" using Suc.prems(2,3) by simp_all
  from Suc.IH [OF good1 this keep] obtain d' where
    IH: "replay_blocks (w\<lparr>jw_dev := d1\<rparr>) (of_nat spb) ?D pos (Suc i) n = Some (w\<lparr>jw_dev := d1, jw_dev := d'\<rparr>)" "ok d'"
      "\<forall>k < nblocks. blk d' k = apply_txn (drop (Suc i) txn) (blk (jw_dev (w\<lparr>jw_dev := d1\<rparr>))) k"
    by (elim exE conjE)
  have "blk d' k = apply_txn (drop i txn) (blk (jw_dev w)) k" if k: "k < nblocks" for k
    using IH(3) [rule_format, OF k] apply_txn_cong [of "blk d1" k "(blk (jw_dev w))(unat (fst ?e) := snd ?e)" "drop (Suc i) txn"]
      d1(2) k Cons_nth_drop_Suc [OF i] by (simp add: updated_def flip: apply_txn.simps(2))
  then show ?case using step d1(1) IH(1,2) by (intro exI [of _ d']) simp
qed

end

text \<open>Entries of the log, with their sequence number and the bytes behind the commit record; the blocks \<open>f\<close> hold
  them from block \<open>k\<close> on.\<close>

type_synonym log_entries = "(u64 \<times> u8 list \<times> (u32 \<times> u8 list) list) list"

fun log_holds :: "nat \<Rightarrow> (nat \<Rightarrow> u8 list) \<Rightarrow> nat \<Rightarrow> log_entries \<Rightarrow> bool" where
  "log_holds bs f k [] \<longleftrightarrow> True"
| "log_holds bs f k ((seq, stk, txn) # es) \<longleftrightarrow> (\<forall>i < length txn + 2. f (k + i) = log_entry bs seq stk txn ! i) \<and>
     log_holds bs f (k + length txn + 2) es"

fun log_length :: "log_entries \<Rightarrow> nat" where
  "log_length [] = 0"
| "log_length ((seq, stk, txn) # es) = length txn + 2 + log_length es"

definition log_txns :: "log_entries \<Rightarrow> (u32 \<times> u8 list) list" where
  "log_txns es = concat (map (\<lambda>e. snd (snd e)) es)"

lemma log_holds_cong: "(\<And>i. k \<le> i \<Longrightarrow> i < k + log_length es \<Longrightarrow> f i = g i) \<Longrightarrow> log_holds bs f k es = log_holds bs g k es"
proof (induction es arbitrary: k)
  case (Cons e es)
  obtain seq stk txn where e: "e = (seq, stk, txn)" by (metis prod.collapse)
  have "log_holds bs f (k + length txn + 2) es = log_holds bs g (k + length txn + 2) es" by (rule Cons.IH) (use Cons.prems e in simp)
  moreover have "f (k + i) = g (k + i)" if "i < length txn + 2" for i using Cons.prems [of "k + i"] that e by simp
  ultimately show ?case by (simp add: e)
qed simp

lemma log_length_append [simp]: "log_length (es @ es') = log_length es + log_length es'"
  by (induction es) auto

lemma log_txns_append [simp]: "log_txns (es @ es') = log_txns es @ log_txns es'"
  by (simp add: log_txns_def)

lemma log_holds_append: "log_holds bs f k (es @ es') \<longleftrightarrow> log_holds bs f k es \<and> log_holds bs f (k + log_length es) es'"
  by (induction es arbitrary: k) (auto simp: add.assoc)

context journal_device
begin

lemma recover_step:
  assumes good: "good w" and txn: "txn_ok w txn" and buf: "length buf = bs"
    and log: "\<forall>i < length txn + 2. blk (jw_dev w) (base w + unat pos + i) = log_entry bs seq stk txn ! i"
    and pos: "unat pos + length txn + 2 \<le> unat end'" "unat end' \<le> unat (j_blocks (jw_journal w))"
  obtains d' buf' where "recover_loop w pos end' buf = recover_loop (w\<lparr>jw_dev := d'\<rparr>) (pos + of_nat (length txn) + 2) end' buf'"
    and "ok d'" and "\<forall>k < nblocks. blk d' k = apply_txn txn (blk (jw_dev w)) k" and "length buf' = bs"
proof -
  let ?D = "the (desc_bytes bs seq txn)" and ?n = "length txn"
  have fit: "36 + 20 * ?n \<le> bs" using txn by (simp add: txn_ok_def)
  note D = desc_fields [OF fit block_size(4), where seq = seq]
  have small: "unat pos + ?n + 2 < 2 ^ 64" using pos unat_bound [of "j_blocks (jw_journal w)"] by simp
  have n: "ucast (fld32 12 ?D) = (of_nat ?n :: u64)"
    using D(2) small by (simp add: word_unat_eq_iff unat_ucast_up unat_of_nat)
  have cpos: "unat (pos + 1 + of_nat ?n) = unat pos + 1 + ?n" using small by (simp add: unat_word_ariths unat_of_nat)
  have p: "unat pos < unat (j_blocks (jw_journal w))" "unat (pos + 1 + of_nat ?n) < unat (j_blocks (jw_journal w))"
    using pos cpos by simp_all
  have rd: "journal_read_block w pos u = Some (0, ?D)" if "length u = bs" for u
    using read_block [OF good p(1) that] log [rule_format, of 0] by (simp add: log_entry_def)
  have len: "length ?D = bs" using desc_bytes_some(2) [OF fit] .
  have rc: "journal_read_block w (pos + 1 + of_nat ?n) ?D = Some (0, commit_bytes stk seq)"
    using read_block [OF good p(2) len] log [rule_format, of "?n + 1"] cpos by (simp add: log_entry_def nth_append add.assoc)
  have "base w + unat (pos + 1 + of_nat ?n) < nblocks" using p(2) good by (simp add: good_def base_def)
  from length_blk [OF _ this, of "jw_dev w"] have clen: "length (commit_bytes stk seq) = bs"
    using read_block [OF good p(2) len] rc good by (simp add: good_def)
  have "\<forall>k < ?n. blk (jw_dev w) (base w + unat pos + 1 + k) = snd (txn ! k)"
  proof (intro allI impI)
    fix k assume "k < ?n"
    then show "blk (jw_dev w) (base w + unat pos + 1 + k) = snd (txn ! k)"
      using log [rule_format, of "Suc k"] by (simp add: log_entry_def nth_append)
  qed
  from replay_blocks_ok [OF txn refl _ good refl _ this, of 0 ?n seq] pos obtain d' where d':
    "replay_blocks w (of_nat spb) ?D pos 0 ?n = Some (w\<lparr>jw_dev := d'\<rparr>)" "ok d'" "\<forall>k < nblocks. blk d' k = apply_txn txn (blk (jw_dev w)) k"
    by auto
  have "pos < end'" "\<not> end' \<le> pos + 1 + of_nat ?n" using pos cpos by (simp_all add: word_less_nat_alt word_le_nat_alt)
  then have "recover_loop w pos end' buf = recover_loop (w\<lparr>jw_dev := d'\<rparr>) (pos + 1 + of_nat ?n + 1) end' ?D"
    using rd [OF buf] rc rd [OF clen] D(1,2) n commit_fields_magic [of stk seq] spb_word(1) [OF good] d'(1)
    by (subst recover_loop.simps) simp
  moreover have "pos + 1 + of_nat ?n + 1 = pos + of_nat ?n + 2" by simp
  ultimately show thesis using that [of d' ?D] d'(2,3) len by simp
qed

lemma recover_loop_ok:
  "good w \<Longrightarrow> log_holds bs (blk (jw_dev w)) (base w + unat pos) es \<Longrightarrow> \<forall>e \<in> set es. txn_ok w (snd (snd e)) \<Longrightarrow>
    unat end' = unat pos + log_length es \<Longrightarrow> unat end' \<le> unat (j_blocks (jw_journal w)) \<Longrightarrow> length buf = bs \<Longrightarrow>
    \<exists>d'. recover_loop w pos end' buf = Some (w\<lparr>jw_dev := d'\<rparr>) \<and> ok d' \<and>
      (\<forall>k < nblocks. blk d' k = apply_txn (log_txns es) (blk (jw_dev w)) k)"
proof (induction es arbitrary: w pos buf)
  case Nil
  then have "\<not> pos < end'" by (simp add: word_less_nat_alt)
  then show ?case using Nil by (intro exI [of _ "jw_dev w"]) (subst recover_loop.simps, simp add: log_txns_def good_def)
next
  case (Cons e es)
  obtain seq stk txn where e: "e = (seq, stk, txn)" by (metis prod.collapse)
  let ?n = "length txn"
  have log: "\<forall>i < ?n + 2. blk (jw_dev w) (base w + unat pos + i) = log_entry bs seq stk txn ! i"
      "log_holds bs (blk (jw_dev w)) (base w + unat pos + ?n + 2) es" using Cons.prems(2) by (simp_all add: e)
  have ok: "txn_ok w txn" using Cons.prems(3) by (simp add: e)
  have end': "unat end' = unat pos + ?n + 2 + log_length es" using Cons.prems(4) by (simp add: e)
  obtain d1 buf' where d1: "recover_loop w pos end' buf = recover_loop (w\<lparr>jw_dev := d1\<rparr>) (pos + of_nat ?n + 2) end' buf'"
      "ok d1" "\<forall>k < nblocks. blk d1 k = apply_txn txn (blk (jw_dev w)) k" "length buf' = bs"
    by (rule recover_step [OF Cons.prems(1) ok Cons.prems(6) log(1), of end']) (use end' Cons.prems(5) in auto)
  have "unat pos + ?n + 2 < 2 ^ 64" using end' unat_bound [of end'] by simp
  then have pos: "unat (pos + of_nat ?n + 2) = unat pos + ?n + 2" by (simp add: unat_word_ariths unat_of_nat)
  have good1: "good (w\<lparr>jw_dev := d1\<rparr>)" using Cons.prems(1) d1(2) by (simp add: good_dev)
  have "blk d1 i = blk (jw_dev w) i" if "base w + unat pos + ?n + 2 \<le> i" "i < base w + unat pos + ?n + 2 + log_length es" for i
  proof -
    have "i < nblocks" "\<not> outside w i"
      using that end' Cons.prems(1,5) by (auto simp: good_def base_def outside_def)
    moreover have "i \<notin> (\<lambda>e. unat (fst e)) ` set txn" using ok calculation(2) by (auto simp: txn_ok_def)
    ultimately show ?thesis using d1(3) by (simp add: apply_txn_other)
  qed
  then have "log_holds bs (blk d1) (base w + unat pos + ?n + 2) es" using log(2) log_holds_cong [of _ es "blk d1" "blk (jw_dev w)" bs] by blast
  then have "log_holds bs (blk (jw_dev (w\<lparr>jw_dev := d1\<rparr>))) (base (w\<lparr>jw_dev := d1\<rparr>) + unat (pos + of_nat ?n + 2)) es"
    unfolding good_dev(2) pos by (simp add: add.assoc)
  from Cons.IH [OF good1 this, of buf'] obtain d' where
    IH: "recover_loop (w\<lparr>jw_dev := d1\<rparr>) (pos + of_nat ?n + 2) end' buf' = Some (w\<lparr>jw_dev := d1, jw_dev := d'\<rparr>)" "ok d'"
      "\<forall>k < nblocks. blk d' k = apply_txn (log_txns es) (blk (jw_dev (w\<lparr>jw_dev := d1\<rparr>))) k"
    using Cons.prems(3,5) end' pos d1(4) by auto
  have "blk d' k = apply_txn (log_txns (e # es)) (blk (jw_dev w)) k" if k: "k < nblocks" for k
    using IH(3) [rule_format, OF k] d1(3) k apply_txn_cong [of "blk d1" k "apply_txn txn (blk (jw_dev w))" "log_txns es"]
    by (simp add: log_txns_def e apply_txn_append)
  then show ?case using d1(1) IH(1,2) by (intro exI [of _ d']) simp
qed

lemma journal_recover_ok:
  assumes good: "good w" and init: "jw_initialized w"
    and log: "log_holds bs (blk (jw_dev w)) (base w + unat (j_tail (jw_journal w))) es" "\<forall>e \<in> set es. txn_ok w (snd (snd e))"
    and head: "unat (j_head (jw_journal w)) = unat (j_tail (jw_journal w)) + log_length es"
      "unat (j_head (jw_journal w)) \<le> unat (j_blocks (jw_journal w))"
  obtains d' where "journal_recover w = Some (0, (upd_journal w (\<lambda>j. j\<lparr>j_tail := j_head j, j_dirty := False\<rparr>))\<lparr>jw_dev := d'\<rparr>)"
    and "ok d'" and "\<forall>k < nblocks. k \<noteq> base w \<longrightarrow> blk d' k = apply_txn (log_txns es) (blk (jw_dev w)) k"
proof -
  from recover_loop_ok [OF good log head good_buf(1) [OF good]] obtain d1 where d1:
    "recover_loop w (j_tail (jw_journal w)) (j_head (jw_journal w)) (block_buf w) = Some (w\<lparr>jw_dev := d1\<rparr>)" "ok d1"
    "\<forall>k < nblocks. blk d1 k = apply_txn (log_txns es) (blk (jw_dev w)) k"
    by (elim exE conjE)
  define w1 where "w1 = upd_journal (w\<lparr>jw_dev := d1\<rparr>) (\<lambda>j. j\<lparr>j_tail := j_head j, j_dirty := False\<rparr>)"
  have w1: "good w1" "base w1 = base w" "jw_dev w1 = d1"
    using good d1(2) by (simp_all add: w1_def good_def base_def upd_journal_def)
  obtain d' where d': "write_jsb w1 = Some (0, w1\<lparr>jw_dev := d'\<rparr>)" "updated (jw_dev w1) (base w1) (jsb_bytes (jw_journal w1)) d'"
    by (rule write_jsb_ok [OF w1(1)])
  have "journal_recover w = Some (0, w1\<lparr>jw_dev := d'\<rparr>)"
    using init good d1(1) d'(1) by (simp add: journal_recover_def w1_def)
  then show thesis using that d'(2) d1(3) unfolding w1(2,3) by (simp add: updated_def w1_def upd_journal_def)
qed

end

end
