(* ===== verification/Journal_disk.thy ===== *)
theory Journal_disk
  imports Journal_props
begin

text \<open>
  The journal on the RAM disk: the contract of \<open>journal_device\<close> for the driver of
  \<^verbatim>\<open>kernel/ramdisk.c\<close>, and what commits, recovery and a crash between the two mean for the blocks of the disk.
\<close>

subsection \<open>A journal on the RAM disk\<close>

text \<open>Block \<open>k\<close> of a disk, for blocks of \<open>bs\<close> bytes.\<close>

definition rblk :: "nat \<Rightarrow> u8 list \<Rightarrow> nat \<Rightarrow> u8 list" where
  "rblk bs d k = take bs (drop (k * bs) d)"

text \<open>A journal whose area lies on the RAM disk of 1 MiB.\<close>

definition on_ramdisk :: "nat \<Rightarrow> u8 list jworld \<Rightarrow> bool" where
  "on_ramdisk bs w \<longleftrightarrow> j_bdev (jw_journal w) = ramdisk_dev 0 \<and> j_block_size (jw_journal w) = of_nat bs \<and> 512 dvd bs \<and> 0 < bs \<and>
     length (jw_dev w) = 0x100000 \<and> jw_allocs w = [] \<and> 0 < j_blocks (jw_journal w) \<and>
     (unat (j_start (jw_journal w)) + unat (j_blocks (jw_journal w))) * bs \<le> 0x100000"

text \<open>The blocks of the disk outside the log.\<close>

definition fs_block :: "nat \<Rightarrow> u8 list jworld \<Rightarrow> nat \<Rightarrow> bool" where
  "fs_block bs w k \<longleftrightarrow> (k + 1) * bs \<le> 0x100000 \<and>
     \<not> (unat (j_start (jw_journal w)) \<le> k \<and> k < unat (j_start (jw_journal w)) + unat (j_blocks (jw_journal w)))"

text \<open>A filled transaction and room for it in the log.\<close>

definition committable :: "nat \<Rightarrow> u8 list jworld \<Rightarrow> bool" where
  "committable bs w \<longleftrightarrow> (let j = jw_journal w in on_ramdisk bs w \<and> jw_initialized w \<and> j_in_transaction j \<and> j_txn j \<noteq> [] \<and>
     (\<forall>e \<in> set (j_txn j). length (snd e) = bs \<and> fs_block bs w (unat (fst e))) \<and> 36 + 20 * length (j_txn j) \<le> bs \<and>
     1 \<le> unat (j_tail j) \<and> unat (j_tail j) \<le> unat (j_head j) \<and> unat (j_head j) + length (j_txn j) + 2 < unat (j_blocks j))"

text \<open>A transaction that recovery carries out in full: its blocks lie outside the log and, unless that check is
  switched off, inside the file system.\<close>

definition replayable :: "nat \<Rightarrow> u8 list jworld \<Rightarrow> (u32 \<times> u8 list) list \<Rightarrow> bool" where
  "replayable bs w txn \<longleftrightarrow> 36 + 20 * length txn \<le> bs \<and> (\<forall>e \<in> set txn. length (snd e) = bs \<and> fs_block bs w (unat (fst e)) \<and>
     (j_fs_total_blocks (jw_journal w) = 0 \<or> unat (fst e) < unat (j_fs_total_blocks (jw_journal w))))"

lemma ramdisk_size_0: "ramdisk_size 0 = 0x100000"
  by (simp add: ramdisk_size_def)

lemma ramdisk_journal:
  assumes "512 dvd bs" and "0 < bs" and "bs \<le> 0x100000"
  shows "journal_device (ramdisk_read 512) (ramdisk_write 512) (\<lambda>d. length d = 0x100000) 512 2048 (ramdisk_dev 0) bs"
proof -
  have "block_driver (ramdisk_read 512) (ramdisk_write 512) (\<lambda>d. length d = 0x100000) 512 2048"
    using ramdisk_driver [of 512 512 2048] by simp
  then show ?thesis
    unfolding journal_device_def journal_device_axioms_def
    using assms dvd_imp_le [OF assms(1,2)] by (simp add: ramdisk_dev_def ramdisk_size_0)
qed

interpretation rj: journal_device "ramdisk_read 512" "ramdisk_write 512" "\<lambda>d. length d = 0x100000" 512 2048 "ramdisk_dev 0" 1024
  by (rule ramdisk_journal) simp_all

text \<open>The notions of \<open>journal_device\<close> on the RAM disk.\<close>

locale ram_journal =
  fixes bs :: nat and start blks :: nat
  assumes geometry: "512 dvd bs" "0 < bs" "0 < blks" "(start + blks) * bs \<le> 0x100000"
begin

lemma bs_le: "bs \<le> 0x100000"
proof -
  have "1 * bs \<le> (start + blks) * bs" using geometry(3) by (intro mult_le_mono1) simp
  then show ?thesis using geometry(4) by linarith
qed

sublocale jd: journal_device "ramdisk_read 512" "ramdisk_write 512" "\<lambda>d. length d = 0x100000" 512 2048 "ramdisk_dev 0" bs
  by (rule ramdisk_journal [OF geometry(1,2) bs_le])

lemma spb_bs: "jd.spb * 512 = bs"
  using jd.spb_sz .

lemma nblocks_iff: "k < jd.nblocks \<longleftrightarrow> (k + 1) * bs \<le> 0x100000"
proof -
  have "k < jd.nblocks \<longleftrightarrow> (k + 1) * jd.spb \<le> 2048"
    unfolding jd.nblocks_def using less_eq_div_iff_mult_less_eq [OF jd.spb_pos, of "k + 1" 2048] by (simp add: Suc_le_eq)
  moreover have "(k + 1) * bs = (k + 1) * jd.spb * 512" using spb_bs by (simp only: mult.assoc)
  ultimately show ?thesis by linarith
qed

lemma blk_rblk: "length d = 0x100000 \<Longrightarrow> k < jd.nblocks \<Longrightarrow> jd.blk d k = rblk bs d k"
  using ramdisk_ops(1) [of 512 512 2048 "int jd.spb" "of_nat (k * jd.spb)" d] jd.block_range [of k] jd.spb_pos spb_bs
  by (simp add: jd.blk_def rblk_def mult.assoc del: of_nat_mult)

end

interpretation ram_default: ram_journal 1024 832 128
  by unfold_locales simp_all

lemma on_ramdisk_journal:
  assumes "on_ramdisk bs w"
  shows "ram_journal bs (unat (j_start (jw_journal w))) (unat (j_blocks (jw_journal w)))"
  using assms by unfold_locales (simp_all add: on_ramdisk_def word_less_nat_alt)

context ram_journal
begin

definition here :: "u8 list jworld \<Rightarrow> bool" where
  "here w \<longleftrightarrow> on_ramdisk bs w \<and> unat (j_start (jw_journal w)) = start \<and> unat (j_blocks (jw_journal w)) = blks"

lemma here_good: "here w \<Longrightarrow> jd.good w" and here_base: "here w \<Longrightarrow> jd.base w = start"
proof -
  have "0 < start + blks" using geometry(3) by simp
  moreover have "(start + blks - 1) < jd.nblocks" unfolding nblocks_iff using geometry(3,4) by simp
  ultimately have "start + blks \<le> jd.nblocks" by linarith
  then show "here w \<Longrightarrow> jd.good w" "here w \<Longrightarrow> jd.base w = start"
    by (auto simp: here_def on_ramdisk_def jd.good_def jd.base_def)
qed

lemma here_outside: "here w \<Longrightarrow> jd.outside w k \<longleftrightarrow> fs_block bs w k"
  unfolding jd.outside_def fs_block_def nblocks_iff here_base by (simp add: here_def)

lemma area_block: "k < start + blks \<Longrightarrow> k < jd.nblocks"
proof -
  assume "k < start + blks"
  then have "(k + 1) * bs \<le> (start + blks) * bs" by (intro mult_le_mono1) simp
  then show ?thesis unfolding nblocks_iff using geometry(4) by linarith
qed

lemma here_committable:
  assumes "committable bs w" and "here w"
  shows "jd.commit_ready w"
proof -
  have "unat (fst e) * jd.spb < 2 ^ 32" if "fs_block bs w (unat (fst e))" for e :: "u32 \<times> u8 list"
  proof -
    have "unat (fst e) < jd.nblocks" using that by (simp add: fs_block_def nblocks_iff)
    then show ?thesis using jd.block_range(2) [of "unat (fst e)"] by simp
  qed
  then show ?thesis
    using assms here_good [OF assms(2)] here_outside [OF assms(2)]
    by (simp add: committable_def Let_def jd.commit_ready_def jd.ready_def)
qed

lemma commit_durable:
  assumes c: "committable bs w" and h: "here w" and stk: "length stk = bs - 32"
  defines "txn \<equiv> j_txn (jw_journal w)"
  obtains d' where "journal_commit w stk = Some (0, (upd_journal w (\<lambda>j. j\<lparr>j_head := j_head j + (1 + of_nat (length txn) + 1),
        j_sequence := j_sequence j + 1, j_dirty := False, j_txn := [], j_txn_capacity := 0, j_in_transaction := False\<rparr>))\<lparr>jw_dev := d'\<rparr>)"
    and "length d' = 0x100000" and "\<forall>k. fs_block bs w k \<longrightarrow> rblk bs d' k = apply_txn txn (rblk bs (jw_dev w)) k"
    and "\<forall>i < length txn + 2. rblk bs d' (start + unat (j_head (jw_journal w)) + i) = log_entry bs (j_sequence (jw_journal w)) stk txn ! i"
    and "\<forall>i < unat (j_head (jw_journal w)). 0 < i \<longrightarrow> rblk bs d' (start + i) = rblk bs (jw_dev w) (start + i)"
proof -
  obtain d' where d': "journal_commit w stk = Some (0, (upd_journal w (\<lambda>j. j\<lparr>j_head := j_head j + (1 + of_nat (length txn) + 1),
        j_sequence := j_sequence j + 1, j_dirty := False, j_txn := [], j_txn_capacity := 0, j_in_transaction := False\<rparr>))\<lparr>jw_dev := d'\<rparr>)"
      "length d' = 0x100000" "\<forall>i. jd.outside w i \<longrightarrow> jd.blk d' i = apply_txn txn (jd.blk (jw_dev w)) i"
      "\<forall>i < length txn + 2. jd.blk d' (jd.base w + unat (j_head (jw_journal w)) + i) = log_entry bs (j_sequence (jw_journal w)) stk txn ! i"
      "\<forall>i < unat (j_head (jw_journal w)). 0 < i \<longrightarrow> jd.blk d' (jd.base w + i) = jd.blk (jw_dev w) (jd.base w + i)"
    using jd.journal_commit_ok [OF here_committable [OF c h] stk] unfolding txn_def by blast
  have len: "length d' = 0x100000" "length (jw_dev w) = 0x100000" using d'(2) h by (simp_all add: here_def on_ramdisk_def)
  have "rblk bs d' k = apply_txn txn (rblk bs (jw_dev w)) k" if k: "fs_block bs w k" for k
  proof -
    have n: "k < jd.nblocks" using k by (simp add: fs_block_def nblocks_iff)
    have "jd.blk d' k = apply_txn txn (jd.blk (jw_dev w)) k" using d'(3) here_outside [OF h] k by blast
    then show ?thesis
      using blk_rblk [OF len(1) n] blk_rblk [OF len(2) n] apply_txn_cong [of "jd.blk (jw_dev w)" k "rblk bs (jw_dev w)" txn] by simp
  qed
  moreover have "rblk bs d' (start + unat (j_head (jw_journal w)) + i) = log_entry bs (j_sequence (jw_journal w)) stk txn ! i"
    if i: "i < length txn + 2" for i
  proof -
    have k: "start + unat (j_head (jw_journal w)) + i < start + blks"
      using c h i by (simp add: committable_def Let_def here_def txn_def)
    then show ?thesis using d'(4) i blk_rblk [OF len(1) area_block [OF k]] here_base [OF h] by simp
  qed
  moreover have "rblk bs d' (start + i) = rblk bs (jw_dev w) (start + i)" if i: "i < unat (j_head (jw_journal w))" "0 < i" for i
  proof -
    have k: "start + i < start + blks" using c h i by (simp add: committable_def Let_def here_def)
    then show ?thesis using d'(5) i blk_rblk [OF len(1) area_block [OF k]] blk_rblk [OF len(2) area_block [OF k]] here_base [OF h] by simp
  qed
  ultimately show thesis using that [OF d'(1) len(1)] by blast
qed

lemma here_upd:
  assumes "here w" and "j_bdev (jw_journal w') = j_bdev (jw_journal w)" "j_block_size (jw_journal w') = j_block_size (jw_journal w)"
    "j_start (jw_journal w') = j_start (jw_journal w)" "j_blocks (jw_journal w') = j_blocks (jw_journal w)"
    "length (jw_dev w') = 0x100000" "jw_allocs w' = []"
  shows "here w'"
  using assms geometry(4) by (simp add: here_def on_ramdisk_def)

lemma replayed:
  assumes h: "here w" and init: "jw_initialized w"
    and log: "log_holds bs (rblk bs (jw_dev w)) (start + unat (j_tail (jw_journal w))) es"
    and fit: "\<forall>e \<in> set es. replayable bs w (snd (snd e))"
    and head: "unat (j_head (jw_journal w)) = unat (j_tail (jw_journal w)) + log_length es" "unat (j_head (jw_journal w)) \<le> blks"
  shows "\<exists>w'. journal_recover w = Some (0, w') \<and> (\<forall>k. fs_block bs w k \<longrightarrow> rblk bs (jw_dev w') k = apply_txn (log_txns es) (rblk bs (jw_dev w)) k)"
proof -
  have len: "length (jw_dev w) = 0x100000" and bl: "unat (j_blocks (jw_journal w)) = blks"
    using h by (simp_all add: here_def on_ramdisk_def)
  have "log_holds bs (jd.blk (jw_dev w)) (start + unat (j_tail (jw_journal w))) es =
      log_holds bs (rblk bs (jw_dev w)) (start + unat (j_tail (jw_journal w))) es"
    by (rule log_holds_cong) (use blk_rblk [OF len area_block] head in simp)
  then have l: "log_holds bs (jd.blk (jw_dev w)) (jd.base w + unat (j_tail (jw_journal w))) es" using log here_base [OF h] by simp
  have t: "\<forall>e \<in> set es. jd.txn_ok w (snd (snd e))" using fit here_outside [OF h] by (simp add: jd.txn_ok_def replayable_def)
  have hd: "unat (j_head (jw_journal w)) \<le> unat (j_blocks (jw_journal w))" using head(2) bl by simp
  obtain d' where d': "journal_recover w = Some (0, (upd_journal w (\<lambda>j. j\<lparr>j_tail := j_head j, j_dirty := False\<rparr>))\<lparr>jw_dev := d'\<rparr>)"
      "length d' = 0x100000" "\<forall>k < jd.nblocks. k \<noteq> jd.base w \<longrightarrow> jd.blk d' k = apply_txn (log_txns es) (jd.blk (jw_dev w)) k"
    by (rule jd.journal_recover_ok [OF here_good [OF h] init l t head(1) hd])
  have "rblk bs d' k = apply_txn (log_txns es) (rblk bs (jw_dev w)) k" if k: "fs_block bs w k" for k
  proof -
    have n: "k < jd.nblocks" using k by (simp add: fs_block_def nblocks_iff)
    have "k \<noteq> jd.base w" using k here_base [OF h] h geometry(3) by (auto simp: fs_block_def here_def)
    then have "jd.blk d' k = apply_txn (log_txns es) (jd.blk (jw_dev w)) k" using d'(3) n by simp
    then show ?thesis
      using blk_rblk [OF d'(2) n] blk_rblk [OF len n] apply_txn_cong [of "jd.blk (jw_dev w)" k "rblk bs (jw_dev w)" "log_txns es"] by simp
  qed
  then show ?thesis using d'(1) by simp
qed

lemma commit_logged:
  fixes seq :: u64
  assumes c: "committable bs w" and h: "here w" and stk: "length stk = bs - 32"
  obtains d' where "commit_log w stk seq = Some (0, (upd_journal w (\<lambda>j. j\<lparr>j_dirty := True\<rparr>))\<lparr>jw_dev := d'\<rparr>)"
    and "length d' = 0x100000" and "rblk bs d' start = jsb_bytes ((jw_journal w)\<lparr>j_dirty := True\<rparr>)"
    and "\<forall>k. fs_block bs w k \<longrightarrow> rblk bs d' k = rblk bs (jw_dev w) k"
proof -
  have r: "jd.ready w" using here_committable [OF c h] by (simp add: jd.commit_ready_def)
  have len: "length (jw_dev w) = 0x100000" using h by (simp add: here_def on_ramdisk_def)
  obtain d' where d': "commit_log w stk seq = Some (0, (upd_journal w (\<lambda>j. j\<lparr>j_dirty := True\<rparr>))\<lparr>jw_dev := d'\<rparr>)"
      "length d' = 0x100000" "jd.blk d' (jd.base w) = jsb_bytes ((jw_journal w)\<lparr>j_dirty := True\<rparr>)"
      "\<forall>i < jd.nblocks. i \<noteq> jd.base w \<and> \<not> (jd.base w + unat (j_head (jw_journal w)) \<le> i \<and>
        i < jd.base w + unat (j_head (jw_journal w)) + length (j_txn (jw_journal w)) + 2) \<longrightarrow> jd.blk d' i = jd.blk (jw_dev w) i"
    by (rule jd.commit_log_ok [OF r stk])
  have "rblk bs d' k = rblk bs (jw_dev w) k" if k: "fs_block bs w k" for k
  proof -
    have n: "k < jd.nblocks" using k by (simp add: fs_block_def nblocks_iff)
    have "k \<noteq> start" "\<not> (start + unat (j_head (jw_journal w)) \<le> k \<and> k < start + unat (j_head (jw_journal w)) + length (j_txn (jw_journal w)) + 2)"
      using k h c geometry(3) by (auto simp: fs_block_def here_def committable_def Let_def)
    then show ?thesis using d'(4) n blk_rblk [OF d'(2) n] blk_rblk [OF len n] here_base [OF h] by simp
  qed
  moreover have "rblk bs d' start = jsb_bytes ((jw_journal w)\<lparr>j_dirty := True\<rparr>)"
    using d'(3) here_base [OF h] blk_rblk [OF d'(2) area_block [of start]] geometry(3) by simp
  ultimately show thesis using that d'(1,2) by blast
qed

lemma read_super:
  assumes "here w"
  shows "journal_read_block w 0 (block_buf w) = Some (0, rblk bs (jw_dev w) start)"
proof -
  have "unat (0 :: u64) < unat (j_blocks (jw_journal w))" "length (jw_dev w) = 0x100000"
    using assms geometry(3) by (simp_all add: here_def on_ramdisk_def)
  then show ?thesis
    using jd.read_block [OF here_good [OF assms], of 0 "block_buf w"] here_good [OF assms] here_base [OF assms]
      blk_rblk [OF _ area_block [of start]] geometry(3) by simp
qed

lemma recover_empty:
  assumes h: "here w" and init: "jw_initialized w" and "j_tail (jw_journal w) = j_head (jw_journal w)"
    and "unat (j_head (jw_journal w)) \<le> blks"
  shows "\<exists>w'. journal_recover w = Some (0, w') \<and> (\<forall>k. fs_block bs w k \<longrightarrow> rblk bs (jw_dev w') k = rblk bs (jw_dev w) k)"
proof -
  have "\<exists>w'. journal_recover w = Some (0, w') \<and> (\<forall>k. fs_block bs w k \<longrightarrow> rblk bs (jw_dev w') k = apply_txn (log_txns []) (rblk bs (jw_dev w)) k)"
    by (rule replayed [OF h init]) (use assms(3,4) in simp_all)
  then show ?thesis by (simp only: log_txns_def list.map concat.simps apply_txn.simps)
qed

end

lemma block_size_words:
  assumes "512 dvd bs" and "0 < bs" and "bs \<le> 8192"
  shows "\<not> (of_nat bs :: u32) < 512" and "(of_nat bs :: u32) div 512 \<noteq> 0"
    and "\<not> (2048 :: u64) div ucast ((of_nat bs :: u32) div 512) < 128"
proof -
  obtain k where k: "bs = 512 * k" using assms(1) by (elim dvdE)
  then have "k \<in> {1..16}" using assms(2,3) by auto
  then have "k \<in> {1,2,3,4,5,6,7,8,9,10,11,12,13,14,15,16}" by (simp, presburger)
  then show "\<not> (of_nat bs :: u32) < 512" "(of_nat bs :: u32) div 512 \<noteq> 0" "\<not> (2048 :: u64) div ucast ((of_nat bs :: u32) div 512) < 128"
    unfolding k by auto
qed

lemma here_world:
  "on_ramdisk bs w \<Longrightarrow> ram_journal.here bs (unat (j_start (jw_journal w))) (unat (j_blocks (jw_journal w))) w"
  using ram_journal.here_def [OF on_ramdisk_journal] by simp

subsection \<open>Properties\<close>

text \<open>C11: a commit is carried out.  For every filled transaction that fits into the log before its end, on a disk
  without errors, \<open>journal_commit\<close> succeeds without undefined behaviour apart from the bytes it reads behind
  the commit record; afterwards every block of the transaction holds the data written last, no
  other block outside the log has changed, and the journal is clean with no transaction open.\<close>

theorem journal_commit_durable:
  assumes "committable bs w" and "length stk = bs - 32"
  shows "\<exists>w'. journal_commit w stk = Some (0, w') \<and> journal_is_clean w' \<and> \<not> j_in_transaction (jw_journal w') \<and>
    (\<forall>k. fs_block bs w k \<longrightarrow> rblk bs (jw_dev w') k = apply_txn (j_txn (jw_journal w)) (rblk bs (jw_dev w)) k)"
proof -
  have on: "on_ramdisk bs w" using assms(1) by (simp add: committable_def Let_def)
  have h: "ram_journal.here bs (unat (j_start (jw_journal w))) (unat (j_blocks (jw_journal w))) w"
    by (rule here_world [OF on])
  obtain d' where "journal_commit w stk = Some (0, (upd_journal w (\<lambda>j. j\<lparr>j_head := j_head j + (1 + of_nat (length (j_txn (jw_journal w))) + 1),
        j_sequence := j_sequence j + 1, j_dirty := False, j_txn := [], j_txn_capacity := 0, j_in_transaction := False\<rparr>))\<lparr>jw_dev := d'\<rparr>)"
      "\<forall>k. fs_block bs w k \<longrightarrow> rblk bs d' k = apply_txn (j_txn (jw_journal w)) (rblk bs (jw_dev w)) k"
    by (rule ram_journal.commit_durable [OF on_ramdisk_journal [OF on] assms(1) h assms(2)])
  then show ?thesis by (simp add: upd_journal_def journal_is_clean_def)
qed


text \<open>A transaction of one block on a journal of blocks of 512 bytes, used by the witnesses.\<close>

definition journal_example :: "u8 list jworld" where
  "journal_example = \<lparr>jw_dev = replicate 0x100000 0,
     jw_journal = \<lparr>j_bdev = ramdisk_dev 0, j_block_size = 512, j_start = 100, j_blocks = 16, j_head = 1, j_tail = 1, j_sequence = 1,
       j_in_transaction = True, j_txn = [(3, replicate 512 7)], j_txn_capacity = 16, j_dirty = False, j_fs_total_blocks = 64\<rparr>,
     jw_initialized = True, jw_allocs = []\<rparr>"

lemma example_committable: "committable 512 journal_example"
  by (simp add: committable_def Let_def on_ramdisk_def fs_block_def journal_example_def)

lemma example_fs_block: "fs_block 512 journal_example 3"
  by (simp add: fs_block_def journal_example_def)

theorem journal_commit_durable_witness:
  "\<exists>w'. journal_commit journal_example (replicate 480 0) = Some (0, w') \<and> rblk 512 (jw_dev w') 3 = replicate 512 7"
proof -
  obtain w' where w': "journal_commit journal_example (replicate 480 0) = Some (0, w')"
      "\<forall>k. fs_block 512 journal_example k \<longrightarrow>
        rblk 512 (jw_dev w') k = apply_txn (j_txn (jw_journal journal_example)) (rblk 512 (jw_dev journal_example)) k"
    using journal_commit_durable [OF example_committable, of "replicate 480 0"] by auto
  have "apply_txn (j_txn (jw_journal journal_example)) f 3 = replicate 512 7" for f by (simp add: journal_example_def)
  then show ?thesis using w' example_fs_block by auto
qed




lemma journal_init_dirty:
  assumes "\<not> blks < 8" "\<not> bsz < 512" "bd_block_size b \<noteq> 0" "bsz div bd_block_size b \<noteq> 0"
      "\<not> bd_total_sectors b div ucast (bsz div bd_block_size b) < 128" "bd_write b \<noteq> None"
    and boot: "\<not> jw_initialized w0" "alloc_ok w0" "w1 = alloc_next (w0\<lparr>jw_journal := journal_fresh b bsz start blks fs_total\<rparr>)"
    and sb: "journal_read_block w1 0 (block_buf w1) = Some (0, buf)" "fld32 0 buf = JOURNAL_MAGIC_SB"
      "fld32 56 buf = calc_checksum (take 56 buf)" "fld32 52 buf \<noteq> 0"
  shows "journal_init w0 (Some b) start blks bsz fs_total = Some (- 1, upd_journal w1 (\<lambda>j. j\<lparr>j_head := fld64 28 buf,
    j_tail := fld64 36 buf, j_sequence := fld64 44 buf, j_dirty := True\<rparr>))"
proof -
  have "\<not> jw_initialized (upd_journal w1 f)" for f using boot by (simp add: upd_journal_def alloc_next_def)
  then have r: "journal_recover (upd_journal w1 f) = Some (- 1, upd_journal w1 f)" for f by (simp add: journal_recover_def)
  have j: "j_dirty (jw_journal (upd_journal w1 f)) = j_dirty (f (jw_journal w1))" for f by (simp add: upd_journal_def)
  show ?thesis
    unfolding journal_init_def Let_def option.case boot(3) [symmetric]
    using assms(1-6) boot(2) sb r by (simp add: j)
qed

lemma jsb_read:
  "fld32 0 (jsb_bytes j) = JOURNAL_MAGIC_SB" "fld32 52 (jsb_bytes j) = (if j_dirty j then 1 else 0)"
  "fld32 56 (jsb_bytes j) = calc_checksum (take 56 (jsb_bytes j))"
  by (simp_all add: jsb_bytes_def jsb_fields_def fld32_append)

text \<open>C17: recovery misses the very transactions it is there for.  When the log was empty and a crash comes after the
  descriptor, the data and the commit record are on disk, but before the checkpoint, \<open>journal_recover\<close> leaves
  every block outside the log as it was (\<open>commit_log\<close> is this part of \<open>journal_commit\<close>): the head that bounds the replay still is the one from before the commit.\<close>

theorem journal_committed_not_replayed:
  fixes seq :: u64
  assumes "committable bs w" and "length stk = bs - 32" and "j_tail (jw_journal w) = j_head (jw_journal w)"
  shows "\<exists>w1 w2. commit_log w stk seq = Some (0, w1) \<and> journal_recover w1 = Some (0, w2) \<and>
    (\<forall>k. fs_block bs w k \<longrightarrow> rblk bs (jw_dev w2) k = rblk bs (jw_dev w) k)"
proof -
  let ?j = "jw_journal w" let ?start = "unat (j_start ?j)" let ?blks = "unat (j_blocks ?j)"
  have c: "on_ramdisk bs w" "jw_initialized w" "unat (j_head ?j) + length (j_txn ?j) + 2 < ?blks"
    using assms(1) by (simp_all add: committable_def Let_def)
  note rj = on_ramdisk_journal [OF c(1)] and h = here_world [OF c(1)]
  obtain d' where d': "commit_log w stk seq = Some (0, (upd_journal w (\<lambda>j. j\<lparr>j_dirty := True\<rparr>))\<lparr>jw_dev := d'\<rparr>)"
      "length d' = 0x100000" "\<forall>k. fs_block bs w k \<longrightarrow> rblk bs d' k = rblk bs (jw_dev w) k"
    by (rule ram_journal.commit_logged [OF rj assms(1) h assms(2)])
  define w1 where "w1 = (upd_journal w (\<lambda>j. j\<lparr>j_dirty := True\<rparr>))\<lparr>jw_dev := d'\<rparr>"
  have w1: "jw_dev w1 = d'" "jw_initialized w1" "j_tail (jw_journal w1) = j_head (jw_journal w1)" "unat (j_head (jw_journal w1)) \<le> ?blks"
    using c assms(3) by (simp_all add: w1_def upd_journal_def)
  have "jw_allocs w = []" using c(1) by (simp add: on_ramdisk_def)
  then have h1: "ram_journal.here bs ?start ?blks w1"
    by (intro ram_journal.here_upd [OF rj h]) (simp_all add: w1_def upd_journal_def d'(2))
  have fs: "fs_block bs w1 k = fs_block bs w k" for k by (simp add: fs_block_def w1_def upd_journal_def)
  from ram_journal.recover_empty [OF rj h1 w1(2-4)] obtain w2 where
    "journal_recover w1 = Some (0, w2)" "\<forall>k. fs_block bs w1 k \<longrightarrow> rblk bs (jw_dev w2) k = rblk bs (jw_dev w1) k"
    by (elim exE conjE)
  then show ?thesis using d'(1,3) unfolding fs w1(1) w1_def [symmetric] by (intro exI [of _ w1] exI [of _ w2]) simp
qed

theorem journal_committed_not_replayed_witness:
  "\<exists>w1 w2. commit_log journal_example (replicate 480 0) 1 = Some (0, w1) \<and> journal_recover w1 = Some (0, w2) \<and>
    rblk 512 (jw_dev w2) 3 = replicate 512 0 \<and> apply_txn (j_txn (jw_journal journal_example)) (rblk 512 (jw_dev journal_example)) 3 = replicate 512 7"
proof -
  have pre: "length (replicate 480 (0 :: u8)) = 512 - 32" "j_tail (jw_journal journal_example) = j_head (jw_journal journal_example)"
    by (simp_all add: journal_example_def)
  have "rblk 512 (jw_dev journal_example) 3 = replicate 512 0" by (simp add: rblk_def journal_example_def)
  moreover have "apply_txn (j_txn (jw_journal journal_example)) f 3 = replicate 512 7" for f by (simp add: journal_example_def)
  ultimately show ?thesis
    using journal_committed_not_replayed [OF example_committable pre, of 1] example_fs_block by auto
qed

text \<open>C16: a crash during a commit disables the journal for good.  On the disk a crash between the commit record
  and the checkpoint leaves, the next initialisation of the journal finds the dirty flag, asks
  \<open>journal_recover\<close>, which refuses since the journal is not initialised yet, and fails: it writes nothing, so that
  every later attempt fails the same way.\<close>

theorem journal_crash_disables:
  fixes seq :: u64
  assumes "committable bs w" and "length stk = bs - 32" and "8 \<le> j_blocks (jw_journal w)" and "bs \<le> 8192"
  shows "\<exists>w1. commit_log w stk seq = Some (0, w1) \<and>
    (\<forall>w0 fs_total. \<not> jw_initialized w0 \<and> jw_dev w0 = jw_dev w1 \<and> jw_allocs w0 = [] \<longrightarrow>
      (\<exists>w2. journal_init w0 (Some (ramdisk_dev 0)) (j_start (jw_journal w)) (j_blocks (jw_journal w)) (of_nat bs) fs_total = Some (- 1, w2) \<and>
        \<not> jw_initialized w2 \<and> jw_dev w2 = jw_dev w1 \<and> jw_allocs w2 = []))"
proof -
  let ?j = "jw_journal w" let ?start = "unat (j_start ?j)" let ?blks = "unat (j_blocks ?j)"
  have on: "on_ramdisk bs w" using assms(1) by (simp add: committable_def Let_def)
  have bs: "512 dvd bs" "0 < bs" using on by (simp_all add: on_ramdisk_def)
  note rj = on_ramdisk_journal [OF on] and h = here_world [OF on]
  obtain d' where d': "commit_log w stk seq = Some (0, (upd_journal w (\<lambda>j. j\<lparr>j_dirty := True\<rparr>))\<lparr>jw_dev := d'\<rparr>)"
      "length d' = 0x100000" "rblk bs d' ?start = jsb_bytes (?j\<lparr>j_dirty := True\<rparr>)"
    by (rule ram_journal.commit_logged [OF rj assms(1) h assms(2)])
  have "\<exists>w2. journal_init w0 (Some (ramdisk_dev 0)) (j_start ?j) (j_blocks ?j) (of_nat bs) fs_total = Some (- 1, w2) \<and>
        \<not> jw_initialized w2 \<and> jw_dev w2 = d' \<and> jw_allocs w2 = []"
    if w0: "\<not> jw_initialized w0" "jw_dev w0 = d'" "jw_allocs w0 = []" for w0 fs_total
  proof -
    define w1 where "w1 = alloc_next (w0\<lparr>jw_journal := journal_fresh (ramdisk_dev 0) (of_nat bs) (j_start ?j) (j_blocks ?j) fs_total\<rparr>)"
    have h1: "ram_journal.here bs ?start ?blks w1"
      by (rule ram_journal.here_upd [OF rj h]) (use w0 d'(2) on in \<open>simp_all add: w1_def alloc_next_def journal_fresh_def on_ramdisk_def\<close>)
    have r: "journal_read_block w1 0 (block_buf w1) = Some (0, jsb_bytes (?j\<lparr>j_dirty := True\<rparr>))"
      using ram_journal.read_super [OF rj h1] w0 d'(3) by (simp add: w1_def alloc_next_def)
    have g: "\<not> (of_nat bs :: u32) < 512" "bd_block_size (ramdisk_dev 0) = 512" "(of_nat bs :: u32) div 512 \<noteq> 0"
        "\<not> bd_total_sectors (ramdisk_dev 0) div ucast ((of_nat bs :: u32) div 512) < 128" "bd_write (ramdisk_dev 0) \<noteq> None"
      using block_size_words [OF bs assms(4)] by (simp_all add: ramdisk_dev_def ramdisk_size_0)
    have sb: "\<not> j_blocks ?j < 8" "alloc_ok w0" "fld32 52 (jsb_bytes (?j\<lparr>j_dirty := True\<rparr>)) \<noteq> 0"
      using assms(3) w0(3) by (simp_all add: alloc_ok_def jsb_read)
    have "bd_block_size (ramdisk_dev 0) \<noteq> 0" using g(2) by simp
    note i = journal_init_dirty [OF sb(1) g(1) this g(3) [folded g(2)] g(4) [folded g(2)] g(5) w0(1) sb(2) w1_def r jsb_read(1,3) sb(3)]
    show ?thesis unfolding i using w0 by (simp add: w1_def upd_journal_def alloc_next_def)
  qed
  then show ?thesis using d'(1) by (intro exI conjI) (assumption, simp)
qed

theorem journal_crash_disables_witness:
  "\<exists>w1 w2. commit_log journal_example (replicate 480 0) 1 = Some (0, w1) \<and>
    journal_init (w1\<lparr>jw_initialized := False\<rparr>) (Some (ramdisk_dev 0)) 100 16 512 64 = Some (- 1, w2) \<and> \<not> jw_initialized w2"
proof -
  have pre: "length (replicate 480 (0 :: u8)) = 512 - 32" "8 \<le> j_blocks (jw_journal journal_example)" "(512 :: nat) \<le> 8192"
    and ex: "j_start (jw_journal journal_example) = 100" "j_blocks (jw_journal journal_example) = 16"
    by (simp_all add: journal_example_def)
  have on: "on_ramdisk 512 journal_example" using example_committable by (simp add: committable_def Let_def)
  obtain d' where d': "commit_log journal_example (replicate 480 0) 1 =
      Some (0, (upd_journal journal_example (\<lambda>j. j\<lparr>j_dirty := True\<rparr>))\<lparr>jw_dev := d'\<rparr>)"
    by (rule ram_journal.commit_logged [OF on_ramdisk_journal [OF on] example_committable here_world [OF on] pre(1)])
  define w1 where "w1 = (upd_journal journal_example (\<lambda>j. j\<lparr>j_dirty := True\<rparr>))\<lparr>jw_dev := d'\<rparr>"
  have "jw_allocs w1 = []" by (simp add: w1_def upd_journal_def journal_example_def)
  then have w0: "\<not> jw_initialized (w1\<lparr>jw_initialized := False\<rparr>)" "jw_dev (w1\<lparr>jw_initialized := False\<rparr>) = jw_dev w1"
      "jw_allocs (w1\<lparr>jw_initialized := False\<rparr>) = []" by simp_all
  show ?thesis
    using journal_crash_disables [OF example_committable pre, of 1] d' w0 unfolding w1_def [symmetric] ex by fastforce
qed

end
