(* ===== verification/Rbtree.thy ===== *)
theory Rbtree
  imports Prelude "HOL-Library.Product_Lexorder"
begin

text \<open>
  The red-black tree of \<^verbatim>\<open>kernel/rbtree.c\<close>, on nodes in memory: each node has pointers to its parent and
  children, and all operations walk and change these pointers in the order the code does.  \<open>None\<close> is the
  dereference of a null or wild pointer, or a loop that does not end.
\<close>

subsection \<open>State\<close>

datatype rb_colour = RB_RED | RB_BLACK

record rb_node =
  rb_color :: rb_colour
  rb_parent :: addr
  rb_left :: addr
  rb_right :: addr
  rb_key :: u64

text \<open>A tree is its root pointer and the memory that holds nodes, those of other trees included.\<close>

record rb_tree =
  rb_root :: addr
  rb_nodes :: "addr \<rightharpoonup> rb_node"

definition rb_node_at :: "rb_tree \<Rightarrow> addr \<Rightarrow> rb_node ub" where
  "rb_node_at s p = (if p = NULL then None else rb_nodes s p)"

definition rb_update :: "rb_tree \<Rightarrow> addr \<Rightarrow> (rb_node \<Rightarrow> rb_node) \<Rightarrow> rb_tree ub" where
  "rb_update s p f = do { n \<leftarrow> rb_node_at s p; Some (s\<lparr>rb_nodes := (rb_nodes s)(p \<mapsto> f n)\<rparr>) }"

text \<open>The users of a tree set the key of a node before they insert it.\<close>

definition rb_set_key :: "rb_tree \<Rightarrow> addr \<Rightarrow> u64 \<Rightarrow> rb_tree ub" where
  "rb_set_key s p k = rb_update s p (\<lambda>n. n\<lparr>rb_key := k\<rparr>)"

definition rb_is_red :: "rb_tree \<Rightarrow> addr \<Rightarrow> bool ub" where
  "rb_is_red s p = (if p = NULL then Some False else do { n \<leftarrow> rb_node_at s p; Some (rb_color n = RB_RED) })"

definition rb_is_black :: "rb_tree \<Rightarrow> addr \<Rightarrow> bool ub" where
  "rb_is_black s p = (if p = NULL then Some True else do { n \<leftarrow> rb_node_at s p; Some (rb_color n = RB_BLACK) })"

definition rb_set_red :: "rb_tree \<Rightarrow> addr \<Rightarrow> rb_tree ub" where
  "rb_set_red s p = (if p = NULL then Some s else rb_update s p (\<lambda>n. n\<lparr>rb_color := RB_RED\<rparr>))"

definition rb_set_black :: "rb_tree \<Rightarrow> addr \<Rightarrow> rb_tree ub" where
  "rb_set_black s p = (if p = NULL then Some s else rb_update s p (\<lambda>n. n\<lparr>rb_color := RB_BLACK\<rparr>))"

definition rb_init :: "rb_tree \<Rightarrow> rb_tree" where
  "rb_init s = s\<lparr>rb_root := NULL\<rparr>"

subsection \<open>Rotations\<close>

text \<open>The place that points to \<open>x\<close>, a child pointer of its parent or the root pointer, points to \<open>y\<close> instead.\<close>

definition rb_replace_child :: "rb_tree \<Rightarrow> addr \<Rightarrow> addr \<Rightarrow> rb_tree ub" where
  "rb_replace_child s x y =
     do { nx \<leftarrow> rb_node_at s x;
          if rb_parent nx = NULL then Some (s\<lparr>rb_root := y\<rparr>)
          else do {
            np \<leftarrow> rb_node_at s (rb_parent nx);
            if x = rb_left np then rb_update s (rb_parent nx) (\<lambda>n. n\<lparr>rb_left := y\<rparr>)
            else rb_update s (rb_parent nx) (\<lambda>n. n\<lparr>rb_right := y\<rparr>) } }"

definition rb_set_parent :: "rb_tree \<Rightarrow> addr \<Rightarrow> addr \<Rightarrow> rb_tree ub" where
  "rb_set_parent s p v = (if p = NULL then Some s else rb_update s p (\<lambda>n. n\<lparr>rb_parent := v\<rparr>))"

definition rb_rotate_left :: "rb_tree \<Rightarrow> addr \<Rightarrow> rb_tree ub" where
  "rb_rotate_left s x =
     do { nx \<leftarrow> rb_node_at s x;
          let y = rb_right nx;
          if y = NULL then Some s
          else do {
            ny \<leftarrow> rb_node_at s y;
            s1 \<leftarrow> rb_update s x (\<lambda>n. n\<lparr>rb_right := rb_left ny\<rparr>);
            ny1 \<leftarrow> rb_node_at s1 y;
            s2 \<leftarrow> rb_set_parent s1 (rb_left ny1) x;
            nx2 \<leftarrow> rb_node_at s2 x;
            s3 \<leftarrow> rb_update s2 y (\<lambda>n. n\<lparr>rb_parent := rb_parent nx2\<rparr>);
            s4 \<leftarrow> rb_replace_child s3 x y;
            s5 \<leftarrow> rb_update s4 y (\<lambda>n. n\<lparr>rb_left := x\<rparr>);
            rb_update s5 x (\<lambda>n. n\<lparr>rb_parent := y\<rparr>) } }"

definition rb_rotate_right :: "rb_tree \<Rightarrow> addr \<Rightarrow> rb_tree ub" where
  "rb_rotate_right s y =
     do { ny \<leftarrow> rb_node_at s y;
          let x = rb_left ny;
          if x = NULL then Some s
          else do {
            nx \<leftarrow> rb_node_at s x;
            s1 \<leftarrow> rb_update s y (\<lambda>n. n\<lparr>rb_left := rb_right nx\<rparr>);
            nx1 \<leftarrow> rb_node_at s1 x;
            s2 \<leftarrow> rb_set_parent s1 (rb_right nx1) y;
            ny2 \<leftarrow> rb_node_at s2 y;
            s3 \<leftarrow> rb_update s2 x (\<lambda>n. n\<lparr>rb_parent := rb_parent ny2\<rparr>);
            s4 \<leftarrow> rb_replace_child s3 y x;
            s5 \<leftarrow> rb_update s4 x (\<lambda>n. n\<lparr>rb_right := y\<rparr>);
            rb_update s5 y (\<lambda>n. n\<lparr>rb_parent := x\<rparr>) } }"

subsection \<open>Insertion\<close>

text \<open>One round of the loop: \<open>None\<close> in the second component when the loop ends, otherwise the node to go on with.\<close>

definition insert_left_case :: "rb_tree \<Rightarrow> addr \<Rightarrow> addr \<Rightarrow> addr \<Rightarrow> (rb_tree \<times> addr option) ub" where
  "insert_left_case s node parent grandparent =
     do { ng \<leftarrow> rb_node_at s grandparent;
          let uncle = rb_right ng;
          red \<leftarrow> rb_is_red s uncle;
          if red
          then do { s1 \<leftarrow> rb_set_black s parent; s2 \<leftarrow> rb_set_black s1 uncle; s3 \<leftarrow> rb_set_red s2 grandparent;
                    Some (s3, Some grandparent) }
          else do {
            np \<leftarrow> rb_node_at s parent;
            (s1, node1, parent1) \<leftarrow>
              (if node = rb_right np
               then do { t \<leftarrow> rb_rotate_left s parent; n \<leftarrow> rb_node_at t parent; Some (t, parent, rb_parent n) }
               else Some (s, node, parent));
            s2 \<leftarrow> rb_set_black s1 parent1; s3 \<leftarrow> rb_set_red s2 grandparent; s4 \<leftarrow> rb_rotate_right s3 grandparent;
            Some (s4, Some node1) } }"

definition insert_right_case :: "rb_tree \<Rightarrow> addr \<Rightarrow> addr \<Rightarrow> addr \<Rightarrow> (rb_tree \<times> addr option) ub" where
  "insert_right_case s node parent grandparent =
     do { ng \<leftarrow> rb_node_at s grandparent;
          let uncle = rb_left ng;
          red \<leftarrow> rb_is_red s uncle;
          if red
          then do { s1 \<leftarrow> rb_set_black s parent; s2 \<leftarrow> rb_set_black s1 uncle; s3 \<leftarrow> rb_set_red s2 grandparent;
                    Some (s3, Some grandparent) }
          else do {
            np \<leftarrow> rb_node_at s parent;
            (s1, node1, parent1) \<leftarrow>
              (if node = rb_left np
               then do { t \<leftarrow> rb_rotate_right s parent; n \<leftarrow> rb_node_at t parent; Some (t, parent, rb_parent n) }
               else Some (s, node, parent));
            s2 \<leftarrow> rb_set_black s1 parent1; s3 \<leftarrow> rb_set_red s2 grandparent; s4 \<leftarrow> rb_rotate_left s3 grandparent;
            Some (s4, Some node1) } }"

definition insert_fixup_step :: "rb_tree \<Rightarrow> addr \<Rightarrow> (rb_tree \<times> addr option) ub" where
  "insert_fixup_step s node =
     do { n \<leftarrow> rb_node_at s node;
          let parent = rb_parent n;
          red \<leftarrow> rb_is_red s parent;
          if \<not> red then Some (s, None)
          else do {
            np \<leftarrow> rb_node_at s parent;
            let grandparent = rb_parent np;
            if grandparent = NULL then Some (s, None)
            else do {
              ng \<leftarrow> rb_node_at s grandparent;
              if parent = rb_left ng then insert_left_case s node parent grandparent
              else insert_right_case s node parent grandparent } } }"

partial_function (option) rb_insert_fixup :: "rb_tree \<Rightarrow> addr \<Rightarrow> rb_tree option" where [code]:
  "rb_insert_fixup s node =
     do { (s1, go) \<leftarrow> insert_fixup_step s node;
          case go of None \<Rightarrow> rb_set_black s1 (rb_root s1) | Some node1 \<Rightarrow> rb_insert_fixup s1 node1 }"

text \<open>A pointer to a pointer in the tree.\<close>

datatype rb_link = Root_link | Left_link addr | Right_link addr

fun read_link :: "rb_tree \<Rightarrow> rb_link \<Rightarrow> addr ub" where
  "read_link s Root_link = Some (rb_root s)"
| "read_link s (Left_link p) = do { n \<leftarrow> rb_node_at s p; Some (rb_left n) }"
| "read_link s (Right_link p) = do { n \<leftarrow> rb_node_at s p; Some (rb_right n) }"

fun write_link :: "rb_tree \<Rightarrow> rb_link \<Rightarrow> addr \<Rightarrow> rb_tree ub" where
  "write_link s Root_link v = Some (s\<lparr>rb_root := v\<rparr>)"
| "write_link s (Left_link p) v = rb_update s p (\<lambda>n. n\<lparr>rb_left := v\<rparr>)"
| "write_link s (Right_link p) v = rb_update s p (\<lambda>n. n\<lparr>rb_right := v\<rparr>)"

partial_function (option) insert_descend :: "rb_tree \<Rightarrow> addr \<Rightarrow> addr \<Rightarrow> rb_link \<Rightarrow> (addr \<times> rb_link) option" where [code]:
  "insert_descend s node parent link =
     do { p \<leftarrow> read_link s link;
          if p = NULL then Some (parent, link)
          else do {
            nn \<leftarrow> rb_node_at s node; np \<leftarrow> rb_node_at s p;
            if rb_key nn < rb_key np then insert_descend s node p (Left_link p)
            else if rb_key np < rb_key nn then insert_descend s node p (Right_link p)
            else if node < p then insert_descend s node p (Left_link p)
            else insert_descend s node p (Right_link p) } }"

definition rb_insert :: "rb_tree \<Rightarrow> addr \<Rightarrow> rb_tree ub" where
  "rb_insert s node =
     (if node = NULL then Some s
      else do {
        (parent, link) \<leftarrow> insert_descend s node NULL Root_link;
        s1 \<leftarrow> rb_update s node (\<lambda>n. n\<lparr>rb_parent := parent, rb_left := NULL, rb_right := NULL, rb_color := RB_RED\<rparr>);
        s2 \<leftarrow> write_link s1 link node;
        rb_insert_fixup s2 node })"

subsection \<open>Removal\<close>

definition rb_transplant :: "rb_tree \<Rightarrow> addr \<Rightarrow> addr \<Rightarrow> rb_tree ub" where
  "rb_transplant s u v =
     do { s1 \<leftarrow> rb_replace_child s u v;
          nu \<leftarrow> rb_node_at s1 u;
          rb_set_parent s1 v (rb_parent nu) }"

text \<open>How a round of the fix-up ends: the loop is left with this \<open>x\<close>, or goes on with these \<open>x\<close>, \<open>x_parent\<close>, \<open>x_is_left\<close>.\<close>

datatype fixup = Leave addr | Go_on addr addr bool

text \<open>Case 2: the missing black node is passed on to the parent.\<close>

definition erase_move_up :: "rb_tree \<Rightarrow> addr \<Rightarrow> addr \<Rightarrow> bool \<Rightarrow> (rb_tree \<times> fixup) ub" where
  "erase_move_up s w x_parent x_is_left =
     do { s1 \<leftarrow> rb_set_red s w;
          n \<leftarrow> rb_node_at s1 x_parent;
          is_left \<leftarrow> (if rb_parent n \<noteq> NULL then do { g \<leftarrow> rb_node_at s1 (rb_parent n); Some (x_parent = rb_left g) }
                     else Some x_is_left);
          Some (s1, Go_on x_parent (rb_parent n) is_left) }"

text \<open>Cases 2 to 4, with a black sibling \<open>w\<close> on the right.\<close>

definition erase_black_right :: "rb_tree \<Rightarrow> addr \<Rightarrow> addr \<Rightarrow> addr \<Rightarrow> (rb_tree \<times> fixup) ub" where
  "erase_black_right s x x_parent w =
     do { nw \<leftarrow> rb_node_at s w;
          bl \<leftarrow> rb_is_black s (rb_left nw); br \<leftarrow> rb_is_black s (rb_right nw);
          if bl \<and> br then erase_move_up s w x_parent True
          else do {
            s3 \<leftarrow> (if br then do { s1 \<leftarrow> rb_set_black s (rb_left nw); s2 \<leftarrow> rb_set_red s1 w; rb_rotate_right s2 w } else Some s);
            np \<leftarrow> rb_node_at s3 x_parent;
            let w1 = (if br then rb_right np else w);
            if br \<and> w1 = NULL then Some (s3, Leave x)
            else do {
              s4 \<leftarrow> rb_update s3 w1 (\<lambda>n. n\<lparr>rb_color := rb_color np\<rparr>);
              s5 \<leftarrow> rb_set_black s4 x_parent;
              nw1 \<leftarrow> rb_node_at s5 w1;
              s6 \<leftarrow> rb_set_black s5 (rb_right nw1);
              s7 \<leftarrow> rb_rotate_left s6 x_parent;
              Some (s7, Leave (rb_root s7)) } } }"

definition erase_black_left :: "rb_tree \<Rightarrow> addr \<Rightarrow> addr \<Rightarrow> addr \<Rightarrow> (rb_tree \<times> fixup) ub" where
  "erase_black_left s x x_parent w =
     do { nw \<leftarrow> rb_node_at s w;
          bl \<leftarrow> rb_is_black s (rb_left nw); br \<leftarrow> rb_is_black s (rb_right nw);
          if bl \<and> br then erase_move_up s w x_parent False
          else do {
            s3 \<leftarrow> (if bl then do { s1 \<leftarrow> rb_set_black s (rb_right nw); s2 \<leftarrow> rb_set_red s1 w; rb_rotate_left s2 w } else Some s);
            np \<leftarrow> rb_node_at s3 x_parent;
            let w1 = (if bl then rb_left np else w);
            if bl \<and> w1 = NULL then Some (s3, Leave x)
            else do {
              s4 \<leftarrow> rb_update s3 w1 (\<lambda>n. n\<lparr>rb_color := rb_color np\<rparr>);
              s5 \<leftarrow> rb_set_black s4 x_parent;
              nw1 \<leftarrow> rb_node_at s5 w1;
              s6 \<leftarrow> rb_set_black s5 (rb_left nw1);
              s7 \<leftarrow> rb_rotate_right s6 x_parent;
              Some (s7, Leave (rb_root s7)) } } }"

definition erase_fixup_step :: "rb_tree \<Rightarrow> addr \<Rightarrow> addr \<Rightarrow> bool \<Rightarrow> (rb_tree \<times> fixup) ub" where
  "erase_fixup_step s x x_parent x_is_left =
     do { np \<leftarrow> rb_node_at s x_parent;
          let w = (if x_is_left then rb_right np else rb_left np);
          if w = NULL then Some (s, Leave x)
          else do {
            red \<leftarrow> rb_is_red s w;
            if red
            then do {
              s1 \<leftarrow> rb_set_black s w;
              s2 \<leftarrow> rb_set_red s1 x_parent;
              s3 \<leftarrow> (if x_is_left then rb_rotate_left s2 x_parent else rb_rotate_right s2 x_parent);
              np3 \<leftarrow> rb_node_at s3 x_parent;
              let w3 = (if x_is_left then rb_right np3 else rb_left np3);
              if w3 = NULL then Some (s3, Leave x)
              else if x_is_left then erase_black_right s3 x x_parent w3 else erase_black_left s3 x x_parent w3 }
            else if x_is_left then erase_black_right s x x_parent w else erase_black_left s x x_parent w } }"

partial_function (option) rb_erase_fixup :: "rb_tree \<Rightarrow> addr \<Rightarrow> addr \<Rightarrow> bool \<Rightarrow> rb_tree option" where [code]:
  "rb_erase_fixup s x x_parent x_is_left =
     (if x = rb_root s then rb_set_black s x
      else do {
        black \<leftarrow> rb_is_black s x;
        if black
        then do {
          (s1, r) \<leftarrow> erase_fixup_step s x x_parent x_is_left;
          case r of Leave x1 \<Rightarrow> rb_set_black s1 x1 | Go_on x1 p1 l1 \<Rightarrow> rb_erase_fixup s1 x1 p1 l1 }
        else rb_set_black s x })"

partial_function (option) rb_leftmost :: "rb_tree \<Rightarrow> addr \<Rightarrow> addr option" where [code]:
  "rb_leftmost s y = do { n \<leftarrow> rb_node_at s y; if rb_left n = NULL then Some y else rb_leftmost s (rb_left n) }"

text \<open>Whether \<open>z\<close> is the left child of \<open>p\<close>; 0 where there is no parent.\<close>

definition is_left_child :: "rb_tree \<Rightarrow> addr \<Rightarrow> addr \<Rightarrow> bool ub" where
  "is_left_child s z p = (if p = NULL then Some False else do { n \<leftarrow> rb_node_at s p; Some (z = rb_left n) })"

text \<open>A node with two children: its successor \<open>y\<close> takes its place.\<close>

definition erase_two_children :: "rb_tree \<Rightarrow> addr \<Rightarrow> (rb_tree \<times> rb_colour \<times> addr \<times> addr \<times> bool) ub" where
  "erase_two_children s z =
     do { nz \<leftarrow> rb_node_at s z;
          y \<leftarrow> rb_leftmost s (rb_right nz);
          ny \<leftarrow> rb_node_at s y;
          let x = rb_right ny;
          (s1, x_parent, x_is_left) \<leftarrow>
            (if rb_parent ny = z
             then do { t \<leftarrow> rb_set_parent s x y; Some (t, y, False) }
             else do {
               l \<leftarrow> is_left_child s y (rb_parent ny);
               t1 \<leftarrow> rb_transplant s y x;
               nz1 \<leftarrow> rb_node_at t1 z;
               t2 \<leftarrow> rb_update t1 y (\<lambda>n. n\<lparr>rb_right := rb_right nz1\<rparr>);
               t3 \<leftarrow> rb_set_parent t2 (rb_right nz1) y;
               Some (t3, rb_parent ny, l) });
          s2 \<leftarrow> rb_transplant s1 z y;
          nz2 \<leftarrow> rb_node_at s2 z;
          s3 \<leftarrow> rb_update s2 y (\<lambda>n. n\<lparr>rb_left := rb_left nz2\<rparr>);
          s4 \<leftarrow> rb_set_parent s3 (rb_left nz2) y;
          nz4 \<leftarrow> rb_node_at s4 z;
          s5 \<leftarrow> rb_update s4 y (\<lambda>n. n\<lparr>rb_color := rb_color nz4\<rparr>);
          Some (s5, rb_color ny, x, x_parent, x_is_left) }"

definition erase_unlink :: "rb_tree \<Rightarrow> addr \<Rightarrow> (rb_tree \<times> rb_colour \<times> addr \<times> addr \<times> bool) ub" where
  "erase_unlink s z =
     do { nz \<leftarrow> rb_node_at s z;
          if rb_left nz = NULL
          then do { l \<leftarrow> is_left_child s z (rb_parent nz); s1 \<leftarrow> rb_transplant s z (rb_right nz);
                    Some (s1, rb_color nz, rb_right nz, rb_parent nz, l) }
          else if rb_right nz = NULL
          then do { l \<leftarrow> is_left_child s z (rb_parent nz); s1 \<leftarrow> rb_transplant s z (rb_left nz);
                    Some (s1, rb_color nz, rb_left nz, rb_parent nz, l) }
          else erase_two_children s z }"

definition rb_erase :: "rb_tree \<Rightarrow> addr \<Rightarrow> rb_tree ub" where
  "rb_erase s z =
     (if z = NULL then Some s
      else do {
        (s1, y_original_color, x, x_parent, x_is_left) \<leftarrow> erase_unlink s z;
        if y_original_color = RB_BLACK then rb_erase_fixup s1 x x_parent x_is_left else Some s1 })"

subsection \<open>Search\<close>

definition rb_find_min :: "rb_tree \<Rightarrow> addr ub" where
  "rb_find_min s = (if rb_root s = NULL then Some NULL else rb_leftmost s (rb_root s))"

definition rb_first :: "rb_tree \<Rightarrow> addr ub" where
  "rb_first s = rb_find_min s"

partial_function (option) find_from :: "rb_tree \<Rightarrow> addr \<Rightarrow> u64 \<Rightarrow> addr option" where [code]:
  "find_from s node key =
     (if node = NULL then Some NULL
      else do {
        n \<leftarrow> rb_node_at s node;
        if key < rb_key n then find_from s (rb_left n) key
        else if rb_key n < key then find_from s (rb_right n) key
        else Some node })"

definition rb_find :: "rb_tree \<Rightarrow> u64 \<Rightarrow> addr ub" where
  "rb_find s key = find_from s (rb_root s) key"

definition rb_compare_vruntime :: "rb_tree \<Rightarrow> addr \<Rightarrow> addr \<Rightarrow> int ub" where
  "rb_compare_vruntime s a b =
     do { na \<leftarrow> rb_node_at s a; nb \<leftarrow> rb_node_at s b;
          Some (if rb_key na < rb_key nb then - 1 else if rb_key nb < rb_key na then 1
                else if a < b then - 1 else 1) }"

partial_function (option) rb_climb :: "rb_tree \<Rightarrow> addr \<Rightarrow> addr \<Rightarrow> addr option" where [code]:
  "rb_climb s node parent =
     (if parent = NULL then Some NULL
      else do {
        n \<leftarrow> rb_node_at s parent;
        if node = rb_right n then rb_climb s parent (rb_parent n) else Some parent })"

definition rb_next :: "rb_tree \<Rightarrow> addr \<Rightarrow> addr ub" where
  "rb_next s node =
     (if node = NULL then Some NULL
      else do {
        n \<leftarrow> rb_node_at s node;
        if rb_right n \<noteq> NULL then rb_leftmost s (rb_right n) else rb_climb s node (rb_parent n) })"

end
