(* ===== verification/Proc.thy ===== *)
theory Proc
  imports Tasks Rbtree "HOL-Library.Monad_Syntax"
begin

text \<open>
  Tasks as \<^verbatim>\<open>kernel/sched.c\<close> and \<^verbatim>\<open>kernel/sched.h\<close> keep them: the table of process numbers, reference counts, lists of
  children, and the sending of signals of \<^verbatim>\<open>kernel/signal.c\<close>.  Everything a task struct owns elsewhere, its open files,
  memory areas, kernel stack and page tables, is not part of this state; nor are the fields that no definition here reads:
  name, credentials, capabilities, limits, environment, working directory, affinity and the saved FPU registers.  The model has one processor at a time
  in this code; the spin locks are left out.  A reference count is an unbounded integer here and a 32-bit \<open>int\<close> in the source: in the steps
  of the scheduler gets and puts balance, which keeps it far from an overflow.
\<close>

unbundle bit_operations_syntax

subsection \<open>State\<close>

record signal_state =
  sig_handler :: "nat \<Rightarrow> addr"
  sig_pending :: u64
  sig_blocked :: u64

record task_struct =
  tk_rsp :: addr
  tk_frame :: "u64 list"
  tk_cr3 :: u64
  tk_stack_phys :: addr
  tk_pid :: int
  tk_state :: task_state
  tk_exit_code :: int
  tk_parent :: addr
  tk_children :: addr
  tk_next :: addr
  tk_priority :: int
  tk_time_slice :: int
  tk_cpu_id :: int
  tk_vruntime :: u64
  tk_need_resched :: bool
  tk_preempt_count :: int
  tk_vfork_done :: bool
  tk_vfork_child :: bool
  tk_sig :: "signal_state option"
  tk_errno :: int
  tk_fpu_used :: bool
  tk_sleep_until :: u64
  tk_cpu_ticks :: u64
  tk_cswitch_count :: u64
  tk_ref_count :: int

record child_node =
  cn_child :: addr
  cn_next :: addr

record run_queue =
  rq_head :: addr
  rq_tree :: addr
  rq_count :: int

text \<open>The global variables.  \<open>sc_nodes\<close> holds the tree nodes inside the task structs, \<open>sc_cpu\<close> is what \<open>current_cpu_id\<close> returns,
  and \<open>sc_kernel_cr3\<close> what \<open>get_kernel_cr3\<close> returns.\<close>

record sched =
  sc_current :: addr
  sc_init_task :: addr
  sc_idle_task :: addr
  sc_rqs :: "run_queue list"
  sc_min_vruntime :: u64
  sc_need_resched :: bool
  sc_balance :: int
  sc_tasks :: "addr \<rightharpoonup> task_struct"
  sc_nodes :: "addr \<rightharpoonup> rb_node"
  sc_child_nodes :: "addr \<rightharpoonup> child_node"
  sc_pid_bitmap :: "nat \<Rightarrow> u64"
  sc_next_pid :: nat
  sc_pid_table :: "nat \<Rightarrow> addr"
  sc_num_cpus :: nat
  sc_cpu :: nat
  sc_cpu_current :: "nat \<Rightarrow> addr"
  sc_kernel_cr3 :: u64

abbreviation MAX_PID :: nat where "MAX_PID \<equiv> 8192"
abbreviation MAX_CPUS :: nat where "MAX_CPUS \<equiv> 8"
abbreviation BASE_SLICE :: int where "BASE_SLICE \<equiv> 10"
abbreviation SIGKILL :: nat where "SIGKILL \<equiv> 9"
abbreviation SIGCHLD :: nat where "SIGCHLD \<equiv> 17"
abbreviation NSIG :: nat where "NSIG \<equiv> 32"
abbreviation SIG_DFL :: addr where "SIG_DFL \<equiv> 0"
abbreviation SIG_IGN :: addr where "SIG_IGN \<equiv> 1"

definition task_at :: "sched \<Rightarrow> addr \<Rightarrow> task_struct ub" where
  "task_at st t = (if t = NULL then None else sc_tasks st t)"

definition upd_task :: "sched \<Rightarrow> addr \<Rightarrow> (task_struct \<Rightarrow> task_struct) \<Rightarrow> sched ub" where
  "upd_task st t f = do { k \<leftarrow> task_at st t; Some (st\<lparr>sc_tasks := (sc_tasks st)(t \<mapsto> f k)\<rparr>) }"

definition child_node_at :: "sched \<Rightarrow> addr \<Rightarrow> child_node ub" where
  "child_node_at st p = (if p = NULL then None else sc_child_nodes st p)"

text \<open>The tree node is a field of the task struct, at offset 136.\<close>

definition node_of :: "addr \<Rightarrow> addr" where
  "node_of t = t + 136"

definition task_of :: "addr \<Rightarrow> addr" where
  "task_of n = n - 136"

subsection \<open>Process numbers\<close>

definition pid_set_bit :: "sched \<Rightarrow> nat \<Rightarrow> sched" where
  "pid_set_bit st pid = st\<lparr>sc_pid_bitmap := (sc_pid_bitmap st)(pid div 64 := sc_pid_bitmap st (pid div 64) OR push_bit (pid mod 64) 1)\<rparr>"

definition pid_clear_bit :: "sched \<Rightarrow> nat \<Rightarrow> sched" where
  "pid_clear_bit st pid = st\<lparr>sc_pid_bitmap := (sc_pid_bitmap st)(pid div 64 := sc_pid_bitmap st (pid div 64) AND NOT (push_bit (pid mod 64) 1))\<rparr>"

definition pid_test_bit :: "sched \<Rightarrow> nat \<Rightarrow> bool" where
  "pid_test_bit st pid = (drop_bit (pid mod 64) (sc_pid_bitmap st (pid div 64)) AND 1 \<noteq> 0)"

text \<open>The loop counts its attempts; \<open>- 1\<close> when there are none left.\<close>

fun alloc_pid_loop :: "nat \<Rightarrow> sched \<Rightarrow> int \<times> sched" where
  "alloc_pid_loop 0 st = (- 1, st)"
| "alloc_pid_loop (Suc n) st =
     (let pid = sc_next_pid st;
          st1 = st\<lparr>sc_next_pid := if MAX_PID \<le> pid + 1 then 2 else pid + 1\<rparr>
      in if \<not> pid_test_bit st1 pid then (int pid, pid_set_bit st1 pid) else alloc_pid_loop n st1)"

definition alloc_pid :: "sched \<Rightarrow> int \<times> sched" where
  "alloc_pid st = alloc_pid_loop MAX_PID (pid_set_bit (pid_set_bit st 0) 1)"

definition free_pid :: "sched \<Rightarrow> int \<Rightarrow> sched" where
  "free_pid st pid =
     (if 2 \<le> pid \<and> pid < int MAX_PID
      then (pid_clear_bit st (nat pid))\<lparr>sc_pid_table := (sc_pid_table st)(nat pid := NULL)\<rparr>
      else st)"

definition pid_register :: "sched \<Rightarrow> int \<Rightarrow> addr \<Rightarrow> sched" where
  "pid_register st pid t =
     (if 0 \<le> pid \<and> pid < int MAX_PID then st\<lparr>sc_pid_table := (sc_pid_table st)(nat pid := t)\<rparr> else st)"

subsection \<open>References\<close>

definition task_get :: "sched \<Rightarrow> addr \<Rightarrow> sched ub" where
  "task_get st t = (if t = NULL then Some st else upd_task st t (\<lambda>k. k\<lparr>tk_ref_count := tk_ref_count k + 1\<rparr>))"

text \<open>What \<open>task_free\<close> does to this state; \<open>kfree\<close> ends the life of the struct and of the node inside.\<close>

definition task_free :: "sched \<Rightarrow> addr \<Rightarrow> sched ub" where
  "task_free st t =
     (if t = NULL then Some st
      else do {
        k \<leftarrow> task_at st t;
        let st1 = free_pid st (tk_pid k);
        if tk_pid k < 0 \<or> int MAX_PID \<le> tk_pid k then None
        else Some (st1\<lparr>sc_pid_table := (sc_pid_table st1)(nat (tk_pid k) := NULL),
                       sc_tasks := (sc_tasks st1)(t := None), sc_nodes := (sc_nodes st1)(node_of t := None)\<rparr>) })"

definition task_put :: "sched \<Rightarrow> addr \<Rightarrow> sched ub" where
  "task_put st t =
     (if t = NULL then Some st
      else do {
        st1 \<leftarrow> upd_task st t (\<lambda>k. k\<lparr>tk_ref_count := tk_ref_count k - 1\<rparr>);
        k \<leftarrow> task_at st1 t;
        if tk_ref_count k = 0 \<and> (tk_state k = TASK_ZOMBIE \<or> tk_state k = TASK_DEAD) then task_free st1 t else Some st1 })"

text \<open>Both lookups return the task and count a reference; the first leaves out zombies.\<close>

definition find_task_by_pid :: "sched \<Rightarrow> int \<Rightarrow> (addr \<times> sched) ub" where
  "find_task_by_pid st pid =
     (if pid < 0 \<or> int MAX_PID \<le> pid then Some (NULL, st)
      else let t = sc_pid_table st (nat pid)
      in if t = NULL then Some (NULL, st)
         else do {
           k \<leftarrow> task_at st t;
           if tk_state k \<noteq> TASK_DEAD \<and> tk_state k \<noteq> TASK_ZOMBIE
           then do { st1 \<leftarrow> task_get st t; Some (t, st1) }
           else Some (NULL, st) })"

definition task_get_by_pid :: "sched \<Rightarrow> int \<Rightarrow> (addr \<times> sched) ub" where
  "task_get_by_pid st pid =
     (if pid < 0 \<or> int MAX_PID \<le> pid then Some (NULL, st)
      else let t = sc_pid_table st (nat pid)
      in if t = NULL then Some (NULL, st)
         else do {
           k \<leftarrow> task_at st t;
           if tk_state k \<noteq> TASK_DEAD
           then do { st1 \<leftarrow> task_get st t; Some (t, st1) }
           else Some (NULL, st) })"

subsection \<open>Children\<close>

text \<open>\<open>node\<close> is what \<open>kmalloc\<close> returns.\<close>

definition add_child :: "sched \<Rightarrow> addr \<Rightarrow> addr \<Rightarrow> addr \<Rightarrow> sched ub" where
  "add_child st parent child node =
     (if node = NULL then Some st
      else do {
        p \<leftarrow> task_at st parent;
        let st1 = st\<lparr>sc_child_nodes := (sc_child_nodes st)(node \<mapsto> \<lparr>cn_child = child, cn_next = tk_children p\<rparr>)\<rparr>;
        st2 \<leftarrow> upd_task st1 parent (\<lambda>k. k\<lparr>tk_children := node\<rparr>);
        upd_task st2 child (\<lambda>k. k\<lparr>tk_parent := parent\<rparr>) })"

partial_function (option) reparent_loop :: "sched \<Rightarrow> addr \<Rightarrow> sched option" where [code]:
  "reparent_loop st node =
     (if node = NULL then Some st
      else do {
        n \<leftarrow> child_node_at st node;
        st1 \<leftarrow> (if cn_child n \<noteq> NULL then upd_task st (cn_child n) (\<lambda>k. k\<lparr>tk_parent := sc_init_task st\<rparr>) else Some st);
        i \<leftarrow> task_at st1 (sc_init_task st1);
        let st2 = st1\<lparr>sc_child_nodes := (sc_child_nodes st1)(node \<mapsto> n\<lparr>cn_next := tk_children i\<rparr>)\<rparr>;
        st3 \<leftarrow> upd_task st2 (sc_init_task st2) (\<lambda>k. k\<lparr>tk_children := node\<rparr>);
        reparent_loop st3 (cn_next n) })"

definition reparent_children_to_init :: "sched \<Rightarrow> addr \<Rightarrow> sched ub" where
  "reparent_children_to_init st task =
     (if task = NULL then Some st
      else do {
        k \<leftarrow> task_at st task;
        if tk_children k = NULL \<or> sc_init_task st = NULL then Some st
        else do { st1 \<leftarrow> reparent_loop st (tk_children k); upd_task st1 task (\<lambda>k. k\<lparr>tk_children := NULL\<rparr>) } })"

subsection \<open>Signals to other tasks\<close>

definition signal_alloc :: signal_state where
  "signal_alloc = \<lparr>sig_handler = \<lambda>_. SIG_DFL, sig_pending = 0, sig_blocked = 0\<rparr>"

definition sig_bit :: "nat \<Rightarrow> u64" where
  "sig_bit sig = push_bit sig 1"

text \<open>The part after the checks: the signal becomes pending, and a blocked task that does not block or ignore it
  becomes ready.  \<open>alloc_ok\<close> tells whether \<open>signal_alloc\<close> gets memory, should it be called.\<close>

definition post_signal :: "task_struct \<Rightarrow> nat \<Rightarrow> signal_state \<Rightarrow> task_struct" where
  "post_signal k sig s0 =
     (let s = s0\<lparr>sig_pending := sig_pending s0 OR sig_bit sig\<rparr>;
          k1 = k\<lparr>tk_sig := Some s\<rparr>
      in if tk_state k1 = TASK_BLOCKED \<and> sig_blocked s AND sig_bit sig = 0 \<and> (sig = SIGKILL \<or> sig_handler s sig \<noteq> SIG_IGN)
         then k1\<lparr>tk_state := TASK_READY\<rparr> else k1)"

definition do_sys_kill :: "sched \<Rightarrow> bool \<Rightarrow> int \<Rightarrow> nat \<Rightarrow> (int \<times> sched) ub" where
  "do_sys_kill st alloc_ok pid sig =
     (if sig < 1 \<or> NSIG \<le> sig then Some (- 1, st)
      else if pid < 0 then Some (- 1, st)
      else do {
        (target, st1) \<leftarrow> task_get_by_pid st pid;
        if target = NULL then Some (- 1, st1)
        else do {
          k \<leftarrow> task_at st1 target;
          if tk_pid k = 1 \<and> sig = SIGCHLD \<and> (case tk_sig k of None \<Rightarrow> True | Some s \<Rightarrow> sig_handler s sig = SIG_DFL)
          then do { st2 \<leftarrow> task_put st1 target; Some (0, st2) }
          else if tk_pid k = 1 \<and> sig \<noteq> SIGCHLD
          then do { st2 \<leftarrow> task_put st1 target; Some (- 1, st2) }
          else if tk_sig k = None \<and> \<not> alloc_ok
          then do { st2 \<leftarrow> task_put st1 target; Some (- 1, st2) }
          else do {
            st2 \<leftarrow> upd_task st1 target (\<lambda>k. post_signal k sig (case tk_sig k of None \<Rightarrow> signal_alloc | Some s \<Rightarrow> s));
            st3 \<leftarrow> task_put st2 target;
            Some (0, st3) } } })"

definition signal_child_event :: "sched \<Rightarrow> bool \<Rightarrow> addr \<Rightarrow> sched ub" where
  "signal_child_event st alloc_ok child =
     do { c \<leftarrow> task_at st child;
          if tk_parent c = NULL then Some st
          else do {
            p \<leftarrow> task_at st (tk_parent c);
            if tk_state p = TASK_DEAD then Some st
            else do { (_, st1) \<leftarrow> do_sys_kill st alloc_ok (tk_pid p) SIGCHLD; Some st1 } } }"

end
