(* ===== verification/Sched.thy ===== *)
theory Sched
  imports Proc "HOL-Library.Signed_Division"
begin

text \<open>
  The scheduler of \<^verbatim>\<open>kernel/sched.c\<close> and the timer handler of \<^verbatim>\<open>kernel/pit_handler.c\<close>, on the task table of \<open>Proc\<close> and the
  tree of \<open>Rbtree\<close>.  A call of \<open>schedule\<close> ends in one of three ways: it returns to its caller, it has switched to
  another task, or the processor halts until an interrupt and calls \<open>schedule\<close> again.
\<close>

datatype outcome = Stays | Switches addr | Halts

subsection \<open>Run queues\<close>

definition get_rq :: "sched \<Rightarrow> nat \<Rightarrow> run_queue ub" where
  "get_rq st c = (if c < length (sc_rqs st) then Some (sc_rqs st ! c) else None)"

definition set_rq :: "sched \<Rightarrow> nat \<Rightarrow> run_queue \<Rightarrow> sched" where
  "set_rq st c rq = st\<lparr>sc_rqs := (sc_rqs st)[c := rq]\<rparr>"

definition ready_tree :: "sched \<Rightarrow> run_queue \<Rightarrow> rb_tree" where
  "ready_tree st rq = \<lparr>rb_root = rq_tree rq, rb_nodes = sc_nodes st\<rparr>"

text \<open>An operation on the tree of queue \<open>c\<close>.\<close>

definition on_tree :: "sched \<Rightarrow> nat \<Rightarrow> (rb_tree \<Rightarrow> rb_tree ub) \<Rightarrow> sched ub" where
  "on_tree st c f =
     do { rq \<leftarrow> get_rq st c;
          t \<leftarrow> f (ready_tree st rq);
          Some ((set_rq st c (rq\<lparr>rq_tree := rb_root t\<rparr>))\<lparr>sc_nodes := rb_nodes t\<rparr>) }"

text \<open>The node of \<open>t\<close> gets the task's virtual runtime as key and goes into the tree.\<close>

definition tree_add :: "sched \<Rightarrow> nat \<Rightarrow> addr \<Rightarrow> sched ub" where
  "tree_add st c t =
     do { k \<leftarrow> task_at st t;
          on_tree st c (\<lambda>s. do { s1 \<leftarrow> rb_set_key s (node_of t) (tk_vruntime k); rb_insert s1 (node_of t) }) }"

definition tree_remove :: "sched \<Rightarrow> nat \<Rightarrow> addr \<Rightarrow> sched ub" where
  "tree_remove st c t = on_tree st c (\<lambda>s. rb_erase s (node_of t))"

text \<open>A task joins the circular list, behind its head, and the tree.\<close>

definition rq_join :: "sched \<Rightarrow> nat \<Rightarrow> addr \<Rightarrow> sched ub" where
  "rq_join st c t =
     do { rq \<leftarrow> get_rq st c;
          st2 \<leftarrow> (if rq_head rq = NULL
                 then do { st1 \<leftarrow> upd_task st t (\<lambda>k. k\<lparr>tk_next := t\<rparr>); Some (set_rq st1 c (rq\<lparr>rq_head := t\<rparr>)) }
                 else do { h \<leftarrow> task_at st (rq_head rq);
                           st1 \<leftarrow> upd_task st t (\<lambda>k. k\<lparr>tk_next := tk_next h\<rparr>);
                           upd_task st1 (rq_head rq) (\<lambda>k. k\<lparr>tk_next := t\<rparr>) });
          rq2 \<leftarrow> get_rq st2 c;
          tree_add (set_rq st2 c (rq2\<lparr>rq_count := rq_count rq2 + 1\<rparr>)) c t }"

text \<open>The task before \<open>t\<close> in the circular list.\<close>

partial_function (option) ring_prev :: "sched \<Rightarrow> addr \<Rightarrow> addr \<Rightarrow> addr option" where [code]:
  "ring_prev st t p = do { k \<leftarrow> task_at st p; if tk_next k = t then Some p else ring_prev st t (tk_next k) }"

subsection \<open>Initialisation\<close>

definition zero_task :: task_struct where
  "zero_task = \<lparr>tk_rsp = NULL, tk_frame = [], tk_cr3 = 0, tk_stack_phys = NULL, tk_pid = 0, tk_state = TASK_RUNNING, tk_exit_code = 0,
     tk_parent = NULL, tk_children = NULL, tk_next = NULL, tk_priority = 0, tk_time_slice = 0, tk_cpu_id = 0, tk_vruntime = 0,
     tk_need_resched = False, tk_preempt_count = 0, tk_vfork_done = False, tk_vfork_child = False, tk_sig = None, tk_errno = 0,
     tk_fpu_used = False, tk_sleep_until = 0, tk_cpu_ticks = 0, tk_cswitch_count = 0, tk_ref_count = 0\<rparr>"

definition zero_node :: rb_node where
  "zero_node = \<lparr>rb_color = RB_RED, rb_parent = NULL, rb_left = NULL, rb_right = NULL, rb_key = 0\<rparr>"

text \<open>Memory for a task struct, filled with zeros.\<close>

definition new_task :: "sched \<Rightarrow> addr \<Rightarrow> task_struct \<Rightarrow> sched" where
  "new_task st t k = st\<lparr>sc_tasks := (sc_tasks st)(t \<mapsto> k), sc_nodes := (sc_nodes st)(node_of t \<mapsto> zero_node)\<rparr>"

text \<open>\<open>idle\<close>, \<open>stack\<close> and \<open>init\<close> are what the allocators return; the first two must not be null.\<close>

definition scheduler_init :: "sched \<Rightarrow> addr \<Rightarrow> addr \<Rightarrow> addr \<Rightarrow> sched ub" where
  "scheduler_init st idle stack init =
     (if idle = NULL \<or> stack = NULL then None
      else do {
        let st1 = st\<lparr>sc_pid_bitmap := \<lambda>_. 0, sc_pid_table := \<lambda>_. NULL,
                     sc_rqs := replicate MAX_CPUS \<lparr>rq_head = NULL, rq_tree = NULL, rq_count = 0\<rparr>\<rparr>;
        let st2 = pid_set_bit (pid_set_bit st1 0) 1;
        let st3 = new_task st2 idle (zero_task\<lparr>tk_rsp := stack + 4096, tk_stack_phys := stack, tk_cr3 := sc_kernel_cr3 st2,
                     tk_time_slice := 1, tk_next := idle, tk_ref_count := 1\<rparr>);
        let st4 = (pid_register st3 0 idle)\<lparr>sc_current := idle, sc_idle_task := idle\<rparr>;
        rq \<leftarrow> get_rq st4 0;
        st5 \<leftarrow> tree_add (set_rq st4 0 (rq\<lparr>rq_head := idle, rq_count := 1\<rparr>)) 0 idle;
        if init = NULL then Some st5
        else Some ((pid_register (new_task st5 init (zero_task\<lparr>tk_cr3 := sc_kernel_cr3 st5, tk_pid := 1, tk_parent := idle, tk_ref_count := 1,
                     tk_next := init\<rparr>)) 1 init)\<lparr>sc_init_task := init\<rparr>) })"

subsection \<open>Creating a task\<close>

definition slice_of :: "int \<Rightarrow> int" where
  "slice_of priority = BASE_SLICE * (256 - priority) sdiv 256"

definition recharge :: "int \<Rightarrow> int" where
  "recharge priority = (if slice_of priority < 1 then 1 else slice_of priority)"

text \<open>What the kernel stack holds at the stack pointer: the frame of \<open>context_switch\<close> with the entry point, or, for a child of
  \<open>fork\<close>, this frame, the user stack pointer and program counter, and the saved registers.\<close>

definition task_frame :: "addr \<Rightarrow> addr \<Rightarrow> u64 list" where
  "task_frame fn syscall_return_point =
     (if fn \<noteq> NULL then replicate 6 0 @ [fn]
      else replicate 6 0 @ [syscall_return_point, 0, 0x400000] @ (replicate 4 0 @ [0x202] @ replicate 6 0 @ [0x400000, 0]))"

text \<open>\<open>t\<close>, \<open>stack_page\<close> and \<open>cnode\<close> are what the allocators return for the task, its stack and the list node of its parent.\<close>

definition create_task :: "sched \<Rightarrow> addr \<Rightarrow> addr \<Rightarrow> addr \<Rightarrow> addr \<Rightarrow> addr \<Rightarrow> (addr \<times> sched) ub" where
  "create_task st fn syscall_return_point t stack_page cnode =
     (if t = NULL \<or> stack_page = NULL then Some (NULL, st)
      else let frame = task_frame fn syscall_return_point;
               (pid, st1) = alloc_pid st
      in if pid < 0 then Some (NULL, st1)
         else do {
           let st2 = new_task st1 t (zero_task\<lparr>tk_rsp := stack_page + 4096 - 8 * of_nat (length frame), tk_frame := frame,
                       tk_cr3 := sc_kernel_cr3 st1, tk_stack_phys := stack_page, tk_state := TASK_READY, tk_priority := 128,
                       tk_time_slice := recharge 128, tk_vruntime := sc_min_vruntime st1, tk_parent := sc_current st1,
                       tk_ref_count := 1, tk_fpu_used := True, tk_pid := pid\<rparr>);
           let st3 = pid_register st2 pid t;
           let st4 = (if sc_num_cpus st3 = 0 then st3\<lparr>sc_num_cpus := 1\<rparr> else st3);
           let target_cpu = nat pid mod sc_num_cpus st4;
           st5 \<leftarrow> upd_task st4 t (\<lambda>k. k\<lparr>tk_cpu_id := int target_cpu\<rparr>);
           st6 \<leftarrow> rq_join st5 target_cpu t;
           st7 \<leftarrow> add_child st6 (sc_current st6) t cnode;
           Some (t, st7) })"

subsection \<open>Choosing and switching\<close>

text \<open>The virtual runtime is charged with the ticks used, weighted with the priority; \<open>None\<close> is a division by zero.\<close>

definition consumed_ticks :: "task_struct \<Rightarrow> int" where
  "consumed_ticks k =
     (let s = word_of_int (slice_of (tk_priority k)) :: u64;
          full_slice = (if s < 1 then 1 else s);
          consumed = sint full_slice - tk_time_slice k
      in if consumed \<le> 0 then 1 else consumed)"

definition charge :: "task_struct \<Rightarrow> task_struct ub" where
  "charge k =
     (let weight = word_of_int (tk_priority k + 1) :: u64
      in if weight = 0 then None
         else Some (k\<lparr>tk_vruntime := tk_vruntime k + (word_of_int (consumed_ticks k) * 128) div weight\<rparr>))"

text \<open>The task to run next, null if there is none but the current one.\<close>

definition pick_next :: "sched \<Rightarrow> run_queue \<Rightarrow> addr ub" where
  "pick_next st rq =
     do { min_node \<leftarrow> rb_find_min (ready_tree st rq);
          let next = (if min_node \<noteq> NULL \<and> task_of min_node \<noteq> sc_current st then task_of min_node else NULL);
          if next \<noteq> NULL then Some next
          else if sc_idle_task st \<noteq> NULL \<and> sc_idle_task st \<noteq> sc_current st
          then do { i \<leftarrow> task_at st (sc_idle_task st); Some (if tk_state i = TASK_READY then sc_idle_task st else NULL) }
          else Some NULL }"

text \<open>A preempted task is charged and gets its new place in the tree, a blocked one leaves the tree.\<close>

definition put_prev :: "sched \<Rightarrow> nat \<Rightarrow> addr \<Rightarrow> sched ub" where
  "put_prev st c prev =
     do { k \<leftarrow> task_at st prev;
          case tk_state k of
            TASK_RUNNING \<Rightarrow> do {
              k1 \<leftarrow> charge (k\<lparr>tk_state := TASK_READY\<rparr>);
              st1 \<leftarrow> upd_task st prev (\<lambda>_. k1);
              st2 \<leftarrow> tree_remove st1 c prev;
              tree_add st2 c prev }
          | TASK_BLOCKED \<Rightarrow> tree_remove st c prev
          | _ \<Rightarrow> Some st }"

definition advance_min :: "u64 \<Rightarrow> u64 \<Rightarrow> u64" where
  "advance_min old v = (let new_val = (if v \<le> old then old + 1 else v) in if new_val \<le> old then old else new_val)"

definition switch_to :: "sched \<Rightarrow> nat \<Rightarrow> addr \<Rightarrow> addr \<Rightarrow> sched ub" where
  "switch_to st c prev next =
     do { n \<leftarrow> task_at st next;
          let st1 = st\<lparr>sc_min_vruntime := advance_min (sc_min_vruntime st) (tk_vruntime n)\<rparr>;
          st2 \<leftarrow> upd_task st1 next (\<lambda>k. k\<lparr>tk_state := TASK_RUNNING\<rparr>);
          st3 \<leftarrow> task_get st2 next;
          let st4 = st3\<lparr>sc_current := next,
                        sc_cpu_current := if c < MAX_CPUS then (sc_cpu_current st3)(c := next) else sc_cpu_current st3\<rparr>;
          st5 \<leftarrow> upd_task st4 next (\<lambda>k. k\<lparr>tk_cpu_ticks := tk_cpu_ticks k + 1, tk_cswitch_count := tk_cswitch_count k + 1\<rparr>);
          upd_task st5 prev (\<lambda>k. k\<lparr>tk_fpu_used := False\<rparr>) }"

definition schedule :: "sched \<Rightarrow> (outcome \<times> sched) ub" where
  "schedule st =
     (if sc_current st = NULL then Some (Stays, st)
      else do {
        cur \<leftarrow> task_at st (sc_current st);
        if tk_next cur = NULL then Some (Stays, st)
        else do {
          rq \<leftarrow> get_rq st (sc_cpu st);
          if rq_head rq = NULL then Some (Halts, st)
          else do {
            next \<leftarrow> pick_next st rq;
            if next = NULL then Some (if tk_state cur = TASK_RUNNING then Stays else Halts, st)
            else if next = sc_current st
            then do { st1 \<leftarrow> upd_task st next (\<lambda>k. k\<lparr>tk_state := TASK_RUNNING\<rparr>); Some (Stays, st1) }
            else do {
              st1 \<leftarrow> put_prev st (sc_cpu st) (sc_current st);
              st2 \<leftarrow> switch_to st1 (sc_cpu st) (sc_current st) next;
              Some (Switches (sc_current st), st2) } } } })"

text \<open>What a task does when it is switched to again: the local variable \<open>prev\<close> on its stack is the task itself.\<close>

definition schedule_resumed :: "sched \<Rightarrow> addr \<Rightarrow> sched ub" where
  "schedule_resumed st prev = task_put st prev"

definition yield :: "sched \<Rightarrow> (outcome \<times> sched) ub" where
  "yield st =
     (if sc_current st = NULL then schedule st
      else do {
        k \<leftarrow> task_at st (sc_current st);
        k1 \<leftarrow> charge k;
        st1 \<leftarrow> upd_task st (sc_current st) (\<lambda>_. k1\<lparr>tk_state := TASK_READY\<rparr>);
        schedule st1 })"

definition check_resched :: "sched \<Rightarrow> (outcome \<times> sched) ub" where
  "check_resched st =
     (let st1 = st\<lparr>sc_need_resched := False\<rparr>
      in if sc_current st = NULL then (if sc_need_resched st then schedule st1 else Some (Stays, st1))
         else do {
           k \<leftarrow> task_at st1 (sc_current st1);
           if sc_need_resched st \<or> tk_need_resched k
           then do { st2 \<leftarrow> upd_task st1 (sc_current st1) (\<lambda>k. k\<lparr>tk_need_resched := False, tk_state := TASK_READY\<rparr>); schedule st2 }
           else Some (Stays, st1) })"

definition schedule_tick :: "sched \<Rightarrow> sched ub" where
  "schedule_tick st =
     (if sc_current st = NULL then Some st
      else do {
        k \<leftarrow> task_at st (sc_current st);
        if 0 < tk_preempt_count k \<or> tk_state k \<noteq> TASK_RUNNING then Some st
        else let k1 = (if 0 < tk_time_slice k then k\<lparr>tk_time_slice := tk_time_slice k - 1\<rparr> else k)
          in if tk_time_slice k1 \<le> 0
             then upd_task (st\<lparr>sc_need_resched := True\<rparr>) (sc_current st)
                    (\<lambda>_. k1\<lparr>tk_need_resched := True, tk_time_slice := recharge (tk_priority k1)\<rparr>)
             else upd_task st (sc_current st) (\<lambda>_. k1) })"

definition preempt_disable :: "sched \<Rightarrow> sched ub" where
  "preempt_disable st =
     (if sc_current st = NULL then Some st
      else upd_task st (sc_current st) (\<lambda>k. k\<lparr>tk_preempt_count := tk_preempt_count k + 1\<rparr>))"

definition preempt_enable :: "sched \<Rightarrow> (outcome \<times> sched) ub" where
  "preempt_enable st =
     (if sc_current st = NULL then Some (Stays, st)
      else do {
        st1 \<leftarrow> upd_task st (sc_current st)
                 (\<lambda>k. if 0 < tk_preempt_count k then k\<lparr>tk_preempt_count := tk_preempt_count k - 1\<rparr> else k);
        k \<leftarrow> task_at st1 (sc_current st1);
        if tk_preempt_count k = 0 \<and> tk_need_resched k
        then do { st2 \<leftarrow> upd_task st1 (sc_current st1) (\<lambda>k. k\<lparr>tk_need_resched := False, tk_state := TASK_READY\<rparr>); schedule st2 }
        else Some (Stays, st1) })"

subsection \<open>Exit\<close>

text \<open>A parent that is blocked becomes ready and goes back into the tree of its processor.\<close>

definition wake_parent :: "sched \<Rightarrow> addr \<Rightarrow> sched ub" where
  "wake_parent st parent =
     (if parent = NULL then Some st
      else do {
        p \<leftarrow> task_at st parent;
        if tk_state p = TASK_BLOCKED
        then do {
          st1 \<leftarrow> upd_task st parent (\<lambda>k. k\<lparr>tk_state := TASK_READY\<rparr>);
          if 0 \<le> tk_cpu_id p \<and> tk_cpu_id p < int MAX_CPUS then tree_add st1 (nat (tk_cpu_id p)) parent else Some st1 }
        else Some st })"

definition vfork_notify :: "sched \<Rightarrow> addr \<Rightarrow> sched ub" where
  "vfork_notify st t =
     do { k \<leftarrow> task_at st t;
          if tk_vfork_child k \<and> tk_parent k \<noteq> NULL then upd_task st (tk_parent k) (\<lambda>p. p\<lparr>tk_vfork_done := True\<rparr>)
          else Some st }"

text \<open>The current task leaves the circular list and the tree of queue \<open>c\<close>; \<open>None\<close> in the result when it is the only one.\<close>

definition rq_leave :: "sched \<Rightarrow> nat \<Rightarrow> addr \<Rightarrow> sched option ub" where
  "rq_leave st c t =
     do { rq \<leftarrow> get_rq st c;
          prev \<leftarrow> ring_prev st t t;
          if prev = t then Some None
          else do {
            k \<leftarrow> task_at st t;
            st1 \<leftarrow> upd_task st prev (\<lambda>p. p\<lparr>tk_next := tk_next k\<rparr>);
            let st2 = set_rq st1 c (if rq_head rq = t then rq\<lparr>rq_head := tk_next k\<rparr> else rq);
            st3 \<leftarrow> tree_remove st2 c t;
            rq3 \<leftarrow> get_rq st3 c;
            Some (Some (set_rq st3 c (if 0 < rq_count rq3 then rq3\<lparr>rq_count := rq_count rq3 - 1\<rparr> else rq3))) } }"

text \<open>\<open>alloc_ok\<close> is for the signal to the parent.  The idle task does not come back from here.\<close>

definition do_exit_current :: "sched \<Rightarrow> bool \<Rightarrow> int \<Rightarrow> (outcome \<times> sched) ub" where
  "do_exit_current st alloc_ok code =
     (if sc_current st = NULL then Some (Stays, st)
      else do {
        let t = sc_current st;
        k \<leftarrow> task_at st t;
        if tk_pid k = 0 then None
        else do {
          st1 \<leftarrow> reparent_children_to_init st t;
          st2 \<leftarrow> signal_child_event st1 alloc_ok t;
          st3 \<leftarrow> upd_task st2 t (\<lambda>k. k\<lparr>tk_exit_code := code, tk_state := TASK_ZOMBIE\<rparr>);
          k3 \<leftarrow> task_at st3 t;
          st4 \<leftarrow> wake_parent st3 (tk_parent k3);
          st5 \<leftarrow> vfork_notify st4 t;
          left \<leftarrow> rq_leave st5 (sc_cpu st5) t;
          case left of None \<Rightarrow> Some (Halts, st5) | Some st6 \<Rightarrow> schedule st6 } })"

subsection \<open>Waiting for children\<close>

datatype wait_result = Collected int int | Wait_failed int | Wait_none | Wait_sleeps outcome

text \<open>The first list node with a zombie to collect, and the node before it.\<close>

partial_function (option) find_zombie :: "sched \<Rightarrow> int \<Rightarrow> addr \<Rightarrow> addr \<Rightarrow> (addr \<times> addr) option option" where [code]:
  "find_zombie st pid prev node =
     (if node = NULL then Some None
      else do {
        n \<leftarrow> child_node_at st node;
        if cn_child n = NULL then find_zombie st pid node (cn_next n)
        else do {
          c \<leftarrow> task_at st (cn_child n);
          if (pid = - 1 \<or> tk_pid c = pid) \<and> tk_state c = TASK_ZOMBIE then Some (Some (prev, node))
          else find_zombie st pid node (cn_next n) } })"

partial_function (option) is_child :: "sched \<Rightarrow> int \<Rightarrow> addr \<Rightarrow> bool option" where [code]:
  "is_child st pid node =
     (if node = NULL then Some False
      else do {
        n \<leftarrow> child_node_at st node;
        if cn_child n = NULL then is_child st pid (cn_next n)
        else do { c \<leftarrow> task_at st (cn_child n); if tk_pid c = pid then Some True else is_child st pid (cn_next n) } })"

partial_function (option) any_zombie :: "sched \<Rightarrow> addr \<Rightarrow> bool option" where [code]:
  "any_zombie st node =
     (if node = NULL then Some False
      else do {
        n \<leftarrow> child_node_at st node;
        if cn_child n = NULL then any_zombie st (cn_next n)
        else do { c \<leftarrow> task_at st (cn_child n); if tk_state c = TASK_ZOMBIE then Some True else any_zombie st (cn_next n) } })"

definition collect_child :: "sched \<Rightarrow> addr \<Rightarrow> addr \<Rightarrow> (wait_result \<times> sched) ub" where
  "collect_child st prev node =
     do { n \<leftarrow> child_node_at st node;
          let child = cn_child n;
          st1 \<leftarrow> task_get st child;
          c \<leftarrow> task_at st1 child;
          st2 \<leftarrow> (if prev \<noteq> NULL
                 then do { p \<leftarrow> child_node_at st1 prev; Some (st1\<lparr>sc_child_nodes := (sc_child_nodes st1)(prev \<mapsto> p\<lparr>cn_next := cn_next n\<rparr>)\<rparr>) }
                 else upd_task st1 (sc_current st1) (\<lambda>k. k\<lparr>tk_children := cn_next n\<rparr>));
          let st3 = st2\<lparr>sc_child_nodes := (sc_child_nodes st2)(node := None)\<rparr>;
          st4 \<leftarrow> task_put st3 child;
          Some (Collected (tk_pid c) (tk_exit_code c), st4) }"

text \<open>The call up to its return or its sleep; a task that is switched to again after its sleep goes through it once more.
  \<open>None\<close> where the second scan sends the loop back forever.\<close>

partial_function (option) waitpid :: "sched \<Rightarrow> int \<Rightarrow> bool \<Rightarrow> (wait_result \<times> sched) option" where [code]:
  "waitpid st pid nohang =
     (if sc_current st = NULL then Some (Wait_failed (- 1), st)
      else do {
        k \<leftarrow> task_at st (sc_current st);
        if tk_pid k = 0 \<and> \<not> nohang then Some (Wait_failed (- 10), st)
        else do {
          found \<leftarrow> find_zombie st pid NULL (tk_children k);
          case found of
            Some (prev, node) \<Rightarrow> collect_child st prev node
          | None \<Rightarrow> do {
              child \<leftarrow> (if pid \<noteq> - 1 then is_child st pid (tk_children k) else Some True);
              if \<not> child
              then do { st1 \<leftarrow> upd_task st (sc_current st) (\<lambda>k. k\<lparr>tk_errno := 10\<rparr>); Some (Wait_failed (- 1), st1) }
              else if nohang then Some (Wait_none, st)
              else do {
                z \<leftarrow> any_zombie st (tk_children k);
                if z then waitpid st pid nohang
                else do {
                  st1 \<leftarrow> upd_task st (sc_current st) (\<lambda>k. k\<lparr>tk_state := TASK_BLOCKED\<rparr>);
                  (r, st2) \<leftarrow> schedule st1;
                  Some (Wait_sleeps r, st2) } } } } })"

subsection \<open>Several processors\<close>

definition smp_enqueue_task :: "sched \<Rightarrow> addr \<Rightarrow> int \<Rightarrow> sched ub" where
  "smp_enqueue_task st t cpu_id =
     (if t = NULL \<or> cpu_id < 0 \<or> int MAX_CPUS \<le> cpu_id \<or> int (sc_num_cpus st) \<le> cpu_id then Some st
      else rq_join st (nat cpu_id) t)"

text \<open>The search from the head of the list; null when it comes back to the head.\<close>

partial_function (option) ring_find :: "sched \<Rightarrow> addr \<Rightarrow> addr \<Rightarrow> addr \<Rightarrow> addr option" where [code]:
  "ring_find st head t p =
     do { k \<leftarrow> task_at st p;
          if tk_next k = t then Some p
          else if tk_next k = head then Some NULL
          else ring_find st head t (tk_next k) }"

definition smp_dequeue_task :: "sched \<Rightarrow> addr \<Rightarrow> int \<Rightarrow> sched ub" where
  "smp_dequeue_task st t cpu_id =
     (if t = NULL \<or> cpu_id < 0 \<or> int MAX_CPUS \<le> cpu_id then Some st
      else do {
        let c = nat cpu_id;
        rq \<leftarrow> get_rq st c;
        if rq_head rq = NULL \<or> rq_count rq = 0 then Some st
        else do {
          k \<leftarrow> task_at st t;
          if rq_head rq = t \<and> tk_next k = t
          then tree_remove (set_rq st c (rq\<lparr>rq_head := NULL, rq_count := 0\<rparr>)) c t
          else do {
            prev \<leftarrow> ring_find st (rq_head rq) t (rq_head rq);
            if prev = NULL then Some st
            else do {
              st1 \<leftarrow> upd_task st prev (\<lambda>p. p\<lparr>tk_next := tk_next k\<rparr>);
              let rq1 = (if rq_head rq = t then rq\<lparr>rq_head := tk_next k\<rparr> else rq);
              tree_remove (set_rq st1 c (rq1\<lparr>rq_count := rq_count rq1 - 1\<rparr>)) c t } } } })"

text \<open>The processor with the longest queue, \<open>- 1\<close> if no other has one.\<close>

definition busier :: "sched \<Rightarrow> nat \<Rightarrow> nat \<Rightarrow> int \<times> int \<Rightarrow> (int \<times> int) ub" where
  "busier st me i best =
     (if i = me then Some best
      else do { rq \<leftarrow> get_rq st i; Some (if snd best < rq_count rq then (int i, rq_count rq) else best) })"

fun busiest :: "sched \<Rightarrow> nat \<Rightarrow> nat list \<Rightarrow> int \<times> int \<Rightarrow> (int \<times> int) ub" where
  "busiest st me [] best = Some best"
| "busiest st me (i # is) best = do { b \<leftarrow> busier st me i best; busiest st me is b }"

text \<open>The first ready task of the list that is not its head.\<close>

partial_function (option) steal_candidate :: "sched \<Rightarrow> addr \<Rightarrow> addr \<Rightarrow> addr option" where [code]:
  "steal_candidate st head t =
     do { k \<leftarrow> task_at st t;
          if tk_state k = TASK_READY \<and> t \<noteq> head then Some t
          else if tk_next k = head then Some NULL
          else steal_candidate st head (tk_next k) }"

definition smp_schedule :: "sched \<Rightarrow> nat \<Rightarrow> sched ub" where
  "smp_schedule st me =
     (if sc_num_cpus st \<le> me then Some st
      else do {
        my_rq \<leftarrow> get_rq st me;
        if 1 < rq_count my_rq then Some st
        else do {
          (src, max_count) \<leftarrow> busiest st me [0..<sc_num_cpus st] (- 1, 0);
          if src < 0 \<or> max_count \<le> 1 then Some st
          else do {
            src_rq \<leftarrow> get_rq st (nat src);
            stolen \<leftarrow> (if rq_head src_rq = NULL then Some NULL else steal_candidate st (rq_head src_rq) (rq_head src_rq));
            if stolen = NULL then Some st
            else do {
              k \<leftarrow> task_at st stolen;
              prev \<leftarrow> ring_prev st stolen (rq_head src_rq);
              st1 \<leftarrow> upd_task st prev (\<lambda>p. p\<lparr>tk_next := tk_next k\<rparr>);
              st2 \<leftarrow> tree_remove (set_rq st1 (nat src) (src_rq\<lparr>rq_count := rq_count src_rq - 1\<rparr>)) (nat src) stolen;
              rq_join st2 me stolen } } } })"

subsection \<open>The timer interrupt\<close>

definition wake_expired :: "u64 \<Rightarrow> task_struct \<Rightarrow> task_struct" where
  "wake_expired tick k =
     (if tk_state k = TASK_BLOCKED \<and> 0 < tk_sleep_until k \<and> tk_sleep_until k \<le> tick
      then k\<lparr>tk_sleep_until := 0, tk_state := TASK_READY\<rparr> else k)"

text \<open>The walk along one list, at most \<open>count + 1\<close> tasks.\<close>

fun wake_scan :: "nat \<Rightarrow> sched \<Rightarrow> u64 \<Rightarrow> addr \<Rightarrow> addr \<Rightarrow> sched ub" where
  "wake_scan 0 st tick head t = Some st"
| "wake_scan (Suc n) st tick head t =
     do { k \<leftarrow> task_at st t;
          st1 \<leftarrow> upd_task st t (wake_expired tick);
          let st2 = (if wake_expired tick k \<noteq> k then st1\<lparr>sc_need_resched := True\<rparr> else st1);
          if tk_next k = head then Some st2 else wake_scan n st2 tick head (tk_next k) }"

fun wake_queues :: "nat list \<Rightarrow> sched \<Rightarrow> u64 \<Rightarrow> sched ub" where
  "wake_queues [] st tick = Some st"
| "wake_queues (c # cs) st tick =
     do { rq \<leftarrow> get_rq st c;
          st1 \<leftarrow> (if rq_head rq = NULL \<or> rq_count rq = 0 then Some st
                 else wake_scan (max 1 (nat (rq_count rq + 1))) st tick (rq_head rq) (rq_head rq));
          wake_queues cs st1 tick }"

text \<open>\<open>tick\<close> is the tick counter before this interrupt.\<close>

definition pit_irq_c_handler :: "sched \<Rightarrow> u64 \<Rightarrow> sched ub" where
  "pit_irq_c_handler st tick =
     do { st1 \<leftarrow> wake_queues [0..<min (sc_num_cpus st) MAX_CPUS] st tick;
          st2 \<leftarrow> schedule_tick st1;
          let st3 = st2\<lparr>sc_need_resched := True, sc_balance := sc_balance st2 + 1\<rparr>;
          if 100 \<le> sc_balance st3 then smp_schedule (st3\<lparr>sc_balance := 0\<rparr>) (sc_cpu st3) else Some st3 }"

end
