(* ===== verification/Rbtree_zip.thy ===== *)
theory Rbtree_zip
  imports Rbtree
begin

text \<open>
  The algorithms of \<^verbatim>\<open>kernel/rbtree.c\<close> on trees instead of pointers.  A position in a tree is a subtree together with
  the path from it to the root; the repair loops, which walk upwards in the code, are recursive functions on
  that path here.  They keep the order of the nodes and restore the colouring rules.
\<close>

subsection \<open>Trees and positions\<close>

datatype tree = Lf | Nd rb_colour tree addr u64 tree

text \<open>A step of the path: the node above with its other subtree; the position is on its left or on its right.\<close>

datatype frame = On_left rb_colour addr u64 tree | On_right rb_colour tree addr u64

fun col :: "tree \<Rightarrow> rb_colour" where
  "col Lf = RB_BLACK"
| "col (Nd c l a k r) = c"

fun blacken :: "tree \<Rightarrow> tree" where
  "blacken Lf = Lf"
| "blacken (Nd c l a k r) = Nd RB_BLACK l a k r"

fun fill :: "frame \<Rightarrow> tree \<Rightarrow> tree" where
  "fill (On_left c a k r) t = Nd c t a k r"
| "fill (On_right c l a k) t = Nd c l a k t"

fun plug :: "frame list \<Rightarrow> tree \<Rightarrow> tree" where
  "plug [] t = t"
| "plug (f # C) t = plug C (fill f t)"

fun items :: "tree \<Rightarrow> (u64 \<times> addr) list" where
  "items Lf = []"
| "items (Nd c l a k r) = items l @ (k, a) # items r"

fun items_before :: "frame list \<Rightarrow> (u64 \<times> addr) list" where
  "items_before [] = []"
| "items_before (On_left c a k r # C) = items_before C"
| "items_before (On_right c l a k # C) = items_before C @ items l @ [(k, a)]"

fun items_after :: "frame list \<Rightarrow> (u64 \<times> addr) list" where
  "items_after [] = []"
| "items_after (On_left c a k r # C) = (k, a) # items r @ items_after C"
| "items_after (On_right c l a k # C) = items_after C"

lemma items_plug: "items (plug C t) = items_before C @ items t @ items_after C"
proof (induction C arbitrary: t)
  case (Cons f C)
  then show ?case by (cases f) simp_all
qed simp

lemma items_blacken [simp]: "items (blacken t) = items t"
  by (cases t) simp_all

lemma plug_append: "plug (C @ D) t = plug D (plug C t)"
  by (induction C arbitrary: t) simp_all

subsection \<open>Colouring rules\<close>

text \<open>Every path down has \<open>n\<close> black nodes.\<close>

fun level :: "nat \<Rightarrow> tree \<Rightarrow> bool" where
  "level n Lf \<longleftrightarrow> n = 0"
| "level n (Nd RB_RED l a k r) \<longleftrightarrow> level n l \<and> level n r"
| "level n (Nd RB_BLACK l a k r) \<longleftrightarrow> (case n of 0 \<Rightarrow> False | Suc m \<Rightarrow> level m l \<and> level m r)"

text \<open>No red node has a red child.\<close>

fun calm :: "tree \<Rightarrow> bool" where
  "calm Lf \<longleftrightarrow> True"
| "calm (Nd c l a k r) \<longleftrightarrow> (c = RB_RED \<longrightarrow> col l = RB_BLACK \<and> col r = RB_BLACK) \<and> calm l \<and> calm r"

definition red_black :: "tree \<Rightarrow> bool" where
  "red_black t \<longleftrightarrow> col t = RB_BLACK \<and> calm t \<and> (\<exists>n. level n t)"

text \<open>The same for a path: with a subtree of level \<open>n\<close> the whole tree has level \<open>m\<close>; with a subtree of colour \<open>c\<close> there
  are no red neighbours on the path.\<close>

fun level_path :: "nat \<Rightarrow> nat \<Rightarrow> frame list \<Rightarrow> bool" where
  "level_path n m [] \<longleftrightarrow> n = m"
| "level_path n m (On_left c a k r # C) \<longleftrightarrow> level n r \<and> level_path (if c = RB_BLACK then Suc n else n) m C"
| "level_path n m (On_right c l a k # C) \<longleftrightarrow> level n l \<and> level_path (if c = RB_BLACK then Suc n else n) m C"

fun frame_col :: "frame \<Rightarrow> rb_colour" where
  "frame_col (On_left c a k r) = c"
| "frame_col (On_right c l a k) = c"

fun sibling :: "frame \<Rightarrow> tree" where
  "sibling (On_left c a k r) = r"
| "sibling (On_right c l a k) = l"

fun calm_path :: "rb_colour \<Rightarrow> frame list \<Rightarrow> bool" where
  "calm_path c [] \<longleftrightarrow> True"
| "calm_path c (f # C) \<longleftrightarrow> (frame_col f = RB_RED \<longrightarrow> c = RB_BLACK \<and> col (sibling f) = RB_BLACK) \<and> calm (sibling f) \<and>
     calm_path (frame_col f) C"

lemma not_red [simp]: "c \<noteq> RB_RED \<longleftrightarrow> c = RB_BLACK" "c \<noteq> RB_BLACK \<longleftrightarrow> c = RB_RED"
  by (cases c; simp)+

lemma level_black [simp]: "level n (Nd RB_BLACK l a k r) \<longleftrightarrow> (\<exists>m. n = Suc m \<and> level m l \<and> level m r)"
  by (cases n) simp_all

declare level.simps(3) [simp del]

lemma level_unique: "level n t \<Longrightarrow> level m t \<Longrightarrow> n = m"
proof (induction t arbitrary: n m)
  case (Nd c l a k r)
  then show ?case by (cases c) auto
qed simp

lemma level_plug: "level m (plug C t) \<longleftrightarrow> (\<exists>n. level n t \<and> level_path n m C)"
proof (induction C arbitrary: t)
  case (Cons f C)
  have "(\<exists>n. level n (fill f t) \<and> level_path n m C) \<longleftrightarrow> (\<exists>n. level n t \<and> level_path n m (f # C))"
  proof (cases f)
    case (On_left c a k r)
    then show ?thesis by (cases c) auto
  next
    case (On_right c l a k)
    then show ?thesis by (cases c) auto
  qed
  then show ?case using Cons by simp
qed simp

lemma col_fill [simp]: "col (fill f t) = frame_col f"
  by (cases f) simp_all

lemma calm_fill: "calm (fill f t) \<longleftrightarrow> (frame_col f = RB_RED \<longrightarrow> col t = RB_BLACK \<and> col (sibling f) = RB_BLACK) \<and> calm t \<and> calm (sibling f)"
  by (cases f) auto

lemma calm_plug: "calm (plug C t) \<longleftrightarrow> calm t \<and> calm_path (col t) C"
  by (induction C arbitrary: t) (auto simp: calm_fill)

lemma calm_path_black: "calm_path c C \<Longrightarrow> calm_path RB_BLACK C"
  by (cases C) auto

lemma calm_blacken [simp]: "calm t \<Longrightarrow> calm (blacken t)" "col (blacken t) = RB_BLACK"
  by (cases t; simp)+

lemma level_blacken: "level n t \<Longrightarrow> col t = RB_RED \<Longrightarrow> level (Suc n) (blacken t)"
  by (cases t) auto

lemma level_blacken_ex: "level n t \<Longrightarrow> \<exists>m. level m (blacken t)"
  by (cases "col t"; cases t) auto

subsection \<open>Repair after an insertion\<close>

text \<open>\<open>t\<close> has a red root.  \<open>rotate_in\<close> is the result of the rotations for the parent \<open>f\<close> and the grandparent \<open>g\<close>.\<close>

fun rotate_in :: "frame \<Rightarrow> frame \<Rightarrow> tree \<Rightarrow> tree" where
  "rotate_in (On_left c p pk r) (On_left gc g gk u) t = Nd RB_BLACK t p pk (Nd RB_RED r g gk u)"
| "rotate_in (On_right c l p pk) (On_left gc g gk u) (Nd tc x a k y) = Nd RB_BLACK (Nd RB_RED l p pk x) a k (Nd RB_RED y g gk u)"
| "rotate_in (On_right c l p pk) (On_right gc u g gk) t = Nd RB_BLACK (Nd RB_RED u g gk l) p pk t"
| "rotate_in (On_left c p pk r) (On_right gc u g gk) (Nd tc x a k y) = Nd RB_BLACK (Nd RB_RED u g gk x) a k (Nd RB_RED y p pk r)"
| "rotate_in _ _ Lf = Lf"

fun set_black :: "frame \<Rightarrow> frame" where
  "set_black (On_left c a k r) = On_left RB_BLACK a k r"
| "set_black (On_right c l a k) = On_right RB_BLACK l a k"

fun recolour :: "frame \<Rightarrow> tree \<Rightarrow> tree" where
  "recolour (On_left c a k r) t = Nd RB_RED t a k (blacken r)"
| "recolour (On_right c l a k) t = Nd RB_RED (blacken l) a k t"

fun insert_repair :: "frame list \<Rightarrow> tree \<Rightarrow> tree" where
  "insert_repair (f # g # C) t =
     (if frame_col f = RB_RED
      then if col (sibling g) = RB_RED then insert_repair C (recolour g (fill (set_black f) t))
        else plug C (rotate_in f g t)
      else plug (f # g # C) t)"
| "insert_repair C t = plug C t"

lemma items_rotate_in: "t \<noteq> Lf \<Longrightarrow> items (rotate_in f g t) = items (fill g (fill f t))"
  by (cases t; cases f; cases g) simp_all

lemma items_fill_cong: "items t = items t' \<Longrightarrow> items (fill f t) = items (fill f t')"
  by (cases f) simp_all

lemma items_recolour: "items (recolour g t) = items (fill g t)" and items_set_black: "items (fill (set_black f) t) = items (fill f t)"
  by (cases g; simp) (cases f; simp)

lemma items_insert_repair: "t \<noteq> Lf \<Longrightarrow> items (insert_repair C t) = items (plug C t)"
proof (induction C t rule: insert_repair.induct)
  case (1 f g C t)
  show ?case
  proof (cases "frame_col f = RB_RED \<and> col (sibling g) = RB_RED")
    case True
    have "recolour g (fill (set_black f) t) \<noteq> Lf" by (cases g) simp_all
    then have "items (insert_repair C (recolour g (fill (set_black f) t))) = items (plug C (recolour g (fill (set_black f) t)))"
      using 1 True by blast
    also have "\<dots> = items (plug C (fill g (fill f t)))"
      by (simp add: items_plug items_recolour items_fill_cong [OF items_set_black])
    finally show ?thesis using True by simp
  next
    case False
    then show ?thesis using 1(2) by (auto simp: items_plug items_rotate_in)
  qed
qed simp_all

lemma rotate_in_rules:
  assumes "frame_col f = RB_RED" and "col (sibling g) = RB_BLACK" and "calm t" "col t = RB_RED" "t \<noteq> Lf"
    and "calm_path RB_BLACK (f # g # C)" and "level n t" "level_path n m (f # g # C)"
  shows "calm (rotate_in f g t) \<and> col (rotate_in f g t) = RB_BLACK \<and> frame_col g = RB_BLACK \<and> level (Suc n) (rotate_in f g t) \<and>
    level_path (Suc n) m C"
  using assms by (cases t; cases f; cases g) auto

lemma recolour_rules:
  assumes "frame_col f = RB_RED" and "col (sibling g) = RB_RED" and "calm t"
    and "calm_path RB_BLACK (f # g # C)" and "level n t" "level_path n m (f # g # C)"
  defines "t' \<equiv> recolour g (fill (set_black f) t)"
  shows "calm t' \<and> col t' = RB_RED \<and> calm_path RB_BLACK C \<and> level (Suc n) t' \<and> level_path (Suc n) m C"
  using assms calm_path_black by (cases f; cases g) (auto simp: level_blacken)

text \<open>A red node with red children above it is repaired; at most the root is left red.\<close>

lemma insert_repair_rules:
  "calm t \<Longrightarrow> col t = RB_RED \<Longrightarrow> calm_path RB_BLACK C \<Longrightarrow> level n t \<Longrightarrow> level_path n m C \<Longrightarrow>
    calm (blacken (insert_repair C t)) \<and> level m (insert_repair C t)"
proof (induction C t arbitrary: n rule: insert_repair.induct [case_names deep empty single])
  case (deep f g C t)
  have t: "t \<noteq> Lf" using deep(3) by auto
  show ?case
  proof (cases "frame_col f = RB_RED")
    case red: True
    show ?thesis
    proof (cases "col (sibling g) = RB_RED")
      case True
      note r = recolour_rules [OF red True deep(2,4,5,6)]
      then show ?thesis using deep(1) [OF red True, of "Suc n"] red True by simp
    next
      case False
      then have b: "col (sibling g) = RB_BLACK" by simp
      note r = rotate_in_rules [OF red b deep(2,3) t deep(4,5,6)]
      then have "calm (plug C (rotate_in f g t))" using deep(4) by (auto simp: calm_plug intro: calm_path_black)
      moreover have "level m (plug C (rotate_in f g t))" using r by (auto simp: level_plug)
      ultimately show ?thesis using red b by simp
    qed
  next
    case False
    then have "calm (plug (f # g # C) t)" using deep(2-4) by (simp only: calm_plug) simp
    moreover have "level m (plug (f # g # C) t)" using deep(5,6) by (simp only: level_plug) blast
    ultimately show ?thesis using False by simp
  qed
next
  case (empty t)
  then show ?case by auto
next
  case (single f t)
  have "calm (blacken (fill f t))" using single(1-3) by (cases f) auto
  moreover have "level m (plug [f] t)" using single(4,5) by (simp only: level_plug) blast
  ultimately show ?case by simp
qed

subsection \<open>Repair after a removal\<close>

text \<open>The position lacks one black node on its paths.  With a red sibling the first rotation moves the position one step
  down; then \<open>sibling_fix\<close> is the rest of the round, which is done, or passes the problem to the parent.\<close>

fun red_sibling :: "frame \<Rightarrow> (frame \<times> frame) option" where
  "red_sibling (On_left c p pk (Nd RB_RED wl w wk wr)) = Some (On_left RB_RED p pk wl, On_left RB_BLACK w wk wr)"
| "red_sibling (On_right c (Nd RB_RED wl w wk wr) p pk) = Some (On_right RB_RED wr p pk, On_right RB_BLACK wl w wk)"
| "red_sibling _ = None"

fun inner_left :: "rb_colour \<Rightarrow> tree \<Rightarrow> addr \<Rightarrow> u64 \<Rightarrow> tree \<Rightarrow> addr \<Rightarrow> u64 \<Rightarrow> tree \<Rightarrow> tree" where
  "inner_left c t p pk (Nd ic a b bk d) w wk wr = Nd c (Nd RB_BLACK t p pk a) b bk (Nd RB_BLACK d w wk wr)"
| "inner_left c t p pk Lf w wk wr = Lf"

fun inner_right :: "rb_colour \<Rightarrow> tree \<Rightarrow> addr \<Rightarrow> u64 \<Rightarrow> tree \<Rightarrow> addr \<Rightarrow> u64 \<Rightarrow> tree \<Rightarrow> tree" where
  "inner_right c wl w wk (Nd ic a b bk d) p pk t = Nd c (Nd RB_BLACK wl w wk a) b bk (Nd RB_BLACK d p pk t)"
| "inner_right c wl w wk Lf p pk t = Lf"

fun sibling_fix :: "frame \<Rightarrow> tree \<Rightarrow> bool \<times> tree" where
  "sibling_fix (On_left c p pk (Nd wc wl w wk wr)) t =
     (if col wl = RB_BLACK \<and> col wr = RB_BLACK then (False, Nd c t p pk (Nd RB_RED wl w wk wr))
      else if col wr = RB_BLACK then (True, inner_left c t p pk wl w wk wr)
      else (True, Nd c (Nd RB_BLACK t p pk wl) w wk (blacken wr)))"
| "sibling_fix (On_right c (Nd wc wl w wk wr) p pk) t =
     (if col wl = RB_BLACK \<and> col wr = RB_BLACK then (False, Nd c (Nd RB_RED wl w wk wr) p pk t)
      else if col wl = RB_BLACK then (True, inner_right c wl w wk wr p pk t)
      else (True, Nd c (blacken wl) w wk (Nd RB_BLACK wr p pk t)))"
| "sibling_fix f t = (True, fill f t)"

fun erase_repair :: "frame list \<Rightarrow> tree \<Rightarrow> tree" where
  "erase_repair [] t = blacken t"
| "erase_repair (f # C) t =
     (if col t = RB_RED then plug (f # C) (blacken t)
      else case red_sibling f of
        Some (f', g) \<Rightarrow> (let (fin, t') = sibling_fix f' t in
          if fin then blacken (plug (g # C) t') else plug (g # C) (blacken t'))
      | None \<Rightarrow> (let (fin, t') = sibling_fix f t in if fin then blacken (plug C t') else erase_repair C t'))"

lemma items_red_sibling: "red_sibling f = Some (f', g) \<Longrightarrow> items (fill g (fill f' t)) = items (fill f t)"
  by (cases f rule: red_sibling.cases) auto

lemma items_inner:
  "wl \<noteq> Lf \<Longrightarrow> items (inner_left c t p pk wl w wk wr) = items t @ (pk, p) # items wl @ (wk, w) # items wr"
  "wr \<noteq> Lf \<Longrightarrow> items (inner_right c wl w wk wr p pk t) = items wl @ (wk, w) # items wr @ (pk, p) # items t"
  by (cases wl; simp) (cases wr; simp)

lemma red_not_Lf: "col t = RB_RED \<Longrightarrow> t \<noteq> Lf"
  by auto

lemma items_sibling_fix: "items (snd (sibling_fix f t)) = items (fill f t)"
  by (cases "(f, t)" rule: sibling_fix.cases) (auto simp: items_inner red_not_Lf)

lemma items_plug_cong: "items t = items t' \<Longrightarrow> items (plug C t) = items (plug C t')"
  by (simp add: items_plug)

lemma items_erase_repair: "items (erase_repair C t) = items (plug C t)"
proof (induction C t rule: erase_repair.induct)
  case (2 f C t)
  obtain fin t' where sf: "sibling_fix f t = (fin, t')" by (cases "sibling_fix f t") auto
  then have t': "items t' = items (fill f t)" using items_sibling_fix [of f t] by simp
  consider "col t = RB_RED" | f' g where "col t = RB_BLACK" "red_sibling f = Some (f', g)" | "col t = RB_BLACK" "red_sibling f = None"
    by (cases "col t"; cases "red_sibling f") auto
  then show ?case
  proof cases
    case 1
    then show ?thesis by (simp del: plug.simps add: items_plug)
  next
    case (2 f' g)
    obtain fin1 t1 where sf1: "sibling_fix f' t = (fin1, t1)" by (cases "sibling_fix f' t") auto
    have "items t1 = items (fill f' t)" using items_sibling_fix [of f' t] sf1 by simp
    then have "items (fill g t1) = items (fill f t)" using items_red_sibling [OF 2(2), of t] items_fill_cong by metis
    then have "items (plug (g # C) t1) = items (plug (f # C) t)" by (simp add: items_plug)
    moreover have "items (plug (g # C) (blacken t1)) = items (plug (g # C) t1)" by (rule items_plug_cong) simp
    ultimately show ?thesis using 2 sf1 by (simp del: plug.simps)
  next
    case 3
    then show ?thesis using 2 [OF _ 3(2) sf [symmetric]] sf t' by (simp add: items_plug)
  qed
qed simp

text \<open>What one round achieves.\<close>

lemma sibling_fix_rules:
  assumes "sibling_fix f t = (fin, t')" and "calm t" "col t = RB_BLACK" and "col (sibling f) = RB_BLACK" "calm (sibling f)"
    and "level n t" "level (Suc n) (sibling f)"
  shows "calm (blacken t') \<and> (frame_col f = RB_BLACK \<longrightarrow> calm t') \<and> (fin \<longrightarrow> calm t' \<and> col t' = frame_col f) \<and> sibling f \<noteq> Lf \<and>
    level ((if frame_col f = RB_BLACK then 1 else 0) + (if fin then 1 else 0) + n) t'"
proof -
  obtain wl w wk wr where s: "sibling f = Nd RB_BLACK wl w wk wr" using assms(4,7) by (cases "sibling f") auto
  show ?thesis
  proof (cases f)
    case (On_left c p pk r)
    then show ?thesis using assms s by (cases c; cases wl) (auto split: if_splits simp: level_blacken)
  next
    case (On_right c l p pk)
    then show ?thesis using assms s by (cases c; cases wr) (auto split: if_splits simp: level_blacken)
  qed
qed

lemma red_sibling_rules:
  assumes "red_sibling f = Some (f', g)" and "calm_path RB_BLACK (f # C)" and "level_path (Suc n) m (f # C)"
  shows "frame_col f' = RB_RED \<and> frame_col g = RB_BLACK \<and> col (sibling f') = RB_BLACK \<and> calm (sibling f') \<and> level (Suc n) (sibling f') \<and>
    calm_path RB_BLACK (g # C) \<and> level_path (Suc n) m (g # C) \<and> frame_col f = RB_BLACK"
  using assms by (cases f rule: red_sibling.cases) (auto split: if_splits)

lemma red_sibling_None: "red_sibling f = None \<Longrightarrow> col (sibling f) = RB_BLACK"
  by (cases f rule: red_sibling.cases) (auto intro: ccontr)

lemma frame_path:
  "calm_path RB_BLACK (f # C) \<Longrightarrow> calm (sibling f)" "level_path n m (f # C) \<Longrightarrow> level n (sibling f)"
  by (cases f; simp)+

definition black_root :: "frame list \<Rightarrow> bool" where
  "black_root C \<longleftrightarrow> C = [] \<or> frame_col (last C) = RB_BLACK"

lemma col_plug: "col (plug C t) = (if C = [] then col t else frame_col (last C))"
  by (induction C arbitrary: t) simp_all

lemma blacken_black: "col t = RB_BLACK \<Longrightarrow> blacken t = t"
  by (cases t) simp_all

text \<open>A subtree that lacks one black node is repaired.\<close>

lemma erase_repair_rules:
  "calm (blacken t) \<Longrightarrow> level n t \<Longrightarrow> calm_path RB_BLACK C \<Longrightarrow> level_path (Suc n) m C \<Longrightarrow> black_root C \<Longrightarrow> red_black (erase_repair C t)"
proof (induction C t arbitrary: n rule: erase_repair.induct)
  case (1 t)
  then show ?case using level_blacken_ex [of n t] by (simp add: red_black_def)
next
  case (2 f C t)
  note calm0 = 2(2) and level = 2(3) and cpath = 2(4) and lpath = 2(5) and root = 2(6)
  have bl: "col (plug (g # C) u) = RB_BLACK" if "frame_col g = RB_BLACK" for g u
    using root that by (cases C) (auto simp: col_plug black_root_def)
  show ?case
  proof (cases "col t = RB_RED")
    case True
    have "calm (plug (f # C) (blacken t))" using calm0 cpath by (simp only: calm_plug calm_blacken)
    moreover have "level m (plug (f # C) (blacken t))" using level_blacken [OF level True] lpath by (simp only: level_plug) blast
    moreover have "col (plug (f # C) (blacken t)) = RB_BLACK" using root by (simp add: col_plug black_root_def del: plug.simps)
    ultimately show ?thesis using True by (auto simp: red_black_def simp del: plug.simps)
  next
    case False
    then have black: "col t = RB_BLACK" by simp
    then have calm: "calm t" using calm0 blacken_black by simp
    show ?thesis
    proof (cases "red_sibling f")
      case (Some fg)
      obtain f' g where fg: "fg = (f', g)" by (cases fg)
      note rs = red_sibling_rules [OF Some [unfolded fg] cpath lpath]
      obtain fin t' where sf: "sibling_fix f' t = (fin, t')" by (cases "sibling_fix f' t") auto
      note sr = sibling_fix_rules [OF sf calm black _ _ level, of, simplified rs]
      show ?thesis
      proof (cases fin)
        case True
        have "calm (plug (g # C) t')" using sr rs True by (auto simp: calm_plug simp del: plug.simps)
        moreover have "level m (plug (g # C) t')" using sr rs True by (auto simp: level_plug simp del: plug.simps)
        ultimately show ?thesis
          using Some fg black sf True level_blacken_ex by (simp add: red_black_def del: plug.simps)
      next
        case nofin: False
        have "col t' = RB_RED" using sf nofin rs by (cases "(f', t)" rule: sibling_fix.cases) (auto split: if_splits)
        then have "level (Suc n) (blacken t')" using sr rs nofin level_blacken by simp
        then have "level m (plug (g # C) (blacken t'))" using rs by (auto simp: level_plug simp del: plug.simps)
        moreover have "calm (plug (g # C) (blacken t'))" using sr rs by (auto simp: calm_plug simp del: plug.simps)
        ultimately show ?thesis using Some fg black sf nofin rs bl by (auto simp: red_black_def simp del: plug.simps)
      qed
    next
      case None
      obtain fin t' where sf: "sibling_fix f t = (fin, t')" by (cases "sibling_fix f t") auto
      note sr = sibling_fix_rules [OF sf calm black red_sibling_None [OF None] frame_path(1) [OF cpath] level frame_path(2) [OF lpath]]
      have lp: "level_path ((if frame_col f = RB_BLACK then 1 else 0) + Suc n) m C" using lpath by (cases f) auto
      have cp: "calm_path (frame_col f) C" using cpath by simp
      show ?thesis
      proof (cases fin)
        case True
        have "calm (plug C t')" using sr cp True by (simp add: calm_plug)
        moreover have "level m (plug C t')" using sr lp True by (auto simp: level_plug)
        ultimately show ?thesis using None black sf True level_blacken_ex by (simp add: red_black_def)
      next
        case nofin: False
        have "red_black (erase_repair C t')"
        proof (rule 2(1) [OF False None sf [symmetric]])
          show "\<not> fin" by (rule nofin)
        qed (use sr cp lp root nofin in \<open>auto simp: black_root_def intro: calm_path_black split: if_splits\<close>)
        then show ?thesis using None black sf nofin by simp
      qed
    qed
  qed
qed

subsection \<open>Insertion\<close>

fun descend :: "u64 \<times> addr \<Rightarrow> frame list \<Rightarrow> tree \<Rightarrow> frame list" where
  "descend x C Lf = C"
| "descend x C (Nd c l a k r) = (if x < (k, a) then descend x (On_left c a k r # C) l else descend x (On_right c l a k # C) r)"

lemma plug_descend: "plug (descend x C t) Lf = plug C t"
  by (induction t arbitrary: C) simp_all

lemma descend_splits:
  assumes "sorted_wrt (<) (items t)"
  shows "\<exists>us vs. items t = us @ vs \<and> (\<forall>u \<in> set us. u \<le> x) \<and> (\<forall>v \<in> set vs. x < v) \<and>
    items_before (descend x C t) = items_before C @ us \<and> items_after (descend x C t) = vs @ items_after C"
  using assms
proof (induction t arbitrary: C)
  case (Nd c l a k r)
  then have s: "sorted_wrt (<) (items l)" "sorted_wrt (<) (items r)" "\<forall>u \<in> set (items l). u < (k, a)" "\<forall>u \<in> set (items r). (k, a) < u"
    by (auto simp: sorted_wrt_append)
  show ?case
  proof (cases "x < (k, a)")
    case True
    obtain us vs where "items l = us @ vs" "\<forall>u \<in> set us. u \<le> x" "\<forall>v \<in> set vs. x < v"
        "items_before (descend x (On_left c a k r # C) l) = items_before C @ us"
        "items_after (descend x (On_left c a k r # C) l) = vs @ (k, a) # items r @ items_after C"
      using Nd.IH(1) [OF s(1), of "On_left c a k r # C"] by auto
    then show ?thesis
      using True s(4) by (intro exI [of _ us] exI [of _ "vs @ (k, a) # items r"]) (auto simp del: less_prod_simp intro: less_trans)
  next
    case False
    obtain us vs where "items r = us @ vs" "\<forall>u \<in> set us. u \<le> x" "\<forall>v \<in> set vs. x < v"
        "items_before (descend x (On_right c l a k # C) r) = items_before C @ items l @ (k, a) # us"
        "items_after (descend x (On_right c l a k # C) r) = vs @ items_after C"
      using Nd.IH(2) [OF s(2), of "On_right c l a k # C"] by auto
    then show ?thesis
      using False s(3) by (intro exI [of _ "items l @ (k, a) # us"] exI [of _ vs])
        (auto simp del: less_prod_simp simp: not_less intro: less_imp_le order_trans)
  qed
qed simp

lemma insort_between: "(\<forall>u \<in> set us. u \<le> x) \<Longrightarrow> x \<notin> set us \<Longrightarrow> (\<forall>v \<in> set vs. x < v) \<Longrightarrow> insort x (us @ vs) = us @ x # vs"
proof (induction us)
  case Nil
  then show ?case by (cases vs) auto
qed auto

definition insert_tree :: "u64 \<Rightarrow> addr \<Rightarrow> tree \<Rightarrow> tree" where
  "insert_tree k a t = blacken (insert_repair (descend (k, a) [] t) (Nd RB_RED Lf a k Lf))"

lemma items_insert_tree:
  assumes "sorted_wrt (<) (items t)" and "(k, a) \<notin> set (items t)"
  shows "items (insert_tree k a t) = insort (k, a) (items t)"
proof -
  obtain us vs where "items t = us @ vs" "\<forall>u \<in> set us. u \<le> (k, a)" "\<forall>v \<in> set vs. (k, a) < v"
      "items_before (descend (k, a) [] t) = us" "items_after (descend (k, a) [] t) = vs"
    using descend_splits [OF assms(1), of "(k, a)" "[]"] by auto
  then show ?thesis
    using assms(2) insort_between [of us "(k, a)" vs] by (simp add: insert_tree_def items_insert_repair items_plug)
qed

lemma insert_tree_red_black:
  assumes "red_black t"
  shows "red_black (insert_tree k a t)"
proof -
  let ?C = "descend (k, a) [] t"
  obtain m where t: "calm (plug ?C Lf)" "level m (plug ?C Lf)" using assms by (auto simp: plug_descend red_black_def)
  then have "calm_path RB_BLACK ?C" "level_path 0 m ?C" by (auto simp: calm_plug level_plug)
  then have "calm (insert_tree k a t) \<and> level m (insert_repair ?C (Nd RB_RED Lf a k Lf))"
    using insert_repair_rules [of "Nd RB_RED Lf a k Lf" ?C 0 m] by (simp add: insert_tree_def)
  then show ?thesis using level_blacken_ex by (auto simp: red_black_def insert_tree_def)
qed

subsection \<open>Removal\<close>

text \<open>The leftmost node of a subtree, with the path to it.\<close>

fun dig :: "frame list \<Rightarrow> tree \<Rightarrow> frame list \<times> tree" where
  "dig D (Nd c l a k r) = (if l = Lf then (D, Nd c l a k r) else dig (On_left c a k r # D) l)"
| "dig D Lf = (D, Lf)"

lemma plug_dig: "dig D t = (D', t') \<Longrightarrow> plug D' t' = plug D t"
  by (induction D t rule: dig.induct) (auto split: if_splits)

lemma dig_leftmost: "dig D t = (D', t') \<Longrightarrow> t \<noteq> Lf \<Longrightarrow> \<exists>c a k r. t' = Nd c Lf a k r"
  by (induction D t rule: dig.induct) (auto split: if_splits)

lemma dig_path: "dig D t = (D', t') \<Longrightarrow> \<exists>E. D' = E @ D \<and> (\<forall>f \<in> set E. \<exists>c a k r. f = On_left c a k r)"
proof (induction D t rule: dig.induct)
  case (1 D c l a k r)
  show ?case
  proof (cases "l = Lf")
    case False
    then obtain E where "D' = E @ On_left c a k r # D" "\<forall>f \<in> set E. \<exists>c a k r. f = On_left c a k r" using 1 by auto
    then show ?thesis by (intro exI [of _ "E @ [On_left c a k r]"]) auto
  qed (use 1 in auto)
qed auto

lemma items_before_left: "\<forall>f \<in> set E. \<exists>c a k r. f = On_left c a k r \<Longrightarrow> items_before (E @ C) = items_before C"
  by (induction E) auto

lemma items_after_append: "items_after (E @ C) = items_after E @ items_after C"
  by (induction E rule: items_after.induct) auto

text \<open>Where the node at a position is removed: the position that is left, and the colour that is lost there.\<close>

fun erase_pos :: "frame list \<Rightarrow> tree \<Rightarrow> frame list \<times> tree \<times> rb_colour" where
  "erase_pos C (Nd c l z k r) =
     (if l = Lf then (C, r, c) else if r = Lf then (C, l, c)
      else case dig [] r of
        (D, Nd cy yl y ky yr) \<Rightarrow> (D @ On_right c l y ky # C, yr, cy)
      | (D, Lf) \<Rightarrow> (C, Lf, c))"
| "erase_pos C Lf = (C, Lf, RB_RED)"

definition erase_tree :: "frame list \<Rightarrow> tree \<Rightarrow> tree" where
  "erase_tree C t = (case erase_pos C t of (C', x, c) \<Rightarrow> if c = RB_BLACK then erase_repair C' x else plug C' x)"

lemma items_erase_pos:
  assumes "erase_pos C (Nd c l z k r) = (C', x, c')"
  shows "items (plug C' x) = items_before C @ items l @ items r @ items_after C"
proof (cases "l = Lf \<or> r = Lf")
  case True
  then show ?thesis using assms by (auto simp: items_plug split: if_splits)
next
  case False
  obtain D t' where d: "dig [] r = (D, t')" by (cases "dig [] r")
  obtain cy y ky yr where t': "t' = Nd cy Lf y ky yr" using dig_leftmost [OF d] False by auto
  have D: "\<forall>f \<in> set D. \<exists>c a k r. f = On_left c a k r" using dig_path [OF d] by auto
  have "items r = items_before D @ items t' @ items_after D" using plug_dig [OF d] items_plug [of D t'] by simp
  then have "items r = (ky, y) # items yr @ items_after D" using items_before_left [OF D, of "[]"] t' by simp
  then show ?thesis
    using assms False d t' items_before_left [OF D] by (auto simp: items_plug items_after_append)
qed

lemma items_erase_tree:
  "items (erase_tree C (Nd c l z k r)) = items_before C @ items l @ items r @ items_after C"
  using items_erase_pos [of C c l z k r]
  by (cases "erase_pos C (Nd c l z k r)") (simp add: erase_tree_def items_erase_repair)

lemma red_black_rename: "red_black (plug C (Nd c l z k r)) \<longleftrightarrow> red_black (plug C (Nd c l y j r))"
proof -
  have "level n (Nd c l z k r) \<longleftrightarrow> level n (Nd c l y j r)" for n by (cases c) simp_all
  then show ?thesis by (auto simp: red_black_def calm_plug level_plug col_plug)
qed

lemma erase_one_child:
  assumes "red_black (plug C (Nd c l z k r))" and "l = Lf \<and> x = r \<or> r = Lf \<and> x = l"
  shows "red_black (if c = RB_BLACK then erase_repair C x else plug C x)"
proof -
  obtain n m where t: "calm (Nd c l z k r)" "calm_path c C" "level n (Nd c l z k r)" "level_path n m C"
    using assms(1) by (auto simp: red_black_def calm_plug level_plug)
  have root: "col (plug C (Nd c l z k r)) = RB_BLACK" using assms(1) by (simp add: red_black_def)
  then have br: "black_root C" by (auto simp: black_root_def col_plug split: if_splits)
  have cx: "calm x" using t(1) assms(2) by auto
  show ?thesis
  proof (cases c)
    case RB_BLACK
    then obtain i where "n = Suc i" "level i x" using t(3) assms(2) by auto
    then show ?thesis using RB_BLACK cx t(2,4) br erase_repair_rules [of x i C m] by simp
  next
    case RB_RED
    have "C \<noteq> []" using root RB_RED by auto
    then have "col (plug C x) = RB_BLACK" using br by (simp add: col_plug black_root_def)
    moreover have "calm (plug C x)" using cx t(1,2) RB_RED assms(2) calm_path_black by (auto simp: calm_plug)
    moreover have "level m (plug C x)" using t(3,4) RB_RED assms(2) by (auto simp: level_plug)
    ultimately show ?thesis using RB_RED by (auto simp: red_black_def)
  qed
qed

lemma erase_tree_red_black:
  assumes "red_black (plug C (Nd c l z k r))"
  shows "red_black (erase_tree C (Nd c l z k r))"
proof (cases "l = Lf \<or> r = Lf")
  case True
  then show ?thesis using erase_one_child [OF assms] by (auto simp: erase_tree_def)
next
  case False
  obtain D t' where d: "dig [] r = (D, t')" by (cases "dig [] r")
  obtain cy y ky yr where t': "t' = Nd cy Lf y ky yr" using dig_leftmost [OF d] False by auto
  let ?C = "D @ On_right c l y ky # C"
  have "plug ?C (Nd cy Lf y ky yr) = plug C (Nd c l y ky r)" using plug_dig [OF d] t' by (simp add: plug_append)
  then have "red_black (plug ?C (Nd cy Lf y ky yr))" using assms red_black_rename [of C c l z k r y ky] by simp
  then show ?thesis using erase_one_child [of ?C cy Lf y ky yr yr] False d t' by (simp add: erase_tree_def)
qed

end
