(* ===== verification/Rbtree_heap.thy ===== *)
theory Rbtree_heap
  imports Rbtree_zip
begin

text \<open>
  The pointer operations of \<^verbatim>\<open>kernel/rbtree.c\<close> carry out the tree operations of \<open>Rbtree_zip\<close>.  \<open>at m A s C t\<close> relates
  memory and trees: the nodes in memory form the tree \<open>plug C t\<close>, the position is at the root of \<open>t\<close>, all addresses
  belong to \<open>A\<close>, and memory outside \<open>A\<close> is still that of \<open>m\<close>.
\<close>

subsection \<open>Trees in memory\<close>

fun ptr :: "tree \<Rightarrow> addr" where
  "ptr Lf = NULL"
| "ptr (Nd c l a k r) = a"

fun up :: "frame list \<Rightarrow> addr" where
  "up [] = NULL"
| "up (On_left c a k r # C) = a"
| "up (On_right c l a k # C) = a"

fun rep :: "(addr \<rightharpoonup> rb_node) \<Rightarrow> addr \<Rightarrow> tree \<Rightarrow> bool" where
  "rep m p Lf \<longleftrightarrow> True"
| "rep m p (Nd c l a k r) \<longleftrightarrow> a \<noteq> NULL \<and>
     m a = Some \<lparr>rb_color = c, rb_parent = p, rb_left = ptr l, rb_right = ptr r, rb_key = k\<rparr> \<and> rep m a l \<and> rep m a r"

fun rep_path :: "addr \<Rightarrow> (addr \<rightharpoonup> rb_node) \<Rightarrow> addr \<Rightarrow> frame list \<Rightarrow> bool" where
  "rep_path root m h [] \<longleftrightarrow> root = h"
| "rep_path root m h (On_left c a k r # C) \<longleftrightarrow> a \<noteq> NULL \<and>
     m a = Some \<lparr>rb_color = c, rb_parent = up C, rb_left = h, rb_right = ptr r, rb_key = k\<rparr> \<and> rep m a r \<and> rep_path root m a C"
| "rep_path root m h (On_right c l a k # C) \<longleftrightarrow> a \<noteq> NULL \<and>
     m a = Some \<lparr>rb_color = c, rb_parent = up C, rb_left = ptr l, rb_right = h, rb_key = k\<rparr> \<and> rep m a l \<and> rep_path root m a C"

fun addrs :: "tree \<Rightarrow> addr set" where
  "addrs Lf = {}"
| "addrs (Nd c l a k r) = insert a (addrs l \<union> addrs r)"

fun path_addrs :: "frame list \<Rightarrow> addr set" where
  "path_addrs [] = {}"
| "path_addrs (On_left c a k r # C) = insert a (addrs r \<union> path_addrs C)"
| "path_addrs (On_right c l a k # C) = insert a (addrs l \<union> path_addrs C)"

text \<open>No address occurs twice.\<close>

fun apart :: "tree \<Rightarrow> bool" where
  "apart Lf \<longleftrightarrow> True"
| "apart (Nd c l a k r) \<longleftrightarrow> a \<notin> addrs l \<and> a \<notin> addrs r \<and> addrs l \<inter> addrs r = {} \<and> apart l \<and> apart r"

fun apart_path :: "frame list \<Rightarrow> bool" where
  "apart_path [] \<longleftrightarrow> True"
| "apart_path (On_left c a k r # C) \<longleftrightarrow> a \<notin> addrs r \<and> a \<notin> path_addrs C \<and> addrs r \<inter> path_addrs C = {} \<and> apart r \<and> apart_path C"
| "apart_path (On_right c l a k # C) \<longleftrightarrow> a \<notin> addrs l \<and> a \<notin> path_addrs C \<and> addrs l \<inter> path_addrs C = {} \<and> apart l \<and> apart_path C"

definition at :: "(addr \<rightharpoonup> rb_node) \<Rightarrow> addr set \<Rightarrow> rb_tree \<Rightarrow> frame list \<Rightarrow> tree \<Rightarrow> bool" where
  "at m A s C t \<longleftrightarrow> rep (rb_nodes s) (up C) t \<and> rep_path (rb_root s) (rb_nodes s) (ptr t) C \<and>
     apart t \<and> apart_path C \<and> addrs t \<inter> path_addrs C = {} \<and> addrs t \<union> path_addrs C \<subseteq> A \<and> (\<forall>x. x \<notin> A \<longrightarrow> rb_nodes s x = m x)"

lemma addrs_items: "addrs t = snd ` set (items t)"
  by (induction t) auto

lemma apart_items: "apart t \<longleftrightarrow> distinct (map snd (items t))"
proof (induction t)
  case (Nd c l a k r)
  then show ?case by (auto simp: addrs_items)
qed simp

lemma at_up: "at m A s (f # C) t \<longleftrightarrow> at m A s C (fill f t)"
  by (cases f) (auto simp: at_def)

lemma rep_upd [simp]: "x \<notin> addrs t \<Longrightarrow> rep (h(x := v)) p t \<longleftrightarrow> rep h p t"
  by (induction t arbitrary: p) auto

lemma rep_path_upd [simp]: "x \<notin> path_addrs C \<Longrightarrow> rep_path root (h(x := v)) q C \<longleftrightarrow> rep_path root h q C"
  by (induction root h q C rule: rep_path.induct) auto

lemma at_node:
  assumes "at m A s C (Nd c l a k r)"
  shows "a \<noteq> NULL" and "rb_node_at s a = Some \<lparr>rb_color = c, rb_parent = up C, rb_left = ptr l, rb_right = ptr r, rb_key = k\<rparr>"
  using assms by (simp_all add: at_def rb_node_at_def)

lemma at_ptr [simp]: "at m A s C t \<Longrightarrow> ptr t = NULL \<longleftrightarrow> t = Lf"
  by (cases t) (auto simp: at_def)

lemma at_red: "at m A s C t \<Longrightarrow> rb_is_red s (ptr t) = Some (col t = RB_RED)" and
  at_black: "at m A s C t \<Longrightarrow> rb_is_black s (ptr t) = Some (col t = RB_BLACK)"
  by (cases t; simp add: rb_is_red_def rb_is_black_def at_node)+

lemma rep_cong: "(\<And>x. x \<in> addrs t \<Longrightarrow> h' x = h x) \<Longrightarrow> rep h' p t \<longleftrightarrow> rep h p t"
proof (induction t arbitrary: p)
  case (Nd c l a k r)
  have "rep h' a l = rep h a l" by (rule Nd.IH(1), rule Nd.prems) auto
  moreover have "rep h' a r = rep h a r" by (rule Nd.IH(2), rule Nd.prems) auto
  ultimately show ?case using Nd.prems [of a] by simp
qed simp

lemma rep_path_cong: "(\<And>x. x \<in> path_addrs C \<Longrightarrow> h' x = h x) \<Longrightarrow> rep_path root h' q C \<longleftrightarrow> rep_path root h q C"
proof (induction C arbitrary: q)
  case (Cons f C)
  show ?case
  proof (cases f)
    case (On_left c a k r)
    have "rep h' a r = rep h a r" by (rule rep_cong, rule Cons.prems) (auto simp: On_left)
    moreover have "rep_path root h' a C = rep_path root h a C" by (rule Cons.IH, rule Cons.prems) (auto simp: On_left)
    ultimately show ?thesis using Cons.prems [of a] by (simp add: On_left)
  next
    case (On_right c l a k)
    have "rep h' a l = rep h a l" by (rule rep_cong, rule Cons.prems) (auto simp: On_right)
    moreover have "rep_path root h' a C = rep_path root h a C" by (rule Cons.IH, rule Cons.prems) (auto simp: On_right)
    ultimately show ?thesis using Cons.prems [of a] by (simp add: On_right)
  qed
qed simp

text \<open>The parent pointer at the root of a subtree, and the pointer to a subtree from above.\<close>

lemma set_parent_rep:
  assumes "rep (rb_nodes s) p t" and "apart t"
  obtains h where "rb_set_parent s (ptr t) q = Some (s\<lparr>rb_nodes := h\<rparr>)" and "rep h q t" and "\<And>x. x \<notin> addrs t \<Longrightarrow> h x = rb_nodes s x"
proof (cases t)
  case Lf
  then show thesis using that [of "rb_nodes s"] by (simp add: rb_set_parent_def)
next
  case (Nd c l a k r)
  let ?h = "(rb_nodes s)(a \<mapsto> \<lparr>rb_color = c, rb_parent = q, rb_left = ptr l, rb_right = ptr r, rb_key = k\<rparr>)"
  have "rb_set_parent s (ptr t) q = Some (s\<lparr>rb_nodes := ?h\<rparr>)"
    using assms(1) Nd by (simp add: rb_set_parent_def rb_update_def rb_node_at_def)
  moreover have "rep ?h q t" using assms Nd by auto
  ultimately show thesis using that [of ?h] Nd by simp
qed

lemma replace_child_path:
  assumes "rb_node_at s x = Some n" "rb_parent n = up C" "x \<notin> path_addrs C"
    and "rep_path (rb_root s) (rb_nodes s) x C" and "apart_path C"
  obtains s' where "rb_replace_child s x y = Some s'" and "rep_path (rb_root s') (rb_nodes s') y C"
    and "\<And>z. z \<notin> path_addrs C \<Longrightarrow> rb_nodes s' z = rb_nodes s z"
proof (cases C rule: up.cases)
  case 1
  then show thesis using that [of "s\<lparr>rb_root := y\<rparr>"] assms by (simp add: rb_replace_child_def)
next
  case (2 c p k r D)
  let ?h = "(rb_nodes s)(p \<mapsto> \<lparr>rb_color = c, rb_parent = up D, rb_left = y, rb_right = ptr r, rb_key = k\<rparr>)"
  have "rb_replace_child s x y = Some (s\<lparr>rb_nodes := ?h\<rparr>)"
    using assms(1,2,4) 2 by (simp add: rb_replace_child_def rb_update_def rb_node_at_def)
  moreover have "rep_path (rb_root s) ?h y C" using assms(4,5) 2 by auto
  ultimately show thesis using that [of "s\<lparr>rb_nodes := ?h\<rparr>"] 2 by simp
next
  case (3 c l p k D)
  let ?h = "(rb_nodes s)(p \<mapsto> \<lparr>rb_color = c, rb_parent = up D, rb_left = ptr l, rb_right = y, rb_key = k\<rparr>)"
  have "x \<noteq> NULL" using assms(1) by (auto simp: rb_node_at_def)
  then have "x \<noteq> ptr l" using assms(3) 3 by (cases l) auto
  then have "rb_replace_child s x y = Some (s\<lparr>rb_nodes := ?h\<rparr>)"
    using assms(1,2,4) 3 by (simp add: rb_replace_child_def rb_update_def rb_node_at_def)
  moreover have "rep_path (rb_root s) ?h y C" using assms(4,5) 3 by auto
  ultimately show thesis using that [of "s\<lparr>rb_nodes := ?h\<rparr>"] 3 by simp
qed

subsection \<open>Rotations\<close>

lemma atI:
  assumes "at m A s C t" and "items t' = items t" and "rep (rb_nodes s') (up C) t'" and "rep_path (rb_root s') (rb_nodes s') (ptr t') C"
    and "\<And>z. z \<notin> addrs t \<Longrightarrow> z \<notin> path_addrs C \<Longrightarrow> rb_nodes s' z = rb_nodes s z"
  shows "at m A s' C t'"
proof -
  have "rb_nodes s' z = m z" if "z \<notin> A" for z
  proof -
    have "z \<notin> addrs t" "z \<notin> path_addrs C" using assms(1) that by (auto simp: at_def)
    then show ?thesis using assms(1,5) that by (simp add: at_def)
  qed
  then show ?thesis using assms(1-4) by (simp add: at_def addrs_items apart_items)
qed

lemma rotate_left_at:
  assumes at: "at m A s C (Nd cx a x kx (Nd cy b y ky c))"
  shows "\<exists>s'. rb_rotate_left s x = Some s' \<and> at m A s' C (Nd cy (Nd cx a x kx b) y ky c)"
proof -
  let ?h = "rb_nodes s"
  have p: "x \<noteq> NULL" "y \<noteq> NULL" "?h x = Some \<lparr>rb_color = cx, rb_parent = up C, rb_left = ptr a, rb_right = y, rb_key = kx\<rparr>"
      "?h y = Some \<lparr>rb_color = cy, rb_parent = x, rb_left = ptr b, rb_right = ptr c, rb_key = ky\<rparr>"
      "rep ?h x a" "rep ?h y b" "rep ?h y c" "rep_path (rb_root s) ?h x C"
    using at by (simp_all add: at_def)
  have d: "x \<noteq> y" "x \<notin> addrs a" "x \<notin> addrs b" "x \<notin> addrs c" "y \<notin> addrs a" "y \<notin> addrs b" "y \<notin> addrs c" "addrs a \<inter> addrs b = {}"
      "addrs b \<inter> addrs c = {}" "x \<notin> path_addrs C" "y \<notin> path_addrs C" "addrs a \<inter> path_addrs C = {}" "addrs b \<inter> path_addrs C = {}"
      "addrs c \<inter> path_addrs C = {}" "apart b" "apart_path C"
    using at by (auto simp: at_def)
  define h1 where "h1 = ?h(x \<mapsto> \<lparr>rb_color = cx, rb_parent = up C, rb_left = ptr a, rb_right = ptr b, rb_key = kx\<rparr>)"
  have "rep (rb_nodes (s\<lparr>rb_nodes := h1\<rparr>)) y b" using p(6) d(3) by (simp add: h1_def)
  then obtain h2 where h2: "rb_set_parent (s\<lparr>rb_nodes := h1\<rparr>) (ptr b) x = Some (s\<lparr>rb_nodes := h2\<rparr>)" "rep h2 x b"
      "\<And>z. z \<notin> addrs b \<Longrightarrow> h2 z = h1 z"
    by (rule set_parent_rep [OF _ d(15), of _ _ x]) simp
  define h3 where "h3 = h2(y \<mapsto> \<lparr>rb_color = cy, rb_parent = up C, rb_left = ptr b, rb_right = ptr c, rb_key = ky\<rparr>)"
  have h2xy: "h2 x = h1 x" "h2 y = ?h y" using h2(3) d(1,3,6) by (simp_all add: h1_def)
  have old: "h2 z = ?h z" if "z \<notin> addrs b" "z \<noteq> x" for z using that h2(3) by (simp add: h1_def)
  have "h3 z = ?h z" if "z \<in> path_addrs C" for z
  proof -
    have "z \<notin> addrs b" "z \<noteq> x" "z \<noteq> y" using that d(10,11,13) by auto
    then show ?thesis using old by (simp add: h3_def)
  qed
  then have "rep_path (rb_root s) h3 x C" using p(8) rep_path_cong [of C h3 ?h] by blast
  moreover have "rb_node_at (s\<lparr>rb_nodes := h3\<rparr>) x = Some \<lparr>rb_color = cx, rb_parent = up C, rb_left = ptr a, rb_right = ptr b, rb_key = kx\<rparr>"
    using p(1) d(1) h2xy(1) by (simp add: rb_node_at_def h3_def h1_def)
  ultimately obtain s4 where s4: "rb_replace_child (s\<lparr>rb_nodes := h3\<rparr>) x y = Some s4" "rep_path (rb_root s4) (rb_nodes s4) y C"
      "\<And>z. z \<notin> path_addrs C \<Longrightarrow> rb_nodes s4 z = h3 z"
    using d(10,16) by (elim replace_child_path [where C = C and y = y]) simp_all
  have s4xy: "rb_nodes s4 x = h1 x" "rb_nodes s4 y = h3 y" using s4(3) d(1,10,11) h2xy by (simp_all add: h3_def)
  define h6 where "h6 = (rb_nodes s4)(y \<mapsto> \<lparr>rb_color = cy, rb_parent = up C, rb_left = x, rb_right = ptr c, rb_key = ky\<rparr>,
    x \<mapsto> \<lparr>rb_color = cx, rb_parent = y, rb_left = ptr a, rb_right = ptr b, rb_key = kx\<rparr>)"
  have "rb_rotate_left s x = Some (s4\<lparr>rb_nodes := h6\<rparr>)"
    unfolding rb_rotate_left_def
    using p(1-4) d(1) h2(1) h2xy s4(1) s4xy
    by (simp add: rb_node_at_def rb_update_def h1_def [symmetric]) (simp add: h1_def h3_def h6_def)
  moreover have "at m A (s4\<lparr>rb_nodes := h6\<rparr>) C (Nd cy (Nd cx a x kx b) y ky c)"
  proof (rule atI [OF at])
    have h6: "h6 z = h2 z" if "z \<noteq> x" "z \<noteq> y" "z \<notin> path_addrs C" for z using that s4(3) by (simp add: h6_def h3_def)
    have ac: "h6 z = ?h z" if "z \<in> addrs a \<union> addrs c" for z
    proof -
      have "z \<noteq> x" "z \<noteq> y" "z \<notin> path_addrs C" "z \<notin> addrs b" using that d by auto
      then show ?thesis using h6 old by simp
    qed
    have bb: "h6 z = h2 z" if "z \<in> addrs b" for z
    proof -
      have "z \<noteq> x" "z \<noteq> y" "z \<notin> path_addrs C" using that d by auto
      then show ?thesis using h6 by simp
    qed
    have "rep h6 x a" "rep h6 y c" using p(5,7) ac rep_cong [of a h6 ?h] rep_cong [of c h6 ?h] by blast+
    moreover have "rep h6 x b" using h2(2) bb rep_cong [of b h6 h2] by blast
    ultimately show "rep (rb_nodes (s4\<lparr>rb_nodes := h6\<rparr>)) (up C) (Nd cy (Nd cx a x kx b) y ky c)"
      using p(1,2) d(1) by (simp add: h6_def)
    show "rep_path (rb_root (s4\<lparr>rb_nodes := h6\<rparr>)) (rb_nodes (s4\<lparr>rb_nodes := h6\<rparr>)) (ptr (Nd cy (Nd cx a x kx b) y ky c)) C"
      using s4(2) d(10,11) by (simp add: h6_def)
    show "rb_nodes (s4\<lparr>rb_nodes := h6\<rparr>) z = ?h z"
      if "z \<notin> addrs (Nd cx a x kx (Nd cy b y ky c))" "z \<notin> path_addrs C" for z
      using that h6 old by simp
  qed simp
  ultimately show ?thesis by blast
qed

lemma rotate_right_at:
  assumes at: "at m A s C (Nd cy (Nd cx a x kx b) y ky c)"
  shows "\<exists>s'. rb_rotate_right s y = Some s' \<and> at m A s' C (Nd cx a x kx (Nd cy b y ky c))"
proof -
  let ?h = "rb_nodes s"
  have p: "y \<noteq> NULL" "x \<noteq> NULL" "?h y = Some \<lparr>rb_color = cy, rb_parent = up C, rb_left = x, rb_right = ptr c, rb_key = ky\<rparr>"
      "?h x = Some \<lparr>rb_color = cx, rb_parent = y, rb_left = ptr a, rb_right = ptr b, rb_key = kx\<rparr>"
      "rep ?h x a" "rep ?h x b" "rep ?h y c" "rep_path (rb_root s) ?h y C"
    using at by (simp_all add: at_def)
  have d: "x \<noteq> y" "x \<notin> addrs a" "x \<notin> addrs b" "x \<notin> addrs c" "y \<notin> addrs a" "y \<notin> addrs b" "y \<notin> addrs c" "addrs a \<inter> addrs b = {}"
      "addrs b \<inter> addrs c = {}" "x \<notin> path_addrs C" "y \<notin> path_addrs C" "addrs a \<inter> path_addrs C = {}" "addrs b \<inter> path_addrs C = {}"
      "addrs c \<inter> path_addrs C = {}" "apart b" "apart_path C"
    using at by (auto simp: at_def)
  define h1 where "h1 = ?h(y \<mapsto> \<lparr>rb_color = cy, rb_parent = up C, rb_left = ptr b, rb_right = ptr c, rb_key = ky\<rparr>)"
  have "rep (rb_nodes (s\<lparr>rb_nodes := h1\<rparr>)) x b" using p(6) d(6) by (simp add: h1_def)
  then obtain h2 where h2: "rb_set_parent (s\<lparr>rb_nodes := h1\<rparr>) (ptr b) y = Some (s\<lparr>rb_nodes := h2\<rparr>)" "rep h2 y b"
      "\<And>z. z \<notin> addrs b \<Longrightarrow> h2 z = h1 z"
    by (rule set_parent_rep [OF _ d(15), of _ _ y]) simp
  define h3 where "h3 = h2(x \<mapsto> \<lparr>rb_color = cx, rb_parent = up C, rb_left = ptr a, rb_right = ptr b, rb_key = kx\<rparr>)"
  have h2xy: "h2 y = h1 y" "h2 x = ?h x" using h2(3) d(1,3,6) by (simp_all add: h1_def)
  have old: "h2 z = ?h z" if "z \<notin> addrs b" "z \<noteq> y" for z using that h2(3) by (simp add: h1_def)
  have "h3 z = ?h z" if "z \<in> path_addrs C" for z
  proof -
    have "z \<notin> addrs b" "z \<noteq> x" "z \<noteq> y" using that d(10,11,13) by auto
    then show ?thesis using old by (simp add: h3_def)
  qed
  then have "rep_path (rb_root s) h3 y C" using p(8) rep_path_cong [of C h3 ?h] by blast
  moreover have "rb_node_at (s\<lparr>rb_nodes := h3\<rparr>) y = Some \<lparr>rb_color = cy, rb_parent = up C, rb_left = ptr b, rb_right = ptr c, rb_key = ky\<rparr>"
    using p(1) d(1) h2xy(1) by (simp add: rb_node_at_def h3_def h1_def)
  ultimately obtain s4 where s4: "rb_replace_child (s\<lparr>rb_nodes := h3\<rparr>) y x = Some s4" "rep_path (rb_root s4) (rb_nodes s4) x C"
      "\<And>z. z \<notin> path_addrs C \<Longrightarrow> rb_nodes s4 z = h3 z"
    using d(11,16) by (elim replace_child_path [where C = C and y = x]) simp_all
  have s4xy: "rb_nodes s4 y = h1 y" "rb_nodes s4 x = h3 x" using s4(3) d(1,10,11) h2xy by (simp_all add: h3_def)
  define h6 where "h6 = (rb_nodes s4)(x \<mapsto> \<lparr>rb_color = cx, rb_parent = up C, rb_left = ptr a, rb_right = y, rb_key = kx\<rparr>,
    y \<mapsto> \<lparr>rb_color = cy, rb_parent = x, rb_left = ptr b, rb_right = ptr c, rb_key = ky\<rparr>)"
  have "rb_rotate_right s y = Some (s4\<lparr>rb_nodes := h6\<rparr>)"
    unfolding rb_rotate_right_def
    using p(1-4) d(1) h2(1) h2xy s4(1) s4xy
    by (simp add: rb_node_at_def rb_update_def h1_def [symmetric]) (simp add: h1_def h3_def h6_def)
  moreover have "at m A (s4\<lparr>rb_nodes := h6\<rparr>) C (Nd cx a x kx (Nd cy b y ky c))"
  proof (rule atI [OF at])
    have h6: "h6 z = h2 z" if "z \<noteq> x" "z \<noteq> y" "z \<notin> path_addrs C" for z using that s4(3) by (simp add: h6_def h3_def)
    have ac: "h6 z = ?h z" if "z \<in> addrs a \<union> addrs c" for z
    proof -
      have "z \<noteq> x" "z \<noteq> y" "z \<notin> path_addrs C" "z \<notin> addrs b" using that d by auto
      then show ?thesis using h6 old by simp
    qed
    have bb: "h6 z = h2 z" if "z \<in> addrs b" for z
    proof -
      have "z \<noteq> x" "z \<noteq> y" "z \<notin> path_addrs C" using that d by auto
      then show ?thesis using h6 by simp
    qed
    have "rep h6 x a" "rep h6 y c" using p(5,7) ac rep_cong [of a h6 ?h] rep_cong [of c h6 ?h] by blast+
    moreover have "rep h6 y b" using h2(2) bb rep_cong [of b h6 h2] by blast
    ultimately show "rep (rb_nodes (s4\<lparr>rb_nodes := h6\<rparr>)) (up C) (Nd cx a x kx (Nd cy b y ky c))"
      using p(1,2) d(1) by (simp add: h6_def)
    show "rep_path (rb_root (s4\<lparr>rb_nodes := h6\<rparr>)) (rb_nodes (s4\<lparr>rb_nodes := h6\<rparr>)) (ptr (Nd cx a x kx (Nd cy b y ky c))) C"
      using s4(2) d(10,11) by (simp add: h6_def)
    show "rb_nodes (s4\<lparr>rb_nodes := h6\<rparr>) z = ?h z"
      if "z \<notin> addrs (Nd cy (Nd cx a x kx b) y ky c)" "z \<notin> path_addrs C" for z
      using that h6 old by simp
  qed simp
  ultimately show ?thesis by blast
qed

subsection \<open>Colours\<close>

lemma set_col_at:
  assumes "at m A s C (Nd c l a k r)"
  shows "\<exists>s'. rb_update s a (\<lambda>n. n\<lparr>rb_color := c'\<rparr>) = Some s' \<and> at m A s' C (Nd c' l a k r) \<and> rb_root s' = rb_root s"
proof -
  let ?h = "(rb_nodes s)(a \<mapsto> \<lparr>rb_color = c', rb_parent = up C, rb_left = ptr l, rb_right = ptr r, rb_key = k\<rparr>)"
  have "rb_update s a (\<lambda>n. n\<lparr>rb_color := c'\<rparr>) = Some (s\<lparr>rb_nodes := ?h\<rparr>)"
    using at_node [OF assms] by (simp add: rb_update_def)
  moreover have "at m A (s\<lparr>rb_nodes := ?h\<rparr>) C (Nd c' l a k r)"
    by (rule atI [OF assms]) (use assms in \<open>auto simp: at_def\<close>)
  ultimately show ?thesis by simp
qed

lemma set_red_at: "at m A s C (Nd c l a k r) \<Longrightarrow> \<exists>s'. rb_set_red s a = Some s' \<and> at m A s' C (Nd RB_RED l a k r) \<and> rb_root s' = rb_root s"
  using set_col_at [of m A s C c l a k r RB_RED] at_node(1) by (auto simp: rb_set_red_def)

lemma set_black_at: "at m A s C t \<Longrightarrow> \<exists>s'. rb_set_black s (ptr t) = Some s' \<and> at m A s' C (blacken t) \<and> rb_root s' = rb_root s"
  using set_col_at [of m A s C] at_node(1) by (cases t) (auto simp: rb_set_black_def)

end
