(* ===== verification/Rbtree_ops.thy ===== *)
theory Rbtree_ops
  imports Rbtree_heap
begin

text \<open>
  The operations of \<^verbatim>\<open>kernel/rbtree.c\<close> on a tree in memory: insertion and removal with their repair loops, and the
  searches.  Each returns, and leaves in memory what the functions of \<open>Rbtree_zip\<close> compute.
\<close>

lemma at_left: "at m A s (On_left c a k r # C) t \<longleftrightarrow> at m A s C (Nd c t a k r)" and
  at_right: "at m A s (On_right c l a k # C) t \<longleftrightarrow> at m A s C (Nd c l a k t)"
  by (simp_all add: at_up)

lemmas at_focus = at_left at_right

subsection \<open>Repair after an insertion\<close>

lemma set_black_left:
  assumes "at m A s C (Nd c t a k r)"
  shows "\<exists>s'. rb_set_black s (ptr t) = Some s' \<and> at m A s' C (Nd c (blacken t) a k r)"
  using set_black_at [of m A s "On_left c a k r # C" t] assms by (auto simp: at_focus)

lemma set_black_right:
  assumes "at m A s C (Nd c l a k t)"
  shows "\<exists>s'. rb_set_black s (ptr t) = Some s' \<and> at m A s' C (Nd c l a k (blacken t))"
  using set_black_at [of m A s "On_right c l a k # C" t] assms by (auto simp: at_focus)

lemma red_left: "at m A s C (Nd c t a k r) \<Longrightarrow> rb_is_red s (ptr t) = Some (col t = RB_RED)" and
  red_right: "at m A s C (Nd c l a k t) \<Longrightarrow> rb_is_red s (ptr t) = Some (col t = RB_RED)" and
  black_left: "at m A s C (Nd c t a k r) \<Longrightarrow> rb_is_black s (ptr t) = Some (col t = RB_BLACK)" and
  black_right: "at m A s C (Nd c l a k t) \<Longrightarrow> rb_is_black s (ptr t) = Some (col t = RB_BLACK)"
  using at_red [of m A s "On_left c a k r # C" t] at_red [of m A s "On_right c l a k # C" t]
    at_black [of m A s "On_left c a k r # C" t] at_black [of m A s "On_right c l a k # C" t] by (simp_all add: at_focus)

text \<open>Recolouring: the subtree \<open>q\<close> of the parent and the uncle turn black, the grandparent red.\<close>

lemma recolour_at:
  assumes "at m A s C (Nd c l a k r)"
  shows "\<exists>s1 s2 s3. rb_set_black s (ptr l) = Some s1 \<and> rb_set_black s1 (ptr r) = Some s2 \<and> rb_set_red s2 a = Some s3 \<and>
      at m A s3 C (Nd RB_RED (blacken l) a k (blacken r))"
    and "\<exists>s1 s2 s3. rb_set_black s (ptr r) = Some s1 \<and> rb_set_black s1 (ptr l) = Some s2 \<and> rb_set_red s2 a = Some s3 \<and>
      at m A s3 C (Nd RB_RED (blacken l) a k (blacken r))"
proof -
  obtain s1 where s1: "rb_set_black s (ptr l) = Some s1" "at m A s1 C (Nd c (blacken l) a k r)" using set_black_left [OF assms] by blast
  obtain s2 where s2: "rb_set_black s1 (ptr r) = Some s2" "at m A s2 C (Nd c (blacken l) a k (blacken r))"
    using set_black_right [OF s1(2)] by blast
  show "\<exists>s1 s2 s3. rb_set_black s (ptr l) = Some s1 \<and> rb_set_black s1 (ptr r) = Some s2 \<and> rb_set_red s2 a = Some s3 \<and>
      at m A s3 C (Nd RB_RED (blacken l) a k (blacken r))"
    using s1(1) s2(1) set_red_at [OF s2(2)] by blast
  obtain s1 where s1: "rb_set_black s (ptr r) = Some s1" "at m A s1 C (Nd c l a k (blacken r))" using set_black_right [OF assms] by blast
  obtain s2 where s2: "rb_set_black s1 (ptr l) = Some s2" "at m A s2 C (Nd c (blacken l) a k (blacken r))"
    using set_black_left [OF s1(2)] by blast
  show "\<exists>s1 s2 s3. rb_set_black s (ptr r) = Some s1 \<and> rb_set_black s1 (ptr l) = Some s2 \<and> rb_set_red s2 a = Some s3 \<and>
      at m A s3 C (Nd RB_RED (blacken l) a k (blacken r))"
    using s1(1) s2(1) set_red_at [OF s2(2)] by blast
qed

text \<open>The last rotation of a round: the parent turns black, the grandparent red and goes down.\<close>

lemma finish_right:
  assumes "at m A s C (Nd gc (Nd pc x p pk y) g gk u)"
  shows "\<exists>s1 s2 s3. rb_set_black s p = Some s1 \<and> rb_set_red s1 g = Some s2 \<and> rb_rotate_right s2 g = Some s3 \<and>
    at m A s3 C (Nd RB_BLACK x p pk (Nd RB_RED y g gk u))"
proof -
  obtain s1 where s1: "rb_set_black s p = Some s1" "at m A s1 C (Nd gc (Nd RB_BLACK x p pk y) g gk u)"
    using set_black_left [OF assms] by auto
  obtain s2 where s2: "rb_set_red s1 g = Some s2" "at m A s2 C (Nd RB_RED (Nd RB_BLACK x p pk y) g gk u)" using set_red_at [OF s1(2)] by blast
  show ?thesis using s1(1) s2(1) rotate_right_at [OF s2(2)] by blast
qed

lemma finish_left:
  assumes "at m A s C (Nd gc u g gk (Nd pc x p pk y))"
  shows "\<exists>s1 s2 s3. rb_set_black s p = Some s1 \<and> rb_set_red s1 g = Some s2 \<and> rb_rotate_left s2 g = Some s3 \<and>
    at m A s3 C (Nd RB_BLACK (Nd RB_RED u g gk x) p pk y)"
proof -
  obtain s1 where s1: "rb_set_black s p = Some s1" "at m A s1 C (Nd gc u g gk (Nd RB_BLACK x p pk y))"
    using set_black_right [OF assms] by auto
  obtain s2 where s2: "rb_set_red s1 g = Some s2" "at m A s2 C (Nd RB_RED u g gk (Nd RB_BLACK x p pk y))" using set_red_at [OF s1(2)] by blast
  show ?thesis using s1(1) s2(1) rotate_left_at [OF s2(2)] by blast
qed

text \<open>After a round that ends with rotations the parent of the node is black.\<close>

definition settled :: "(addr \<rightharpoonup> rb_node) \<Rightarrow> addr set \<Rightarrow> rb_tree \<Rightarrow> frame list \<Rightarrow> tree \<Rightarrow> addr \<Rightarrow> bool" where
  "settled m A s C t a \<longleftrightarrow> (\<exists>h u. at m A s (h # C) u \<and> fill h u = t \<and> frame_col h = RB_BLACK \<and> u \<noteq> Lf \<and> ptr u = a)"

lemma settledI:
  "at m A s C (Nd RB_BLACK u a k r) \<Longrightarrow> u \<noteq> Lf \<Longrightarrow> settled m A s C (Nd RB_BLACK u a k r) (ptr u)"
  "at m A s C (Nd RB_BLACK l a k u) \<Longrightarrow> u \<noteq> Lf \<Longrightarrow> settled m A s C (Nd RB_BLACK l a k u) (ptr u)"
  unfolding settled_def
  by (rule exI [of _ "On_left RB_BLACK a k r"], rule exI [of _ u], simp add: at_focus)
    (rule exI [of _ "On_right RB_BLACK l a k"], rule exI [of _ u], simp add: at_focus)

lemma insert_left_at:
  assumes at: "at m A s (f # On_left gc g gk u # C) t" and t: "t = Nd RB_RED x a k y" and red: "frame_col f = RB_RED"
  defines "q \<equiv> fill f t"
  shows "col u = RB_RED \<Longrightarrow> \<exists>s'. insert_left_case s a (ptr q) g = Some (s', Some g) \<and> at m A s' C (Nd RB_RED (blacken q) g gk (blacken u))"
    and "col u = RB_BLACK \<Longrightarrow> \<exists>s' n. insert_left_case s a (ptr q) g = Some (s', Some n) \<and> settled m A s' C (rotate_in f (On_left gc g gk u) t) n"
proof -
  have at': "at m A s C (Nd gc q g gk u)" using at by (simp add: at_up q_def)
  note n = at_node(2) [OF at'] red_right [OF at']
  show "\<exists>s'. insert_left_case s a (ptr q) g = Some (s', Some g) \<and> at m A s' C (Nd RB_RED (blacken q) g gk (blacken u))" if "col u = RB_RED"
    using recolour_at(1) [OF at'] n that by (auto simp: insert_left_case_def)
  assume u: "col u = RB_BLACK"
  show "\<exists>s' n. insert_left_case s a (ptr q) g = Some (s', Some n) \<and> settled m A s' C (rotate_in f (On_left gc g gk u) t) n"
  proof (cases f)
    case (On_left pc p pk r)
    have q: "q = Nd pc t p pk r" by (simp add: q_def On_left)
    have np: "rb_node_at s p = Some \<lparr>rb_color = pc, rb_parent = g, rb_left = a, rb_right = ptr r, rb_key = pk\<rparr>"
      using at at_node(2) [of m A s "On_left gc g gk u # C" pc t p pk r] t by (simp add: at_focus On_left)
    have "a \<noteq> ptr r" using at t On_left by (cases r) (auto simp: at_def)
    then show ?thesis
      using finish_right [OF at' [unfolded q]] n u q np settledI(1) [of m A _ C t] t On_left
      by (fastforce simp: insert_left_case_def)
  next
    case (On_right pc l p pk)
    have q: "q = Nd pc l p pk (Nd RB_RED x a k y)" by (simp add: q_def On_right t)
    have "at m A s (On_left gc g gk u # C) (Nd pc l p pk (Nd RB_RED x a k y))" using at' by (simp add: at_focus q)
    then obtain s1 where s1: "rb_rotate_left s p = Some s1" "at m A s1 (On_left gc g gk u # C) (Nd RB_RED (Nd pc l p pk x) a k y)"
      using rotate_left_at by blast
    have np: "rb_node_at s p = Some \<lparr>rb_color = pc, rb_parent = g, rb_left = ptr l, rb_right = a, rb_key = pk\<rparr>"
      using at at_node(2) [of m A s "On_left gc g gk u # C" pc l p pk t] t by (simp add: at_focus On_right)
    have np1: "rb_node_at s1 p = Some \<lparr>rb_color = pc, rb_parent = a, rb_left = ptr l, rb_right = ptr x, rb_key = pk\<rparr>"
      using s1(2) at_node(2) [of m A s1 "On_left RB_RED a k y # On_left gc g gk u # C" pc l p pk x] by (simp add: at_focus)
    have "at m A s1 C (Nd gc (Nd RB_RED (Nd pc l p pk x) a k y) g gk u)" using s1(2) by (simp add: at_focus)
    then show ?thesis
      using finish_right [of m A s1 C gc RB_RED "Nd pc l p pk x" a k y g gk u] n u q np s1(1) np1
        settledI(1) [of m A _ C "Nd pc l p pk x"] t On_right red
      by (fastforce simp: insert_left_case_def)
  qed
qed

lemma insert_right_at:
  assumes at: "at m A s (f # On_right gc u g gk # C) t" and t: "t = Nd RB_RED x a k y" and red: "frame_col f = RB_RED"
  defines "q \<equiv> fill f t"
  shows "col u = RB_RED \<Longrightarrow> \<exists>s'. insert_right_case s a (ptr q) g = Some (s', Some g) \<and> at m A s' C (Nd RB_RED (blacken u) g gk (blacken q))"
    and "col u = RB_BLACK \<Longrightarrow> \<exists>s' n. insert_right_case s a (ptr q) g = Some (s', Some n) \<and> settled m A s' C (rotate_in f (On_right gc u g gk) t) n"
proof -
  have at': "at m A s C (Nd gc u g gk q)" using at by (simp add: at_up q_def)
  note n = at_node(2) [OF at'] red_left [OF at']
  show "\<exists>s'. insert_right_case s a (ptr q) g = Some (s', Some g) \<and> at m A s' C (Nd RB_RED (blacken u) g gk (blacken q))" if "col u = RB_RED"
    using recolour_at(2) [OF at'] n that by (auto simp: insert_right_case_def)
  assume u: "col u = RB_BLACK"
  show "\<exists>s' n. insert_right_case s a (ptr q) g = Some (s', Some n) \<and> settled m A s' C (rotate_in f (On_right gc u g gk) t) n"
  proof (cases f)
    case (On_right pc l p pk)
    have q: "q = Nd pc l p pk t" by (simp add: q_def On_right)
    have np: "rb_node_at s p = Some \<lparr>rb_color = pc, rb_parent = g, rb_left = ptr l, rb_right = a, rb_key = pk\<rparr>"
      using at at_node(2) [of m A s "On_right gc u g gk # C" pc l p pk t] t by (simp add: at_focus On_right)
    have "a \<noteq> ptr l" using at t On_right by (cases l) (auto simp: at_def)
    then show ?thesis
      using finish_left [OF at' [unfolded q]] n u q np settledI(2) [of m A _ C _ _ _ t] t On_right
      by (fastforce simp: insert_right_case_def)
  next
    case (On_left pc p pk r)
    have q: "q = Nd pc (Nd RB_RED x a k y) p pk r" by (simp add: q_def On_left t)
    have "at m A s (On_right gc u g gk # C) (Nd pc (Nd RB_RED x a k y) p pk r)" using at' by (simp add: at_focus q)
    then obtain s1 where s1: "rb_rotate_right s p = Some s1" "at m A s1 (On_right gc u g gk # C) (Nd RB_RED x a k (Nd pc y p pk r))"
      using rotate_right_at by blast
    have np: "rb_node_at s p = Some \<lparr>rb_color = pc, rb_parent = g, rb_left = a, rb_right = ptr r, rb_key = pk\<rparr>"
      using at at_node(2) [of m A s "On_right gc u g gk # C" pc t p pk r] t by (simp add: at_focus On_left)
    have np1: "rb_node_at s1 p = Some \<lparr>rb_color = pc, rb_parent = a, rb_left = ptr y, rb_right = ptr r, rb_key = pk\<rparr>"
      using s1(2) at_node(2) [of m A s1 "On_right RB_RED x a k # On_right gc u g gk # C" pc y p pk r] by (simp add: at_focus)
    have "at m A s1 C (Nd gc u g gk (Nd RB_RED x a k (Nd pc y p pk r)))" using s1(2) by (simp add: at_focus)
    then show ?thesis
      using finish_left [of m A s1 C gc u g gk RB_RED x a k "Nd pc y p pk r"] n u q np s1(1) np1
        settledI(2) [of m A _ C _ _ _ "Nd pc y p pk r"] t On_left red
      by (fastforce simp: insert_right_case_def)
  qed
qed

text \<open>One round of the loop, and the whole loop.\<close>

lemma insert_step_stop:
  assumes "at m A s C t" and "t \<noteq> Lf" and "C = [] \<or> frame_col (hd C) = RB_BLACK \<or> length C = 1"
  shows "insert_fixup_step s (ptr t) = Some (s, None)"
proof -
  obtain c l a k r where t: "t = Nd c l a k r" using assms(2) by (cases t) auto
  show ?thesis
  proof (cases C)
    case Nil
    then show ?thesis using assms(1) at_node(2) [of m A s C c l a k r] by (simp add: t insert_fixup_step_def rb_is_red_def)
  next
    case (Cons f D)
    have par: "ptr (fill f t) = up C" by (cases f) (simp_all add: Cons)
    have red: "rb_is_red s (up C) = Some (frame_col f = RB_RED)" and np: "rb_node_at s (up C) = Some n \<Longrightarrow> rb_parent n = up D" for n
      using assms(1) at_red [of m A s D "fill f t"] at_node(2) [of m A s D] par by (auto simp: Cons at_up) (cases f; auto)
    then obtain n where "rb_node_at s (up C) = Some n" "rb_parent n = up D"
      using assms(1) at_node(2) [of m A s D] by (cases f) (auto simp: Cons at_up)
    then show ?thesis
      using assms(1,3) at_node(2) [of m A s C c l a k r] red by (auto simp: t insert_fixup_step_def Cons Let_def)
  qed
qed

lemma insert_step_go:
  assumes "at m A s (f # g # C) t" and "t = Nd RB_RED x a k y" and "frame_col f = RB_RED"
  shows "insert_fixup_step s a = (case g of On_left gc ga gk u \<Rightarrow> insert_left_case s a (ptr (fill f t)) ga
    | On_right gc u ga gk \<Rightarrow> insert_right_case s a (ptr (fill f t)) ga)"
proof -
  have at2: "at m A s (g # C) (fill f t)" and at3: "at m A s C (fill g (fill f t))" using assms(1) by (simp_all add: at_up)
  have n: "rb_node_at s a = Some \<lparr>rb_color = RB_RED, rb_parent = ptr (fill f t), rb_left = ptr x, rb_right = ptr y, rb_key = k\<rparr>"
    using at_node(2) [OF assms(1) [unfolded assms(2)]] by (cases f) simp_all
  have red: "rb_is_red s (ptr (fill f t)) = Some True" using at_red [OF at2] assms(3) by simp
  obtain np where np: "rb_node_at s (ptr (fill f t)) = Some np" "rb_parent np = ptr (fill g (fill f t))"
    using at2 at_node(2) [of m A s "g # C"] by (cases f; cases g) fastforce+
  have g0: "ptr (fill g (fill f t)) \<noteq> NULL" using at3 by (cases g) (auto dest: at_node(1))
  show ?thesis
  proof (cases g)
    case (On_left gc ga gk u)
    then show ?thesis using n red np g0 at_node(2) [of m A s C gc "fill f t" ga gk u] at3 by (simp add: insert_fixup_step_def)
  next
    case (On_right gc u ga gk)
    have "ptr (fill f t) \<noteq> ptr u" using at3 On_right by (cases u; cases f) (auto simp: at_def)
    then show ?thesis
      using On_right n red np g0 at_node(2) [of m A s C gc u ga gk "fill f t"] at3 by (simp add: insert_fixup_step_def)
  qed
qed

lemma at_plug: "at m A s C t \<longleftrightarrow> at m A s [] (plug C t)"
  by (induction C arbitrary: t) (simp_all add: at_up)

lemma at_root: "at m A s [] t \<Longrightarrow> rb_root s = ptr t"
  by (simp add: at_def)

lemma blacken_root:
  assumes "at m A s C t"
  shows "\<exists>s'. rb_set_black s (rb_root s) = Some s' \<and> at m A s' [] (blacken (plug C t))"
  using assms set_black_at [of m A s "[]" "plug C t"] at_root [of m A s "plug C t"] by (auto simp: at_plug [of m A s C])

lemma insert_fixup_stop:
  assumes "at m A s C t" and "t \<noteq> Lf" and "C = [] \<or> frame_col (hd C) = RB_BLACK \<or> length C = 1"
  shows "\<exists>s'. rb_insert_fixup s (ptr t) = Some s' \<and> at m A s' [] (blacken (plug C t))"
  using insert_step_stop [OF assms] blacken_root [OF assms(1)] by (subst rb_insert_fixup.simps) simp

lemma insert_fixup_at:
  "at m A s C t \<Longrightarrow> col t = RB_RED \<Longrightarrow> \<exists>s'. rb_insert_fixup s (ptr t) = Some s' \<and> at m A s' [] (blacken (insert_repair C t))"
proof (induction C t arbitrary: s rule: insert_repair.induct [case_names deep empty single])
  case (deep f g C t)
  have nl: "t \<noteq> Lf" using deep(3) by auto
  show ?case
  proof (cases "frame_col f = RB_RED")
    case red: True
    obtain x a k y where t: "t = Nd RB_RED x a k y" using deep(3) by (cases t) auto
    note go = insert_step_go [OF deep(2) t red]
    show ?thesis
    proof (cases "col (sibling g) = RB_RED")
      case True
      obtain s' where s': "insert_fixup_step s a = Some (s', Some (ptr (recolour g (fill (set_black f) t))))"
          "at m A s' C (recolour g (fill (set_black f) t))"
      proof (cases g)
        case (On_left gc ga gk u)
        have "blacken (fill f t) = fill (set_black f) t" by (cases f) simp_all
        then show ?thesis using that go insert_left_at(1) [OF deep(2) [unfolded On_left] t red] True by (auto simp: On_left)
      next
        case (On_right gc u ga gk)
        have "blacken (fill f t) = fill (set_black f) t" by (cases f) simp_all
        then show ?thesis using that go insert_right_at(1) [OF deep(2) [unfolded On_right] t red] True by (auto simp: On_right)
      qed
      have "col (recolour g (fill (set_black f) t)) = RB_RED" by (cases g) simp_all
      then obtain s'' where "rb_insert_fixup s' (ptr (recolour g (fill (set_black f) t))) = Some s''"
          "at m A s'' [] (blacken (insert_repair C (recolour g (fill (set_black f) t))))"
        using deep(1) [OF red True s'(2)] by blast
      then show ?thesis using s'(1) t red True by (subst rb_insert_fixup.simps) simp
    next
      case False
      obtain s' n where s': "insert_fixup_step s a = Some (s', Some n)" "settled m A s' C (rotate_in f g t) n"
      proof (cases g)
        case (On_left gc ga gk u)
        then show ?thesis using that go insert_left_at(2) [OF deep(2) [unfolded On_left] t red] False by auto
      next
        case (On_right gc u ga gk)
        then show ?thesis using that go insert_right_at(2) [OF deep(2) [unfolded On_right] t red] False by auto
      qed
      then obtain h u where hu: "at m A s' (h # C) u" "fill h u = rotate_in f g t" "frame_col h = RB_BLACK" "u \<noteq> Lf" "ptr u = n"
        by (auto simp: settled_def)
      then obtain s'' where "rb_insert_fixup s' n = Some s''" "at m A s'' [] (blacken (plug C (rotate_in f g t)))"
        using insert_fixup_stop [OF hu(1,4)] by auto
      then show ?thesis using s'(1) t red False by (subst rb_insert_fixup.simps) simp
    qed
  next
    case False
    then show ?thesis using insert_fixup_stop [OF deep(2) nl] by simp
  qed
next
  case (empty t)
  then show ?case using insert_fixup_stop [of m A s "[]" t] red_not_Lf by auto
next
  case (single f t)
  then show ?case using insert_fixup_stop [of m A s "[f]" t] red_not_Lf by auto
qed

subsection \<open>Insertion\<close>

fun link_of :: "frame list \<Rightarrow> rb_link" where
  "link_of [] = Root_link"
| "link_of (On_left c a k r # C) = Left_link a"
| "link_of (On_right c l a k # C) = Right_link a"

lemma read_link_at: "at m A s C t \<Longrightarrow> read_link s (link_of C) = Some (ptr t)"
  by (cases C rule: up.cases) (auto simp: at_def rb_node_at_def)

lemma descend_at:
  assumes "at m A s C t" and "rb_node_at s a = Some n" "rb_key n = k"
  shows "insert_descend s a (up C) (link_of C) = Some (up (descend (k, a) C t), link_of (descend (k, a) C t))"
  using assms(1)
proof (induction t arbitrary: C)
  case Lf
  then show ?case using read_link_at [OF Lf] by (subst insert_descend.simps) simp
next
  case (Nd c l b j r)
  have ps: "at m A s (On_left c b j r # C) l" "at m A s (On_right c l b j # C) r" using Nd.prems by (simp_all add: at_focus)
  have IH: "insert_descend s a b (Left_link b) = Some (up (descend (k, a) (On_left c b j r # C) l), link_of (descend (k, a) (On_left c b j r # C) l))"
      "insert_descend s a b (Right_link b) = Some (up (descend (k, a) (On_right c l b j # C) r), link_of (descend (k, a) (On_right c l b j # C) r))"
    using Nd.IH(1) [OF ps(1)] Nd.IH(2) [OF ps(2)] by simp_all
  have eq: "insert_descend s a (up C) (link_of C) = (if k < j then insert_descend s a b (Left_link b)
      else if j < k then insert_descend s a b (Right_link b)
      else if a < b then insert_descend s a b (Left_link b) else insert_descend s a b (Right_link b))"
    using read_link_at [OF Nd.prems] at_node [OF Nd.prems] assms(2,3) by (subst insert_descend.simps) simp
  have less: "(k, a) < (j, b) \<longleftrightarrow> k < j \<or> \<not> j < k \<and> a < b" by (auto simp: not_less)
  show ?case unfolding eq IH by (simp add: less del: less_prod_simp)
qed

lemma write_link_at:
  assumes "at m A s C Lf" and "a \<notin> path_addrs C" "a \<in> A" "a \<noteq> NULL"
    and "rb_nodes s a = Some \<lparr>rb_color = RB_RED, rb_parent = up C, rb_left = NULL, rb_right = NULL, rb_key = k\<rparr>"
  shows "\<exists>s'. write_link s (link_of C) a = Some s' \<and> at m A s' C (Nd RB_RED Lf a k Lf)"
proof (cases C rule: up.cases)
  case 1
  then show ?thesis using assms by (auto simp: at_def)
next
  case (2 c p j r D)
  then show ?thesis using assms by (auto simp: at_def rb_update_def rb_node_at_def)
next
  case (3 c l p j D)
  then show ?thesis using assms by (auto simp: at_def rb_update_def rb_node_at_def)
qed

lemma at_write:
  assumes "at m A s C t" and "a \<notin> addrs t" "a \<notin> path_addrs C" "a \<in> A"
  shows "at m A (s\<lparr>rb_nodes := (rb_nodes s)(a := v)\<rparr>) C t"
  using assms by (auto simp: at_def)

lemma path_addrs_descend: "path_addrs (descend x C t) = path_addrs C \<union> addrs t"
  by (induction t arbitrary: C) auto

lemma rb_insert_at:
  assumes "at m A s [] t" and "a \<notin> addrs t" "a \<in> A" "a \<noteq> NULL" and "rb_nodes s a = Some n" "rb_key n = k"
  shows "\<exists>s'. rb_insert s a = Some s' \<and> at m A s' [] (insert_tree k a t)"
proof -
  let ?C = "descend (k, a) [] t"
  let ?n = "\<lparr>rb_color = RB_RED, rb_parent = up ?C, rb_left = NULL, rb_right = NULL, rb_key = k\<rparr>"
  let ?s1 = "s\<lparr>rb_nodes := (rb_nodes s)(a \<mapsto> ?n)\<rparr>"
  have node: "rb_node_at s a = Some n" using assms(4,5) by (simp add: rb_node_at_def)
  have d: "insert_descend s a NULL Root_link = Some (up ?C, link_of ?C)"
    using descend_at [OF assms(1) node assms(6)] by simp
  have u: "rb_update s a (\<lambda>n. n\<lparr>rb_parent := up ?C, rb_left := NULL, rb_right := NULL, rb_color := RB_RED\<rparr>) = Some ?s1"
    using node assms(6) by (cases n) (simp add: rb_update_def)
  have out: "a \<notin> path_addrs ?C" using assms(2) by (simp add: path_addrs_descend)
  have "at m A s ?C Lf" using assms(1) by (simp add: at_plug [of m A s ?C] plug_descend)
  then have "at m A ?s1 ?C Lf" using at_write [of m A s ?C Lf a] out assms(3) by simp
  then obtain s2 where s2: "write_link ?s1 (link_of ?C) a = Some s2" "at m A s2 ?C (Nd RB_RED Lf a k Lf)"
    using write_link_at [of m A ?s1 ?C a k] out assms(3,4) by auto
  then show ?thesis
    using insert_fixup_at [OF s2(2)] d u assms(4) by (simp add: rb_insert_def insert_tree_def)
qed

subsection \<open>Searching\<close>

lemma leftmost_at:
  assumes "at m A s C t" and "t \<noteq> Lf" and "dig C t = (D, t')"
  shows "rb_leftmost s (ptr t) = Some (ptr t') \<and> at m A s D t'"
  using assms
proof (induction C t rule: dig.induct)
  case (1 C c l a k r)
  note n = at_node [OF 1(2)]
  show ?case
  proof (cases "l = Lf")
    case True
    then show ?thesis using 1(2,4) n by (subst rb_leftmost.simps) auto
  next
    case False
    have l: "at m A s (On_left c a k r # C) l" using 1(2) by (simp add: at_focus)
    then have "rb_leftmost s (ptr l) = Some (ptr t') \<and> at m A s D t'" using 1(1) [OF False] False 1(4) by simp
    then show ?thesis using n False at_ptr [OF l] by (subst rb_leftmost.simps) simp
  qed
qed simp

lemma items_Nil [simp]: "items t = [] \<longleftrightarrow> t = Lf"
  by (cases t) simp_all

lemma dig_first: "dig C t = (D, t') \<Longrightarrow> t \<noteq> Lf \<Longrightarrow> ptr t' = snd (hd (items t))"
  by (induction C t rule: dig.induct) (auto split: if_splits simp: hd_append)

lemma rb_find_min_at:
  assumes "at m A s [] t"
  shows "rb_find_min s = Some (if t = Lf then NULL else snd (hd (items t)))"
proof (cases "t = Lf")
  case True
  then show ?thesis using at_root [OF assms] by (simp add: rb_find_min_def)
next
  case False
  obtain D t' where d: "dig [] t = (D, t')" by (cases "dig [] t")
  then show ?thesis
    using leftmost_at [OF assms False d] dig_first [OF d False] at_root [OF assms] at_ptr [OF assms] False by (simp add: rb_find_min_def)
qed

lemma find_from_at:
  assumes "at m A s C t" and "sorted_wrt (<) (items t)"
  shows "\<exists>a. find_from s (ptr t) key = Some a \<and>
    (if \<exists>b. (key, b) \<in> set (items t) then (key, a) \<in> set (items t) \<and> a \<noteq> NULL else a = NULL)"
  using assms
proof (induction t arbitrary: C)
  case Lf
  then show ?case by (subst find_from.simps) simp
next
  case (Nd c l b j r)
  have ps: "at m A s (On_left c b j r # C) l" "at m A s (On_right c l b j # C) r" using Nd.prems(1) by (simp_all add: at_focus)
  have so: "sorted_wrt (<) (items l)" "sorted_wrt (<) (items r)" "\<forall>u \<in> set (items l). u < (j, b)" "\<forall>u \<in> set (items r). (j, b) < u"
    using Nd.prems(2) by (auto simp: sorted_wrt_append)
  note n = at_node [OF Nd.prems(1)]
  consider "key < j" | "j < key" | "key = j" by (rule linorder_cases)
  then show ?case
  proof cases
    case 1
    then have "(key, x) \<in> set (items (Nd c l b j r)) \<longleftrightarrow> (key, x) \<in> set (items l)" for x using so(4) by fastforce
    moreover have "find_from s (ptr (Nd c l b j r)) key = find_from s (ptr l) key" using n 1 by (subst find_from.simps) simp
    ultimately show ?thesis using Nd.IH(1) [OF ps(1) so(1)] by presburger
  next
    case 2
    then have "(key, x) \<in> set (items (Nd c l b j r)) \<longleftrightarrow> (key, x) \<in> set (items r)" for x using so(3) by fastforce
    moreover have "find_from s (ptr (Nd c l b j r)) key = find_from s (ptr r) key" using n 2 order.asym [OF 2] by (subst find_from.simps) auto
    ultimately show ?thesis using Nd.IH(2) [OF ps(2) so(2)] by presburger
  next
    case 3
    then show ?thesis using n by (subst find_from.simps) auto
  qed
qed

lemma climb_at:
  "at m A s C t \<Longrightarrow> t \<noteq> Lf \<Longrightarrow> rb_climb s (ptr t) (up C) = Some (if items_after C = [] then NULL else snd (hd (items_after C)))"
proof (induction C arbitrary: t)
  case Nil
  then show ?case by (subst rb_climb.simps) simp
next
  case (Cons f C)
  show ?case
  proof (cases f)
    case (On_left c a k r)
    have at': "at m A s C (Nd c t a k r)" using Cons.prems(1) by (simp add: On_left at_focus)
    have "ptr t \<noteq> ptr r" using at' Cons.prems(2) by (cases t; cases r) (auto simp: at_def)
    then show ?thesis using at_node [OF at'] by (subst rb_climb.simps) (simp add: On_left)
  next
    case (On_right c l a k)
    have at': "at m A s C (Nd c l a k t)" using Cons.prems(1) by (simp add: On_right at_focus)
    then show ?thesis using at_node [OF at'] Cons.IH [OF at'] by (subst rb_climb.simps) (simp add: On_right)
  qed
qed

lemma rb_next_at:
  assumes "at m A s C (Nd c l a k r)"
  shows "rb_next s a = Some (if items r @ items_after C = [] then NULL else snd (hd (items r @ items_after C)))"
proof (cases "r = Lf")
  case True
  then show ?thesis using at_node [OF assms] climb_at [OF assms] by (simp add: rb_next_def)
next
  case False
  have r: "at m A s (On_right c l a k # C) r" using assms by (simp add: at_focus)
  obtain D t' where d: "dig (On_right c l a k # C) r = (D, t')" by (cases "dig (On_right c l a k # C) r")
  then show ?thesis
    using leftmost_at [OF r False d] dig_first [OF d False] at_node [OF assms] at_ptr [OF r] False by (simp add: rb_next_def)
qed

text \<open>Every item of a tree has a position.\<close>

lemma position:
  assumes "(k, a) \<in> set (items t)"
  obtains C c l r where "t = plug C (Nd c l a k r)"
  using assms
proof (induction t arbitrary: thesis)
  case (Nd c l b j r)
  consider "(k, a) = (j, b)" | "(k, a) \<in> set (items l)" | "(k, a) \<in> set (items r)" using Nd.prems(2) by auto
  then show ?case
  proof cases
    case 1
    then show ?thesis using Nd.prems(1) [of "[]" c l r] by simp
  next
    case 2
    obtain C c' l' r' where "l = plug C (Nd c' l' a k r')" using Nd.IH(1) [OF _ 2] by blast
    then show ?thesis using Nd.prems(1) [of "C @ [On_left c b j r]"] by (simp add: plug_append)
  next
    case 3
    obtain C c' l' r' where "r = plug C (Nd c' l' a k r')" using Nd.IH(2) [OF _ 3] by blast
    then show ?thesis using Nd.prems(1) [of "C @ [On_right c l b j]"] by (simp add: plug_append)
  qed
qed simp

end
