(* ===== verification/Rbtree_del.thy ===== *)
theory Rbtree_del
  imports Rbtree_ops
begin

text \<open>
  Removal from the red-black tree of \<^verbatim>\<open>kernel/rbtree.c\<close>: the successor takes the place of a node with two
  children, and the repair loop restores the colouring rules.
\<close>

subsection \<open>Repair\<close>

fun is_left :: "frame \<Rightarrow> bool" where
  "is_left (On_left c a k r) = True"
| "is_left (On_right c l a k) = False"

lemma ptr_fill: "ptr (fill f t) = up (f # C)"
  by (cases f) simp_all

lemma up_left:
  assumes "at m A s (f # C) t" and "t \<noteq> Lf"
  shows "\<exists>n. rb_node_at s (up (f # C)) = Some n \<and> (ptr t = rb_left n \<longleftrightarrow> is_left f)"
proof (cases f)
  case (On_left c a k r)
  then show ?thesis using at_node [of m A s C c t a k r] assms(1) by (simp add: at_focus)
next
  case (On_right c l a k)
  have "ptr t \<noteq> ptr l" using assms On_right by (cases t; cases l) (auto simp: at_def)
  then show ?thesis using at_node [of m A s C c l a k t] assms(1) On_right by (simp add: at_focus)
qed

text \<open>The outcome of a round: done, or to be continued one step further up.\<close>

definition outcome :: "(addr \<rightharpoonup> rb_node) \<Rightarrow> addr set \<Rightarrow> frame list \<Rightarrow> bool \<times> tree \<Rightarrow> (rb_tree \<times> fixup) ub \<Rightarrow> bool" where
  "outcome m A C b r \<longleftrightarrow> (\<exists>s'. at m A s' C (snd b) \<and>
     (if fst b then r = Some (s', Leave (rb_root s'))
      else \<exists>l. r = Some (s', Go_on (ptr (snd b)) (up C) l) \<and> (C \<noteq> [] \<longrightarrow> l = is_left (hd C))))"

lemma outcome_done: "at m A s' C t \<Longrightarrow> r = Some (s', Leave (rb_root s')) \<Longrightarrow> outcome m A C (True, t) r"
  by (auto simp: outcome_def)

lemma move_up_at:
  assumes "rb_set_red s w = Some s1" and "at m A s1 C t" and "t \<noteq> Lf" "ptr t = p"
  shows "outcome m A C (False, t) (erase_move_up s w p b)"
proof -
  obtain c l k r where t: "t = Nd c l p k r" using assms(3,4) by (cases t) auto
  note n = at_node(2) [OF assms(2) [unfolded t]]
  show ?thesis
  proof (cases C)
    case Nil
    then show ?thesis using assms(1,2) n t by (auto simp: outcome_def erase_move_up_def)
  next
    case (Cons f D)
    obtain g where g: "rb_node_at s1 (up C) = Some g" "p = rb_left g \<longleftrightarrow> is_left f"
      using up_left [OF assms(2) [unfolded Cons] assms(3)] assms(4) Cons by auto
    have "up C \<noteq> NULL" using g(1) by (auto simp: rb_node_at_def)
    then show ?thesis using assms(1,2) n t g Cons by (auto simp: outcome_def erase_move_up_def)
  qed
qed

lemma set_red_left:
  assumes "at m A s C (Nd c (Nd wc wl w wk wr) a k r)"
  shows "\<exists>s'. rb_set_red s w = Some s' \<and> at m A s' C (Nd c (Nd RB_RED wl w wk wr) a k r)"
  using set_red_at [of m A s "On_left c a k r # C" wc wl w wk wr] assms by (auto simp: at_focus)

lemma set_red_right:
  assumes "at m A s C (Nd c l a k (Nd wc wl w wk wr))"
  shows "\<exists>s'. rb_set_red s w = Some s' \<and> at m A s' C (Nd c l a k (Nd RB_RED wl w wk wr))"
  using set_red_at [of m A s "On_right c l a k # C" wc wl w wk wr] assms by (auto simp: at_focus)

text \<open>Case 4, for both sides.\<close>

lemma case4_right:
  assumes "at m A s C (Nd c t p pk (Nd wc wl w wk wr))"
  shows "\<exists>s1 s2 s3 s4. rb_update s w (\<lambda>n. n\<lparr>rb_color := c\<rparr>) = Some s1 \<and> rb_set_black s1 p = Some s2 \<and>
    rb_node_at s2 w = Some \<lparr>rb_color = c, rb_parent = p, rb_left = ptr wl, rb_right = ptr wr, rb_key = wk\<rparr> \<and>
    rb_set_black s2 (ptr wr) = Some s3 \<and> rb_rotate_left s3 p = Some s4 \<and> at m A s4 C (Nd c (Nd RB_BLACK t p pk wl) w wk (blacken wr))"
proof -
  have "at m A s (On_right c t p pk # C) (Nd wc wl w wk wr)" using assms by (simp add: at_focus)
  then obtain s1 where s1: "rb_update s w (\<lambda>n. n\<lparr>rb_color := c\<rparr>) = Some s1" "at m A s1 C (Nd c t p pk (Nd c wl w wk wr))"
    using set_col_at [of m A s "On_right c t p pk # C"] by (metis at_right)
  obtain s2 where s2: "rb_set_black s1 p = Some s2" "at m A s2 C (Nd RB_BLACK t p pk (Nd c wl w wk wr))"
    using set_black_at [OF s1(2)] by auto
  have s2': "at m A s2 (On_right RB_BLACK t p pk # C) (Nd c wl w wk wr)" using s2(2) by (simp add: at_focus)
  obtain s3 where s3: "rb_set_black s2 (ptr wr) = Some s3" "at m A s3 (On_right RB_BLACK t p pk # C) (Nd c wl w wk (blacken wr))"
    using set_black_right [OF s2'] by blast
  have "at m A s3 C (Nd RB_BLACK t p pk (Nd c wl w wk (blacken wr)))" using s3(2) by (simp add: at_focus)
  then show ?thesis using s1(1) s2(1) s3(1) at_node(2) [OF s2'] rotate_left_at by fastforce
qed

lemma case4_left:
  assumes "at m A s C (Nd c (Nd wc wl w wk wr) p pk t)"
  shows "\<exists>s1 s2 s3 s4. rb_update s w (\<lambda>n. n\<lparr>rb_color := c\<rparr>) = Some s1 \<and> rb_set_black s1 p = Some s2 \<and>
    rb_node_at s2 w = Some \<lparr>rb_color = c, rb_parent = p, rb_left = ptr wl, rb_right = ptr wr, rb_key = wk\<rparr> \<and>
    rb_set_black s2 (ptr wl) = Some s3 \<and> rb_rotate_right s3 p = Some s4 \<and> at m A s4 C (Nd c (blacken wl) w wk (Nd RB_BLACK wr p pk t))"
proof -
  have "at m A s (On_left c p pk t # C) (Nd wc wl w wk wr)" using assms by (simp add: at_focus)
  then obtain s1 where s1: "rb_update s w (\<lambda>n. n\<lparr>rb_color := c\<rparr>) = Some s1" "at m A s1 C (Nd c (Nd c wl w wk wr) p pk t)"
    using set_col_at [of m A s "On_left c p pk t # C"] by (metis at_left)
  obtain s2 where s2: "rb_set_black s1 p = Some s2" "at m A s2 C (Nd RB_BLACK (Nd c wl w wk wr) p pk t)"
    using set_black_at [OF s1(2)] by auto
  have s2': "at m A s2 (On_left RB_BLACK p pk t # C) (Nd c wl w wk wr)" using s2(2) by (simp add: at_focus)
  obtain s3 where s3: "rb_set_black s2 (ptr wl) = Some s3" "at m A s3 (On_left RB_BLACK p pk t # C) (Nd c (blacken wl) w wk wr)"
    using set_black_left [OF s2'] by blast
  have "at m A s3 C (Nd RB_BLACK (Nd c (blacken wl) w wk wr) p pk t)" using s3(2) by (simp add: at_focus)
  then show ?thesis using s1(1) s2(1) s3(1) at_node(2) [OF s2'] rotate_right_at by fastforce
qed

text \<open>Case 3 turns into case 4.\<close>

lemma case3_right:
  assumes "at m A s C (Nd c t p pk (Nd wc (Nd ic a b bk d) w wk wr))"
  shows "\<exists>s1 s2 s3. rb_set_black s b = Some s1 \<and> rb_set_red s1 w = Some s2 \<and> rb_rotate_right s2 w = Some s3 \<and>
    at m A s3 C (Nd c t p pk (Nd RB_BLACK a b bk (Nd RB_RED d w wk wr)))"
proof -
  have "at m A s (On_right c t p pk # C) (Nd wc (Nd ic a b bk d) w wk wr)" using assms by (simp add: at_focus)
  then obtain s1 where s1: "rb_set_black s b = Some s1" "at m A s1 (On_right c t p pk # C) (Nd wc (Nd RB_BLACK a b bk d) w wk wr)"
    using set_black_left by fastforce
  obtain s2 where s2: "rb_set_red s1 w = Some s2" "at m A s2 (On_right c t p pk # C) (Nd RB_RED (Nd RB_BLACK a b bk d) w wk wr)"
    using set_red_at [OF s1(2)] by blast
  show ?thesis using s1(1) s2(1) rotate_right_at [OF s2(2)] by (simp add: at_focus)
qed

lemma case3_left:
  assumes "at m A s C (Nd c (Nd wc wl w wk (Nd ic a b bk d)) p pk t)"
  shows "\<exists>s1 s2 s3. rb_set_black s b = Some s1 \<and> rb_set_red s1 w = Some s2 \<and> rb_rotate_left s2 w = Some s3 \<and>
    at m A s3 C (Nd c (Nd RB_BLACK (Nd RB_RED wl w wk a) b bk d) p pk t)"
proof -
  have "at m A s (On_left c p pk t # C) (Nd wc wl w wk (Nd ic a b bk d))" using assms by (simp add: at_focus)
  then obtain s1 where s1: "rb_set_black s b = Some s1" "at m A s1 (On_left c p pk t # C) (Nd wc wl w wk (Nd RB_BLACK a b bk d))"
    using set_black_right by fastforce
  obtain s2 where s2: "rb_set_red s1 w = Some s2" "at m A s2 (On_left c p pk t # C) (Nd RB_RED wl w wk (Nd RB_BLACK a b bk d))"
    using set_red_at [OF s1(2)] by blast
  show ?thesis using s1(1) s2(1) rotate_left_at [OF s2(2)] by (simp add: at_focus)
qed

lemma black_right_at:
  assumes at: "at m A s C (Nd c t p pk (Nd wc wl w wk wr))"
  shows "outcome m A C (sibling_fix (On_left c p pk (Nd wc wl w wk wr)) t) (erase_black_right s x p w)"
proof -
  have w: "at m A s (On_right c t p pk # C) (Nd wc wl w wk wr)" using at by (simp add: at_focus)
  note n = at_node(2) [OF w] black_left [OF w] black_right [OF w]
  consider "col wl = RB_BLACK \<and> col wr = RB_BLACK" | "col wl = RB_RED" "col wr = RB_BLACK" | "col wr = RB_RED"
    by (cases "col wl"; cases "col wr") auto
  then show ?thesis
  proof cases
    case 1
    obtain s1 where "rb_set_red s w = Some s1" "at m A s1 C (Nd c t p pk (Nd RB_RED wl w wk wr))" using set_red_right [OF at] by blast
    then show ?thesis using move_up_at [of s w s1 m A C _ p True] n 1 by (simp add: erase_black_right_def)
  next
    case 2
    obtain a b bk d where wl: "wl = Nd RB_RED a b bk d" using 2(1) by (cases wl) auto
    obtain s1 s2 s3 where s: "rb_set_black s b = Some s1" "rb_set_red s1 w = Some s2" "rb_rotate_right s2 w = Some s3"
        "at m A s3 C (Nd c t p pk (Nd RB_BLACK a b bk (Nd RB_RED d w wk wr)))"
      using case3_right [OF at [unfolded wl]] by blast
    have "b \<noteq> NULL" using s(4) by (simp add: at_def)
    then show ?thesis
      using n 2 s(1-3) at_node(2) [OF s(4)] case4_right [OF s(4)] wl by (auto simp: erase_black_right_def intro!: outcome_done)
  next
    case 3
    then show ?thesis
      using n at_node(2) [OF at] case4_right [OF at] by (auto simp: erase_black_right_def intro!: outcome_done)
  qed
qed

lemma black_left_at:
  assumes at: "at m A s C (Nd c (Nd wc wl w wk wr) p pk t)"
  shows "outcome m A C (sibling_fix (On_right c (Nd wc wl w wk wr) p pk) t) (erase_black_left s x p w)"
proof -
  have w: "at m A s (On_left c p pk t # C) (Nd wc wl w wk wr)" using at by (simp add: at_focus)
  note n = at_node(2) [OF w] black_left [OF w] black_right [OF w]
  consider "col wl = RB_BLACK \<and> col wr = RB_BLACK" | "col wr = RB_RED" "col wl = RB_BLACK" | "col wl = RB_RED"
    by (cases "col wl"; cases "col wr") auto
  then show ?thesis
  proof cases
    case 1
    obtain s1 where "rb_set_red s w = Some s1" "at m A s1 C (Nd c (Nd RB_RED wl w wk wr) p pk t)" using set_red_left [OF at] by blast
    then show ?thesis using move_up_at [of s w s1 m A C _ p False] n 1 by (simp add: erase_black_left_def)
  next
    case 2
    obtain a b bk d where wr: "wr = Nd RB_RED a b bk d" using 2(1) by (cases wr) auto
    obtain s1 s2 s3 where s: "rb_set_black s b = Some s1" "rb_set_red s1 w = Some s2" "rb_rotate_left s2 w = Some s3"
        "at m A s3 C (Nd c (Nd RB_BLACK (Nd RB_RED wl w wk a) b bk d) p pk t)"
      using case3_left [OF at [unfolded wr]] by blast
    have "b \<noteq> NULL" using s(4) by (simp add: at_def)
    then show ?thesis
      using n 2 s(1-3) at_node(2) [OF s(4)] case4_left [OF s(4)] wr by (auto simp: erase_black_left_def intro!: outcome_done)
  next
    case 3
    then show ?thesis
      using n at_node(2) [OF at] case4_left [OF at] by (auto simp: erase_black_left_def intro!: outcome_done)
  qed
qed

lemma step_black_sibling:
  assumes at: "at m A s (f # C) t" and "red_sibling f = None" and "sibling f \<noteq> Lf"
  shows "outcome m A C (sibling_fix f t) (erase_fixup_step s (ptr t) (up (f # C)) (is_left f))"
proof -
  obtain wl w wk wr where sib: "sibling f = Nd RB_BLACK wl w wk wr"
    using red_sibling_None [OF assms(2)] assms(3) by (cases "sibling f") auto
  show ?thesis
  proof (cases f)
    case (On_left c p pk r)
    have at': "at m A s C (Nd c t p pk (Nd RB_BLACK wl w wk wr))" using at sib On_left by (simp add: at_focus)
    have w: "w \<noteq> NULL" using at' by (simp add: at_def)
    show ?thesis
      using black_right_at [OF at', of "ptr t"] at_node(2) [OF at'] red_right [OF at'] w sib On_left by (simp add: erase_fixup_step_def)
  next
    case (On_right c l p pk)
    have at': "at m A s C (Nd c (Nd RB_BLACK wl w wk wr) p pk t)" using at sib On_right by (simp add: at_focus)
    have w: "w \<noteq> NULL" using at' by (simp add: at_def)
    show ?thesis
      using black_left_at [OF at', of "ptr t"] at_node(2) [OF at'] red_left [OF at'] w sib On_right by (simp add: erase_fixup_step_def)
  qed
qed

lemma step_red_sibling:
  assumes at: "at m A s (f # C) t" and rs: "red_sibling f = Some (f', g)" and "sibling f' \<noteq> Lf"
  shows "outcome m A (g # C) (sibling_fix f' t) (erase_fixup_step s (ptr t) (up (f # C)) (is_left f))"
proof (cases f)
  case (On_left c p pk r)
  obtain wl w wk wr where f: "f = On_left c p pk (Nd RB_RED wl w wk wr)" "f' = On_left RB_RED p pk wl" "g = On_left RB_BLACK w wk wr"
    using rs On_left by (cases f rule: red_sibling.cases) auto
  have at': "at m A s C (Nd c t p pk (Nd RB_RED wl w wk wr))" using at f(1) by (simp add: at_focus)
  have w: "w \<noteq> NULL" using at' by (simp add: at_def)
  obtain s1 where s1: "rb_set_black s w = Some s1" "at m A s1 C (Nd c t p pk (Nd RB_BLACK wl w wk wr))" using set_black_right [OF at'] by auto
  obtain s2 where s2: "rb_set_red s1 p = Some s2" "at m A s2 C (Nd RB_RED t p pk (Nd RB_BLACK wl w wk wr))" using set_red_at [OF s1(2)] by blast
  obtain s3 where s3: "rb_rotate_left s2 p = Some s3" "at m A s3 (g # C) (Nd RB_RED t p pk wl)"
    using rotate_left_at [OF s2(2)] by (auto simp: f at_focus)
  obtain ic a b bk d where wl: "wl = Nd ic a b bk d" using assms(3) f(2) by (cases wl) auto
  have "b \<noteq> NULL" using s3(2) wl by (simp add: at_def)
  then show ?thesis
    using black_right_at [OF s3(2) [unfolded wl], of "ptr t"] at_node(2) [OF s3(2)] at_node(2) [OF at'] red_right [OF at'] w s1(1) s2(1) s3(1) f wl
    by (simp add: erase_fixup_step_def)
next
  case (On_right c l p pk)
  obtain wl w wk wr where f: "f = On_right c (Nd RB_RED wl w wk wr) p pk" "f' = On_right RB_RED wr p pk" "g = On_right RB_BLACK wl w wk"
    using rs On_right by (cases f rule: red_sibling.cases) auto
  have at': "at m A s C (Nd c (Nd RB_RED wl w wk wr) p pk t)" using at f(1) by (simp add: at_focus)
  have w: "w \<noteq> NULL" using at' by (simp add: at_def)
  obtain s1 where s1: "rb_set_black s w = Some s1" "at m A s1 C (Nd c (Nd RB_BLACK wl w wk wr) p pk t)" using set_black_left [OF at'] by auto
  obtain s2 where s2: "rb_set_red s1 p = Some s2" "at m A s2 C (Nd RB_RED (Nd RB_BLACK wl w wk wr) p pk t)" using set_red_at [OF s1(2)] by blast
  obtain s3 where s3: "rb_rotate_right s2 p = Some s3" "at m A s3 (g # C) (Nd RB_RED wr p pk t)"
    using rotate_right_at [OF s2(2)] by (auto simp: f at_focus)
  obtain ic a b bk d where wr: "wr = Nd ic a b bk d" using assms(3) f(2) by (cases wr) auto
  have "b \<noteq> NULL" using s3(2) wr by (simp add: at_def)
  then show ?thesis
    using black_left_at [OF s3(2) [unfolded wr], of "ptr t"] at_node(2) [OF s3(2)] at_node(2) [OF at'] red_left [OF at'] w s1(1) s2(1) s3(1) f wr
    by (simp add: erase_fixup_step_def)
qed

text \<open>What is known at the start of a round holds again at the start of the next.\<close>

lemma erase_go_on:
  assumes "calm t" "col t = RB_BLACK" "level n t" and "calm_path RB_BLACK (f # C)" "level_path (Suc n) j (f # C)"
    and "red_sibling f = None" "sibling_fix f t = (fin, t')"
  shows "sibling f \<noteq> Lf" and "\<not> fin \<Longrightarrow> \<exists>i. calm (blacken t') \<and> level i t' \<and> calm_path RB_BLACK C \<and> level_path (Suc i) j C"
proof -
  note sr = sibling_fix_rules [OF assms(7,1,2) red_sibling_None [OF assms(6)] frame_path(1) [OF assms(4)] assms(3) frame_path(2) [OF assms(5)]]
  have lp: "level_path ((if frame_col f = RB_BLACK then 1 else 0) + Suc n) j C" using assms(5) by (cases f) auto
  show "sibling f \<noteq> Lf" using sr by simp
  show "\<exists>i. calm (blacken t') \<and> level i t' \<and> calm_path RB_BLACK C \<and> level_path (Suc i) j C" if "\<not> fin"
    using sr lp that assms(4) calm_path_black by (intro exI [of _ "(if frame_col f = RB_BLACK then 1 else 0) + n"]) (auto split: if_splits)
qed

lemma x_not_root:
  assumes "at m A s (f # C) t"
  shows "ptr t \<noteq> rb_root s"
proof -
  have "rb_root s = ptr (plug C (fill f t))" using assms at_root [of m A s] by (simp add: at_plug [of m A s "f # C"])
  then have "rb_root s \<in> path_addrs (f # C)" "rb_root s \<noteq> NULL"
  proof -
    have "ptr (plug C (fill f t)) \<in> path_addrs (f # C)"
    proof (induction C arbitrary: f t)
      case Nil
      then show ?case by (cases f) simp_all
    next
      case (Cons g C)
      have "path_addrs (g # C) \<subseteq> path_addrs (f # g # C)" by (cases f) auto
      then show ?case using Cons.IH [of g "fill f t"] by auto
    qed
    then show "rb_root s \<in> path_addrs (f # C)" using \<open>rb_root s = ptr (plug C (fill f t))\<close> by simp
    have "plug C (fill f t) \<noteq> Lf" by (induction C arbitrary: f t) (case_tac f; simp)+
    then show "rb_root s \<noteq> NULL"
      using \<open>rb_root s = ptr (plug C (fill f t))\<close> assms at_ptr [of m A s "[]" "plug C (fill f t)"] by (simp add: at_plug [of m A s "f # C"])
  qed
  then show ?thesis using assms by (cases t) (auto simp: at_def)
qed

lemma fixup_root:
  assumes "at m A s C t"
  shows "\<exists>s'. rb_erase_fixup s (rb_root s) p l = Some s' \<and> at m A s' [] (blacken (plug C t))"
  using blacken_root [OF assms] by (subst rb_erase_fixup.simps) simp

lemma fixup_red:
  assumes "at m A s (f # C) t" and "col t = RB_RED"
  shows "\<exists>s'. rb_erase_fixup s (ptr t) p l = Some s' \<and> at m A s' [] (plug (f # C) (blacken t))"
  using x_not_root [OF assms(1)] at_black [OF assms(1)] assms(2) set_black_at [OF assms(1)] at_plug [of m A _ "f # C" "blacken t"]
  by (subst rb_erase_fixup.simps) auto

text \<open>A round with a red sibling is the last but one.\<close>

lemma fixup_red_sibling:
  assumes at: "at m A s (f # C) t" and black: "col t = RB_BLACK" and rs: "red_sibling f = Some (f', g)" and "sibling f' \<noteq> Lf"
    and red: "frame_col f' = RB_RED"
  shows "\<exists>s'. rb_erase_fixup s (ptr t) (up (f # C)) (is_left f) = Some s' \<and> at m A s' [] (erase_repair (f # C) t)"
proof -
  obtain fin t' where sf: "sibling_fix f' t = (fin, t')" by (cases "sibling_fix f' t") auto
  have o: "outcome m A (g # C) (fin, t') (erase_fixup_step s (ptr t) (up (f # C)) (is_left f))"
    using step_red_sibling [OF at rs assms(4)] sf by simp
  have eq: "rb_erase_fixup s (ptr t) (up (f # C)) (is_left f) =
      Option.bind (erase_fixup_step s (ptr t) (up (f # C)) (is_left f))
        (\<lambda>(s1, r). case r of Leave x1 \<Rightarrow> rb_set_black s1 x1 | Go_on x1 p1 l1 \<Rightarrow> rb_erase_fixup s1 x1 p1 l1)"
    using x_not_root [OF at] at_black [OF at] black by (subst rb_erase_fixup.simps) simp
  show ?thesis
  proof (cases fin)
    case True
    then show ?thesis
      using o blacken_root [of m A _ "g # C" t'] black rs sf unfolding eq by (auto simp: outcome_def simp del: plug.simps)
  next
    case False
    have "col t' = RB_RED" using sf False red by (cases "(f', t)" rule: sibling_fix.cases) (auto split: if_splits)
    then show ?thesis
      using o False fixup_red [of m A _ g C t'] black rs sf unfolding eq by (auto simp: outcome_def simp del: plug.simps)
  qed
qed

lemma erase_fixup_at:
  "at m A s C t \<Longrightarrow> calm (blacken t) \<Longrightarrow> level n t \<Longrightarrow> calm_path RB_BLACK C \<Longrightarrow> level_path (Suc n) j C \<Longrightarrow>
    (C \<noteq> [] \<longrightarrow> l = is_left (hd C)) \<Longrightarrow>
    \<exists>s'. rb_erase_fixup s (ptr t) (up C) l = Some s' \<and> at m A s' [] (erase_repair C t)"
proof (induction C t arbitrary: s n l rule: erase_repair.induct)
  case (1 t)
  then show ?case using fixup_root [OF 1(1)] at_root [OF 1(1)] by simp
next
  case (2 f C t)
  note at = 2(2) and level = 2(4) and cpath = 2(5) and lpath = 2(6)
  have l: "l = is_left f" using 2(7) by simp
  show ?case
  proof (cases "col t = RB_RED")
    case True
    then show ?thesis using fixup_red [OF at] by simp
  next
    case False
    then have black: "col t = RB_BLACK" by simp
    then have calm: "calm t" using 2(3) blacken_black by simp
    show ?thesis
    proof (cases "red_sibling f")
      case (Some fg)
      obtain f' g where fg: "fg = (f', g)" by (cases fg)
      note rs = red_sibling_rules [OF Some [unfolded fg] cpath lpath]
      have "sibling f' \<noteq> Lf" using rs by (cases "sibling f'") auto
      then show ?thesis using fixup_red_sibling [OF at black Some [unfolded fg]] rs l by blast
    next
      case None
      obtain fin t' where sf: "sibling_fix f t = (fin, t')" by (cases "sibling_fix f t") auto
      note go = erase_go_on [OF calm black level cpath lpath None sf]
      have o: "outcome m A C (fin, t') (erase_fixup_step s (ptr t) (up (f # C)) l)"
        using step_black_sibling [OF at None go(1)] sf l by simp
      have eq: "rb_erase_fixup s (ptr t) (up (f # C)) l = Option.bind (erase_fixup_step s (ptr t) (up (f # C)) l)
          (\<lambda>(s1, r). case r of Leave x1 \<Rightarrow> rb_set_black s1 x1 | Go_on x1 p1 l1 \<Rightarrow> rb_erase_fixup s1 x1 p1 l1)"
        using x_not_root [OF at] at_black [OF at] black by (subst rb_erase_fixup.simps) simp
      show ?thesis
      proof (cases fin)
        case True
        then show ?thesis using o blacken_root [of m A _ C t'] black None sf unfolding eq by (auto simp: outcome_def)
      next
        case nofin: False
        obtain i where i: "calm (blacken t')" "level i t'" "calm_path RB_BLACK C" "level_path (Suc i) j C" using go(2) nofin by blast
        obtain s1 l1 where s1: "at m A s1 C t'" "erase_fixup_step s (ptr t) (up (f # C)) l = Some (s1, Go_on (ptr t') (up C) l1)"
            "C \<noteq> [] \<longrightarrow> l1 = is_left (hd C)"
          using o nofin by (auto simp: outcome_def)
        have "\<exists>s'. rb_erase_fixup s1 (ptr t') (up C) l1 = Some s' \<and> at m A s' [] (erase_repair C t')"
          by (rule 2(1) [OF False None refl sf [symmetric] nofin s1(1) i s1(3)])
        then show ?thesis using s1(2) black None sf nofin unfolding eq by simp
      qed
    qed
  qed
qed

subsection \<open>Unlinking a node\<close>

lemma atI2:
  assumes "rep (rb_nodes s) (up C) t" "rep_path (rb_root s) (rb_nodes s) (ptr t) C" and "apart t" "apart_path C" "addrs t \<inter> path_addrs C = {}"
    and "addrs t \<union> path_addrs C \<subseteq> A" and "\<And>x. x \<notin> A \<Longrightarrow> rb_nodes s x = m x"
  shows "at m A s C t"
  using assms by (simp add: at_def)

lemma transplant_at:
  assumes u: "rb_node_at s u = Some n" "rb_parent n = up C" "u \<notin> path_addrs C" "u \<notin> addrs t"
    and path: "rep_path (rb_root s) (rb_nodes s) u C" "apart_path C"
    and t: "rep (rb_nodes s) q t" "apart t" "addrs t \<inter> path_addrs C = {}"
    and out: "addrs t \<union> path_addrs C \<subseteq> A" "\<And>x. x \<notin> A \<Longrightarrow> rb_nodes s x = m x"
  obtains s' where "rb_transplant s u (ptr t) = Some s'" and "at m A s' C t"
    and "\<forall>x. x \<notin> path_addrs C \<longrightarrow> x \<notin> addrs t \<longrightarrow> rb_nodes s' x = rb_nodes s x"
proof -
  obtain s1 where s1: "rb_replace_child s u (ptr t) = Some s1" "rep_path (rb_root s1) (rb_nodes s1) (ptr t) C"
      "\<And>z. z \<notin> path_addrs C \<Longrightarrow> rb_nodes s1 z = rb_nodes s z"
    using replace_child_path [OF u(1,2,3) path] by blast
  have nu: "rb_node_at s1 u = Some n" using u(1,3) s1(3) by (simp add: rb_node_at_def split: if_splits)
  have "rb_nodes s1 x = rb_nodes s x" if "x \<in> addrs t" for x using that t(3) s1(3) by auto
  then have "rep (rb_nodes s1) q t" using t(1) rep_cong [of t "rb_nodes s1" "rb_nodes s"] by blast
  then obtain h where h: "rb_set_parent s1 (ptr t) (up C) = Some (s1\<lparr>rb_nodes := h\<rparr>)" "rep h (up C) t" "\<And>x. x \<notin> addrs t \<Longrightarrow> h x = rb_nodes s1 x"
    by (rule set_parent_rep [OF _ t(2), of _ _ "up C"]) simp
  have same: "h x = rb_nodes s x" if "x \<notin> path_addrs C" "x \<notin> addrs t" for x using that h(3) s1(3) by simp
  have "h x = rb_nodes s1 x" if "x \<in> path_addrs C" for x using that t(3) h(3) by auto
  then have rp: "rep_path (rb_root s1) h (ptr t) C" using s1(2) rep_path_cong [of C h "rb_nodes s1"] by blast
  have "at m A (s1\<lparr>rb_nodes := h\<rparr>) C t"
  proof (rule atI2)
    show "rb_nodes (s1\<lparr>rb_nodes := h\<rparr>) x = m x" if "x \<notin> A" for x
    proof -
      have "x \<notin> addrs t" "x \<notin> path_addrs C" using out(1) that by auto
      then show ?thesis using same out(2) that by simp
    qed
  qed (use h(2) rp t path out in auto)
  moreover have "rb_transplant s u (ptr t) = Some (s1\<lparr>rb_nodes := h\<rparr>)" using s1(1) nu u(2) h(1) by (simp add: rb_transplant_def)
  ultimately show thesis using that same by auto
qed

lemma hang_left:
  assumes at: "at m A s C (Nd c Lf y k r)" and l: "rep (rb_nodes s) q l" "apart l" "addrs l \<inter> (insert y (addrs r \<union> path_addrs C)) = {}" "addrs l \<subseteq> A"
  obtains s1 s2 where "rb_update s y (\<lambda>n. n\<lparr>rb_left := ptr l\<rparr>) = Some s1" and "rb_set_parent s1 (ptr l) y = Some s2"
    and "at m A s2 C (Nd c l y k r)" and "\<And>x. x \<noteq> y \<Longrightarrow> x \<notin> addrs l \<Longrightarrow> rb_nodes s2 x = rb_nodes s x"
proof -
  define h1 where "h1 = (rb_nodes s)(y \<mapsto> \<lparr>rb_color = c, rb_parent = up C, rb_left = ptr l, rb_right = ptr r, rb_key = k\<rparr>)"
  have u: "rb_update s y (\<lambda>n. n\<lparr>rb_left := ptr l\<rparr>) = Some (s\<lparr>rb_nodes := h1\<rparr>)"
    using at_node [OF at] by (simp add: rb_update_def h1_def)
  have "rep (rb_nodes (s\<lparr>rb_nodes := h1\<rparr>)) q l" using l(1,3) by (simp add: h1_def)
  then obtain h2 where h2: "rb_set_parent (s\<lparr>rb_nodes := h1\<rparr>) (ptr l) y = Some (s\<lparr>rb_nodes := h2\<rparr>)" "rep h2 y l"
      "\<And>x. x \<notin> addrs l \<Longrightarrow> h2 x = h1 x"
    by (rule set_parent_rep [OF _ l(2), of _ _ y]) simp
  have same: "h2 x = rb_nodes s x" if "x \<noteq> y" "x \<notin> addrs l" for x using that h2(3) by (simp add: h1_def)
  have p: "y \<noteq> NULL" "y \<notin> addrs r" "y \<notin> path_addrs C" "rep (rb_nodes s) y r" "rep_path (rb_root s) (rb_nodes s) y C" "apart r" "apart_path C"
      "addrs r \<inter> path_addrs C = {}" "insert y (addrs r \<union> path_addrs C) \<subseteq> A" "\<And>x. x \<notin> A \<Longrightarrow> rb_nodes s x = m x"
    using at by (auto simp: at_def)
  have "h2 x = rb_nodes s x" if "x \<in> addrs r \<union> path_addrs C" for x
  proof -
    have "x \<noteq> y" "x \<notin> addrs l" using that p(2,3) l(3) by auto
    then show ?thesis by (rule same)
  qed
  then have "rep h2 y r" "rep_path (rb_root s) h2 y C"
    using p(4,5) rep_cong [of r h2 "rb_nodes s"] rep_path_cong [of C h2 "rb_nodes s"] by blast+
  moreover have "h2 y = h1 y" using h2(3) l(3) by auto
  ultimately have "at m A (s\<lparr>rb_nodes := h2\<rparr>) C (Nd c l y k r)"
  proof (intro atI2)
    show "rb_nodes (s\<lparr>rb_nodes := h2\<rparr>) x = m x" if "x \<notin> A" for x
    proof -
      have "x \<noteq> y" "x \<notin> addrs l" using that p(9) l(4) by auto
      then show ?thesis using same p(10) that by simp
    qed
  qed (use p l h2(2) in \<open>auto simp: h1_def\<close>)
  then show thesis using that u h2(1) same by simp
qed

lemma is_left_child_at:
  assumes "at m A s C t" and "t \<noteq> Lf"
  obtains b where "is_left_child s (ptr t) (up C) = Some b" and "C \<noteq> [] \<longrightarrow> b = is_left (hd C)"
proof (cases C)
  case Nil
  then show thesis using that [of False] by (simp add: is_left_child_def)
next
  case (Cons f D)
  obtain n where n: "rb_node_at s (up C) = Some n" "ptr t = rb_left n \<longleftrightarrow> is_left f"
    using up_left [OF assms(1) [unfolded Cons] assms(2)] Cons by auto
  have "up C \<noteq> NULL" using n(1) by (auto simp: rb_node_at_def)
  then show thesis using that n Cons by (simp add: is_left_child_def)
qed

lemma unlink_one:
  assumes at: "at m A s C (Nd c l z k r)" and "l = Lf \<and> x = r \<or> r = Lf \<and> x = l"
  obtains s' where "rb_transplant s z (ptr x) = Some s'" and "at m A s' C x" and "rb_nodes s' z = rb_nodes s z"
proof -
  have f: "rep (rb_nodes s) z x" "apart x" "z \<notin> addrs x" "addrs x \<inter> path_addrs C = {}" "z \<notin> path_addrs C" "apart_path C" "addrs x \<union> path_addrs C \<subseteq> A"
      "rep_path (rb_root s) (rb_nodes s) z C" "\<And>x. x \<notin> A \<Longrightarrow> rb_nodes s x = m x"
    using at assms(2) by (auto simp: at_def)
  show thesis
    by (rule transplant_at [OF at_node(2) [OF at] _ f(5,3,8,6,1,2,4,7,9)]) (use that f(3,5) in auto)
qed

text \<open>The successor \<open>y\<close>, already cut out of its place, takes the place of \<open>z\<close>.\<close>

lemma take_place:
  assumes z: "rb_nodes s z = Some nz" "rb_parent nz = up C" "rb_left nz = ptr l" "rb_color nz = c" "z \<noteq> NULL" "z \<notin> path_addrs C" "z \<notin> addrs l" "z \<notin> addrs t"
    and t: "t = Nd cy Lf y ky r" "rep (rb_nodes s) q t" "apart t" "addrs t \<inter> path_addrs C = {}"
    and l: "rep (rb_nodes s) z l" "apart l" "addrs l \<inter> addrs t = {}" "addrs l \<inter> path_addrs C = {}" "addrs l \<subseteq> A"
    and path: "rep_path (rb_root s) (rb_nodes s) z C" "apart_path C"
    and out: "addrs t \<union> path_addrs C \<subseteq> A" "\<And>x. x \<notin> A \<Longrightarrow> rb_nodes s x = m x"
  shows "\<exists>s2 s3 s4 s5. rb_transplant s z y = Some s2 \<and> rb_node_at s2 z = Some nz \<and> rb_update s2 y (\<lambda>n. n\<lparr>rb_left := ptr l\<rparr>) = Some s3 \<and>
    rb_set_parent s3 (ptr l) y = Some s4 \<and> rb_node_at s4 z = Some nz \<and> rb_update s4 y (\<lambda>n. n\<lparr>rb_color := c\<rparr>) = Some s5 \<and>
    at m A s5 C (Nd c l y ky r)"
proof -
  have nz: "rb_node_at s z = Some nz" using z(1,5) by (simp add: rb_node_at_def)
  obtain s2 where s2: "rb_transplant s z (ptr t) = Some s2" "at m A s2 C t"
      "\<forall>x. x \<notin> path_addrs C \<longrightarrow> x \<notin> addrs t \<longrightarrow> rb_nodes s2 x = rb_nodes s x"
    by (rule transplant_at [OF nz z(2,6,8) path t(2-4) out])
  have "rb_nodes s2 x = rb_nodes s x" if "x \<in> addrs l" for x using that s2(3) l(3,4) by auto
  then have "rep (rb_nodes s2) z l" using l(1) rep_cong [of l "rb_nodes s2" "rb_nodes s"] by blast
  moreover have "addrs l \<inter> insert y (addrs r \<union> path_addrs C) = {}" using l(3,4) t(1) by auto
  ultimately obtain s3 s4 where s4: "rb_update s2 y (\<lambda>n. n\<lparr>rb_left := ptr l\<rparr>) = Some s3" "rb_set_parent s3 (ptr l) y = Some s4"
      "at m A s4 C (Nd cy l y ky r)" "\<And>x. x \<noteq> y \<Longrightarrow> x \<notin> addrs l \<Longrightarrow> rb_nodes s4 x = rb_nodes s2 x"
    using hang_left [OF s2(2) [unfolded t(1)] _ l(2) _ l(5)] by blast
  obtain s5 where s5: "rb_update s4 y (\<lambda>n. n\<lparr>rb_color := c\<rparr>) = Some s5" "at m A s5 C (Nd c l y ky r)" using set_col_at [OF s4(3)] by blast
  have n2: "rb_node_at s2 z = Some nz" using z s2(3) by (simp add: rb_node_at_def)
  have "z \<noteq> y" using z(8) t(1) by auto
  then have n4: "rb_node_at s4 z = Some nz" using z s2(3) s4(4) by (simp add: rb_node_at_def)
  show ?thesis
    by (rule exI [of _ s2], rule exI [of _ s3], rule exI [of _ s4], rule exI [of _ s5]) (use s2(1) t(1) s4(1,2) s5 n2 n4 in simp)
qed

lemma dig_append: "dig (E @ D) t = (fst (dig E t) @ D, snd (dig E t))"
proof (induction E t rule: dig.induct)
  case (1 E c l a k r)
  then show ?case using 1 by (cases "l = Lf") simp_all
qed simp

lemma addrs_plug: "addrs (plug C t) = addrs t \<union> path_addrs C"
proof (induction C arbitrary: t)
  case (Cons f C)
  then show ?case by (cases f) auto
qed simp

lemma path_addrs_append [simp]: "path_addrs (C @ D) = path_addrs C \<union> path_addrs D"
  by (induction C rule: path_addrs.induct) auto

lemma apart_path_append: "apart_path (C @ D) \<longleftrightarrow> apart_path C \<and> apart_path D \<and> path_addrs C \<inter> path_addrs D = {}"
  by (induction C rule: path_addrs.induct) auto

lemma up_append [simp]: "up (C @ D) = (if C = [] then up D else up C)"
  by (cases C rule: up.cases) simp_all

lemma up_cons_append [simp]: "up (f # C @ D) = up (f # C)"
  by (cases f) simp_all

lemma up_in_path: "C \<noteq> [] \<Longrightarrow> up C \<in> path_addrs C"
  by (cases C rule: up.cases) simp_all

text \<open>The two ways to the state in which \<open>take_place\<close> applies.\<close>

lemma successor_child:
  assumes at: "at m A s C (Nd c l z k (Nd cy Lf y ky yr))"
  shows "\<exists>s1. rb_set_parent s (ptr yr) y = Some s1 \<and> (\<exists>s2 s3 s4 s5. rb_transplant s1 z y = Some s2 \<and>
    (\<exists>nz. rb_node_at s2 z = Some nz \<and> rb_left nz = ptr l \<and> rb_color nz = c \<and> rb_update s2 y (\<lambda>n. n\<lparr>rb_left := ptr l\<rparr>) = Some s3 \<and>
      rb_set_parent s3 (ptr l) y = Some s4 \<and> rb_node_at s4 z = Some nz) \<and> rb_update s4 y (\<lambda>n. n\<lparr>rb_color := c\<rparr>) = Some s5 \<and>
    at m A s5 C (Nd c l y ky yr))"
proof -
  let ?nz = "\<lparr>rb_color = c, rb_parent = up C, rb_left = ptr l, rb_right = y, rb_key = k\<rparr>"
  have p: "rb_nodes s z = Some ?nz" "z \<noteq> NULL" "y \<noteq> NULL" "rb_nodes s y = Some \<lparr>rb_color = cy, rb_parent = z, rb_left = NULL, rb_right = ptr yr, rb_key = ky\<rparr>"
      "rep (rb_nodes s) y yr" "rep (rb_nodes s) z l" "rep_path (rb_root s) (rb_nodes s) z C" "apart yr" "apart l" "apart_path C"
    and d: "z \<notin> path_addrs C" "z \<notin> addrs l" "z \<noteq> y" "z \<notin> addrs yr" "y \<notin> addrs yr" "addrs l \<inter> insert y (addrs yr) = {}" "addrs l \<inter> path_addrs C = {}"
      "insert y (addrs yr) \<inter> path_addrs C = {}" "addrs l \<subseteq> A" "insert y (addrs yr) \<union> path_addrs C \<subseteq> A" and out: "\<And>x. x \<notin> A \<Longrightarrow> rb_nodes s x = m x"
    using at by (auto simp: at_def)
  obtain h where h: "rb_set_parent s (ptr yr) y = Some (s\<lparr>rb_nodes := h\<rparr>)" "rep h y yr" "\<And>x. x \<notin> addrs yr \<Longrightarrow> h x = rb_nodes s x"
    by (rule set_parent_rep [OF p(5,8), of y]) blast
  have "h x = rb_nodes s x" if "x \<in> addrs l \<union> path_addrs C" for x using that h(3) d(6,8) by auto
  then have lp: "rep h z l" "rep_path (rb_root s) h z C"
    using p(6,7) rep_cong [of l h "rb_nodes s"] rep_path_cong [of C h "rb_nodes s"] by blast+
  have out': "h x = m x" if "x \<notin> A" for x
  proof -
    have "x \<notin> addrs yr" using d(10) that by auto
    then show ?thesis using h(3) out that by simp
  qed
  have "\<exists>s2 s3 s4 s5. rb_transplant (s\<lparr>rb_nodes := h\<rparr>) z y = Some s2 \<and> rb_node_at s2 z = Some ?nz \<and> rb_update s2 y (\<lambda>n. n\<lparr>rb_left := ptr l\<rparr>) = Some s3 \<and>
    rb_set_parent s3 (ptr l) y = Some s4 \<and> rb_node_at s4 z = Some ?nz \<and> rb_update s4 y (\<lambda>n. n\<lparr>rb_color := c\<rparr>) = Some s5 \<and>
    at m A s5 C (Nd c l y ky yr)"
    by (rule take_place [where t = "Nd cy Lf y ky yr" and q = z]) (use p d h lp out' in auto)
  then show ?thesis using h(1) by fastforce
qed

lemma successor_deep:
  assumes at: "at m A s (D @ On_right c l z k # C) (Nd cy Lf y ky yr)" and "D \<noteq> []"
  defines "r \<equiv> plug D yr"
  shows "\<exists>t1 t2 t3. rb_transplant s y (ptr yr) = Some t1 \<and> (\<exists>nz1. rb_node_at t1 z = Some nz1 \<and>
      rb_update t1 y (\<lambda>n. n\<lparr>rb_right := rb_right nz1\<rparr>) = Some t2 \<and> rb_set_parent t2 (rb_right nz1) y = Some t3) \<and>
    (\<exists>s2 s3 s4 s5. rb_transplant t3 z y = Some s2 \<and>
    (\<exists>nz. rb_node_at s2 z = Some nz \<and> rb_left nz = ptr l \<and> rb_color nz = c \<and> rb_update s2 y (\<lambda>n. n\<lparr>rb_left := ptr l\<rparr>) = Some s3 \<and>
      rb_set_parent s3 (ptr l) y = Some s4 \<and> rb_node_at s4 z = Some nz) \<and> rb_update s4 y (\<lambda>n. n\<lparr>rb_color := c\<rparr>) = Some s5 \<and>
    at m A s5 C (Nd c l y ky r))"
proof -
  obtain t1 where t1: "rb_transplant s y (ptr yr) = Some t1" "at m A t1 (D @ On_right c l z k # C) yr" "rb_nodes t1 y = rb_nodes s y"
    by (rule unlink_one [OF at, of yr]) simp_all
  have "at m A t1 [] (plug (On_right c l z k # C) r)" using t1(2) by (simp only: at_plug [of m A t1 "D @ On_right c l z k # C"] plug_append r_def)
  then have at1: "at m A t1 C (Nd c l z k r)" by (simp add: at_plug [of m A t1 C])
  let ?nz = "\<lparr>rb_color = c, rb_parent = up C, rb_left = ptr l, rb_right = ptr r, rb_key = k\<rparr>"
  have ny: "rb_nodes t1 y = Some \<lparr>rb_color = cy, rb_parent = up D, rb_left = NULL, rb_right = ptr yr, rb_key = ky\<rparr>" "y \<noteq> NULL"
    using t1(3) at assms(2) by (simp_all add: at_def)
  have yout: "y \<notin> addrs r" "y \<noteq> z" "y \<notin> addrs l" "y \<notin> path_addrs C" "y \<in> A" using at by (auto simp: at_def r_def addrs_plug)
  have p: "rb_nodes t1 z = Some ?nz" "z \<noteq> NULL" "rep (rb_nodes t1) z r" "rep (rb_nodes t1) z l" "rep_path (rb_root t1) (rb_nodes t1) z C" "apart r" "apart l" "apart_path C"
    and d: "z \<notin> path_addrs C" "z \<notin> addrs l" "z \<notin> addrs r" "addrs l \<inter> addrs r = {}" "addrs l \<inter> path_addrs C = {}"
      "addrs r \<inter> path_addrs C = {}" "addrs l \<subseteq> A" "addrs r \<union> path_addrs C \<subseteq> A" and out: "\<And>x. x \<notin> A \<Longrightarrow> rb_nodes t1 x = m x"
    using at1 by (auto simp: at_def)
  define h2 where "h2 = (rb_nodes t1)(y \<mapsto> \<lparr>rb_color = cy, rb_parent = up D, rb_left = NULL, rb_right = ptr r, rb_key = ky\<rparr>)"
  have u: "rb_update t1 y (\<lambda>n. n\<lparr>rb_right := ptr r\<rparr>) = Some (t1\<lparr>rb_nodes := h2\<rparr>)" using ny by (simp add: rb_update_def rb_node_at_def h2_def)
  have "rep (rb_nodes (t1\<lparr>rb_nodes := h2\<rparr>)) z r" using p(3) yout(1) by (simp add: h2_def)
  then obtain h3 where h3: "rb_set_parent (t1\<lparr>rb_nodes := h2\<rparr>) (ptr r) y = Some (t1\<lparr>rb_nodes := h3\<rparr>)" "rep h3 y r"
      "\<And>x. x \<notin> addrs r \<Longrightarrow> h3 x = h2 x"
    by (rule set_parent_rep [OF _ p(6), of _ _ y]) simp
  have "h3 x = rb_nodes t1 x" if "x \<in> insert z (addrs l \<union> path_addrs C)" for x
  proof -
    have "x \<notin> addrs r" "x \<noteq> y" using that d yout by auto
    then show ?thesis using h3(3) by (simp add: h2_def)
  qed
  then have lp: "h3 z = Some ?nz" "rep h3 z l" "rep_path (rb_root t1) h3 z C"
    using p(1,4,5) rep_cong [of l h3 "rb_nodes t1"] rep_path_cong [of C h3 "rb_nodes t1"] by auto
  have out': "h3 x = m x" if "x \<notin> A" for x
  proof -
    have "x \<notin> addrs r" "x \<noteq> y" using d(8) that yout(5) by auto
    then show ?thesis using h3(3) out that by (simp add: h2_def)
  qed
  have y3: "h3 y = Some \<lparr>rb_color = cy, rb_parent = up D, rb_left = NULL, rb_right = ptr r, rb_key = ky\<rparr>" using h3(3) yout(1) by (simp add: h2_def)
  have "\<exists>s2 s3 s4 s5. rb_transplant (t1\<lparr>rb_nodes := h3\<rparr>) z y = Some s2 \<and> rb_node_at s2 z = Some ?nz \<and> rb_update s2 y (\<lambda>n. n\<lparr>rb_left := ptr l\<rparr>) = Some s3 \<and>
    rb_set_parent s3 (ptr l) y = Some s4 \<and> rb_node_at s4 z = Some ?nz \<and> rb_update s4 y (\<lambda>n. n\<lparr>rb_color := c\<rparr>) = Some s5 \<and>
    at m A s5 C (Nd c l y ky r)"
    by (rule take_place [where t = "Nd cy Lf y ky r" and q = "up D"]) (use p(2,6-8) d yout ny(2) y3 h3(2) lp out' in auto)
  moreover have "rb_node_at t1 z = Some ?nz" using p(1,2) by (simp add: rb_node_at_def)
  ultimately show ?thesis using t1(1) u h3(1) by fastforce
qed

lemma erase_two_at:
  assumes at: "at m A s C (Nd c l z k r)" and "r \<noteq> Lf" and d: "dig [] r = (D, Nd cy Lf y ky yr)"
  defines "C' \<equiv> D @ On_right c l y ky # C"
  shows "\<exists>s'. erase_two_children s z = Some (s', cy, ptr yr, up C', is_left (hd C')) \<and> at m A s' C' yr"
proof -
  have r: "at m A s (On_right c l z k # C) r" using at by (simp add: at_focus)
  have "dig (On_right c l z k # C) r = (D @ On_right c l z k # C, Nd cy Lf y ky yr)" using dig_append [of "[]" "On_right c l z k # C" r] d by simp
  then have y: "rb_leftmost s (ptr r) = Some y" "at m A s (D @ On_right c l z k # C) (Nd cy Lf y ky yr)"
    using leftmost_at [OF r assms(2)] by simp_all
  note nz = at_node(2) [OF at] and ny = at_node(2) [OF y(2)]
  have left: "\<forall>f \<in> set D. \<exists>c a k r. f = On_left c a k r" using dig_path [OF d] by auto
  show ?thesis
  proof (cases "D = []")
    case True
    have at1: "at m A s C (Nd c l z k (Nd cy Lf y ky yr))" using y(2) True by (simp add: at_focus)
    show ?thesis
      using successor_child [OF at1] nz ny y(1) True
      by (elim exE conjE) (simp add: erase_two_children_def C'_def at_focus)
  next
    case False
    obtain f E where D: "D = f # E" using False by (cases D) auto
    then have il: "is_left f" using left by auto
    have "up D \<in> path_addrs D" using up_in_path [OF False] .
    then have upz: "up D \<noteq> z" using y(2) by (auto simp: at_def apart_path_append)
    have isl: "is_left_child s y (up D) = Some True"
      by (rule is_left_child_at [OF y(2)]) (use il D in auto)
    have fin: "at m A s5 C' yr \<longleftrightarrow> at m A s5 C (Nd c l y ky (plug D yr))" for s5
      by (simp only: at_plug [of m A s5 C'] at_plug [of m A s5 C]) (simp add: C'_def plug_append)
    show ?thesis
      using successor_deep [OF y(2) False] nz ny y(1) False upz isl il D fin
      by (elim exE conjE) (simp add: erase_two_children_def C'_def)
  qed
qed

lemma erase_unlink_at:
  assumes at: "at m A s C (Nd c l z k r)" and pos: "erase_pos C (Nd c l z k r) = (C', x, cy)"
  shows "\<exists>s' b. erase_unlink s z = Some (s', cy, ptr x, up C', b) \<and> at m A s' C' x \<and> (C' \<noteq> [] \<longrightarrow> b = is_left (hd C'))"
proof (cases "l = Lf \<or> r = Lf")
  case True
  have lr: "at m A s (On_left c z k r # C) l" "at m A s (On_right c l z k # C) r" using at by (simp_all add: at_focus)
  have x: "C' = C" "cy = c" "x = (if l = Lf then r else l)" using pos True by (auto split: if_splits)
  obtain b where b: "is_left_child s z (up C) = Some b" "C \<noteq> [] \<longrightarrow> b = is_left (hd C)"
    using is_left_child_at [OF at] by auto
  obtain s' where s': "rb_transplant s z (ptr x) = Some s'" "at m A s' C x"
    by (rule unlink_one [OF at, of x]) (use x(3) True in auto)
  show ?thesis
  proof (cases "l = Lf")
    case True
    then show ?thesis using at_node(2) [OF at] b s' x by (simp add: erase_unlink_def)
  next
    case False
    then have "r = Lf" using \<open>l = Lf \<or> r = Lf\<close> by simp
    then show ?thesis using at_node(2) [OF at] b s' x False at_ptr [OF lr(1)] by (simp add: erase_unlink_def)
  qed
next
  case False
  have lr: "at m A s (On_left c z k r # C) l" "at m A s (On_right c l z k # C) r" using at by (simp_all add: at_focus)
  obtain D t' where d: "dig [] r = (D, t')" by (cases "dig [] r")
  obtain c1 y ky yr where t': "t' = Nd c1 Lf y ky yr" using dig_leftmost [OF d] False by auto
  have x: "C' = D @ On_right c l y ky # C" "x = yr" "cy = c1" using pos False d t' by auto
  then show ?thesis
    using erase_two_at [OF at _ d [unfolded t']] at_node(2) [OF at] at_ptr [OF lr(1)] at_ptr [OF lr(2)] False
    by (auto simp: erase_unlink_def)
qed

lemma black_position:
  assumes "red_black (plug C (Nd RB_BLACK l z k r))" and "l = Lf \<and> x = r \<or> r = Lf \<and> x = l"
  shows "\<exists>i j. calm (blacken x) \<and> level i x \<and> calm_path RB_BLACK C \<and> level_path (Suc i) j C"
proof -
  obtain n j where "calm (Nd RB_BLACK l z k r)" "calm_path RB_BLACK C" "level n (Nd RB_BLACK l z k r)" "level_path n j C"
    using assms(1) by (auto simp: red_black_def calm_plug level_plug)
  then show ?thesis using assms(2) by auto
qed

lemma erase_pos_black:
  assumes "red_black (plug C (Nd c l z k r))" and "erase_pos C (Nd c l z k r) = (C', x, RB_BLACK)"
  shows "\<exists>i j. calm (blacken x) \<and> level i x \<and> calm_path RB_BLACK C' \<and> level_path (Suc i) j C'"
proof (cases "l = Lf \<or> r = Lf")
  case True
  then have "C' = C" "c = RB_BLACK" "l = Lf \<and> x = r \<or> r = Lf \<and> x = l" using assms(2) by (auto split: if_splits)
  then show ?thesis using black_position assms(1) by blast
next
  case False
  obtain D t' where d: "dig [] r = (D, t')" by (cases "dig [] r")
  obtain c1 y ky yr where t': "t' = Nd c1 Lf y ky yr" using dig_leftmost [OF d] False by auto
  have x: "C' = D @ On_right c l y ky # C" "x = yr" "c1 = RB_BLACK" using assms(2) False d t' by auto
  have "plug C' (Nd RB_BLACK Lf y ky yr) = plug C (Nd c l y ky r)" using plug_dig [OF d] t' x by (simp add: plug_append)
  then have "red_black (plug C' (Nd RB_BLACK Lf y ky yr))" using assms(1) red_black_rename [of C c l z k r y ky] by simp
  then show ?thesis using black_position [of C' Lf y ky yr x] x(2) by simp
qed

lemma rb_erase_at:
  assumes at: "at m A s C (Nd c l z k r)" and rb: "red_black (plug C (Nd c l z k r))"
  shows "\<exists>s'. rb_erase s z = Some s' \<and> at m A s' [] (erase_tree C (Nd c l z k r))"
proof -
  obtain C' x cy where pos: "erase_pos C (Nd c l z k r) = (C', x, cy)" by (cases "erase_pos C (Nd c l z k r)") auto
  obtain s' b where s': "erase_unlink s z = Some (s', cy, ptr x, up C', b)" "at m A s' C' x" "C' \<noteq> [] \<longrightarrow> b = is_left (hd C')"
    using erase_unlink_at [OF at pos] by blast
  show ?thesis
  proof (cases cy)
    case RB_RED
    then show ?thesis using s' pos at_node(1) [OF at] at_plug [of m A s' C' x] by (simp add: rb_erase_def erase_tree_def)
  next
    case RB_BLACK
    obtain i j where "calm (blacken x)" "level i x" "calm_path RB_BLACK C'" "level_path (Suc i) j C'"
      using erase_pos_black [OF rb pos [unfolded RB_BLACK]] by blast
    then have "\<exists>s''. rb_erase_fixup s' (ptr x) (up C') b = Some s'' \<and> at m A s'' [] (erase_repair C' x)"
      by (rule erase_fixup_at [OF s'(2) _ _ _ _ s'(3)])
    then show ?thesis using s'(1) pos at_node(1) [OF at] RB_BLACK by (simp add: rb_erase_def erase_tree_def)
  qed
qed

end
