(* ===== verification/Rbtree_props.thy ===== *)
theory Rbtree_props
  imports Rbtree_del
begin

text \<open>
  What the red-black tree of \<^verbatim>\<open>kernel/rbtree.c\<close> guarantees to its users, in terms of the sorted list of its nodes; the
  interface \<open>ready_queue\<close> is what the scheduler relies on.
\<close>

subsection \<open>Keys\<close>

text \<open>No operation changes a key, or the set of nodes in memory.\<close>

definition rb_keys :: "rb_tree \<Rightarrow> addr \<rightharpoonup> u64" where
  "rb_keys s = (\<lambda>a. map_option rb_key (rb_nodes s a))"

lemma keys_root [simp]: "rb_keys (s\<lparr>rb_root := r\<rparr>) = rb_keys s"
  by (simp add: rb_keys_def)

lemma keys_update: "rb_update s a f = Some s' \<Longrightarrow> (\<And>n. rb_key (f n) = rb_key n) \<Longrightarrow> rb_keys s' = rb_keys s"
  by (auto simp: rb_update_def rb_keys_def rb_node_at_def bind_eq_Some_conv split: if_splits)

named_theorems same_keys "operations that keep every key"

lemma keys_set_red [same_keys]: "rb_set_red s a = Some s' \<Longrightarrow> rb_keys s' = rb_keys s" and
  keys_set_black [same_keys]: "rb_set_black s a = Some s' \<Longrightarrow> rb_keys s' = rb_keys s" and
  keys_set_parent [same_keys]: "rb_set_parent s a p = Some s' \<Longrightarrow> rb_keys s' = rb_keys s"
  by (auto simp: rb_set_red_def rb_set_black_def rb_set_parent_def split: if_splits dest: keys_update)

lemma keys_fields [same_keys]:
  "rb_update s a (\<lambda>n. n\<lparr>rb_left := v\<rparr>) = Some s' \<Longrightarrow> rb_keys s' = rb_keys s"
  "rb_update s a (\<lambda>n. n\<lparr>rb_right := v\<rparr>) = Some s' \<Longrightarrow> rb_keys s' = rb_keys s"
  "rb_update s a (\<lambda>n. n\<lparr>rb_parent := v\<rparr>) = Some s' \<Longrightarrow> rb_keys s' = rb_keys s"
  "rb_update s a (\<lambda>n. n\<lparr>rb_color := c\<rparr>) = Some s' \<Longrightarrow> rb_keys s' = rb_keys s"
  by (erule keys_update, simp)+

lemma keys_replace_child [same_keys]: "rb_replace_child s x y = Some s' \<Longrightarrow> rb_keys s' = rb_keys s"
  by (auto simp: rb_replace_child_def bind_eq_Some_conv split: if_splits dest: same_keys)

lemma keys_rotate [same_keys]:
  "rb_rotate_left s x = Some s' \<Longrightarrow> rb_keys s' = rb_keys s" "rb_rotate_right s x = Some s' \<Longrightarrow> rb_keys s' = rb_keys s"
  by (auto simp: rb_rotate_left_def rb_rotate_right_def bind_eq_Some_conv Let_def split: if_splits dest!: same_keys)

lemma keys_transplant [same_keys]: "rb_transplant s u v = Some s' \<Longrightarrow> rb_keys s' = rb_keys s"
  by (auto simp: rb_transplant_def bind_eq_Some_conv dest!: same_keys)

lemma keys_insert_left [same_keys]: "insert_left_case s a p g = Some (s', r) \<Longrightarrow> rb_keys s' = rb_keys s"
  unfolding insert_left_case_def Let_def
  by (auto simp: bind_eq_Some_conv split: if_splits dest!: keys_set_red keys_set_black keys_rotate)

lemma keys_insert_right [same_keys]: "insert_right_case s a p g = Some (s', r) \<Longrightarrow> rb_keys s' = rb_keys s"
  unfolding insert_right_case_def Let_def
  by (auto simp: bind_eq_Some_conv split: if_splits dest!: keys_set_red keys_set_black keys_rotate)

lemma keys_insert_step [same_keys]: "insert_fixup_step s a = Some (s', r) \<Longrightarrow> rb_keys s' = rb_keys s"
  by (auto simp: insert_fixup_step_def bind_eq_Some_conv Let_def split: if_splits dest!: keys_insert_left keys_insert_right)

lemma keys_insert_fixup [same_keys]:
  assumes "rb_insert_fixup s a = Some s'"
  shows "rb_keys s' = rb_keys s"
  by (rule rb_insert_fixup.raw_induct [OF _ assms, where P = "\<lambda>s a s'. rb_keys s' = rb_keys s"])
    (auto simp: bind_eq_Some_conv split: option.splits dest!: keys_insert_step keys_set_black)

lemma keys_write_link [same_keys]: "write_link s l v = Some s' \<Longrightarrow> rb_keys s' = rb_keys s"
  by (cases l) (auto dest: keys_fields)

lemma keys_insert [same_keys]: "rb_insert s a = Some s' \<Longrightarrow> rb_keys s' = rb_keys s"
  by (auto simp: rb_insert_def bind_eq_Some_conv split: if_splits dest!: keys_insert_fixup keys_write_link keys_update)

lemma keys_move_up [same_keys]: "erase_move_up s w p b = Some (s', r) \<Longrightarrow> rb_keys s' = rb_keys s"
  by (auto simp: erase_move_up_def bind_eq_Some_conv split: if_splits dest!: keys_set_red)

text \<open>The longer definitions, bind by bind.\<close>

definition kept :: "(addr \<rightharpoonup> u64) \<Rightarrow> ('r \<Rightarrow> rb_tree) \<Rightarrow> 'r option \<Rightarrow> bool" where
  "kept K state r \<longleftrightarrow> (\<forall>x. r = Some x \<longrightarrow> rb_keys (state x) = K)"

lemma keptI:
  "(\<And>s. kept K (\<lambda>s. s) r \<Longrightarrow> rb_keys s = K \<Longrightarrow> kept K st (f s)) \<Longrightarrow> kept K (\<lambda>s. s) r \<Longrightarrow> kept K st (Option.bind r f)"
  "(\<And>n :: rb_node. kept K st (fn n)) \<Longrightarrow> kept K st (Option.bind rn fn)"
  "(\<And>b :: bool. kept K st (fb b)) \<Longrightarrow> kept K st (Option.bind rb fb)"
  "(\<And>a :: addr. kept K st (fa a)) \<Longrightarrow> kept K st (Option.bind ra fa)"
  "(\<And>s a b. rb_keys s = K \<Longrightarrow> kept K st (ft s a b)) \<Longrightarrow> kept K fst rt \<Longrightarrow> kept K st (Option.bind rt (\<lambda>(s, a, b). ft s a b))"
  "(c \<Longrightarrow> kept K st r1) \<Longrightarrow> (\<not> c \<Longrightarrow> kept K st r2) \<Longrightarrow> kept K st (if c then r1 else r2)"
  "rb_keys (st x) = K \<Longrightarrow> kept K st (Some x)"
  by (auto simp: kept_def bind_eq_Some_conv split: prod.splits if_splits)

lemma kept_ops:
  "rb_keys s = K \<Longrightarrow> kept K (\<lambda>s. s) (rb_set_red s a)" "rb_keys s = K \<Longrightarrow> kept K (\<lambda>s. s) (rb_set_black s a)"
  "rb_keys s = K \<Longrightarrow> kept K (\<lambda>s. s) (rb_set_parent s a p)" "rb_keys s = K \<Longrightarrow> kept K (\<lambda>s. s) (rb_rotate_left s a)"
  "rb_keys s = K \<Longrightarrow> kept K (\<lambda>s. s) (rb_rotate_right s a)" "rb_keys s = K \<Longrightarrow> kept K (\<lambda>s. s) (rb_transplant s a p)"
  "rb_keys s = K \<Longrightarrow> kept K (\<lambda>s. s) (rb_update s a (\<lambda>n. n\<lparr>rb_color := c\<rparr>))" "rb_keys s = K \<Longrightarrow> kept K (\<lambda>s. s) (rb_update s a (\<lambda>n. n\<lparr>rb_left := v\<rparr>))"
  "rb_keys s = K \<Longrightarrow> kept K (\<lambda>s. s) (rb_update s a (\<lambda>n. n\<lparr>rb_right := v\<rparr>))" "rb_keys s = K \<Longrightarrow> kept K fst (erase_move_up s w p b)"
  by (auto simp: kept_def dest: same_keys)

lemmas kept_rules = kept_ops keptI

lemma kept_black: "rb_keys s = K \<Longrightarrow> kept K fst (erase_black_right s x p w)" "rb_keys s = K \<Longrightarrow> kept K fst (erase_black_left s x p w)"
  unfolding erase_black_right_def erase_black_left_def Let_def by (intro kept_rules; simp)+

lemma keys_black_right [same_keys]: "erase_black_right s x p w = Some (s', r) \<Longrightarrow> rb_keys s' = rb_keys s" and
  keys_black_left [same_keys]: "erase_black_left s x p w = Some (s', r) \<Longrightarrow> rb_keys s' = rb_keys s"
  using kept_black [of s "rb_keys s" x p w] by (auto simp: kept_def)

lemma keys_erase_step [same_keys]: "erase_fixup_step s x p b = Some (s', r) \<Longrightarrow> rb_keys s' = rb_keys s"
  unfolding erase_fixup_step_def Let_def
  by (auto simp: bind_eq_Some_conv split: if_splits
      dest!: keys_set_red keys_set_black keys_rotate keys_black_right keys_black_left)

lemma keys_erase_fixup [same_keys]:
  assumes "rb_erase_fixup s x p b = Some s'"
  shows "rb_keys s' = rb_keys s"
  by (rule rb_erase_fixup.raw_induct [where P = "\<lambda>s x p b s'. rb_keys s' = rb_keys s" and xa = "(((s, x), p), b)", unfolded prod.case, OF _ assms])
    (auto simp: bind_eq_Some_conv split: if_split_asm dest!: keys_set_black, case_tac b, auto dest!: keys_erase_step keys_set_black)

lemma kept_two_children: "rb_keys s = K \<Longrightarrow> kept K fst (erase_two_children s z)"
  unfolding erase_two_children_def Let_def by (intro kept_rules; simp)

lemma keys_two_children [same_keys]: "erase_two_children s z = Some (s', r) \<Longrightarrow> rb_keys s' = rb_keys s"
  using kept_two_children [of s "rb_keys s" z] by (auto simp: kept_def)

lemma keys_erase [same_keys]: "rb_erase s z = Some s' \<Longrightarrow> rb_keys s' = rb_keys s"
  by (auto simp: rb_erase_def erase_unlink_def bind_eq_Some_conv split: if_splits dest!: keys_two_children keys_transplant keys_erase_fixup)

subsection \<open>The tree as a sorted list\<close>

text \<open>The memory holds a red-black tree at the root pointer, whose nodes are these, in ascending order of key and address.\<close>

definition rb_holds :: "rb_tree \<Rightarrow> (u64 \<times> addr) list \<Rightarrow> bool" where
  "rb_holds s xs \<longleftrightarrow> (\<exists>t. at (rb_nodes s) (addrs t) s [] t \<and> red_black t \<and> items t = xs \<and> sorted_wrt (<) xs)"

lemma at_holds: "at m A s [] t \<Longrightarrow> red_black t \<Longrightarrow> sorted_wrt (<) (items t) \<Longrightarrow> rb_holds s (items t)"
  unfolding rb_holds_def by (rule exI [of _ t]) (simp add: at_def)

lemma at_widen: "at (rb_nodes s) (addrs t) s [] t \<Longrightarrow> at (rb_nodes s) (B \<union> addrs t) s [] t"
  by (auto simp: at_def)

lemma at_frame: "at m A s' [] t' \<Longrightarrow> x \<notin> A \<Longrightarrow> rb_nodes s' x = m x"
  by (simp add: at_def)

lemma holds_keys:
  assumes "rb_holds s xs" and "(k, a) \<in> set xs"
  shows "rb_keys s a = Some k" and "a \<noteq> NULL"
proof -
  obtain t where t: "at (rb_nodes s) (addrs t) s [] t" "items t = xs" using assms(1) by (auto simp: rb_holds_def)
  obtain C c l r where "t = plug C (Nd c l a k r)" using position assms(2) t(2) by blast
  then have "at (rb_nodes s) (addrs t) s C (Nd c l a k r)" using t(1) by (simp add: at_plug [of _ _ s C])
  then show "rb_keys s a = Some k" "a \<noteq> NULL" by (simp_all add: at_def rb_keys_def)
qed

lemma rb_insert_holds:
  assumes "rb_holds s xs" and "rb_keys s a = Some k" "a \<noteq> NULL" "a \<notin> snd ` set xs"
  shows "\<exists>s'. rb_insert s a = Some s' \<and> rb_holds s' (insort (k, a) xs) \<and> rb_keys s' = rb_keys s \<and>
    (\<forall>x. x \<notin> insert a (snd ` set xs) \<longrightarrow> rb_nodes s' x = rb_nodes s x)"
proof -
  obtain t where t: "at (rb_nodes s) (addrs t) s [] t" "red_black t" "items t = xs" "sorted_wrt (<) xs" using assms(1) by (auto simp: rb_holds_def)
  obtain n where n: "rb_nodes s a = Some n" "rb_key n = k" using assms(2) by (auto simp: rb_keys_def)
  have A: "insert a (addrs t) = insert a (snd ` set xs)" using t(3) by (simp add: addrs_items)
  have "at (rb_nodes s) (insert a (addrs t)) s [] t" using at_widen [OF t(1), of "{a}"] by simp
  then obtain s' where s': "rb_insert s a = Some s'" "at (rb_nodes s) (insert a (addrs t)) s' [] (insert_tree k a t)"
    using rb_insert_at [OF _ _ insertI1 assms(3) n] assms(4) t(3) addrs_items [of t] by blast
  have "(k, a) \<notin> set xs" using assms(4) by force
  then have i: "items (insert_tree k a t) = insort (k, a) xs" using items_insert_tree t(3,4) by simp
  have "sorted_wrt (<) (insort (k, a) xs)"
    using t(4) \<open>(k, a) \<notin> set xs\<close> by (simp add: strict_sorted_iff sorted_insort distinct_insort)
  then have "rb_holds s' (insort (k, a) xs)" using at_holds [OF s'(2) insert_tree_red_black [OF t(2)]] i by simp
  then show ?thesis using s'(1) keys_insert [OF s'(1)] at_frame [OF s'(2)] unfolding A by auto
qed

lemma rb_erase_holds:
  assumes "rb_holds s xs" and "(k, a) \<in> set xs"
  shows "\<exists>s'. rb_erase s a = Some s' \<and> rb_holds s' (remove1 (k, a) xs) \<and> rb_keys s' = rb_keys s \<and>
    (\<forall>x. x \<notin> snd ` set xs \<longrightarrow> rb_nodes s' x = rb_nodes s x)"
proof -
  obtain t where t: "at (rb_nodes s) (addrs t) s [] t" "red_black t" "items t = xs" "sorted_wrt (<) xs" using assms(1) by (auto simp: rb_holds_def)
  obtain C c l r where pos: "t = plug C (Nd c l a k r)" using position assms(2) t(3) by blast
  have "at (rb_nodes s) (addrs t) s C (Nd c l a k r)" using t(1) by (simp add: at_plug [of _ _ s C] pos)
  then obtain s' where s': "rb_erase s a = Some s'" "at (rb_nodes s) (addrs t) s' [] (erase_tree C (Nd c l a k r))"
    using rb_erase_at t(2) pos by blast
  have xs: "xs = (items_before C @ items l) @ (k, a) # items r @ items_after C" using t(3) pos by (simp add: items_plug)
  have "distinct xs" using t(4) by (simp add: strict_sorted_iff)
  then have r: "remove1 (k, a) xs = items (erase_tree C (Nd c l a k r))"
    unfolding xs by (simp add: remove1_append items_erase_tree)
  have "sorted_wrt (<) (remove1 (k, a) xs)" using t(4) by (simp add: strict_sorted_iff sorted_remove1)
  then have "rb_holds s' (remove1 (k, a) xs)" using at_holds [OF s'(2) erase_tree_red_black] t(2) pos r by simp
  moreover have "addrs t = snd ` set xs" using t(3) by (simp add: addrs_items)
  ultimately show ?thesis using s'(1) keys_erase [OF s'(1)] at_frame [OF s'(2)] by auto
qed

lemma rb_find_min_holds:
  assumes "rb_holds s xs"
  shows "rb_find_min s = Some (case xs of [] \<Rightarrow> NULL | x # _ \<Rightarrow> snd x)"
proof -
  obtain t where t: "at (rb_nodes s) (addrs t) s [] t" "items t = xs" using assms by (auto simp: rb_holds_def)
  show ?thesis using rb_find_min_at [OF t(1)] t(2) by (cases "t = Lf"; cases xs) (auto simp flip: items_Nil)
qed

lemma rb_set_key_holds:
  assumes "rb_holds s xs" and "rb_keys s a = Some k" "a \<noteq> NULL" "a \<notin> snd ` set xs"
  shows "\<exists>s'. rb_set_key s a k' = Some s' \<and> rb_holds s' xs \<and> rb_keys s' = (rb_keys s)(a \<mapsto> k') \<and>
    rb_root s' = rb_root s \<and> (\<forall>x. x \<noteq> a \<longrightarrow> rb_nodes s' x = rb_nodes s x)"
proof -
  obtain t where t: "at (rb_nodes s) (addrs t) s [] t" "red_black t" "items t = xs" "sorted_wrt (<) xs" using assms(1) by (auto simp: rb_holds_def)
  obtain n where n: "rb_nodes s a = Some n" using assms(2) by (auto simp: rb_keys_def)
  let ?s = "s\<lparr>rb_nodes := (rb_nodes s)(a \<mapsto> n\<lparr>rb_key := k'\<rparr>)\<rparr>"
  have "rb_set_key s a k' = Some ?s" using n assms(3) by (simp add: rb_set_key_def rb_update_def rb_node_at_def)
  moreover have "at (rb_nodes s) ({a} \<union> addrs t) ?s [] t"
    by (rule at_write [OF at_widen [OF t(1)]]) (use assms(4) t(3) in \<open>auto simp: addrs_items\<close>)
  then have "rb_holds ?s xs" using at_holds t by blast
  moreover have "rb_keys ?s = (rb_keys s)(a \<mapsto> k')" by (auto simp: rb_keys_def)
  ultimately show ?thesis by simp
qed

lemma holds_empty: "rb_holds (rb_init s) []"
  unfolding rb_holds_def by (rule exI [of _ Lf]) (simp add: at_def rb_init_def red_black_def)

lemma holds_frame:
  assumes "rb_holds s xs" and "rb_root s' = rb_root s" and "\<And>x. x \<in> snd ` set xs \<Longrightarrow> rb_nodes s' x = rb_nodes s x"
  shows "rb_holds s' xs"
proof -
  obtain t where t: "at (rb_nodes s) (addrs t) s [] t" "red_black t" "items t = xs" "sorted_wrt (<) xs" using assms(1) by (auto simp: rb_holds_def)
  have "rep (rb_nodes s') 0 t \<longleftrightarrow> rep (rb_nodes s) 0 t" by (rule rep_cong) (use assms(3) t(3) in \<open>auto simp: addrs_items\<close>)
  then have "at (rb_nodes s') (addrs t) s' [] t" using t(1) assms(2) by (simp add: at_def)
  then show ?thesis using t at_holds by blast
qed

lemma holds_ordered:
  assumes "rb_holds s xs"
  shows "sorted_wrt (<) xs" and "distinct (map snd xs)"
  using assms by (auto simp: rb_holds_def at_def apart_items)

lemma rb_find_holds:
  assumes "rb_holds s xs"
  shows "\<exists>a. rb_find s key = Some a \<and> (if \<exists>b. (key, b) \<in> set xs then (key, a) \<in> set xs else a = NULL)"
proof -
  obtain t where t: "at (rb_nodes s) (addrs t) s [] t" "items t = xs" "sorted_wrt (<) xs" using assms by (auto simp: rb_holds_def)
  show ?thesis using find_from_at [OF t(1), of key] t(2,3) at_root [OF t(1)] by (auto simp: rb_find_def split: if_splits)
qed

lemma rb_next_holds:
  assumes "rb_holds s xs" and "i < length xs"
  shows "rb_next s (snd (xs ! i)) = Some (if Suc i < length xs then snd (xs ! Suc i) else NULL)"
proof -
  obtain t where t: "at (rb_nodes s) (addrs t) s [] t" "items t = xs" "sorted_wrt (<) xs" using assms(1) by (auto simp: rb_holds_def)
  obtain k a where ka: "xs ! i = (k, a)" by (cases "xs ! i")
  then have "(k, a) \<in> set (items t)" using assms(2) t(2) nth_mem [OF assms(2)] by simp
  then obtain C c l r where pos: "t = plug C (Nd c l a k r)" using position by blast
  have "at (rb_nodes s) (addrs t) s C (Nd c l a k r)" using t(1) by (simp add: at_plug [of _ _ s C] pos)
  note nx = rb_next_at [OF this]
  let ?us = "items_before C @ items l" and ?vs = "items r @ items_after C"
  have xs: "xs = ?us @ (k, a) # ?vs" using t(2) pos by (simp add: items_plug)
  then have "xs ! length ?us = xs ! i" "length ?us < length xs" using ka nth_append_length [of ?us "(k, a)" ?vs] by simp_all
  moreover have "distinct xs" using t(3) by (simp add: strict_sorted_iff)
  ultimately have i: "i = length ?us" using assms(2) by (simp add: nth_eq_iff_index_eq)
  have "drop (Suc i) xs = ?vs" unfolding i by (subst xs) simp
  then have "?vs = [] \<longleftrightarrow> \<not> Suc i < length xs" "Suc i < length xs \<Longrightarrow> hd ?vs = xs ! Suc i"
    using hd_drop_conv_nth [of "Suc i" xs] by auto
  then show ?thesis using nx ka by (auto simp: hd_append)
qed

subsection \<open>Depth\<close>

fun height :: "tree \<Rightarrow> nat" where
  "height Lf = 0"
| "height (Nd c l a k r) = Suc (max (height l) (height r))"

lemma height_level: "level n t \<Longrightarrow> calm t \<Longrightarrow> height t \<le> 2 * n + (if col t = RB_RED then 1 else 0)"
proof (induction t arbitrary: n)
  case (Nd c l a k r)
  show ?case
  proof (cases c)
    case RB_RED
    then show ?thesis using Nd.IH(1) [of n] Nd.IH(2) [of n] Nd.prems by auto
  next
    case RB_BLACK
    then obtain i where "n = Suc i" "level i l" "level i r" using Nd.prems by auto
    then show ?thesis using Nd.IH(1) [of i] Nd.IH(2) [of i] Nd.prems RB_BLACK by (auto split: if_splits)
  qed
qed simp

lemma level_size: "level n t \<Longrightarrow> 2 ^ n \<le> length (items t) + 1"
proof (induction t arbitrary: n)
  case (Nd c l a k r)
  show ?case
  proof (cases c)
    case RB_RED
    then show ?thesis using Nd.IH(1) [of n] Nd.prems by auto
  next
    case RB_BLACK
    then obtain i where "n = Suc i" "level i l" "level i r" using Nd.prems by auto
    then show ?thesis using Nd.IH(1) [of i] Nd.IH(2) [of i] by simp
  qed
qed simp

lemma height_items:
  assumes "red_black t"
  shows "2 ^ height t \<le> (length (items t) + 1)\<^sup>2"
proof -
  obtain n where n: "level n t" "calm t" "col t = RB_BLACK" using assms by (auto simp: red_black_def)
  have "(2 :: nat) ^ height t \<le> 2 ^ (2 * n)" using height_level [OF n(1,2)] n(3) by (intro power_increasing) simp_all
  also have "\<dots> = (2 ^ n)\<^sup>2" by (simp add: power_mult [symmetric] mult.commute)
  also have "\<dots> \<le> (length (items t) + 1)\<^sup>2" using level_size [OF n(1)] by (rule power_mono) simp
  finally show ?thesis .
qed

subsection \<open>The interface of the scheduler\<close>

locale ready_queue =
  fixes holds :: "'q \<Rightarrow> (u64 \<times> addr) list \<Rightarrow> bool" and keys :: "'q \<Rightarrow> addr \<rightharpoonup> u64"
    and ins :: "'q \<Rightarrow> addr \<Rightarrow> 'q option" and era :: "'q \<Rightarrow> addr \<Rightarrow> 'q option" and set_key :: "'q \<Rightarrow> addr \<Rightarrow> u64 \<Rightarrow> 'q option"
    and first :: "'q \<Rightarrow> addr option"
  assumes ordered: "holds q xs \<Longrightarrow> sorted_wrt (<) xs" and addresses: "holds q xs \<Longrightarrow> distinct (map snd xs)"
    and member: "holds q xs \<Longrightarrow> (k, a) \<in> set xs \<Longrightarrow> keys q a = Some k \<and> a \<noteq> NULL"
    and ins_ok: "holds q xs \<Longrightarrow> keys q a = Some k \<Longrightarrow> a \<noteq> NULL \<Longrightarrow> a \<notin> snd ` set xs \<Longrightarrow>
      \<exists>q'. ins q a = Some q' \<and> holds q' (insort (k, a) xs) \<and> keys q' = keys q"
    and era_ok: "holds q xs \<Longrightarrow> (k, a) \<in> set xs \<Longrightarrow> \<exists>q'. era q a = Some q' \<and> holds q' (remove1 (k, a) xs) \<and> keys q' = keys q"
    and set_key_ok: "holds q xs \<Longrightarrow> keys q a = Some k \<Longrightarrow> a \<noteq> NULL \<Longrightarrow> a \<notin> snd ` set xs \<Longrightarrow>
      \<exists>q'. set_key q a k' = Some q' \<and> holds q' xs \<and> keys q' = (keys q)(a \<mapsto> k')"
    and first_ok: "holds q xs \<Longrightarrow> first q = Some (case xs of [] \<Rightarrow> NULL | x # _ \<Rightarrow> snd x)"
begin

text \<open>The first node is the least.\<close>

lemma first_least:
  assumes "holds q xs" and "xs \<noteq> []"
  obtains k a where "first q = Some a" and "(k, a) \<in> set xs" and "\<forall>y \<in> set xs. (k, a) \<le> y"
proof -
  obtain k a ys where xs: "xs = (k, a) # ys" using assms(2) by (cases xs) auto
  then have "\<forall>y \<in> set xs. (k, a) \<le> y" using ordered [OF assms(1)] by (auto simp del: less_prod_simp less_eq_prod_simp intro: less_imp_le)
  then show thesis using that [of a k] first_ok [OF assms(1)] xs by simp
qed

lemma erased_out:
  assumes "holds q xs" and "(k, a) \<in> set xs"
  shows "a \<notin> snd ` set (remove1 (k, a) xs)"
proof -
  obtain us vs where "xs = us @ (k, a) # vs" using assms(2) by (auto simp: in_set_conv_decomp)
  moreover have "distinct (map snd xs)" using addresses [OF assms(1)] .
  ultimately show ?thesis by (auto simp: remove1_append image_iff)
qed

text \<open>Giving a node a new key, and adding a node with a new key.\<close>

lemma enqueue:
  assumes "holds q xs" and "keys q a = Some k" "a \<noteq> NULL" "a \<notin> snd ` set xs"
  shows "\<exists>q1 q2. set_key q a k' = Some q1 \<and> ins q1 a = Some q2 \<and> holds q2 (insort (k', a) xs) \<and> keys q2 = (keys q)(a \<mapsto> k')"
proof -
  obtain q1 where q1: "set_key q a k' = Some q1" "holds q1 xs" "keys q1 = (keys q)(a \<mapsto> k')" using set_key_ok [OF assms] by blast
  have "keys q1 a = Some k'" using q1(3) by simp
  then show ?thesis using ins_ok [OF q1(2) _ assms(3,4)] q1 by fastforce
qed

lemma requeue:
  assumes "holds q xs" and "(k, a) \<in> set xs"
  shows "\<exists>q1 q2 q3. era q a = Some q1 \<and> set_key q1 a k' = Some q2 \<and> ins q2 a = Some q3 \<and>
    holds q3 (insort (k', a) (remove1 (k, a) xs)) \<and> keys q3 = (keys q)(a \<mapsto> k')"
proof -
  obtain q1 where q1: "era q a = Some q1" "holds q1 (remove1 (k, a) xs)" "keys q1 = keys q" using era_ok [OF assms] by blast
  have "keys q1 a = Some k" "a \<noteq> NULL" using member [OF assms] q1(3) by simp_all
  then show ?thesis using enqueue [OF q1(2) _ _ erased_out [OF assms]] q1 by fastforce
qed

end

interpretation rbq: ready_queue rb_holds rb_keys rb_insert rb_erase rb_set_key rb_find_min
proof
  show "\<exists>q'. rb_insert q a = Some q' \<and> rb_holds q' (insort (k, a) xs) \<and> rb_keys q' = rb_keys q"
    if "rb_holds q xs" "rb_keys q a = Some k" "a \<noteq> NULL" "a \<notin> snd ` set xs" for q xs a k using rb_insert_holds [OF that] by blast
  show "\<exists>q'. rb_erase q a = Some q' \<and> rb_holds q' (remove1 (k, a) xs) \<and> rb_keys q' = rb_keys q"
    if "rb_holds q xs" "(k, a) \<in> set xs" for q xs a k using rb_erase_holds [OF that] by blast
  show "\<exists>q'. rb_set_key q a k' = Some q' \<and> rb_holds q' xs \<and> rb_keys q' = (rb_keys q)(a \<mapsto> k')"
    if "rb_holds q xs" "rb_keys q a = Some k" "a \<noteq> NULL" "a \<notin> snd ` set xs" for q xs a k k' using rb_set_key_holds [OF that] by blast
qed (simp_all add: holds_ordered holds_keys rb_find_min_holds)

subsection \<open>Properties\<close>

text \<open>C7: insertion and removal refine a sorted list.  On a tree that holds the list \<open>xs\<close> of nodes, inserting a node that is not
  in it returns and puts the node at its place in the order of key and address; removing a node that is in it
  returns and takes out just this node.  The result is a red-black tree again, no key changes, and no other
  memory is touched.\<close>

theorem rbtree_refines_sorted_list:
  assumes "rb_holds s xs"
  shows "(\<forall>a k. rb_keys s a = Some k \<and> a \<noteq> NULL \<and> a \<notin> snd ` set xs \<longrightarrow> (\<exists>s'. rb_insert s a = Some s' \<and> rb_holds s' (insort (k, a) xs) \<and>
      rb_keys s' = rb_keys s \<and> (\<forall>x. x \<notin> insert a (snd ` set xs) \<longrightarrow> rb_nodes s' x = rb_nodes s x))) \<and>
    (\<forall>a k. (k, a) \<in> set xs \<longrightarrow> (\<exists>s'. rb_erase s a = Some s' \<and> rb_holds s' (remove1 (k, a) xs) \<and>
      rb_keys s' = rb_keys s \<and> (\<forall>x. x \<notin> snd ` set xs \<longrightarrow> rb_nodes s' x = rb_nodes s x)))"
  using rb_insert_holds [OF assms] rb_erase_holds [OF assms] by blast

definition rb_example :: rb_tree where
  "rb_example = \<lparr>rb_root = 0x10, rb_nodes =
     [0x10 \<mapsto> \<lparr>rb_color = RB_BLACK, rb_parent = NULL, rb_left = NULL, rb_right = 0x30, rb_key = 5\<rparr>,
      0x20 \<mapsto> \<lparr>rb_color = RB_RED, rb_parent = NULL, rb_left = NULL, rb_right = NULL, rb_key = 7\<rparr>,
      0x30 \<mapsto> \<lparr>rb_color = RB_RED, rb_parent = 0x10, rb_left = NULL, rb_right = NULL, rb_key = 9\<rparr>]\<rparr>"

lemma rb_example_holds: "rb_holds rb_example [(5, 0x10), (9, 0x30)]"
  unfolding rb_holds_def
  by (rule exI [of _ "Nd RB_BLACK Lf 0x10 5 (Nd RB_RED Lf 0x30 9 Lf)"])
    (simp add: at_def rb_example_def red_black_def)

theorem rbtree_refines_sorted_list_witness:
  "(\<exists>s'. rb_insert rb_example 0x20 = Some s' \<and> rb_holds s' [(5, 0x10), (7, 0x20), (9, 0x30)]) \<and>
   (\<exists>s'. rb_erase rb_example 0x10 = Some s' \<and> rb_holds s' [(9, 0x30)])"
proof -
  have "rb_keys rb_example 0x20 = Some 7" "(0x20 :: addr) \<notin> snd ` set [(5 :: u64, 0x10), (9, 0x30)]"
    by (simp_all add: rb_keys_def rb_example_def)
  moreover have "insort (7 :: u64, 0x20 :: addr) [(5, 0x10), (9, 0x30)] = [(5, 0x10), (7, 0x20), (9, 0x30)]" by simp
  moreover have "remove1 (5 :: u64, 0x10 :: addr) [(5, 0x10), (9, 0x30)] = [(9, 0x30)]" by simp
  moreover have "(5, 0x10) \<in> set [(5 :: u64, 0x10 :: addr), (9, 0x30)]" "(0x20 :: addr) \<noteq> NULL" by simp_all
  ultimately show ?thesis using rbtree_refines_sorted_list [OF rb_example_holds] by metis
qed

text \<open>C19: the searches, and how far they go.  \<open>rb_find_min\<close> returns the first node of the list, or the null pointer; \<open>rb_find\<close> a node
  with the key, if there is one; \<open>rb_next\<close> the next node of the list.  The path to any node is at most twice the
  binary logarithm of the number of nodes plus one.\<close>

theorem rbtree_searches:
  assumes "rb_holds s xs"
  shows "rb_find_min s = Some (case xs of [] \<Rightarrow> NULL | x # _ \<Rightarrow> snd x) \<and>
    (\<forall>key. \<exists>a. rb_find s key = Some a \<and> (if \<exists>b. (key, b) \<in> set xs then (key, a) \<in> set xs else a = NULL)) \<and>
    (\<forall>i < length xs. rb_next s (snd (xs ! i)) = Some (if Suc i < length xs then snd (xs ! Suc i) else NULL)) \<and>
    (\<exists>t. at (rb_nodes s) (addrs t) s [] t \<and> items t = xs \<and> 2 ^ height t \<le> (length xs + 1)\<^sup>2)"
proof -
  have "\<exists>t. at (rb_nodes s) (addrs t) s [] t \<and> items t = xs \<and> 2 ^ height t \<le> (length xs + 1)\<^sup>2"
    using assms height_items unfolding rb_holds_def by blast
  then show ?thesis using rb_find_min_holds [OF assms] rb_find_holds [OF assms] rb_next_holds [OF assms] by blast
qed

theorem rbtree_searches_witness:
  "rb_find_min rb_example = Some 0x10 \<and> rb_next rb_example 0x10 = Some 0x30 \<and> rb_next rb_example 0x30 = Some NULL \<and> rb_find rb_example 7 = Some NULL"
proof -
  note q = rbtree_searches [OF rb_example_holds]
  have "rb_find_min rb_example = Some 0x10" using q [THEN conjunct1] by simp
  moreover have "rb_next rb_example 0x10 = Some 0x30" "rb_next rb_example 0x30 = Some NULL"
    using q [THEN conjunct2, THEN conjunct2, THEN conjunct1, rule_format, of 0] q [THEN conjunct2, THEN conjunct2, THEN conjunct1, rule_format, of 1]
    by simp_all
  moreover have "rb_find rb_example 7 = Some NULL" using q [THEN conjunct2, THEN conjunct1, rule_format, of 7] by simp
  ultimately show ?thesis by simp
qed

end
