(* ===== verification/Sched_inv.thy ===== *)
theory Sched_inv
  imports Sched Rbtree_props
begin

text \<open>
  The invariant of the task table and the ready tree on one processor, and what each operation of the
  scheduler does to it.
\<close>

subsection \<open>Operations on the tree\<close>

definition queue :: "sched \<Rightarrow> nat \<Rightarrow> (u64 \<times> addr) list \<Rightarrow> bool" where
  "queue st c xs \<longleftrightarrow> c < length (sc_rqs st) \<and> rb_holds (ready_tree st (sc_rqs st ! c)) xs"

text \<open>The state with another tree in queue \<open>c\<close>.\<close>

definition retree :: "sched \<Rightarrow> nat \<Rightarrow> rb_tree \<Rightarrow> sched" where
  "retree st c s = (set_rq st c ((sc_rqs st ! c)\<lparr>rq_tree := rb_root s\<rparr>))\<lparr>sc_nodes := rb_nodes s\<rparr>"

lemma retree_simps [simp]:
  "sc_current (retree st c s) = sc_current st" "sc_init_task (retree st c s) = sc_init_task st" "sc_idle_task (retree st c s) = sc_idle_task st"
  "sc_min_vruntime (retree st c s) = sc_min_vruntime st" "sc_tasks (retree st c s) = sc_tasks st" "sc_nodes (retree st c s) = rb_nodes s"
  "sc_pid_bitmap (retree st c s) = sc_pid_bitmap st" "sc_next_pid (retree st c s) = sc_next_pid st" "sc_pid_table (retree st c s) = sc_pid_table st"
  "sc_num_cpus (retree st c s) = sc_num_cpus st" "sc_cpu (retree st c s) = sc_cpu st" "length (sc_rqs (retree st c s)) = length (sc_rqs st)"
  "task_at (retree st c s) = task_at st"
  by (simp_all add: retree_def set_rq_def task_at_def fun_eq_iff)

lemma retree_retree: "c < length (sc_rqs st) \<Longrightarrow> retree (retree st c s) c s' = retree st c s'"
  by (simp add: retree_def set_rq_def)

lemma retree_same: "c < length (sc_rqs st) \<Longrightarrow> retree st c (ready_tree st (sc_rqs st ! c)) = st"
  by (simp add: retree_def set_rq_def ready_tree_def)

lemma on_tree_retree: "c < length (sc_rqs st) \<Longrightarrow> on_tree st c f = map_option (retree st c) (f (ready_tree st (sc_rqs st ! c)))"
  by (cases "f (ready_tree st (sc_rqs st ! c))") (simp_all add: on_tree_def get_rq_def retree_def)

lemma queue_retree: "c < length (sc_rqs st) \<Longrightarrow> queue (retree st c s) c xs \<longleftrightarrow> rb_holds s xs"
  by (cases s) (simp add: queue_def retree_def set_rq_def ready_tree_def)

lemma keys_dom: "rb_keys s' = rb_keys s \<Longrightarrow> dom (rb_nodes s') = dom (rb_nodes s)"
proof -
  assume *: "rb_keys s' = rb_keys s"
  have "rb_nodes s' x = None \<longleftrightarrow> rb_nodes s x = None" for x using fun_cong [OF *, of x] unfolding rb_keys_def by (metis map_option_is_None)
  then show ?thesis by (auto simp: dom_def)
qed

lemma tree_remove_ok:
  assumes "queue st c xs" and "(key, node_of t) \<in> set xs"
  shows "\<exists>s. tree_remove st c t = Some (retree st c s) \<and> rb_holds s (remove1 (key, node_of t) xs) \<and> dom (rb_nodes s) = dom (sc_nodes st)"
proof -
  let ?s = "ready_tree st (sc_rqs st ! c)"
  have c: "c < length (sc_rqs st)" and h: "rb_holds ?s xs" using assms(1) by (simp_all add: queue_def)
  obtain s where s: "rb_erase ?s (node_of t) = Some s" "rb_holds s (remove1 (key, node_of t) xs)" "rb_keys s = rb_keys ?s"
    using rbq.era_ok [OF h assms(2)] by blast
  then have "dom (rb_nodes s) = dom (sc_nodes st)" using keys_dom [OF s(3)] by (simp add: ready_tree_def)
  then show ?thesis using s c by (auto simp: tree_remove_def on_tree_retree)
qed

lemma tree_add_ok:
  assumes "queue st c xs" and "task_at st t = Some k" and "node_of t \<notin> snd ` set xs" and "node_of t \<in> dom (sc_nodes st)" "node_of t \<noteq> NULL"
  shows "\<exists>s. tree_add st c t = Some (retree st c s) \<and> rb_holds s (insort (tk_vruntime k, node_of t) xs) \<and> dom (rb_nodes s) = dom (sc_nodes st)"
proof -
  let ?s = "ready_tree st (sc_rqs st ! c)"
  have c: "c < length (sc_rqs st)" and h: "rb_holds ?s xs" using assms(1) by (simp_all add: queue_def)
  obtain y where "rb_keys ?s (node_of t) = Some y" using assms(4) by (auto simp: rb_keys_def ready_tree_def)
  then obtain s1 s2 where s: "rb_set_key ?s (node_of t) (tk_vruntime k) = Some s1" "rb_insert s1 (node_of t) = Some s2"
      "rb_holds s2 (insort (tk_vruntime k, node_of t) xs)" "rb_keys s2 = (rb_keys ?s)(node_of t \<mapsto> tk_vruntime k)"
    using rbq.enqueue [OF h _ assms(5,3)] by blast
  have "dom (rb_nodes s2) = dom (rb_keys s2)" "dom (rb_keys ?s) = dom (sc_nodes st)" by (auto simp: rb_keys_def ready_tree_def)
  then have "dom (rb_nodes s2) = dom (sc_nodes st)" using s(4) assms(4) by auto
  then show ?thesis using s c assms(2) by (auto simp: tree_add_def on_tree_retree)
qed

subsection \<open>Choosing and switching\<close>

lemma node_task [simp]: "task_of (node_of t) = t" "node_of (task_of n) = n" "task_of n = t \<longleftrightarrow> n = node_of t" "node_of t = node_of u \<longleftrightarrow> t = u"
  by (auto simp: node_of_def task_of_def)

lemma upd_task_Some: "upd_task st t f = Some st' \<longleftrightarrow> (\<exists>k. task_at st t = Some k \<and> st' = st\<lparr>sc_tasks := (sc_tasks st)(t \<mapsto> f k)\<rparr>)"
  by (auto simp: upd_task_def bind_eq_Some_conv)

lemma upd_task_at: "task_at st t = Some k \<Longrightarrow> upd_task st t f = Some (st\<lparr>sc_tasks := (sc_tasks st)(t \<mapsto> f k)\<rparr>)"
  by (simp add: upd_task_def)

lemma task_at_upd: "task_at (st\<lparr>sc_tasks := (sc_tasks st)(t \<mapsto> k)\<rparr>) u = (if u = t \<and> u \<noteq> NULL then Some k else task_at st u)"
  by (simp add: task_at_def)

lemma task_at_Some: "task_at st t = Some k \<longleftrightarrow> t \<noteq> NULL \<and> sc_tasks st t = Some k"
  by (simp add: task_at_def)

definition least_other :: "sched \<Rightarrow> (u64 \<times> addr) list \<Rightarrow> bool" where
  "least_other st xs \<longleftrightarrow> xs \<noteq> [] \<and> snd (hd xs) \<noteq> node_of (sc_current st)"

definition idle_ready :: "sched \<Rightarrow> bool" where
  "idle_ready st \<longleftrightarrow> sc_idle_task st \<noteq> sc_current st \<and> (\<exists>i. task_at st (sc_idle_task st) = Some i \<and> tk_state i = TASK_READY)"

lemma pick_next_ok:
  assumes "queue st c xs" and "\<forall>x \<in> set xs. task_at st (task_of (snd x)) \<noteq> None"
    and "sc_idle_task st \<noteq> NULL \<longrightarrow> task_at st (sc_idle_task st) \<noteq> None"
  shows "pick_next st (sc_rqs st ! c) = Some (if least_other st xs then task_of (snd (hd xs)) else if idle_ready st then sc_idle_task st else NULL)"
proof -
  have m: "rb_find_min (ready_tree st (sc_rqs st ! c)) = Some (case xs of [] \<Rightarrow> NULL | x # _ \<Rightarrow> snd x)"
    using assms(1) by (simp add: queue_def rb_find_min_holds)
  have i: "(if sc_idle_task st \<noteq> NULL \<and> sc_idle_task st \<noteq> sc_current st
      then do { i \<leftarrow> task_at st (sc_idle_task st); Some (if tk_state i = TASK_READY then sc_idle_task st else NULL) }
      else Some NULL) = Some (if idle_ready st then sc_idle_task st else NULL)"
    using assms(3) by (auto simp: idle_ready_def task_at_def split: if_splits)
  show ?thesis
  proof (cases xs)
    case Nil
    then show ?thesis using m i by (simp add: pick_next_def least_other_def)
  next
    case (Cons x ys)
    have n: "task_of (snd x) \<noteq> NULL" using assms(2) Cons by (auto simp: task_at_def)
    have "snd x \<noteq> NULL" using rbq.member [of _ xs "fst x" "snd x"] assms(1) Cons by (auto simp: queue_def)
    then show ?thesis using m i n Cons by (auto simp: pick_next_def least_other_def)
  qed
qed

definition charged :: "task_struct \<Rightarrow> u64" where
  "charged k = tk_vruntime k + (word_of_int (consumed_ticks k) * 128) div word_of_int (tk_priority k + 1)"

definition priority_ok :: "task_struct \<Rightarrow> bool" where
  "priority_ok k \<longleftrightarrow> 0 \<le> tk_priority k \<and> tk_priority k < 256"

lemma charge_ok: "priority_ok k \<Longrightarrow> charge k = Some (k\<lparr>tk_vruntime := charged k\<rparr>)"
proof -
  assume p: "priority_ok k"
  have "(word_of_int (tk_priority k + 1) :: u64) \<noteq> 0"
  proof
    assume *: "(word_of_int (tk_priority k + 1) :: u64) = 0"
    have "uint (word_of_int (tk_priority k + 1) :: u64) = tk_priority k + 1"
      using p by (simp only: uint_word_of_int) (simp add: priority_ok_def)
    then show False unfolding * using p by (simp add: priority_ok_def)
  qed
  then show ?thesis by (simp add: charge_def charged_def)
qed

text \<open>The order of the tree after the task at \<open>t\<close> was put aside.\<close>

definition set_aside :: "task_struct \<Rightarrow> addr \<Rightarrow> (u64 \<times> addr) list \<Rightarrow> (u64 \<times> addr) list" where
  "set_aside k t xs =
     (case tk_state k of
        TASK_RUNNING \<Rightarrow> insort (charged k, node_of t) [x \<leftarrow> xs. snd x \<noteq> node_of t]
      | TASK_BLOCKED \<Rightarrow> [x \<leftarrow> xs. snd x \<noteq> node_of t]
      | _ \<Rightarrow> xs)"

lemma remove1_filter:
  assumes "distinct (map snd xs)" and "(k, a) \<in> set xs"
  shows "remove1 (k, a) xs = [x \<leftarrow> xs. snd x \<noteq> a]"
proof -
  obtain us vs where xs: "xs = us @ (k, a) # vs" using assms(2) by (auto simp: in_set_conv_decomp)
  have "\<forall>x \<in> set us \<union> set vs. snd x \<noteq> a" using assms(1) xs by (auto simp: image_iff)
  then have "[x \<leftarrow> us. snd x \<noteq> a] = us" "[x \<leftarrow> vs. snd x \<noteq> a] = vs" "(k, a) \<notin> set us" by (auto simp: filter_id_conv) force
  then show ?thesis using xs by (simp add: remove1_append)
qed

definition put_task :: "sched \<Rightarrow> addr \<Rightarrow> task_struct \<Rightarrow> sched" where
  "put_task st t k = (if tk_state k = TASK_RUNNING then st\<lparr>sc_tasks := (sc_tasks st)(t \<mapsto> k\<lparr>tk_state := TASK_READY, tk_vruntime := charged k\<rparr>)\<rparr> else st)"

lemma put_prev_ok:
  assumes q: "queue st c xs" and k: "task_at st t = Some k" "priority_ok k"
    and nodes: "\<forall>x \<in> set xs. snd x \<in> dom (sc_nodes st)" and t: "tk_state k = TASK_RUNNING \<or> tk_state k = TASK_BLOCKED \<Longrightarrow> node_of t \<in> snd ` set xs"
  shows "\<exists>st'. put_prev st c t = Some st' \<and> queue st' c (set_aside k t xs) \<and> dom (sc_nodes st') = dom (sc_nodes st) \<and>
    (\<exists>s. st' = retree (put_task st t k) c s)"
proof (cases "tk_state k = TASK_RUNNING \<or> tk_state k = TASK_BLOCKED")
  case True
  have c: "c < length (sc_rqs st)" and h: "rb_holds (ready_tree st (sc_rqs st ! c)) xs" using q by (simp_all add: queue_def)
  obtain key where key: "(key, node_of t) \<in> set xs" using t [OF True] by (auto simp: image_iff)
  have rm: "remove1 (key, node_of t) xs = [x \<leftarrow> xs. snd x \<noteq> node_of t]" using remove1_filter [OF holds_ordered(2) [OF h] key] .
  let ?st1 = "put_task st t k"
  have q1: "queue ?st1 c xs" using q by (simp add: queue_def put_task_def ready_tree_def)
  obtain s where s: "tree_remove ?st1 c t = Some (retree ?st1 c s)" "rb_holds s [x \<leftarrow> xs. snd x \<noteq> node_of t]" "dom (rb_nodes s) = dom (sc_nodes st)"
    using tree_remove_ok [OF q1 key] rm by (auto simp: put_task_def split: if_splits)
  show ?thesis
  proof (cases "tk_state k = TASK_BLOCKED")
    case True
    then show ?thesis using s k(1) c by (auto simp: put_prev_def put_task_def set_aside_def queue_retree)
  next
    case False
    let ?k1 = "k\<lparr>tk_state := TASK_READY, tk_vruntime := charged k\<rparr>" and ?st2 = "retree ?st1 c s"
    have r: "tk_state k = TASK_RUNNING" using True False by simp
    have "task_at ?st2 t = Some ?k1" using k(1) r by (simp add: put_task_def task_at_def split: if_splits)
    moreover have "queue ?st2 c [x \<leftarrow> xs. snd x \<noteq> node_of t]" using s(2) c by (simp add: queue_retree put_task_def)
    moreover have "node_of t \<in> dom (sc_nodes ?st2)" "node_of t \<noteq> NULL" using nodes key s(3) rbq.member [OF h key] by fastforce+
    moreover have "node_of t \<notin> snd ` set [x \<leftarrow> xs. snd x \<noteq> node_of t]" by auto
    ultimately obtain s' where s': "tree_add ?st2 c t = Some (retree ?st2 c s')" "rb_holds s' (insort (charged k, node_of t) [x \<leftarrow> xs. snd x \<noteq> node_of t])"
        "dom (rb_nodes s') = dom (sc_nodes st)" using tree_add_ok [of ?st2 c "[x \<leftarrow> xs. snd x \<noteq> node_of t]" t ?k1] s(3) by auto
    have "charge (k\<lparr>tk_state := TASK_READY\<rparr>) = Some ?k1"
      using charge_ok [of "k\<lparr>tk_state := TASK_READY\<rparr>"] k(2) by (simp add: priority_ok_def charged_def consumed_ticks_def)
    moreover have "retree ?st2 c s' = retree ?st1 c s'" using c by (simp add: retree_retree put_task_def)
    ultimately show ?thesis using s(1) s' k(1) r c by (auto simp: put_prev_def upd_task_at put_task_def set_aside_def queue_retree)
  qed
next
  case False
  have c: "c < length (sc_rqs st)" using q by (simp add: queue_def)
  have "put_prev st c t = Some st" "set_aside k t xs = xs" "put_task st t k = st"
    using False k(1) by (cases "tk_state k"; simp add: put_prev_def put_task_def set_aside_def)+
  then show ?thesis using q retree_same [OF c] by metis
qed

definition switched_in :: "task_struct \<Rightarrow> task_struct" where
  "switched_in n = n\<lparr>tk_state := TASK_RUNNING, tk_ref_count := tk_ref_count n + 1, tk_cpu_ticks := tk_cpu_ticks n + 1,
     tk_cswitch_count := tk_cswitch_count n + 1\<rparr>"

definition switched :: "sched \<Rightarrow> nat \<Rightarrow> addr \<Rightarrow> task_struct \<Rightarrow> addr \<Rightarrow> task_struct \<Rightarrow> sched" where
  "switched st c prev p next n = st\<lparr>sc_min_vruntime := advance_min (sc_min_vruntime st) (tk_vruntime n), sc_current := next,
     sc_cpu_current := if c < MAX_CPUS then (sc_cpu_current st)(c := next) else sc_cpu_current st,
     sc_tasks := (sc_tasks st)(next \<mapsto> switched_in n, prev \<mapsto> p\<lparr>tk_fpu_used := False\<rparr>)\<rparr>"

lemma switch_to_ok:
  assumes "task_at st next = Some n" and "task_at st prev = Some p" and "next \<noteq> prev"
  shows "switch_to st c prev next = Some (switched st c prev p next n)"
  using assms by (simp add: switch_to_def switched_def switched_in_def task_get_def upd_task_def task_at_def fun_upd_twist split: if_splits)

lemma advance_min_ge: "old \<le> advance_min old v"
  using linear [of old v] linear [of old "old + 1"] by (auto simp: advance_min_def)

definition schedulable :: "sched \<Rightarrow> (u64 \<times> addr) list \<Rightarrow> task_struct \<Rightarrow> bool" where
  "schedulable st xs k \<longleftrightarrow> queue st (sc_cpu st) xs \<and> rq_head (sc_rqs st ! sc_cpu st) \<noteq> NULL \<and>
     (\<forall>x \<in> set xs. task_at st (task_of (snd x)) \<noteq> None) \<and>
     task_at st (sc_current st) = Some k \<and> tk_next k \<noteq> NULL \<and> priority_ok k \<and>
     (tk_state k = TASK_RUNNING \<or> tk_state k = TASK_BLOCKED \<longrightarrow> node_of (sc_current st) \<in> snd ` set xs) \<and>
     (sc_idle_task st \<noteq> NULL \<longrightarrow> task_at st (sc_idle_task st) \<noteq> None)"

text \<open>The task that \<open>schedule\<close> switches to, if it does.\<close>

definition next_task :: "sched \<Rightarrow> (u64 \<times> addr) list \<Rightarrow> addr" where
  "next_task st xs = (if least_other st xs then task_of (snd (hd xs)) else sc_idle_task st)"

lemma schedule_pick:
  assumes "schedulable st xs k"
  shows "get_rq st (sc_cpu st) = Some (sc_rqs st ! sc_cpu st)"
    and "pick_next st (sc_rqs st ! sc_cpu st) = Some (if least_other st xs \<or> idle_ready st then next_task st xs else NULL)"
  using assms pick_next_ok [of st "sc_cpu st" xs] by (auto simp: schedulable_def get_rq_def queue_def next_task_def)

lemma schedule_keeps:
  assumes "schedulable st xs k" and "\<not> least_other st xs" "\<not> idle_ready st"
  shows "schedule st = Some (if tk_state k = TASK_RUNNING then Stays else Halts, st)"
proof -
  have "task_at st (sc_current st) = Some k" "tk_next k \<noteq> NULL" "rq_head (sc_rqs st ! sc_cpu st) \<noteq> NULL" using assms(1) by (simp_all add: schedulable_def)
  moreover from this(1) have "sc_current st \<noteq> NULL" by (auto simp: task_at_def)
  ultimately show ?thesis using schedule_pick [OF assms(1)] assms(2,3) by (simp add: schedule_def)
qed

lemma queue_nodes: "queue st c xs \<Longrightarrow> x \<in> set xs \<Longrightarrow> snd x \<in> dom (sc_nodes st)"
  using holds_keys(1) [of "ready_tree st (sc_rqs st ! c)" xs "fst x" "snd x"] by (auto simp: queue_def rb_keys_def ready_tree_def)

lemma next_task_other:
  assumes "schedulable st xs k" and "least_other st xs \<or> idle_ready st"
  obtains n where "task_at st (next_task st xs) = Some n" and "next_task st xs \<noteq> sc_current st"
proof (cases "least_other st xs")
  case True
  then have "hd xs \<in> set xs" "snd (hd xs) \<noteq> node_of (sc_current st)" by (simp_all add: least_other_def)
  then show ?thesis using that True assms(1) by (auto simp: schedulable_def next_task_def)
next
  case False
  then show ?thesis using that assms(2) by (auto simp: idle_ready_def next_task_def)
qed

text \<open>All there is to a switch: how the tree, the tasks and the other variables change.\<close>

lemma schedule_switches:
  assumes s: "schedulable st xs k" and n: "task_at st (next_task st xs) = Some n" and o: "least_other st xs \<or> idle_ready st"
  shows "\<exists>st1 p. schedule st = Some (Switches (sc_current st), switched st1 (sc_cpu st) (sc_current st) p (next_task st xs) n) \<and>
    queue st1 (sc_cpu st) (set_aside k (sc_current st) xs) \<and> dom (sc_nodes st1) = dom (sc_nodes st) \<and>
    task_at st1 (sc_current st) = Some p \<and> (\<exists>s. st1 = retree (put_task st (sc_current st) k) (sc_cpu st) s)"
proof -
  let ?c = "sc_cpu st" and ?t = "sc_current st" and ?n = "next_task st xs"
  have q: "queue st ?c xs" and k: "task_at st ?t = Some k" "priority_ok k" "tk_next k \<noteq> NULL" and h: "rq_head (sc_rqs st ! ?c) \<noteq> NULL"
    and t: "tk_state k = TASK_RUNNING \<or> tk_state k = TASK_BLOCKED \<Longrightarrow> node_of ?t \<in> snd ` set xs" using s by (simp_all add: schedulable_def)
  have "\<forall>x \<in> set xs. snd x \<in> dom (sc_nodes st)" using queue_nodes [OF q] by blast
  then obtain st1 where st1: "put_prev st ?c ?t = Some st1" "queue st1 ?c (set_aside k ?t xs)" "dom (sc_nodes st1) = dom (sc_nodes st)"
      "\<exists>s. st1 = retree (put_task st ?t k) ?c s" using put_prev_ok [OF q k(1,2) _ t] by blast
  have ne: "?n \<noteq> ?t" using next_task_other [OF s o] by blast
  obtain p where p: "task_at st1 ?t = Some p" using st1(4) k(1) by (auto simp: put_task_def task_at_def split: if_splits)
  have "task_at st1 ?n = Some n" using st1(4) n ne by (auto simp: put_task_def task_at_def split: if_splits)
  then have "switch_to st1 ?c ?t ?n = Some (switched st1 ?c ?t p ?n n)" using switch_to_ok p ne by blast
  moreover have "?n \<noteq> NULL" "?t \<noteq> NULL" using n k(1) by (auto simp: task_at_def split: if_splits)
  ultimately show ?thesis using schedule_pick [OF s] o ne st1 k h p by (auto simp: schedule_def)
qed

end
