(* ===== verification/Sched_steps.thy ===== *)
theory Sched_steps
  imports Sched_inv
begin

text \<open>
  The invariant of the scheduler on one processor, the changes that leave its ready tree alone, and the
  tasks that nothing brings back.
\<close>

subsection \<open>The invariant\<close>

definition awake :: "task_struct \<Rightarrow> bool" where
  "awake k \<longleftrightarrow> tk_state k = TASK_RUNNING \<or> tk_state k = TASK_READY"

definition task_ok :: "sched \<Rightarrow> addr \<Rightarrow> task_struct \<Rightarrow> bool" where
  "task_ok st t k \<longleftrightarrow> t \<noteq> NULL \<and> node_of t \<noteq> NULL \<and> node_of t \<in> dom (sc_nodes st) \<and> 0 \<le> tk_pid k \<and> tk_pid k < int MAX_PID \<and>
     sc_pid_table st (nat (tk_pid k)) = t \<and> pid_test_bit st (nat (tk_pid k)) \<and> 1 \<le> tk_ref_count k \<and> tk_cpu_id k = 0 \<and> priority_ok k"

text \<open>\<open>R\<close> are the tasks in the ready tree.\<close>

definition sched_inv :: "sched \<Rightarrow> addr set \<Rightarrow> bool" where
  "sched_inv st R \<longleftrightarrow> sc_cpu st = 0 \<and> sc_num_cpus st \<le> 1 \<and> sc_next_pid st < MAX_PID \<and> pid_test_bit st 0 \<and> pid_test_bit st 1 \<and>
     (\<exists>xs. queue st 0 xs \<and> snd ` set xs = node_of ` R) \<and>
     (\<forall>t k. sc_tasks st t = Some k \<longrightarrow> task_ok st t k) \<and> R \<subseteq> dom (sc_tasks st) \<and> sc_current st \<in> dom (sc_tasks st) \<and>
     sc_idle_task st \<in> R \<and> (\<forall>k. sc_tasks st (sc_idle_task st) = Some k \<longrightarrow> awake k \<and> tk_pid k = 0) \<and>
     (\<forall>t k. sc_tasks st t = Some k \<and> tk_state k = TASK_BLOCKED \<and> t \<noteq> sc_current st \<longrightarrow> t \<notin> R)"

text \<open>A task that does not block or ignore the signal of an exiting child.\<close>

definition hears :: "task_struct \<Rightarrow> bool" where
  "hears k \<longleftrightarrow> tk_pid k \<noteq> 1 \<and> (\<exists>s. tk_sig k = Some s \<and> sig_blocked s AND sig_bit SIGCHLD = 0 \<and> sig_handler s SIGCHLD \<noteq> SIG_IGN)"

text \<open>A task outside the tree that nothing puts back.\<close>

definition lost :: "sched \<Rightarrow> addr set \<Rightarrow> addr \<Rightarrow> bool" where
  "lost st R t \<longleftrightarrow> t \<notin> R \<and> t \<noteq> sc_current st \<and>
     (\<exists>k. sc_tasks st t = Some k \<and> (tk_state k = TASK_READY \<or> tk_state k = TASK_BLOCKED \<and> hears k))"

subsection \<open>Quiet changes\<close>

text \<open>A change that leaves the tree alone, and the state of tasks outside \<open>A\<close> except that blocked ones may become ready.\<close>

definition mild :: "addr \<Rightarrow> addr set \<Rightarrow> addr \<Rightarrow> task_struct \<Rightarrow> task_struct \<Rightarrow> bool" where
  "mild idle A t k k' \<longleftrightarrow> tk_pid k' = tk_pid k \<and> tk_cpu_id k' = tk_cpu_id k \<and> tk_priority k' = tk_priority k \<and> tk_ref_count k \<le> tk_ref_count k' \<and>
     (hears k \<longrightarrow> hears k') \<and>
     (if t \<in> A then t = idle \<and> awake k \<longrightarrow> awake k'
      else tk_state k' = tk_state k \<or> tk_state k = TASK_BLOCKED \<and> tk_state k' = TASK_READY)"

definition quiet :: "addr set \<Rightarrow> sched \<Rightarrow> sched \<Rightarrow> bool" where
  "quiet A st st' \<longleftrightarrow> sc_current st' = sc_current st \<and> sc_idle_task st' = sc_idle_task st \<and> sc_init_task st' = sc_init_task st \<and>
     map rq_tree (sc_rqs st') = map rq_tree (sc_rqs st) \<and> sc_nodes st' = sc_nodes st \<and> sc_pid_bitmap st' = sc_pid_bitmap st \<and>
     sc_next_pid st' = sc_next_pid st \<and> sc_pid_table st' = sc_pid_table st \<and> sc_num_cpus st' = sc_num_cpus st \<and> sc_cpu st' = sc_cpu st \<and>
     (\<forall>t. rel_option (mild (sc_idle_task st) A t) (sc_tasks st t) (sc_tasks st' t))"

lemma mild_refl [simp]: "mild i A t k k"
  by (simp add: mild_def)

lemma mild_trans: "mild i A t a b \<Longrightarrow> mild i A t b c \<Longrightarrow> mild i A t a c"
  by (auto simp: mild_def split: if_splits)

lemma quiet_refl [simp]: "quiet A st st"
  by (simp add: quiet_def option.rel_refl)

lemma quiet_trans: "quiet A a b \<Longrightarrow> quiet A b c \<Longrightarrow> quiet A a c"
proof -
  assume *: "quiet A a b" "quiet A b c"
  have "rel_option (mild (sc_idle_task a) A t) (sc_tasks a t) (sc_tasks c t)" for t
    using * mild_trans [of "sc_idle_task a" A t]
    by (cases "sc_tasks a t"; cases "sc_tasks b t"; cases "sc_tasks c t") (fastforce simp: quiet_def dest: spec [of _ t])+
  then show ?thesis using * by (simp add: quiet_def)
qed

lemma quiet_mono: "quiet {} st st' \<Longrightarrow> quiet A st st'"
proof -
  assume *: "quiet {} st st'"
  have "mild i {} t k k' \<Longrightarrow> mild i A t k k'" for i t k k' by (auto simp: mild_def awake_def)
  then have "rel_option (mild i {} t) a b \<Longrightarrow> rel_option (mild i A t) a b" for i t a b by (cases a; cases b) auto
  then show ?thesis using * by (simp add: quiet_def)
qed

lemma quiet_upd:
  assumes "upd_task st t f = Some st'" and "\<And>k. task_at st t = Some k \<Longrightarrow> mild (sc_idle_task st) A t k (f k)"
  shows "quiet A st st'"
  using assms by (auto simp: upd_task_Some quiet_def task_at_Some option.rel_refl)

lemma quiet_vars [simp]:
  "quiet A st (st\<lparr>sc_child_nodes := m\<rparr>)" "quiet A st (st\<lparr>sc_need_resched := b\<rparr>)" "quiet A st (st\<lparr>sc_balance := n\<rparr>)"
  by (simp_all add: quiet_def option.rel_refl)

lemma quiet_rq: "get_rq st c = Some rq \<Longrightarrow> rq_tree rq' = rq_tree rq \<Longrightarrow> quiet A st (set_rq st c rq')"
  by (auto simp: get_rq_def set_rq_def quiet_def option.rel_refl map_update list_update_same_conv split: if_splits)

lemma quiet_task: "quiet A st st' \<Longrightarrow> sc_tasks st t = Some k \<Longrightarrow> \<exists>k'. sc_tasks st' t = Some k' \<and> mild (sc_idle_task st) A t k k'"
  by (auto simp: quiet_def option_rel_Some1 dest: spec [of _ t])

lemma quiet_task': "quiet A st st' \<Longrightarrow> sc_tasks st' t = Some k' \<Longrightarrow> \<exists>k. sc_tasks st t = Some k \<and> mild (sc_idle_task st) A t k k'"
  by (auto simp: quiet_def option_rel_Some2 dest: spec [of _ t])

lemma quiet_dom: "quiet A st st' \<Longrightarrow> dom (sc_tasks st') = dom (sc_tasks st)"
  using quiet_task quiet_task' by fast

lemma quiet_queue:
  assumes "quiet A st st'"
  shows "queue st' c xs \<longleftrightarrow> queue st c xs"
proof -
  have m: "map rq_tree (sc_rqs st') = map rq_tree (sc_rqs st)" and n: "sc_nodes st' = sc_nodes st" using assms by (simp_all add: quiet_def)
  from m have l: "length (sc_rqs st') = length (sc_rqs st)" by (rule map_eq_imp_length_eq)
  have "c < length (sc_rqs st) \<Longrightarrow> rq_tree (sc_rqs st' ! c) = rq_tree (sc_rqs st ! c)" using m l by (metis nth_map)
  then show ?thesis using l n by (auto simp: queue_def ready_tree_def)
qed

lemma quiet_inv:
  assumes "sched_inv st R" and q: "quiet A st st'" and "A \<subseteq> {sc_current st}"
  shows "sched_inv st' R"
proof -
  note i = assms(1) [unfolded sched_inv_def] and e = q [unfolded quiet_def]
  have b: "pid_test_bit st' = pid_test_bit st" using e by (simp add: pid_test_bit_def fun_eq_iff)
  have "task_ok st' t k'" if k': "sc_tasks st' t = Some k'" for t k'
    using quiet_task' [OF q k'] i e b by (fastforce simp: task_ok_def mild_def priority_ok_def)
  moreover have "awake k' \<and> tk_pid k' = 0" if k': "sc_tasks st' (sc_idle_task st) = Some k'" for k'
    using quiet_task' [OF q k'] i by (fastforce simp: mild_def awake_def split: if_splits)
  moreover have "t \<notin> R" if k': "sc_tasks st' t = Some k'" "tk_state k' = TASK_BLOCKED" "t \<noteq> sc_current st" for t k'
    using quiet_task' [OF q k'(1)] i k' assms(3) by (fastforce simp: mild_def split: if_splits)
  ultimately show ?thesis using i e b quiet_dom [OF q] quiet_queue [OF q, of 0] by (simp add: sched_inv_def)
qed

lemma quiet_lost:
  assumes "lost st R t" and q: "quiet A st st'" and "A \<subseteq> {sc_current st}"
  shows "lost st' R t"
proof -
  obtain k where k: "sc_tasks st t = Some k" "tk_state k = TASK_READY \<or> tk_state k = TASK_BLOCKED \<and> hears k" "t \<notin> R" "t \<noteq> sc_current st"
    using assms(1) by (auto simp: lost_def)
  obtain k' where k': "sc_tasks st' t = Some k'" "mild (sc_idle_task st) A t k k'" using quiet_task [OF q k(1)] by blast
  have "tk_state k' = TASK_READY \<or> tk_state k' = TASK_BLOCKED \<and> hears k'" using k k'(2) assms(3) by (auto simp: mild_def split: if_splits)
  moreover have "sc_current st' = sc_current st" using q by (simp add: quiet_def)
  ultimately show ?thesis using k k'(1) by (simp add: lost_def)
qed

end
