(* ===== verification/Sched_quiet.thy ===== *)
theory Sched_quiet
  imports Sched_steps
begin

text \<open>The operations that leave the ready tree alone.\<close>

lemma task_put_live: "task_at st t = Some k \<Longrightarrow> tk_ref_count k \<noteq> 1 \<Longrightarrow>
    task_put st t = Some (st\<lparr>sc_tasks := (sc_tasks st)(t \<mapsto> k\<lparr>tk_ref_count := tk_ref_count k - 1\<rparr>)\<rparr>)"
  by (auto simp: task_put_def upd_task_def task_at_def split: if_splits)

lemma task_get_at: "task_at st t = Some k \<Longrightarrow> task_get st t = Some (st\<lparr>sc_tasks := (sc_tasks st)(t \<mapsto> k\<lparr>tk_ref_count := tk_ref_count k + 1\<rparr>)\<rparr>)"
  by (auto simp: task_get_def upd_task_def task_at_def split: if_splits)

definition refs_ok :: "sched \<Rightarrow> bool" where
  "refs_ok st \<longleftrightarrow> (\<forall>t k. sc_tasks st t = Some k \<longrightarrow> 1 \<le> tk_ref_count k)"

lemma inv_refs: "sched_inv st R \<Longrightarrow> refs_ok st"
  by (auto simp: sched_inv_def refs_ok_def task_ok_def)

lemma quiet_refs: "refs_ok st \<Longrightarrow> quiet A st st' \<Longrightarrow> refs_ok st'"
  unfolding refs_ok_def by (metis quiet_task' mild_def order_trans)

text \<open>A lookup and the release of what it returned change nothing.\<close>

lemma get_put_same:
  assumes "refs_ok st" and "task_at st t = Some k" and "task_get st t = Some st1"
  shows "task_put (st1\<lparr>sc_tasks := (sc_tasks st1)(t \<mapsto> f (k\<lparr>tk_ref_count := tk_ref_count k + 1\<rparr>))\<rparr>) t =
      (if tk_ref_count (f (k\<lparr>tk_ref_count := tk_ref_count k + 1\<rparr>)) = tk_ref_count k + 1
       then Some (st\<lparr>sc_tasks := (sc_tasks st)(t \<mapsto> (f (k\<lparr>tk_ref_count := tk_ref_count k + 1\<rparr>))\<lparr>tk_ref_count := tk_ref_count k\<rparr>)\<rparr>)
       else task_put (st1\<lparr>sc_tasks := (sc_tasks st1)(t \<mapsto> f (k\<lparr>tk_ref_count := tk_ref_count k + 1\<rparr>))\<rparr>) t)"
proof -
  have r: "1 \<le> tk_ref_count k" using assms(1,2) by (auto simp: refs_ok_def task_at_Some)
  have "st1 = st\<lparr>sc_tasks := (sc_tasks st)(t \<mapsto> k\<lparr>tk_ref_count := tk_ref_count k + 1\<rparr>)\<rparr>" using task_get_at [OF assms(2)] assms(3) by simp
  then show ?thesis using assms(2) r by (auto simp: task_put_live task_at_Some)
qed

lemma release_same:
  assumes "refs_ok st" and "task_at st t = Some k" and "task_get st t = Some st1"
  shows "task_put st1 t = Some st"
proof -
  have r: "1 \<le> tk_ref_count k" using assms(1,2) by (auto simp: refs_ok_def task_at_Some)
  have "st1 = st\<lparr>sc_tasks := (sc_tasks st)(t \<mapsto> k\<lparr>tk_ref_count := tk_ref_count k + 1\<rparr>)\<rparr>" using task_get_at [OF assms(2)] assms(3) by simp
  then show ?thesis using assms(2) r by (auto simp: task_put_live task_at_Some fun_upd_idem)
qed

text \<open>What a signal does.\<close>

lemma post_signal_mild:
  "tk_ref_count (post_signal k sig s) = tk_ref_count k"
  "s = (case tk_sig k of None \<Rightarrow> signal_alloc | Some s \<Rightarrow> s) \<Longrightarrow> mild i {} t k (post_signal k sig s)"
  by (auto simp: post_signal_def mild_def hears_def Let_def split: option.splits)

lemma post_signal_ref: "(post_signal (k\<lparr>tk_ref_count := r\<rparr>) sig s)\<lparr>tk_ref_count := r'\<rparr> = post_signal (k\<lparr>tk_ref_count := r'\<rparr>) sig s"
  by (simp add: post_signal_def Let_def)

lemma lookup_cases:
  assumes "task_get_by_pid st pid = Some (t, st1)"
  obtains "t = NULL" "st1 = st" | k where "0 \<le> pid" "pid < int MAX_PID" "t = sc_pid_table st (nat pid)" "task_at st t = Some k" "task_get st t = Some st1"
  using assms by (auto simp: task_get_by_pid_def Let_def bind_eq_Some_conv split: if_splits)

abbreviation sig_or_new :: "task_struct \<Rightarrow> signal_state" where
  "sig_or_new k \<equiv> (case tk_sig k of None \<Rightarrow> signal_alloc | Some s \<Rightarrow> s)"

lemma do_sys_kill_cases:
  assumes r: "refs_ok st" and "do_sys_kill st ok pid sig = Some (res, st')"
  shows "st' = st \<or> (\<exists>t k. task_at st t = Some k \<and> st' = st\<lparr>sc_tasks := (sc_tasks st)(t \<mapsto> post_signal k sig (sig_or_new k))\<rparr>)"
proof (cases "sig < 1 \<or> NSIG \<le> sig \<or> pid < 0")
  case True
  then show ?thesis using assms(2) by (auto simp: do_sys_kill_def split: if_splits)
next
  case False
  then obtain t st1 where l: "task_get_by_pid st pid = Some (t, st1)" using assms(2) by (auto simp: do_sys_kill_def bind_eq_Some_conv split: if_splits)
  then show ?thesis
  proof (cases rule: lookup_cases)
    case 1
    then show ?thesis using assms(2) False l by (auto simp: do_sys_kill_def)
  next
    case (2 k)
    let ?k1 = "k\<lparr>tk_ref_count := tk_ref_count k + 1\<rparr>"
    have n: "t \<noteq> NULL" using 2(4) by (auto simp: task_at_def)
    have st1: "st1 = st\<lparr>sc_tasks := (sc_tasks st)(t \<mapsto> ?k1)\<rparr>" using task_get_at [OF 2(4)] 2(5) by simp
    then have k1: "task_at st1 t = Some ?k1" using n by (simp add: task_at_def)
    have p: "task_put st1 t = Some st" using release_same [OF r 2(4,5)] .
    have u: "task_put (st1\<lparr>sc_tasks := (sc_tasks st1)(t \<mapsto> post_signal ?k1 sig (sig_or_new k))\<rparr>) t =
        Some (st\<lparr>sc_tasks := (sc_tasks st)(t \<mapsto> post_signal k sig (sig_or_new k))\<rparr>)"
      using get_put_same [OF r 2(4,5), of "\<lambda>k'. post_signal k' sig (sig_or_new k)"] by (simp add: post_signal_mild post_signal_ref)
    show ?thesis using assms(2) False l n k1 p u 2(4) by (auto simp: do_sys_kill_def upd_task_at split: if_splits)
  qed
qed

lemma quiet_kill: "refs_ok st \<Longrightarrow> do_sys_kill st ok pid sig = Some (res, st') \<Longrightarrow> quiet {} st st'"
  using do_sys_kill_cases [of st ok pid sig res st'] post_signal_mild(2)
  by (auto simp: quiet_def task_at_Some option.rel_refl)

text \<open>The signal of an exiting child makes a blocked parent ready that hears it.\<close>

lemma kill_wakes:
  assumes r: "refs_ok st" and k: "task_at st t = Some k" "tk_state k = TASK_BLOCKED" "hears k"
    and p: "0 \<le> tk_pid k" "tk_pid k < int MAX_PID" "sc_pid_table st (nat (tk_pid k)) = t"
  shows "do_sys_kill st ok (tk_pid k) SIGCHLD = Some (0, st\<lparr>sc_tasks := (sc_tasks st)(t \<mapsto> post_signal k SIGCHLD (sig_or_new k))\<rparr>)"
    and "tk_state (post_signal k SIGCHLD (sig_or_new k)) = TASK_READY"
proof -
  let ?k1 = "k\<lparr>tk_ref_count := tk_ref_count k + 1\<rparr>" and ?st1 = "st\<lparr>sc_tasks := (sc_tasks st)(t \<mapsto> k\<lparr>tk_ref_count := tk_ref_count k + 1\<rparr>)\<rparr>"
  have n: "t \<noteq> NULL" using k(1) by (auto simp: task_at_def)
  obtain s where s: "tk_pid k \<noteq> 1" "tk_sig k = Some s" "sig_blocked s AND sig_bit SIGCHLD = 0" "sig_handler s SIGCHLD \<noteq> SIG_IGN"
    using k(3) by (auto simp: hears_def)
  have "task_get_by_pid st (tk_pid k) = Some (t, ?st1)" using k p n task_get_at [OF k(1)] by (simp add: task_get_by_pid_def)
  moreover have "task_at ?st1 t = Some ?k1" using n by (simp add: task_at_def)
  moreover have "task_put (?st1\<lparr>sc_tasks := (sc_tasks ?st1)(t \<mapsto> post_signal ?k1 SIGCHLD s)\<rparr>) t =
      Some (st\<lparr>sc_tasks := (sc_tasks st)(t \<mapsto> post_signal k SIGCHLD s)\<rparr>)"
    using get_put_same [OF r k(1) task_get_at [OF k(1)], of "\<lambda>k'. post_signal k' SIGCHLD s"] by (simp add: post_signal_mild post_signal_ref)
  ultimately show "do_sys_kill st ok (tk_pid k) SIGCHLD = Some (0, st\<lparr>sc_tasks := (sc_tasks st)(t \<mapsto> post_signal k SIGCHLD (sig_or_new k))\<rparr>)"
    using p n s by (simp add: do_sys_kill_def upd_task_at)
  show "tk_state (post_signal k SIGCHLD (sig_or_new k)) = TASK_READY" using s k(2) by (simp add: post_signal_def)
qed

lemma signal_child_quiet:
  assumes "refs_ok st" and "signal_child_event st ok c = Some st'"
  shows "quiet {} st st'"
  using assms quiet_kill by (fastforce simp: signal_child_event_def bind_eq_Some_conv split: if_splits)

lemma signal_child_parent:
  assumes "refs_ok st" and "signal_child_event st ok c = Some st'" and "task_at st c = Some ck" and "task_at st' c = Some ck'"
  shows "tk_parent ck' = tk_parent ck"
proof -
  have "tk_parent (post_signal k sig s) = tk_parent k" for k sig s by (simp add: post_signal_def Let_def)
  then show ?thesis using assms do_sys_kill_cases [OF assms(1)]
    by (fastforce simp: signal_child_event_def bind_eq_Some_conv task_at_def split: if_splits)
qed

lemma signal_child_wakes:
  assumes "refs_ok st" and "signal_child_event st ok c = Some st'" and "task_at st c = Some ck" "task_at st (tk_parent ck) = Some k"
    "tk_state k = TASK_BLOCKED" "hears k" "0 \<le> tk_pid k" "tk_pid k < int MAX_PID" "sc_pid_table st (nat (tk_pid k)) = tk_parent ck"
  shows "\<exists>k'. sc_tasks st' (tk_parent ck) = Some k' \<and> tk_state k' = TASK_READY"
proof -
  have "tk_parent ck \<noteq> NULL" using assms(4) by (auto simp: task_at_def)
  then show ?thesis using assms(2,3,4,5) kill_wakes [OF assms(1,4-9)] by (auto simp: signal_child_event_def)
qed

lemma quiet_add_child:
  assumes "add_child st p c node = Some st'"
  shows "quiet {} st st'"
proof (cases "node = NULL")
  case False
  then obtain pk st2 where s: "task_at st p = Some pk"
      "upd_task (st\<lparr>sc_child_nodes := (sc_child_nodes st)(node \<mapsto> \<lparr>cn_child = c, cn_next = tk_children pk\<rparr>)\<rparr>) p (\<lambda>k. k\<lparr>tk_children := node\<rparr>) = Some st2"
      "upd_task st2 c (\<lambda>k. k\<lparr>tk_parent := p\<rparr>) = Some st'"
    using assms by (auto simp: add_child_def bind_eq_Some_conv)
  have "quiet {} (st\<lparr>sc_child_nodes := (sc_child_nodes st)(node \<mapsto> \<lparr>cn_child = c, cn_next = tk_children pk\<rparr>)\<rparr>) st2"
    by (rule quiet_upd [OF s(2)]) (simp add: mild_def hears_def)
  moreover have "quiet {} st2 st'" by (rule quiet_upd [OF s(3)]) (simp add: mild_def hears_def)
  ultimately show ?thesis using quiet_trans quiet_vars(1) by blast
qed (use assms in \<open>simp add: add_child_def\<close>)

lemma quiet_reparent_loop:
  assumes "reparent_loop st node = Some st'"
  shows "quiet {} st st'"
proof (rule reparent_loop.raw_induct [OF _ assms, where P = "\<lambda>st node st'. quiet {} st st'"], goal_cases)
  case (1 f st node st')
  show ?case
  proof (cases "node = NULL")
    case False
    let ?up = "\<lambda>st1 n i. st1\<lparr>sc_child_nodes := (sc_child_nodes st1)(node \<mapsto> n\<lparr>cn_next := tk_children i\<rparr>)\<rparr>"
    obtain n st1 st3 and i :: task_struct where
        s: "(if cn_child n \<noteq> NULL then upd_task st (cn_child n) (\<lambda>k. k\<lparr>tk_parent := sc_init_task st\<rparr>) else Some st) = Some st1"
        "upd_task (?up st1 n i) (sc_init_task (?up st1 n i)) (\<lambda>k. k\<lparr>tk_children := node\<rparr>) = Some st3" "f st3 (cn_next n) = Some st'"
      using 1(2) [unfolded if_not_P [OF False] bind_eq_Some_conv Let_def] by blast
    have "quiet {} st st1" using s(1) by (auto simp: mild_def hears_def elim!: quiet_upd split: if_splits)
    moreover have "quiet {} (?up st1 n i) st3" by (rule quiet_upd [OF s(2)]) (simp add: mild_def hears_def)
    moreover have "quiet {} st3 st'" using 1(1) s(3) by blast
    ultimately show ?thesis using quiet_trans quiet_vars(1) by blast
  qed (use 1(2) in simp)
qed

lemma quiet_reparent: "reparent_children_to_init st t = Some st' \<Longrightarrow> quiet {} st st'"
proof -
  assume *: "reparent_children_to_init st t = Some st'"
  have "quiet {} st2 st'" if "upd_task st2 t (\<lambda>k. k\<lparr>tk_children := NULL\<rparr>) = Some st'" for st2
    by (rule quiet_upd [OF that]) (simp add: mild_def hears_def)
  then show ?thesis using * quiet_reparent_loop quiet_trans
    by (fastforce simp: reparent_children_to_init_def bind_eq_Some_conv split: if_splits)
qed

text \<open>The timer interrupt.\<close>

lemma quiet_tick: "schedule_tick st = Some st' \<Longrightarrow> quiet {} st st'"
  by (auto simp: schedule_tick_def bind_eq_Some_conv Let_def upd_task_Some task_at_Some quiet_def option.rel_refl mild_def hears_def split: if_splits)

lemma quiet_wake_scan: "wake_scan n st tick head t = Some st' \<Longrightarrow> quiet {} st st'"
proof (induction n arbitrary: st t)
  case (Suc n)
  then obtain k st1 where s: "task_at st t = Some k" "upd_task st t (wake_expired tick) = Some st1"
      "(let st2 = (if wake_expired tick k \<noteq> k then st1\<lparr>sc_need_resched := True\<rparr> else st1)
        in if tk_next k = head then Some st2 else wake_scan n st2 tick head (tk_next k)) = Some st'" by (auto simp: bind_eq_Some_conv)
  have "quiet {} st st1" by (rule quiet_upd [OF s(2)]) (simp add: wake_expired_def mild_def hears_def)
  moreover define st2 where "st2 = (if wake_expired tick k \<noteq> k then st1\<lparr>sc_need_resched := True\<rparr> else st1)"
  moreover have "quiet {} st1 st2" by (simp add: st2_def)
  moreover have "quiet {} st2 st'" using s(3) Suc.IH [of st2 "tk_next k"] by (auto simp: st2_def Let_def split: if_splits)
  ultimately show ?case using quiet_trans by blast
qed simp

lemma quiet_wake_queues: "wake_queues cs st tick = Some st' \<Longrightarrow> quiet {} st st'"
proof (induction cs arbitrary: st)
  case (Cons c cs)
  then obtain st1 and rq :: run_queue where s: "(if rq_head rq = NULL \<or> rq_count rq = 0 then Some st
      else wake_scan (max 1 (nat (rq_count rq + 1))) st tick (rq_head rq) (rq_head rq)) = Some st1" "wake_queues cs st1 tick = Some st'"
    by (auto simp: bind_eq_Some_conv)
  have "quiet {} st st1" using s(1) quiet_wake_scan by (auto split: if_splits)
  then show ?case using Cons.IH [OF s(2)] quiet_trans by blast
qed simp

lemma smp_schedule_alone: "sc_num_cpus st \<le> 1 \<Longrightarrow> smp_schedule st 0 = Some st' \<Longrightarrow> st' = st"
proof -
  assume *: "sc_num_cpus st \<le> 1" "smp_schedule st 0 = Some st'"
  consider "sc_num_cpus st = 0" | "sc_num_cpus st = 1" using *(1) by linarith
  then show ?thesis using *(2) by cases (auto simp: smp_schedule_def busier_def bind_eq_Some_conv split: if_splits)
qed

lemma quiet_pit:
  assumes "sc_num_cpus st \<le> 1" "sc_cpu st = 0" and "pit_irq_c_handler st tick = Some st'"
  shows "quiet {} st st'"
proof -
  obtain st1 st2 where s: "wake_queues [0..<min (sc_num_cpus st) MAX_CPUS] st tick = Some st1" "schedule_tick st1 = Some st2"
      "(let st3 = st2\<lparr>sc_need_resched := True, sc_balance := sc_balance st2 + 1\<rparr>
        in if 100 \<le> sc_balance st3 then smp_schedule (st3\<lparr>sc_balance := 0\<rparr>) (sc_cpu st3) else Some st3) = Some st'"
    using assms(3) by (auto simp: pit_irq_c_handler_def bind_eq_Some_conv)
  have q: "quiet {} st st2" using quiet_wake_queues [OF s(1)] quiet_tick [OF s(2)] quiet_trans by blast
  then have c: "sc_num_cpus st2 \<le> 1" "sc_cpu st2 = 0" using assms(1,2) by (simp_all add: quiet_def)
  have "quiet {} st2 st'"
    using s(3) c smp_schedule_alone [of "st2\<lparr>sc_need_resched := True, sc_balance := 0\<rparr>" st'] by (auto simp: quiet_def option.rel_refl Let_def split: if_splits)
  then show ?thesis using q quiet_trans by blast
qed

end
