(* ===== verification/Sched_reach.thy ===== *)
theory Sched_reach
  imports Sched_quiet
begin

text \<open>The operations that change the ready tree keep the invariant, and what they leave as it is.\<close>

subsection \<open>Tree changes keep the invariant\<close>

lemma invD:
  assumes "sched_inv st R"
  shows "sc_cpu st = 0" "sc_num_cpus st \<le> 1" "R \<subseteq> dom (sc_tasks st)" "sc_current st \<in> dom (sc_tasks st)" "sc_idle_task st \<in> R"
    "sc_tasks st t = Some k \<Longrightarrow> task_ok st t k" "sc_tasks st t = Some k \<Longrightarrow> task_at st t = Some k"
    "sc_tasks st t = Some k \<Longrightarrow> tk_state k = TASK_BLOCKED \<Longrightarrow> t \<noteq> sc_current st \<Longrightarrow> t \<notin> R"
    "sc_tasks st (sc_idle_task st) = Some k \<Longrightarrow> awake k \<and> tk_pid k = 0"
  using assms by (auto simp: sched_inv_def task_ok_def task_at_def)

lemma inv_vars: "sched_inv st R \<Longrightarrow> sc_next_pid st < MAX_PID" "sched_inv st R \<Longrightarrow> pid_test_bit st 0" "sched_inv st R \<Longrightarrow> pid_test_bit st 1"
  by (simp_all add: sched_inv_def)

lemma sched_invI:
  assumes "sc_cpu st = 0" "sc_num_cpus st \<le> 1" "sc_next_pid st < MAX_PID" "pid_test_bit st 0" "pid_test_bit st 1" "queue st 0 xs" "snd ` set xs = node_of ` R"
    "\<And>t k. sc_tasks st t = Some k \<Longrightarrow> task_ok st t k" "R \<subseteq> dom (sc_tasks st)" "sc_current st \<in> dom (sc_tasks st)" "sc_idle_task st \<in> R"
    "\<And>k. sc_tasks st (sc_idle_task st) = Some k \<Longrightarrow> awake k \<and> tk_pid k = 0"
    "\<And>t k. sc_tasks st t = Some k \<Longrightarrow> tk_state k = TASK_BLOCKED \<Longrightarrow> t \<noteq> sc_current st \<Longrightarrow> t \<notin> R"
  shows "sched_inv st R"
  unfolding sched_inv_def using assms by (intro conjI) auto

lemma inv_queue:
  assumes "sched_inv st R"
  obtains xs where "queue st 0 xs" and "snd ` set xs = node_of ` R"
  using assms by (auto simp: sched_inv_def)

lemma inv_retree:
  assumes i: "sched_inv st R" and "rb_holds s xs" "snd ` set xs = node_of ` R'" "dom (rb_nodes s) = dom (sc_nodes st)" "R' \<subseteq> dom (sc_tasks st)"
    "sc_idle_task st \<in> R'" and b: "\<And>t k. sc_tasks st t = Some k \<Longrightarrow> tk_state k = TASK_BLOCKED \<Longrightarrow> t \<noteq> sc_current st \<Longrightarrow> t \<notin> R'"
  shows "sched_inv (retree st 0 s) R'"
proof -
  have "0 < length (sc_rqs st)" using i by (auto simp: sched_inv_def queue_def)
  then have "queue (retree st 0 s) 0 xs" using assms(2) by (simp add: queue_retree)
  moreover have "task_ok (retree st 0 s) = task_ok st" using assms(4) by (simp add: task_ok_def pid_test_bit_def fun_eq_iff)
  moreover have "pid_test_bit (retree st 0 s) = pid_test_bit st" by (simp add: pid_test_bit_def fun_eq_iff)
  ultimately show ?thesis using assms by (auto simp: sched_inv_def)
qed

lemma inv_tree_remove:
  assumes i: "sched_inv st R" and "t \<in> R" "t \<noteq> sc_idle_task st"
  shows "\<exists>s. tree_remove st 0 t = Some (retree st 0 s) \<and> sched_inv (retree st 0 s) (R - {t})"
proof -
  obtain xs where xs: "queue st 0 xs" "snd ` set xs = node_of ` R" using inv_queue [OF i] .
  have "node_of t \<in> snd ` set xs" using xs(2) assms(2) by simp
  then obtain key where key: "(key, node_of t) \<in> set xs" by auto
  have d: "distinct (map snd xs)" using xs(1) holds_ordered(2) by (auto simp: queue_def)
  obtain s where s: "tree_remove st 0 t = Some (retree st 0 s)" "rb_holds s (remove1 (key, node_of t) xs)" "dom (rb_nodes s) = dom (sc_nodes st)"
    using tree_remove_ok [OF xs(1) key] by blast
  have "snd ` set (remove1 (key, node_of t) xs) = snd ` set xs - {node_of t}" using remove1_filter [OF d key] by auto
  also have "\<dots> = node_of ` (R - {t})" using xs(2) by auto
  finally have "sched_inv (retree st 0 s) (R - {t})"
    by (rule inv_retree [OF i s(2) _ s(3)]) (use invD(3,5,8) [OF i] assms(3) in auto)
  then show ?thesis using s(1) by blast
qed

lemma inv_tree_add:
  assumes i: "sched_inv st R" and "t \<notin> R" and k: "sc_tasks st t = Some k" "tk_state k \<noteq> TASK_BLOCKED"
  shows "\<exists>s. tree_add st 0 t = Some (retree st 0 s) \<and> sched_inv (retree st 0 s) (insert t R)"
proof -
  obtain xs where xs: "queue st 0 xs" "snd ` set xs = node_of ` R" using inv_queue [OF i] .
  have ok: "task_ok st t k" "task_at st t = Some k" using invD(6,7) [OF i k(1)] by simp_all
  obtain s where s: "tree_add st 0 t = Some (retree st 0 s)" "rb_holds s (insort (tk_vruntime k, node_of t) xs)" "dom (rb_nodes s) = dom (sc_nodes st)"
    using tree_add_ok [OF xs(1) ok(2)] ok(1) xs(2) assms(2) by (auto simp: task_ok_def image_iff)
  have "snd ` set (insort (tk_vruntime k, node_of t) xs) = node_of ` insert t R" using xs(2) by (simp add: set_insort_key)
  then have "sched_inv (retree st 0 s) (insert t R)"
    by (rule inv_retree [OF i s(2) _ s(3)]) (use invD(3,5,8) [OF i] k in auto)
  then show ?thesis using s(1) by blast
qed

subsection \<open>Switching\<close>

lemma switched_simps [simp]:
  "sc_cpu (switched st c t p u n) = sc_cpu st" "sc_num_cpus (switched st c t p u n) = sc_num_cpus st"
  "sc_next_pid (switched st c t p u n) = sc_next_pid st" "sc_idle_task (switched st c t p u n) = sc_idle_task st"
  "sc_current (switched st c t p u n) = u" "sc_nodes (switched st c t p u n) = sc_nodes st" "sc_pid_table (switched st c t p u n) = sc_pid_table st"
  by (simp_all add: switched_def)

lemma inv_switched:
  assumes i: "sched_inv st R" and n: "task_at st next = Some n" and p: "task_at st (sc_current st) = Some p" and "next \<noteq> sc_current st"
    and b: "tk_state p = TASK_BLOCKED \<Longrightarrow> sc_current st \<notin> R"
  shows "sched_inv (switched st c (sc_current st) p next n) R"
proof -
  let ?t = "sc_current st" let ?s = "switched st c ?t p next n"
  have q: "queue ?s 0 xs = queue st 0 xs" for xs by (simp add: queue_def ready_tree_def switched_def)
  have tasks: "sc_tasks ?s = (sc_tasks st)(next \<mapsto> switched_in n, ?t \<mapsto> p\<lparr>tk_fpu_used := False\<rparr>)" by (simp add: switched_def)
  have bit: "pid_test_bit ?s = pid_test_bit st" by (simp add: pid_test_bit_def switched_def fun_eq_iff)
  have ok: "task_ok st next n" "task_ok st ?t p" using invD(6) [OF i] n p by (auto simp: task_at_Some)
  have "task_ok ?s u k = task_ok st u k" for u k using bit by (simp add: task_ok_def)
  then have "task_ok ?s u k" if "sc_tasks ?s u = Some k" for u k
    using that ok invD(6) [OF i, of u k] by (auto simp: tasks task_ok_def switched_in_def priority_ok_def split: if_splits)
  note ok' = this
  have aw: "awake k \<and> tk_pid k = 0" if "sc_tasks ?s (sc_idle_task st) = Some k" for k
    using that n p invD(9) [OF i] by (auto simp: tasks switched_in_def awake_def task_at_Some split: if_splits)
  have bl: "u \<notin> R" if "sc_tasks ?s u = Some k" "tk_state k = TASK_BLOCKED" "u \<noteq> next" for u k
    using that b invD(8) [OF i, of u k] by (auto simp: tasks split: if_splits)
  have "R \<subseteq> dom (sc_tasks ?s)" "next \<in> dom (sc_tasks ?s)" using invD(3) [OF i] assms(4) by (auto simp: tasks)
  moreover obtain xs where "queue st 0 xs" "snd ` set xs = node_of ` R" using inv_queue [OF i] .
  ultimately show ?thesis using invD(1,2,5) [OF i] inv_vars [OF i] ok' aw bl
    by (intro sched_invI [of ?s xs R]) (simp_all add: q bit)
qed

lemma inv_put_task:
  assumes "sched_inv st R" and "task_at st (sc_current st) = Some k"
  shows "quiet {sc_current st} st (put_task st (sc_current st) k)"
  using assms(2) by (auto simp: put_task_def quiet_def task_at_Some mild_def awake_def hears_def option.rel_refl)

text \<open>What a call of \<open>schedule\<close> does to the tasks in the tree and to the others.\<close>

definition progress :: "sched \<Rightarrow> addr set \<Rightarrow> sched \<Rightarrow> addr set \<Rightarrow> bool" where
  "progress st R st' R' \<longleftrightarrow> sched_inv st' R' \<and> (\<forall>t. lost st R t \<longrightarrow> lost st' R' t) \<and> dom (sc_tasks st) \<subseteq> dom (sc_tasks st') \<and>
     (\<forall>p. pid_test_bit st p \<longrightarrow> pid_test_bit st' p)"

lemma progress_trans: "progress a R b S \<Longrightarrow> progress b S c T \<Longrightarrow> progress a R c T"
  unfolding progress_def by (meson subset_trans)

lemma quiet_progress: "sched_inv st R \<Longrightarrow> quiet A st st' \<Longrightarrow> A \<subseteq> {sc_current st} \<Longrightarrow> progress st R st' R"
  using quiet_inv quiet_lost quiet_dom [of A st st'] by (auto simp: progress_def pid_test_bit_def quiet_def)

lemma switch_progress:
  assumes i: "sched_inv st R" and s: "schedulable st xs k" and xs: "snd ` set xs = node_of ` R" and o: "least_other st xs \<or> idle_ready st"
    and "schedule st = Some (r, st')"
  shows "\<exists>R'. progress st R st' R' \<and> sc_current st' \<in> R' \<and> r = Switches (sc_current st) \<and>
    (\<exists>n. task_at st' (sc_current st') = Some n \<and> tk_state n = TASK_RUNNING \<and> 2 \<le> tk_ref_count n)"
proof -
  let ?t = "sc_current st" and ?n = "next_task st xs"
  define R' where "R' = (if tk_state k = TASK_BLOCKED then R - {?t} else R)"
  have k: "task_at st ?t = Some k" and aside: "tk_state k = TASK_RUNNING \<or> tk_state k = TASK_BLOCKED \<Longrightarrow> ?t \<in> R"
    using s xs by (auto simp: schedulable_def image_iff)
  obtain n where n: "task_at st ?n = Some n" "?n \<noteq> ?t" using next_task_other [OF s o] .
  have nR: "?n \<in> R"
  proof (cases "least_other st xs")
    case True
    then have "snd (hd xs) \<in> node_of ` R" using xs by (auto simp: least_other_def)
    then show ?thesis using True by (auto simp: next_task_def)
  qed (use invD(5) [OF i] in \<open>simp add: next_task_def\<close>)
  obtain st1 p where st1: "schedule st = Some (Switches ?t, switched st1 (sc_cpu st) ?t p ?n n)" "queue st1 0 (set_aside k ?t xs)"
      "dom (sc_nodes st1) = dom (sc_nodes st)" "task_at st1 ?t = Some p" "\<exists>s. st1 = retree (put_task st ?t k) 0 s"
    using schedule_switches [OF s n(1) o] invD(1) [OF i] by auto
  have "snd ` set [x \<leftarrow> xs. snd x \<noteq> node_of ?t] = snd ` set xs - {node_of ?t}" by auto
  also have "\<dots> = node_of ` (R - {?t})" using xs by auto
  finally have set: "snd ` set (set_aside k ?t xs) = node_of ` R'"
    using xs aside by (cases "tk_state k") (auto simp: set_aside_def R'_def set_insort_key)
  have i1: "sched_inv (put_task st ?t k) R" using quiet_inv [OF i inv_put_task [OF i k]] by simp
  have idle: "sc_idle_task st \<in> R'" using invD(5,9) [OF i] k by (auto simp: R'_def task_at_Some awake_def)
  obtain s where e: "st1 = retree (put_task st ?t k) 0 s" using st1(5) by blast
  have l: "0 < length (sc_rqs (put_task st ?t k))" using i1 by (auto simp: sched_inv_def queue_def)
  have "rb_holds s (set_aside k ?t xs)" using st1(2) l by (simp add: e queue_retree)
  then have i2: "sched_inv st1 R'" unfolding e
    by (rule inv_retree [OF i1 _ set]) (use st1(3) e idle invD [OF i1] in \<open>auto simp: R'_def put_task_def split: if_splits\<close>)
  have ne: "sc_current st1 = ?t" "task_at st1 ?n = Some n" using n by (auto simp: e put_task_def task_at_def split: if_splits)
  have b: "tk_state p = TASK_BLOCKED \<Longrightarrow> ?t \<notin> R'" using st1(4) k by (auto simp: e put_task_def task_at_def R'_def split: if_splits)
  have st': "st' = switched st1 0 ?t p ?n n" "r = Switches ?t" using st1(1) assms(5) invD(1) [OF i] by simp_all
  have "sched_inv st' R'" using inv_switched [of st1 R' ?n n p 0] i2 ne st1(4) n(2) b by (simp add: st')
  moreover have "lost st' R' u" if "lost st R u" for u
    using that nR n(2) by (auto simp: lost_def st' switched_def e put_task_def R'_def)
  moreover have "dom (sc_tasks st) \<subseteq> dom (sc_tasks st')" by (auto simp: st' switched_def e put_task_def)
  moreover have "pid_test_bit st' = pid_test_bit st" by (simp add: pid_test_bit_def st' switched_def e put_task_def fun_eq_iff)
  ultimately have "progress st R st' R'" by (simp add: progress_def)
  moreover have "?n \<in> R'" using nR n(2) by (simp add: R'_def)
  moreover have "task_at st' ?n = Some (switched_in n)" using n by (auto simp: st' switched_def task_at_def split: if_splits)
  moreover have "1 \<le> tk_ref_count n" using invD(6) [OF i, of ?n n] n(1) by (simp add: task_at_Some task_ok_def)
  ultimately show ?thesis using st' by (auto simp: switched_in_def)
qed

end
