(* ===== verification/Sched_life.thy ===== *)
theory Sched_life
  imports Sched_reach
begin

text \<open>Calls of the scheduler as a whole, from the creation of a task to its exit.\<close>

lemma schedule_progress:
  assumes i: "sched_inv st R" and s: "schedule st = Some (r, st')"
    and c: "sc_current st \<in> R \<or> (\<exists>k. sc_tasks st (sc_current st) = Some k \<and> tk_state k = TASK_ZOMBIE)"
  shows "(st' = st \<and> (r = Stays \<or> r = Halts)) \<or>
    (\<exists>R'. progress st R st' R' \<and> sc_current st' \<in> R' \<and> r = Switches (sc_current st) \<and>
      (\<exists>n. task_at st' (sc_current st') = Some n \<and> tk_state n = TASK_RUNNING \<and> 2 \<le> tk_ref_count n))"
proof -
  obtain xs where xs: "queue st 0 xs" "snd ` set xs = node_of ` R" using inv_queue [OF i] .
  obtain k where k: "sc_tasks st (sc_current st) = Some k" using invD(4) [OF i] by auto
  then have k': "task_at st (sc_current st) = Some k" "sc_current st \<noteq> NULL" "priority_ok k"
    using invD(6,7) [OF i k] by (simp_all add: task_ok_def)
  have rq: "get_rq st (sc_cpu st) = Some (sc_rqs st ! 0)" using xs(1) invD(1) [OF i] by (simp add: get_rq_def queue_def)
  show ?thesis
  proof (cases "tk_next k = NULL \<or> rq_head (sc_rqs st ! 0) = NULL")
    case True
    then show ?thesis using s k' rq by (auto simp: schedule_def split: if_splits)
  next
    case False
    have "task_at st (task_of (snd x)) \<noteq> None" if "x \<in> set xs" for x
    proof -
      have "snd x \<in> node_of ` R" using xs(2) that by blast
      then show ?thesis using invD(3,7) [OF i] by auto
    qed
    moreover have "task_at st (sc_idle_task st) \<noteq> None" using invD(3,5,7) [OF i] by blast
    ultimately have sb: "schedulable st xs k" using xs k k' False c invD(1) [OF i] by (auto simp: schedulable_def)
    show ?thesis
    proof (cases "least_other st xs \<or> idle_ready st")
      case True
      then show ?thesis using switch_progress [OF i sb xs(2) True s] by blast
    next
      case False
      then show ?thesis using schedule_keeps [OF sb] s by (auto split: if_splits)
    qed
  qed
qed

text \<open>The task that runs next may go on inside an earlier call of \<open>schedule\<close>, or start with its first instruction.\<close>

definition resume :: "bool \<Rightarrow> outcome \<Rightarrow> sched \<Rightarrow> sched ub" where
  "resume fresh r st = (case r of Switches _ \<Rightarrow> if fresh then Some st else schedule_resumed st (sc_current st) | _ \<Rightarrow> Some st)"

text \<open>The current task is in the tree, or has exited and not been switched away from yet.\<close>

definition exited :: "sched \<Rightarrow> bool" where
  "exited st \<longleftrightarrow> (\<exists>k. sc_tasks st (sc_current st) = Some k \<and> tk_state k = TASK_ZOMBIE)"

definition alive :: "sched \<Rightarrow> addr set \<Rightarrow> bool" where
  "alive st R \<longleftrightarrow> sched_inv st R \<and> (sc_current st \<in> R \<or> exited st)"

definition advances :: "sched \<Rightarrow> addr set \<Rightarrow> sched \<Rightarrow> bool" where
  "advances st R st' \<longleftrightarrow> (\<exists>R'. progress st R st' R' \<and> (sc_current st' \<in> R' \<or> exited st'))"

lemma advances_trans: "progress st R st1 R1 \<Longrightarrow> advances st1 R1 st' \<Longrightarrow> advances st R st'"
  using progress_trans unfolding advances_def by blast

lemma progress_refl: "sched_inv st R \<Longrightarrow> progress st R st R"
  by (simp add: progress_def)

lemma put_progress:
  assumes i: "sched_inv st R" and n: "task_at st t = Some n" "tk_state n = TASK_RUNNING" "2 \<le> tk_ref_count n"
    and "task_put st t = Some st'"
  shows "progress st R st' R \<and> sc_current st' = sc_current st"
proof -
  let ?k = "n\<lparr>tk_ref_count := tk_ref_count n - 1\<rparr>"
  have st': "st' = st\<lparr>sc_tasks := (sc_tasks st)(t \<mapsto> ?k)\<rparr>" using task_put_live [OF n(1)] n(3) assms(5) by simp
  have b: "pid_test_bit st' = pid_test_bit st" by (simp add: st' pid_test_bit_def fun_eq_iff)
  have t: "sc_tasks st t = Some n" using n(1) by (simp add: task_at_Some)
  have ok: "task_ok st' u k = task_ok st u k" for u k using b by (simp add: task_ok_def st')
  have "task_ok st t ?k" using invD(6) [OF i t] n(3) by (simp add: task_ok_def priority_ok_def)
  then have ok': "task_ok st' u k" if "sc_tasks st' u = Some k" for u k
    using that invD(6) [OF i, of u k] by (auto simp: ok) (auto simp: st' split: if_splits)
  obtain xs where xs: "queue st 0 xs" "snd ` set xs = node_of ` R" using inv_queue [OF i] .
  have aw: "awake k \<and> tk_pid k = 0" if "sc_tasks st' (sc_idle_task st) = Some k" for k
    using that invD(9) [OF i] t n(2) by (auto simp: st' awake_def split: if_splits)
  have bl: "u \<notin> R" if "sc_tasks st' u = Some k" "tk_state k = TASK_BLOCKED" "u \<noteq> sc_current st" for u k
    using that invD(8) [OF i, of u k] n(2) by (auto simp: st' split: if_splits)
  have "queue st' 0 xs" using xs(1) by (simp add: st' queue_def ready_tree_def)
  then have "sched_inv st' R" using xs(2) invD(1-5) [OF i] inv_vars [OF i] ok' aw bl b by (intro sched_invI [of st' xs R]) (auto simp: st')
  moreover have "lost st' R u" if "lost st R u" for u using that n(2) t by (auto simp: lost_def st')
  ultimately show ?thesis using b t by (auto simp: progress_def st')
qed

lemma schedule_advances:
  assumes i: "sched_inv st R" and s: "schedule st = Some (r, st1)" "resume fresh r st1 = Some st'"
    and c: "sc_current st \<in> R \<or> exited st"
  shows "advances st R st'"
proof -
  from schedule_progress [OF i s(1) c [unfolded exited_def]] show ?thesis
  proof
    assume "st1 = st \<and> (r = Stays \<or> r = Halts)"
    then show ?thesis using s(2) c progress_refl [OF i] by (auto simp: resume_def advances_def)
  next
    assume "\<exists>R'. progress st R st1 R' \<and> sc_current st1 \<in> R' \<and> r = Switches (sc_current st) \<and>
      (\<exists>n. task_at st1 (sc_current st1) = Some n \<and> tk_state n = TASK_RUNNING \<and> 2 \<le> tk_ref_count n)"
    then obtain R' n where p: "progress st R st1 R'" "sc_current st1 \<in> R'" "r = Switches (sc_current st)"
        "task_at st1 (sc_current st1) = Some n" "tk_state n = TASK_RUNNING" "2 \<le> tk_ref_count n" by blast
    show ?thesis
    proof (cases fresh)
      case True
      then show ?thesis using s(2) p(1-3) by (auto simp: resume_def advances_def)
    next
      case False
      have i1: "sched_inv st1 R'" using p(1) by (simp add: progress_def)
      have "task_put st1 (sc_current st1) = Some st'" using s(2) p(3) False by (simp add: resume_def schedule_resumed_def)
      then have "progress st1 R' st' R'" "sc_current st' = sc_current st1" using put_progress [OF i1 p(4-6)] by simp_all
      then show ?thesis using progress_trans [OF p(1)] p(2) unfolding advances_def by metis
    qed
  qed
qed

text \<open>The same after a quiet change of the current task.\<close>

lemma quiet_advances:
  assumes "sched_inv st R" and "sc_current st \<in> R" and "quiet {sc_current st} st st'"
  shows "advances st R st'"
  using quiet_progress [OF assms(1,3)] assms(2,3) by (auto simp: advances_def quiet_def)

lemma quiet_schedule_advances:
  assumes i: "sched_inv st R" and c: "sc_current st \<in> R" and q: "quiet {sc_current st} st st0"
    and s: "schedule st0 = Some (r, st1)" "resume fresh r st1 = Some st'"
  shows "advances st R st'"
proof -
  have p: "progress st R st0 R" using quiet_progress [OF i q] by simp
  have i0: "sched_inv st0 R" "sc_current st0 = sc_current st" using p q by (simp_all add: progress_def quiet_def)
  then have "advances st0 R st'" using schedule_advances [OF i0(1) s] c by simp
  then show ?thesis using advances_trans [OF p] by blast
qed

lemma yield_advances:
  assumes "sched_inv st R" "sc_current st \<in> R" and "yield st = Some (r, st1)" "resume fresh r st1 = Some st'"
  shows "advances st R st'"
proof -
  have n: "sc_current st \<noteq> NULL" using invD(3,6) [OF assms(1)] assms(2) by (fastforce simp: task_ok_def)
  then obtain k k1 st0 where s: "task_at st (sc_current st) = Some k" "charge k = Some k1"
      "upd_task st (sc_current st) (\<lambda>_. k1\<lparr>tk_state := TASK_READY\<rparr>) = Some st0" "schedule st0 = Some (r, st1)"
    using assms(3) by (auto simp: yield_def bind_eq_Some_conv)
  have "k1 = k\<lparr>tk_vruntime := charged k\<rparr>" using s(2) by (auto simp: charge_def charged_def Let_def split: if_splits)
  then have "quiet {sc_current st} st st0" by (intro quiet_upd [OF s(3)]) (use s(1) in \<open>auto simp: mild_def hears_def awake_def\<close>)
  then show ?thesis using quiet_schedule_advances [OF assms(1,2) _ s(4) assms(4)] by blast
qed

text \<open>What the current task does to its own fields.\<close>

lemma quiet_ready:
  assumes "upd_task (st\<lparr>sc_need_resched := b\<rparr>) (sc_current st) (\<lambda>k. k\<lparr>tk_need_resched := False, tk_state := TASK_READY\<rparr>) = Some st0"
  shows "quiet {sc_current st} st st0"
  using quiet_trans [OF quiet_vars(2) quiet_upd [OF assms]] by (auto simp: mild_def hears_def awake_def)

lemma check_resched_advances:
  assumes "sched_inv st R" "sc_current st \<in> R" and "check_resched st = Some (r, st1)" "resume fresh r st1 = Some st'"
  shows "advances st R st'"
proof -
  have n: "sc_current st \<noteq> NULL" using invD(3,6) [OF assms(1)] assms(2) by (fastforce simp: task_ok_def)
  consider st0 where "upd_task (st\<lparr>sc_need_resched := False\<rparr>) (sc_current st) (\<lambda>k. k\<lparr>tk_need_resched := False, tk_state := TASK_READY\<rparr>) = Some st0"
      "schedule st0 = Some (r, st1)" | "r = Stays" "st1 = st\<lparr>sc_need_resched := False\<rparr>"
    using assms(3) n by (auto simp: check_resched_def bind_eq_Some_conv Let_def split: if_splits)
  then show ?thesis
  proof cases
    case 1
    then show ?thesis using quiet_schedule_advances [OF assms(1,2) quiet_ready [OF 1(1)] 1(2) assms(4)] by blast
  next
    case 2
    then show ?thesis using quiet_advances [OF assms(1,2) quiet_vars(2)] assms(4) by (auto simp: resume_def)
  qed
qed

lemma preempt_enable_advances:
  assumes "sched_inv st R" "sc_current st \<in> R" and "preempt_enable st = Some (r, st1)" "resume fresh r st1 = Some st'"
  shows "advances st R st'"
proof -
  let ?t = "sc_current st"
  have n: "?t \<noteq> NULL" using invD(3,6) [OF assms(1)] assms(2) by (fastforce simp: task_ok_def)
  let ?f = "\<lambda>k. if 0 < tk_preempt_count k then k\<lparr>tk_preempt_count := tk_preempt_count k - 1\<rparr> else k"
  obtain st0 where st0: "upd_task st ?t ?f = Some st0" using assms(3) n by (auto simp: preempt_enable_def bind_eq_Some_conv)
  have q: "quiet {?t} st st0" by (rule quiet_upd [OF st0]) (auto simp: mild_def hears_def awake_def)
  have c: "sc_current st0 = ?t" using q by (simp add: quiet_def)
  consider st2 where "upd_task st0 ?t (\<lambda>k. k\<lparr>tk_need_resched := False, tk_state := TASK_READY\<rparr>) = Some st2"
      "schedule st2 = Some (r, st1)" | "r = Stays" "st1 = st0"
    using assms(3) n st0 c by (auto simp: preempt_enable_def bind_eq_Some_conv split: if_splits)
  then show ?thesis
  proof cases
    case 1
    have "quiet {?t} st0 st2" by (rule quiet_upd [OF 1(1)]) (auto simp: mild_def hears_def awake_def)
    then show ?thesis using quiet_schedule_advances [OF assms(1,2) quiet_trans [OF q] 1(2) assms(4)] by blast
  next
    case 2
    then show ?thesis using quiet_advances [OF assms(1,2) q] assms(4) by (auto simp: resume_def)
  qed
qed

subsection \<open>Exit\<close>

text \<open>After the signal a parent is only still blocked if it does not hear it.\<close>

lemma post_signal_deaf: "tk_state (post_signal k SIGCHLD s) = TASK_BLOCKED \<Longrightarrow> \<not> hears (post_signal k SIGCHLD s)"
  by (auto simp: post_signal_def hears_def Let_def split: if_splits)

lemma kill_deaf:
  assumes r: "refs_ok st" and k: "task_at st t = Some k" and p: "0 \<le> tk_pid k" "tk_pid k < int MAX_PID" "sc_pid_table st (nat (tk_pid k)) = t"
    and d: "do_sys_kill st ok (tk_pid k) SIGCHLD = Some (res, st')" and k': "sc_tasks st' t = Some k'" "tk_state k' = TASK_BLOCKED"
  shows "\<not> hears k'"
proof
  assume h: "hears k'"
  have n: "t \<noteq> NULL" "sc_tasks st t = Some k" using k by (simp_all add: task_at_Some)
  from do_sys_kill_cases [OF r d] have "k' = k"
  proof
    assume "\<exists>u j. task_at st u = Some j \<and> st' = st\<lparr>sc_tasks := (sc_tasks st)(u \<mapsto> post_signal j SIGCHLD (sig_or_new j))\<rparr>"
    then show ?thesis using k' n h post_signal_deaf by (auto simp: task_at_Some split: if_splits)
  qed (use k' n in simp)
  then show False using kill_wakes [OF r k _ _ p] d k' n h by auto
qed

lemma signal_child_deaf:
  assumes "refs_ok st" and "signal_child_event st ok c = Some st'" and "task_at st c = Some ck" "task_at st (tk_parent ck) = Some k"
    "0 \<le> tk_pid k" "tk_pid k < int MAX_PID" "sc_pid_table st (nat (tk_pid k)) = tk_parent ck"
    and "sc_tasks st' (tk_parent ck) = Some k'" "tk_state k' = TASK_BLOCKED"
  shows "\<not> hears k'"
proof -
  have "tk_parent ck \<noteq> NULL" "sc_tasks st (tk_parent ck) = Some k" using assms(4) by (simp_all add: task_at_Some)
  then show ?thesis using assms(2,3,4,8,9) kill_deaf [OF assms(1,4-7) _ assms(8,9)] by (auto simp: signal_child_event_def bind_eq_Some_conv split: if_splits)
qed

lemma wake_parent_progress:
  assumes i: "sched_inv st R" and "wake_parent st p = Some st'"
    and deaf: "\<And>k. sc_tasks st p = Some k \<Longrightarrow> tk_state k = TASK_BLOCKED \<Longrightarrow> \<not> hears k \<and> p \<noteq> sc_current st"
  shows "\<exists>R'. progress st R st' R' \<and> R \<subseteq> R' \<and> sc_current st' = sc_current st \<and> sc_idle_task st' = sc_idle_task st \<and>
    (\<forall>u k. sc_tasks st u = Some k \<and> tk_state k \<noteq> TASK_BLOCKED \<longrightarrow> sc_tasks st' u = Some k)"
proof (cases "\<exists>k. task_at st p = Some k \<and> tk_state k = TASK_BLOCKED")
  case False
  then have "st' = st" using assms(2) by (auto simp: wake_parent_def bind_eq_Some_conv split: if_splits)
  then show ?thesis using progress_refl [OF i] by auto
next
  case True
  then obtain k where k: "sc_tasks st p = Some k" "tk_state k = TASK_BLOCKED" "p \<noteq> NULL" by (auto simp: task_at_Some)
  let ?k = "k\<lparr>tk_state := TASK_READY\<rparr>" and ?st1 = "st\<lparr>sc_tasks := (sc_tasks st)(p \<mapsto> k\<lparr>tk_state := TASK_READY\<rparr>)\<rparr>"
  have d: "\<not> hears k" "p \<noteq> sc_current st" using deaf k by simp_all
  have pR: "p \<notin> R" using invD(8) [OF i k(1,2)] d(2) by simp
  have u: "upd_task st p (\<lambda>k. k\<lparr>tk_state := TASK_READY\<rparr>) = Some ?st1" using k by (simp add: upd_task_def task_at_def)
  have "quiet {} st ?st1" by (rule quiet_upd [OF u]) (use k in \<open>auto simp: mild_def hears_def task_at_Some\<close>)
  then have pr: "progress st R ?st1 R" using quiet_progress [OF i] by simp
  then have i1: "sched_inv ?st1 R" by (simp add: progress_def)
  obtain s where s: "tree_add ?st1 0 p = Some (retree ?st1 0 s)" "sched_inv (retree ?st1 0 s) (insert p R)"
    using inv_tree_add [OF i1 pR, of ?k] by auto
  have "tk_cpu_id k = 0" using invD(6) [OF i k(1)] by (simp add: task_ok_def)
  then have st': "st' = retree ?st1 0 s" using assms(2) k u s(1) by (auto simp: wake_parent_def task_at_def)
  have "lost st' (insert p R) t" if "lost st R t" for t
    using that d k by (auto simp: lost_def st')
  then have "progress st R st' (insert p R)" using s(2) by (auto simp: progress_def st' pid_test_bit_def)
  then show ?thesis using k by (auto simp: st')
qed

lemma retree_progress:
  assumes "sched_inv st R" and "sched_inv (retree st 0 s) R'" and "R' \<subseteq> R"
  shows "progress st R (retree st 0 s) R'"
  using assms by (auto simp: progress_def lost_def pid_test_bit_def)

lemma rq_leave_progress:
  assumes i: "sched_inv st R" and t: "sc_current st \<in> R" "sc_current st \<noteq> sc_idle_task st" and "rq_leave st 0 (sc_current st) = Some (Some st')"
  shows "progress st R st' (R - {sc_current st}) \<and> quiet {} st (st'\<lparr>sc_rqs := sc_rqs st, sc_nodes := sc_nodes st\<rparr>)"
proof -
  let ?t = "sc_current st"
  obtain prev and rq :: run_queue where a: "get_rq st 0 = Some rq" "ring_prev st ?t ?t = Some prev" "prev \<noteq> ?t"
    using assms(4) by (auto simp: rq_leave_def bind_eq_Some_conv split: if_split_asm)
  obtain st1 st3 rq3 and k :: task_struct where s: "get_rq st 0 = Some rq" "upd_task st prev (\<lambda>p. p\<lparr>tk_next := tk_next k\<rparr>) = Some st1"
      "tree_remove (set_rq st1 0 (if rq_head rq = ?t then rq\<lparr>rq_head := tk_next k\<rparr> else rq)) 0 ?t = Some st3" "get_rq st3 0 = Some rq3"
      "st' = set_rq st3 0 (if 0 < rq_count rq3 then rq3\<lparr>rq_count := rq_count rq3 - 1\<rparr> else rq3)"
    using assms(4) unfolding rq_leave_def a(1,2) Option.bind.simps if_not_P [OF a(3)] Let_def bind_eq_Some_conv option.inject using a(1) by blast
  let ?st2 = "set_rq st1 0 (if rq_head rq = ?t then rq\<lparr>rq_head := tk_next k\<rparr> else rq)"
  have q1: "quiet {} st st1" by (rule quiet_upd [OF s(2)]) (auto simp: mild_def hears_def)
  have "sc_rqs st1 = sc_rqs st" using s(2) by (auto simp: upd_task_Some)
  then have "quiet {} st1 ?st2" using s(1) by (intro quiet_rq [of st1 0 rq]) (auto simp: get_rq_def split: if_splits)
  then have q2: "quiet {} st ?st2" using quiet_trans q1 by blast
  have p2: "progress st R ?st2 R" using quiet_progress [OF i q2] by simp
  then have i2: "sched_inv ?st2 R" by (simp add: progress_def)
  have e: "sc_current ?st2 = ?t" "sc_idle_task ?st2 = sc_idle_task st" using q2 by (simp_all add: quiet_def)
  obtain x where x: "st3 = retree ?st2 0 x" "sched_inv st3 (R - {?t})" using inv_tree_remove [OF i2 t(1)] t(2) s(3) e by fastforce
  have "progress ?st2 R st3 (R - {?t})" using retree_progress [OF i2] x by auto
  then have p3: "progress st R st3 (R - {?t})" using progress_trans p2 by blast
  have "quiet {} st3 st'" using quiet_rq [OF s(4), of _ "{}"] s(5) by auto
  then have "progress st3 (R - {?t}) st' (R - {?t})" using quiet_progress [OF x(2)] by simp
  then have "progress st R st' (R - {?t})" using progress_trans p3 by blast
  moreover have "quiet {} st (st'\<lparr>sc_rqs := sc_rqs st, sc_nodes := sc_nodes st\<rparr>)"
    using q1 by (auto simp: s(5) x(1) quiet_def retree_def set_rq_def)
  ultimately show ?thesis by blast
qed

text \<open>A parent that is still blocked after the signal to it does not hear the signal.\<close>

lemma exit_deaf:
  assumes i: "sched_inv st R" and q1: "quiet {} st s1" and s: "signal_child_event s1 ok t = Some s2"
      "upd_task s2 t (\<lambda>k. k\<lparr>tk_exit_code := code, tk_state := TASK_ZOMBIE\<rparr>) = Some s3" "task_at s3 t = Some k3"
    and k': "sc_tasks s3 (tk_parent k3) = Some k'" "tk_state k' = TASK_BLOCKED"
  shows "\<not> hears k'"
proof -
  have i1: "sched_inv s1 R" using quiet_inv [OF i q1] by simp
  have r1: "refs_ok s1" using inv_refs [OF i1] .
  obtain c2 where c2: "task_at s2 t = Some c2" "tk_parent k3 = tk_parent c2" "tk_state k3 = TASK_ZOMBIE"
    using s(2,3) by (auto simp: upd_task_Some task_at_def split: if_splits)
  obtain c1 where c1: "task_at s1 t = Some c1" using s(1) by (auto simp: signal_child_event_def bind_eq_Some_conv)
  have par: "tk_parent c2 = tk_parent c1" using signal_child_parent [OF r1 s(1) c1 c2(1)] .
  have "tk_parent k3 \<noteq> t" using k' s(3) c2(3) by (auto simp: task_at_Some)
  then have k2: "sc_tasks s2 (tk_parent c1) = Some k'" using k'(1) s(2) c2(2) par by (auto simp: upd_task_Some)
  obtain kp where kp: "sc_tasks s1 (tk_parent c1) = Some kp" using quiet_task' [OF signal_child_quiet [OF r1 s(1)] k2] by blast
  have "task_ok s1 (tk_parent c1) kp" "task_at s1 (tk_parent c1) = Some kp" using invD(6,7) [OF i1 kp] by simp_all
  then show ?thesis using signal_child_deaf [OF r1 s(1) c1 _ _ _ _ k2 k'(2)] by (simp add: task_ok_def)
qed

lemma quiet_exited: "quiet {} st st' \<Longrightarrow> exited st \<Longrightarrow> exited st'"
  using quiet_task [of "{}" st st' "sc_current st"] by (fastforce simp: exited_def quiet_def mild_def)

lemma exit_advances:
  assumes i: "sched_inv st R" and c: "sc_current st \<in> R" and "do_exit_current st ok code = Some (r, st1)" "resume fresh r st1 = Some st'"
  shows "advances st R st'"
proof -
  let ?t = "sc_current st"
  obtain k where k: "sc_tasks st ?t = Some k" using invD(4) [OF i] by auto
  have n: "?t \<noteq> NULL" using invD(6) [OF i k] by (simp add: task_ok_def)
  obtain s1 s2 s3 k3 s4 s5 l where s: "tk_pid k \<noteq> 0" "reparent_children_to_init st ?t = Some s1" "signal_child_event s1 ok ?t = Some s2"
      "upd_task s2 ?t (\<lambda>k. k\<lparr>tk_exit_code := code, tk_state := TASK_ZOMBIE\<rparr>) = Some s3" "task_at s3 ?t = Some k3"
      "wake_parent s3 (tk_parent k3) = Some s4" "vfork_notify s4 ?t = Some s5" "rq_leave s5 (sc_cpu s5) ?t = Some l"
      "(case l of None \<Rightarrow> Some (Halts, s5) | Some s6 \<Rightarrow> schedule s6) = Some (r, st1)"
    using assms(3) n k unfolding do_exit_current_def Let_def by (auto simp: bind_eq_Some_conv task_at_Some split: if_split_asm)
  have idle: "?t \<noteq> sc_idle_task st" using s(1) k invD(9) [OF i] by auto
  have q1: "quiet {} st s1" and r1: "refs_ok s1" using quiet_reparent [OF s(2)] quiet_refs [OF inv_refs [OF i]] by blast+
  have q2: "quiet {} s1 s2" using signal_child_quiet [OF r1 s(3)] .
  have c2: "sc_current s2 = ?t" "sc_idle_task s2 = sc_idle_task st" using q1 q2 by (simp_all add: quiet_def)
  have q3: "quiet {?t} s2 s3" by (rule quiet_upd [OF s(4)]) (use idle c2 in \<open>auto simp: mild_def hears_def\<close>)
  have q: "quiet {?t} st s3" using quiet_trans [OF quiet_mono [OF q1]] quiet_trans [OF quiet_mono [OF q2] q3] by blast
  have p3: "progress st R s3 R" using quiet_progress [OF i q] by simp
  have c3: "sc_current s3 = ?t" "sc_idle_task s3 = sc_idle_task st" using q by (simp_all add: quiet_def)
  have i3: "sched_inv s3 R" using p3 by (simp add: progress_def)
  have z: "tk_state k3 = TASK_ZOMBIE" using s(4,5) by (auto simp: upd_task_Some task_at_def split: if_splits)
  have deaf: "\<not> hears k' \<and> tk_parent k3 \<noteq> sc_current s3" if k': "sc_tasks s3 (tk_parent k3) = Some k'" "tk_state k' = TASK_BLOCKED" for k'
    using exit_deaf [OF i q1 s(3,4,5) k'] z c3 k' s(5) by (auto simp: task_at_Some)
  obtain R4 where p4: "progress s3 R s4 R4" "R \<subseteq> R4" "sc_current s4 = ?t" "sc_idle_task s4 = sc_idle_task st" "sc_tasks s4 ?t = Some k3"
    using wake_parent_progress [OF i3 s(6) deaf] z s(5) c3 by (auto simp: task_at_Some)
  then have i4: "sched_inv s4 R4" by (simp add: progress_def)
  have q5: "quiet {} s4 s5" using s(7) by (auto simp: vfork_notify_def bind_eq_Some_conv mild_def hears_def elim!: quiet_upd split: if_splits)
  have p5: "progress s4 R4 s5 R4" using quiet_progress [OF i4 q5] by simp
  then have i5: "sched_inv s5 R4" by (simp add: progress_def)
  have c5: "sc_current s5 = ?t" "sc_idle_task s5 = sc_idle_task st" "sc_cpu s5 = 0" using q5 p4(3,4) invD(1) [OF i4] by (simp_all add: quiet_def)
  have z5: "exited s5" using quiet_task [OF q5 p4(5)] z by (auto simp: exited_def c5 mild_def)
  have p: "progress st R s5 R4" using progress_trans [OF p3] progress_trans [OF p4(1) p5] by blast
  show ?thesis
  proof (cases l)
    case None
    then show ?thesis using s(9) assms(4) p z5 by (auto simp: resume_def advances_def)
  next
    case (Some s6)
    have l: "progress s5 R4 s6 (R4 - {?t})" "quiet {} s5 (s6\<lparr>sc_rqs := sc_rqs s5, sc_nodes := sc_nodes s5\<rparr>)"
      using rq_leave_progress [OF i5] c5 c p4(2) idle s(8) Some by auto
    have "exited s6" using quiet_exited [OF l(2) z5] by (simp add: exited_def)
    then have "advances s6 (R4 - {?t}) st'" using schedule_advances [OF _ _ assms(4)] s(9) Some l(1) by (simp add: progress_def)
    then show ?thesis using advances_trans [OF progress_trans [OF p l(1)]] by blast
  qed
qed

end
