(* ===== verification/Sched_create.thy ===== *)
theory Sched_create
  imports Sched_life
begin

text \<open>Process numbers and the creation of tasks.\<close>

subsection \<open>Process numbers\<close>

lemma pid_bit: "pid_test_bit st p \<longleftrightarrow> bit (sc_pid_bitmap st (p div 64)) (p mod 64)"
  by (simp add: pid_test_bit_def and_one_eq bit_iff_odd_drop_bit odd_iff_mod_2_eq_one)

lemma same_pid: "p div 64 = q div 64 \<Longrightarrow> p mod 64 = q mod 64 \<Longrightarrow> p = (q :: nat)"
  by (metis div_mult_mod_eq)

lemma pid_set_test: "pid_test_bit (pid_set_bit st p) q \<longleftrightarrow> q = p \<or> pid_test_bit st q"
  using same_pid [of q p] by (auto simp: pid_bit pid_set_bit_def bit_or_iff bit_exp_iff possible_bit_word)

lemma pid_next [simp]: "pid_test_bit (st\<lparr>sc_next_pid := m\<rparr>) = pid_test_bit st"
  by (simp add: pid_test_bit_def fun_eq_iff)

text \<open>What the search returns, and that it ends without one only when all numbers in its cycle are taken.\<close>

lemma alloc_pid_loop_ok:
  assumes "alloc_pid_loop n st = (pid, st')" and "sc_next_pid st < MAX_PID"
  shows "\<exists>b m. st' = st\<lparr>sc_pid_bitmap := b, sc_next_pid := m\<rparr> \<and> m < MAX_PID \<and> (\<forall>q. pid_test_bit st q \<longrightarrow> pid_test_bit st' q) \<and>
    (pid = - 1 \<or> 0 \<le> pid \<and> pid < int MAX_PID \<and> \<not> pid_test_bit st (nat pid) \<and> pid_test_bit st' (nat pid))"
  using assms
proof (induction n arbitrary: st)
  case 0
  then show ?case by (intro exI [of _ "sc_pid_bitmap st"] exI [of _ "sc_next_pid st"]) auto
next
  case (Suc n)
  let ?p = "sc_next_pid st"
  let ?st1 = "st\<lparr>sc_next_pid := if MAX_PID \<le> ?p + 1 then 2 else ?p + 1\<rparr>"
  have l: "sc_next_pid ?st1 < MAX_PID" using Suc.prems(2) by simp
  show ?case
  proof (cases "pid_test_bit ?st1 ?p")
    case True
    then have "alloc_pid_loop n ?st1 = (pid, st')" using Suc.prems(1) by (simp add: Let_def)
    from Suc.IH [OF this l] show ?thesis by simp
  next
    case False
    then have "pid = int ?p" "st' = pid_set_bit ?st1 ?p" using Suc.prems(1) by (simp_all add: Let_def)
    then show ?thesis using Suc.prems(2) False l
      by (intro exI [of _ "sc_pid_bitmap st'"] exI [of _ "sc_next_pid ?st1"]) (auto simp: pid_set_test, simp_all add: pid_set_bit_def)
  qed
qed

lemma alloc_pid_ok:
  assumes "alloc_pid st = (pid, st')" and "sc_next_pid st < MAX_PID"
  shows "\<exists>b m. st' = st\<lparr>sc_pid_bitmap := b, sc_next_pid := m\<rparr> \<and> m < MAX_PID \<and> (\<forall>q. pid_test_bit st q \<longrightarrow> pid_test_bit st' q) \<and>
    (pid = - 1 \<or> 2 \<le> pid \<and> pid < int MAX_PID \<and> \<not> pid_test_bit st (nat pid) \<and> pid_test_bit st' (nat pid))"
proof -
  let ?st1 = "pid_set_bit (pid_set_bit st 0) 1"
  have a: "alloc_pid_loop MAX_PID ?st1 = (pid, st')" "sc_next_pid ?st1 < MAX_PID" using assms by (simp_all add: alloc_pid_def pid_set_bit_def)
  have t: "pid_test_bit ?st1 q \<longleftrightarrow> q = 0 \<or> q = 1 \<or> pid_test_bit st q" for q by (auto simp: pid_set_test)
  have e: "?st1\<lparr>sc_pid_bitmap := b, sc_next_pid := m\<rparr> = st\<lparr>sc_pid_bitmap := b, sc_next_pid := m\<rparr>" for b m by (simp add: pid_set_bit_def)
  have "2 \<le> pid" if "0 \<le> pid" "\<not> pid_test_bit ?st1 (nat pid)" using that t by (cases "pid = 0 \<or> pid = 1") auto
  then show ?thesis using alloc_pid_loop_ok [OF a] unfolding t e by blast
qed

lemma alloc_pid_progress:
  assumes i: "sched_inv st R" and "alloc_pid st = (pid, st')"
  shows "progress st R st' R \<and> sc_current st' = sc_current st \<and> sc_tasks st' = sc_tasks st \<and>
    (pid = - 1 \<or> 0 \<le> pid \<and> pid < int MAX_PID \<and> \<not> pid_test_bit st (nat pid) \<and> pid_test_bit st' (nat pid))"
proof -
  obtain b m where s: "st' = st\<lparr>sc_pid_bitmap := b, sc_next_pid := m\<rparr>" "m < MAX_PID" "\<And>q. pid_test_bit st q \<Longrightarrow> pid_test_bit st' q"
      "pid = - 1 \<or> 2 \<le> pid \<and> pid < int MAX_PID \<and> \<not> pid_test_bit st (nat pid) \<and> pid_test_bit st' (nat pid)"
    using alloc_pid_ok [OF assms(2) inv_vars(1) [OF i]] by blast
  obtain xs where xs: "queue st 0 xs" "snd ` set xs = node_of ` R" using inv_queue [OF i] .
  have "queue st' 0 xs" using xs(1) by (simp add: s(1) queue_def ready_tree_def)
  moreover have "task_ok st' t k" if "sc_tasks st t = Some k" for t k using invD(6) [OF i that] s(3) by (simp add: task_ok_def s(1))
  ultimately have "sched_inv st' R"
    using xs(2) invD(1-5,8,9) [OF i] inv_vars [OF i] s(2,3) by (intro sched_invI [of st' xs R]) (auto simp: s(1))
  moreover have "lost st' R = lost st R" by (simp add: lost_def s(1) fun_eq_iff)
  ultimately have "progress st R st' R" using s(3) by (simp add: progress_def) (simp add: s(1))
  then show ?thesis using s(4) by (auto simp: s(1))
qed

subsection \<open>A new task\<close>

text \<open>Progress for all tasks but the new one.\<close>

definition progress_but :: "addr \<Rightarrow> sched \<Rightarrow> addr set \<Rightarrow> sched \<Rightarrow> addr set \<Rightarrow> bool" where
  "progress_but t st R st' R' \<longleftrightarrow> sched_inv st' R' \<and> (\<forall>u. u \<noteq> t \<and> lost st R u \<longrightarrow> lost st' R' u) \<and> dom (sc_tasks st) \<subseteq> dom (sc_tasks st') \<and>
     (\<forall>p. pid_test_bit st p \<longrightarrow> pid_test_bit st' p)"

lemma progress_but_trans: "progress_but t a R b S \<Longrightarrow> progress_but t b S c T \<Longrightarrow> progress_but t a R c T"
  unfolding progress_but_def by (meson subset_trans)

lemma progress_imp_but: "progress a R b S \<Longrightarrow> progress_but t a R b S"
  by (auto simp: progress_def progress_but_def)

lemma progress_but_new: "progress_but t a R b S \<Longrightarrow> sc_tasks a t = None \<Longrightarrow> progress a R b S"
proof -
  assume *: "progress_but t a R b S" "sc_tasks a t = None"
  have "\<not> lost a R t" using *(2) by (simp add: lost_def)
  then show ?thesis using *(1) by (auto simp: progress_def progress_but_def)
qed

definition with_task :: "sched \<Rightarrow> addr \<Rightarrow> task_struct \<Rightarrow> nat \<Rightarrow> sched" where
  "with_task st t k p = st\<lparr>sc_tasks := (sc_tasks st)(t \<mapsto> k), sc_nodes := (sc_nodes st)(node_of t \<mapsto> zero_node),
     sc_pid_table := (sc_pid_table st)(p := t), sc_num_cpus := if sc_num_cpus st = 0 then 1 else sc_num_cpus st\<rparr>"

lemma with_task_progress:
  assumes i: "sched_inv st R" and t: "sc_tasks st t = None" "t \<noteq> NULL" "node_of t \<noteq> NULL"
    and p: "p < MAX_PID" "pid_test_bit st p" "\<And>u k. sc_tasks st u = Some k \<Longrightarrow> tk_pid k \<noteq> int p"
    and k: "tk_pid k = int p" "tk_ref_count k = 1" "tk_cpu_id k = 0" "priority_ok k"
  shows "progress st R (with_task st t k p) R"
proof -
  let ?st = "with_task st t k p"
  have b: "pid_test_bit ?st = pid_test_bit st" by (simp add: pid_test_bit_def with_task_def fun_eq_iff)
  have tR: "t \<notin> R" using invD(3) [OF i] t(1) by auto
  obtain xs where xs: "queue st 0 xs" "snd ` set xs = node_of ` R" using inv_queue [OF i] .
  have "rb_holds (ready_tree ?st (sc_rqs st ! 0)) xs"
    by (rule holds_frame [of "ready_tree st (sc_rqs st ! 0)"]) (use xs tR in \<open>auto simp: queue_def ready_tree_def with_task_def\<close>)
  then have q: "queue ?st 0 xs" using xs(1) by (simp add: queue_def with_task_def)
  have ok: "task_ok ?st u j" if "sc_tasks st u = Some j" for u j
    using invD(6) [OF i that] p(3) [OF that] b by (auto simp: task_ok_def with_task_def)
  have ok': "task_ok ?st u j" if "sc_tasks ?st u = Some j" for u j
  proof (cases "u = t")
    case True
    then show ?thesis using that t p k b by (auto simp: task_ok_def with_task_def)
  qed (use that ok in \<open>simp add: with_task_def\<close>)
  have "sc_idle_task st \<noteq> t" using invD(5) [OF i] tR by auto
  then have "sched_inv ?st R" using xs(2) q ok' b invD(1-5,8,9) [OF i] inv_vars [OF i] k tR
    by (intro sched_invI [of ?st xs R]) (auto simp: with_task_def split: if_splits)
  moreover have "lost ?st R u" if "lost st R u" for u using that t(1) by (auto simp: lost_def with_task_def)
  ultimately show ?thesis using b by (auto simp: progress_def) (auto simp: with_task_def)
qed

lemma rq_join_progress:
  assumes i: "sched_inv st R" and t: "t \<notin> R" "sc_tasks st t = Some k" "tk_state k \<noteq> TASK_BLOCKED" and "rq_join st 0 t = Some st'"
  shows "progress_but t st R st' (insert t R) \<and> sc_current st' = sc_current st"
proof -
  obtain rq where rq: "get_rq st 0 = Some rq" using assms(5) by (auto simp: rq_join_def bind_eq_Some_conv)
  obtain st2 rq2 where s: "get_rq st2 0 = Some rq2" "tree_add (set_rq st2 0 (rq2\<lparr>rq_count := rq_count rq2 + 1\<rparr>)) 0 t = Some st'"
      "quiet {} st st2"
  proof (cases "rq_head rq = NULL")
    case True
    then obtain st1 rq2 where a: "upd_task st t (\<lambda>k. k\<lparr>tk_next := t\<rparr>) = Some st1" "get_rq (set_rq st1 0 (rq\<lparr>rq_head := t\<rparr>)) 0 = Some rq2"
        "tree_add (set_rq (set_rq st1 0 (rq\<lparr>rq_head := t\<rparr>)) 0 (rq2\<lparr>rq_count := rq_count rq2 + 1\<rparr>)) 0 t = Some st'"
      using assms(5) rq by (auto simp: rq_join_def bind_eq_Some_conv)
    have "quiet {} st st1" by (rule quiet_upd [OF a(1)]) (auto simp: mild_def hears_def)
    moreover have "get_rq st1 0 = Some rq" using a(1) rq by (auto simp: upd_task_Some get_rq_def)
    then have "quiet {} st1 (set_rq st1 0 (rq\<lparr>rq_head := t\<rparr>))" by (rule quiet_rq) simp
    ultimately show ?thesis using that a(2,3) quiet_trans by blast
  next
    case False
    then obtain st1 st2 rq2 and h :: task_struct where a: "upd_task st t (\<lambda>k. k\<lparr>tk_next := tk_next h\<rparr>) = Some st1"
        "upd_task st1 (rq_head rq) (\<lambda>k. k\<lparr>tk_next := t\<rparr>) = Some st2" "get_rq st2 0 = Some rq2"
        "tree_add (set_rq st2 0 (rq2\<lparr>rq_count := rq_count rq2 + 1\<rparr>)) 0 t = Some st'"
      using assms(5) rq by (auto simp: rq_join_def bind_eq_Some_conv)
    have "quiet {} st st1" by (rule quiet_upd [OF a(1)]) (auto simp: mild_def hears_def)
    moreover have "quiet {} st1 st2" by (rule quiet_upd [OF a(2)]) (auto simp: mild_def hears_def)
    ultimately show ?thesis using that a(3,4) quiet_trans by blast
  qed
  let ?st3 = "set_rq st2 0 (rq2\<lparr>rq_count := rq_count rq2 + 1\<rparr>)"
  have "quiet {} st2 ?st3" by (rule quiet_rq [OF s(1)]) simp
  then have q: "quiet {} st ?st3" using quiet_trans s(3) by blast
  then have p: "progress st R ?st3 R" using quiet_progress [OF i] by simp
  then have i3: "sched_inv ?st3 R" by (simp add: progress_def)
  obtain k3 where k3: "sc_tasks ?st3 t = Some k3" "tk_state k3 \<noteq> TASK_BLOCKED" using quiet_task [OF q t(2)] t(3) by (auto simp: mild_def)
  obtain x where x: "st' = retree ?st3 0 x" "sched_inv st' (insert t R)" using inv_tree_add [OF i3 t(1) k3] s(2) by auto
  have "progress_but t ?st3 R st' (insert t R)" using x by (auto simp: progress_but_def lost_def pid_test_bit_def)
  then show ?thesis using progress_but_trans [OF progress_imp_but [OF p]] x(1) q by (auto simp: quiet_def)
qed

definition born :: "sched \<Rightarrow> addr \<Rightarrow> addr \<Rightarrow> addr \<Rightarrow> int \<Rightarrow> task_struct" where
  "born st fn srp stack pid = zero_task\<lparr>tk_rsp := stack + 4096 - 8 * of_nat (length (task_frame fn srp)), tk_frame := task_frame fn srp,
     tk_cr3 := sc_kernel_cr3 st, tk_stack_phys := stack, tk_state := TASK_READY, tk_priority := 128,
     tk_time_slice := recharge 128, tk_vruntime := sc_min_vruntime st, tk_parent := sc_current st,
     tk_ref_count := 1, tk_fpu_used := True, tk_pid := pid\<rparr>"

lemma born_simps [simp]: "tk_pid (born st fn srp stack pid) = pid" "tk_ref_count (born st fn srp stack pid) = 1" "tk_cpu_id (born st fn srp stack pid) = 0"
  "priority_ok (born st fn srp stack pid)" "tk_state (born st fn srp stack pid) = TASK_READY"
  by (simp_all add: born_def zero_task_def priority_ok_def)

lemma born_cpu: "(born st fn srp stack pid)\<lparr>tk_cpu_id := 0\<rparr> = born st fn srp stack pid"
  by (simp add: born_def zero_task_def)

lemma create_task_alone:
  assumes "t \<noteq> NULL" "stack \<noteq> NULL" "alloc_pid st = (pid, st1)" "0 \<le> pid" "pid < int MAX_PID" "sc_num_cpus st1 \<le> 1"
  shows "create_task st fn srp t stack cnode =
    do { st6 \<leftarrow> rq_join (with_task st1 t (born st1 fn srp stack pid) (nat pid)) 0 t; st7 \<leftarrow> add_child st6 (sc_current st6) t cnode; Some (t, st7) }"
proof -
  let ?st3 = "pid_register (new_task st1 t (born st1 fn srp stack pid)) pid t"
  let ?st4 = "if sc_num_cpus ?st3 = 0 then ?st3\<lparr>sc_num_cpus := 1\<rparr> else ?st3"
  have n: "sc_num_cpus ?st4 = 1" using assms(6) by (simp add: pid_register_def new_task_def)
  have "upd_task ?st4 t (\<lambda>k. k\<lparr>tk_cpu_id := int (nat pid mod sc_num_cpus ?st4)\<rparr>) = Some (with_task st1 t (born st1 fn srp stack pid) (nat pid))"
    unfolding n using assms by (auto simp: pid_register_def new_task_def with_task_def upd_task_def task_at_def born_cpu)
  note u = this
  have "create_task st fn srp t stack cnode =
      do { st5 \<leftarrow> upd_task ?st4 t (\<lambda>k. k\<lparr>tk_cpu_id := int (nat pid mod sc_num_cpus ?st4)\<rparr>);
           st6 \<leftarrow> rq_join st5 (nat pid mod sc_num_cpus ?st4) t; st7 \<leftarrow> add_child st6 (sc_current st6) t cnode; Some (t, st7) }"
    using assms(1-4) unfolding create_task_def Let_def born_def [symmetric] by simp
  then show ?thesis unfolding u unfolding n by simp
qed

lemma create_advances:
  assumes i: "sched_inv st R" and c: "sc_current st \<in> R" and t: "sc_tasks st t = None" "node_of t \<noteq> NULL"
    and "create_task st fn srp t stack cnode = Some (res, st')"
  shows "advances st R st' \<and> (res = NULL \<or> res = t \<and> t \<in> dom (sc_tasks st'))"
proof (cases "t = NULL \<or> stack = NULL")
  case True
  then show ?thesis using assms(5) c progress_refl [OF i] by (auto simp: create_task_def advances_def)
next
  case False
  obtain pid st1 where a: "alloc_pid st = (pid, st1)" by (cases "alloc_pid st")
  have p1: "progress st R st1 R" "sc_current st1 = sc_current st" "sc_tasks st1 = sc_tasks st"
      "pid = - 1 \<or> 0 \<le> pid \<and> pid < int MAX_PID \<and> \<not> pid_test_bit st (nat pid) \<and> pid_test_bit st1 (nat pid)"
    using alloc_pid_progress [OF i a] by blast+
  then have i1: "sched_inv st1 R" by (simp add: progress_def)
  show ?thesis
  proof (cases "pid < 0")
    case True
    then show ?thesis using assms(5) False a p1(1,2) c by (auto simp: create_task_def advances_def)
  next
    case pos: False
    let ?k = "born st1 fn srp stack pid"
    let ?st5 = "with_task st1 t ?k (nat pid)"
    have p: "0 \<le> pid" "pid < int MAX_PID" "\<not> pid_test_bit st (nat pid)" "pid_test_bit st1 (nat pid)" using p1(4) pos by auto
    obtain st6 where s: "rq_join ?st5 0 t = Some st6" "add_child st6 (sc_current st6) t cnode = Some st'" "res = t"
      using assms(5) [unfolded create_task_alone [OF conjunct1 conjunct2 a p(1,2) invD(2) [OF i1], OF False [simplified] False [simplified]]]
      by (auto simp: bind_eq_Some_conv)
    have "tk_pid k \<noteq> int (nat pid)" if "sc_tasks st1 u = Some k" for u k using invD(6) [OF i, of u k] that p p1(3) by (auto simp: task_ok_def)
    then have p5: "progress st1 R ?st5 R"
      by (intro with_task_progress [OF i1]) (use t False p p1(3) in auto)
    then have i5: "sched_inv ?st5 R" by (simp add: progress_def)
    have tR: "t \<notin> R" using invD(3) [OF i] t(1) by auto
    have j: "progress_but t ?st5 R st6 (insert t R)" "sc_current st6 = sc_current ?st5"
      using rq_join_progress [OF i5 tR, of ?k] s(1) by (simp_all add: with_task_def)
    then have i6: "sched_inv st6 (insert t R)" by (simp add: progress_but_def)
    have q7: "quiet {} st6 st'" using quiet_add_child [OF s(2)] .
    then have "progress st6 (insert t R) st' (insert t R)" using quiet_progress [OF i6] by simp
    then have "progress_but t st R st' (insert t R)"
      using progress_but_trans [OF progress_imp_but [OF progress_trans [OF p1(1) p5]]] progress_but_trans [OF j(1)] progress_imp_but by blast
    then have "progress st R st' (insert t R)" using progress_but_new t(1) by blast
    moreover have "sc_current st' = sc_current st" using q7 j(2) p1(2) by (simp add: quiet_def with_task_def)
    moreover have "t \<in> dom (sc_tasks st6)" using invD(3) [OF i6] by blast
    then have "t \<in> dom (sc_tasks st')" using quiet_dom [OF q7] by simp
    ultimately show ?thesis using s(3) c by (auto simp: advances_def)
  qed
qed

end
