(* ===== verification/Sched_props.thy ===== *)
theory Sched_props
  imports Sched_create
begin

text \<open>The steps of the scheduler on one processor, and what holds over every sequence of them.\<close>

subsection \<open>Waiting\<close>

text \<open>Unlinking a list node changes at most one pointer of one task.\<close>

definition unlinked :: "addr \<Rightarrow> task_struct \<Rightarrow> task_struct \<Rightarrow> bool" where
  "unlinked p k k' \<longleftrightarrow> k' = k \<or> k' = k\<lparr>tk_children := p\<rparr>"

lemma collect_quiet:
  assumes r: "refs_ok st" and "collect_child st prev node = Some (w, st')"
  shows "quiet {} st st' \<and> (\<forall>r. w \<noteq> Wait_sleeps r)"
proof -
  obtain st1 st2 and n :: child_node and c :: task_struct where s: "task_get st (cn_child n) = Some st1" "task_at st1 (cn_child n) = Some c"
      "(if prev \<noteq> NULL
        then do { p \<leftarrow> child_node_at st1 prev; Some (st1\<lparr>sc_child_nodes := (sc_child_nodes st1)(prev \<mapsto> p\<lparr>cn_next := cn_next n\<rparr>)\<rparr>) }
        else upd_task st1 (sc_current st1) (\<lambda>k. k\<lparr>tk_children := cn_next n\<rparr>)) = Some st2"
      "task_put (st2\<lparr>sc_child_nodes := (sc_child_nodes st2)(node := None)\<rparr>) (cn_child n) = Some st'" "w = Collected (tk_pid c) (tk_exit_code c)"
    using assms(2) unfolding collect_child_def bind_eq_Some_conv Let_def option.inject prod.inject by blast
  let ?t = "cn_child n" and ?p = "cn_next n"
  have t: "?t \<noteq> NULL" using s(2) by (auto simp: task_at_def)
  then obtain k where k: "sc_tasks st ?t = Some k" "st1 = st\<lparr>sc_tasks := (sc_tasks st)(?t \<mapsto> k\<lparr>tk_ref_count := tk_ref_count k + 1\<rparr>)\<rparr>"
    using s(1) by (auto simp: task_get_def upd_task_Some task_at_Some)
  have e: "\<exists>f cs. st2 = st1\<lparr>sc_tasks := f, sc_child_nodes := cs\<rparr> \<and> (\<forall>u. rel_option (unlinked ?p) (sc_tasks st1 u) (f u))"
  proof (cases "prev \<noteq> NULL")
    case True
    then obtain cs where "st2 = st1\<lparr>sc_child_nodes := cs\<rparr>" using s(3) by (auto simp: bind_eq_Some_conv)
    then show ?thesis by (intro exI [of _ "sc_tasks st1"] exI [of _ cs]) (auto simp: unlinked_def intro: option.rel_refl)
  next
    case False
    then obtain j where "sc_tasks st1 (sc_current st1) = Some j" "st2 = st1\<lparr>sc_tasks := (sc_tasks st1)(sc_current st1 \<mapsto> j\<lparr>tk_children := ?p\<rparr>)\<rparr>"
      using s(3) by (auto simp: upd_task_Some task_at_Some)
    then show ?thesis by (intro exI [of _ "sc_tasks st2"] exI [of _ "sc_child_nodes st1"]) (auto simp: unlinked_def intro: option.rel_refl)
  qed
  then obtain f cs where st2: "st2 = st1\<lparr>sc_tasks := f, sc_child_nodes := cs\<rparr>" and f: "\<And>u. rel_option (unlinked ?p) (sc_tasks st1 u) (f u)" by blast
  obtain k2 where k2: "f ?t = Some k2" "unlinked ?p (k\<lparr>tk_ref_count := tk_ref_count k + 1\<rparr>) k2"
    using f [of ?t] k(2) by (auto simp: option_rel_Some1)
  have "1 \<le> tk_ref_count k" using r k(1) by (auto simp: refs_ok_def)
  then have r2: "tk_ref_count k2 \<noteq> 1" using k2(2) by (auto simp: unlinked_def)
  have "task_at (st2\<lparr>sc_child_nodes := (sc_child_nodes st2)(node := None)\<rparr>) ?t = Some k2" using k2(1) t by (simp add: st2 task_at_def)
  from task_put_live [OF this r2]
  have st': "st' = st\<lparr>sc_child_nodes := cs(node := None), sc_tasks := f(?t \<mapsto> k2\<lparr>tk_ref_count := tk_ref_count k2 - 1\<rparr>)\<rparr>"
    using s(4) by (simp add: st2 k(2))
  have "rel_option (mild (sc_idle_task st) {} u) (sc_tasks st u) (sc_tasks st' u)" for u
  proof (cases "u = ?t")
    case True
    then show ?thesis using k(1) k2(2) by (auto simp: st' unlinked_def mild_def hears_def)
  next
    case False
    then have "rel_option (unlinked ?p) (sc_tasks st u) (f u)" using f [of u] k(2) by simp
    then show ?thesis using False by (cases "sc_tasks st u"; cases "f u") (auto simp: st' unlinked_def mild_def hears_def)
  qed
  then show ?thesis using s(5) by (auto simp: quiet_def st')
qed

text \<open>A call of \<open>waitpid\<close> leaves the tree alone, or blocks the caller and calls the scheduler.\<close>

definition wait_effect :: "sched \<Rightarrow> wait_result \<Rightarrow> sched \<Rightarrow> bool" where
  "wait_effect st w st' \<longleftrightarrow> (\<forall>r. w \<noteq> Wait_sleeps r) \<and> quiet {} st st' \<or>
     (\<exists>r st0. w = Wait_sleeps r \<and> quiet {sc_current st} st st0 \<and> schedule st0 = Some (r, st'))"

lemma waitpid_effect:
  assumes i: "sched_inv st R" and "waitpid st pid nohang = Some res"
  shows "wait_effect st (fst res) (snd res)"
proof -
  have "sched_inv st R \<longrightarrow> wait_effect st (fst res) (snd res)"
  proof (rule waitpid.raw_induct [OF _ assms(2), where P = "\<lambda>st pid nohang res. sched_inv st R \<longrightarrow> wait_effect st (fst res) (snd res)"], intro impI, goal_cases)
    case (1 f st pid nohang res)
    note i = 1(3)
    obtain k where k: "sc_tasks st (sc_current st) = Some k" using invD(4) [OF i] by auto
    have n: "sc_current st \<noteq> NULL" and ka: "task_at st (sc_current st) = Some k" using invD(6,7) [OF i k] by (simp_all add: task_ok_def)
    have upd: "quiet {sc_current st} st st0" if "upd_task st (sc_current st) (\<lambda>k. k\<lparr>tk_state := TASK_BLOCKED\<rparr>) = Some st0" "tk_pid k \<noteq> 0" for st0
      by (rule quiet_upd [OF that(1)]) (use that(2) k invD(9) [OF i] in \<open>auto simp: mild_def hears_def\<close>)
    have err: "quiet {} st st0" if "upd_task st (sc_current st) (\<lambda>k. k\<lparr>tk_errno := 10\<rparr>) = Some st0" for st0
      by (rule quiet_upd [OF that]) (simp add: mild_def hears_def)
    show ?case
    proof (cases "tk_pid k = 0 \<and> \<not> nohang")
      case True
      then show ?thesis using 1(2) n ka by (auto simp: wait_effect_def)
    next
      case False
      then obtain found where found: "find_zombie st pid NULL (tk_children k) = Some found" using 1(2) n ka by (auto simp: bind_eq_Some_conv)
      show ?thesis
      proof (cases found)
        case (Some pn)
        then obtain prev node where "collect_child st prev node = Some res" using 1(2) n ka False found by (cases pn) simp
        then show ?thesis using collect_quiet [OF inv_refs [OF i], of prev node "fst res" "snd res"] by (simp add: wait_effect_def)
      next
        case None
        then obtain ch where ch: "(if pid \<noteq> - 1 then is_child st pid (tk_children k) else Some True) = Some ch"
          using 1(2) n ka False found by (cases "if pid \<noteq> - 1 then is_child st pid (tk_children k) else Some True") simp_all
        have b: "(if \<not> ch then do { st1 \<leftarrow> upd_task st (sc_current st) (\<lambda>k. k\<lparr>tk_errno := 10\<rparr>); Some (Wait_failed (- 1), st1) }
            else if nohang then Some (Wait_none, st)
            else do { z \<leftarrow> any_zombie st (tk_children k);
                      if z then f st pid nohang
                      else do { st1 \<leftarrow> upd_task st (sc_current st) (\<lambda>k. k\<lparr>tk_state := TASK_BLOCKED\<rparr>);
                                (r, st2) \<leftarrow> schedule st1; Some (Wait_sleeps r, st2) } }) = Some res"
          using 1(2) unfolding if_not_P [OF n] ka Option.bind.simps if_not_P [OF False] found None option.case ch .
        show ?thesis
        proof (cases "\<not> ch \<or> nohang")
          case True
          then show ?thesis using b err by (cases ch) (auto simp: wait_effect_def bind_eq_Some_conv)
        next
          case wait: False
          then obtain z where z: "any_zombie st (tk_children k) = Some z"
              "(if z then f st pid nohang else do { st1 \<leftarrow> upd_task st (sc_current st) (\<lambda>k. k\<lparr>tk_state := TASK_BLOCKED\<rparr>);
                  (r, st2) \<leftarrow> schedule st1; Some (Wait_sleeps r, st2) }) = Some res"
            using b by (auto simp: bind_eq_Some_conv [of "any_zombie st (tk_children k)"])
          show ?thesis
          proof (cases z)
            case True
            then show ?thesis using z(2) 1(1) i by simp
          next
            case no: False
            then obtain st1 where u: "upd_task st (sc_current st) (\<lambda>k. k\<lparr>tk_state := TASK_BLOCKED\<rparr>) = Some st1"
                "do { (r, st2) \<leftarrow> schedule st1; Some (Wait_sleeps r, st2) } = Some res"
              using z(2) by (auto simp: bind_eq_Some_conv [of "upd_task st (sc_current st) (\<lambda>k. k\<lparr>tk_state := TASK_BLOCKED\<rparr>)"])
            then obtain r st2 where "schedule st1 = Some (r, st2)" "res = (Wait_sleeps r, st2)" by (auto simp: bind_eq_Some_conv)
            then show ?thesis using upd [OF u(1)] False wait by (auto simp: wait_effect_def)
          qed
        qed
      qed
    qed
  qed
  then show ?thesis using i by blast
qed

subsection \<open>Steps\<close>

text \<open>How the code elsewhere wakes a task, for instance the writer of a pipe its readers.\<close>

definition sched_wake :: "sched \<Rightarrow> addr \<Rightarrow> sched ub" where
  "sched_wake st t = upd_task st t (\<lambda>k. if tk_state k = TASK_BLOCKED then k\<lparr>tk_state := TASK_READY\<rparr> else k)"

text \<open>\<open>fresh\<close> tells whether the task that is switched to runs for the first time.  Memory for a new task is not in use; the idle
  task, whose loop is in \<^verbatim>\<open>kernel/main.c\<close>, does not block.  A task that has exited only waits for the switch to another one.\<close>

inductive sched_step :: "sched \<Rightarrow> sched \<Rightarrow> bool" where
  reschedule: "schedule st = Some (r, st1) \<Longrightarrow> resume fresh r st1 = Some st' \<Longrightarrow> sched_step st st'"
| yields: "\<not> exited st \<Longrightarrow> yield st = Some (r, st1) \<Longrightarrow> resume fresh r st1 = Some st' \<Longrightarrow> sched_step st st'"
| checks: "\<not> exited st \<Longrightarrow> check_resched st = Some (r, st1) \<Longrightarrow> resume fresh r st1 = Some st' \<Longrightarrow> sched_step st st'"
| enables: "\<not> exited st \<Longrightarrow> preempt_enable st = Some (r, st1) \<Longrightarrow> resume fresh r st1 = Some st' \<Longrightarrow> sched_step st st'"
| disables: "\<not> exited st \<Longrightarrow> preempt_disable st = Some st' \<Longrightarrow> sched_step st st'"
| creates: "\<not> exited st \<Longrightarrow> sc_tasks st t = None \<Longrightarrow> node_of t \<noteq> NULL \<Longrightarrow> create_task st fn srp t stack cnode = Some (res, st') \<Longrightarrow> sched_step st st'"
| exits: "\<not> exited st \<Longrightarrow> do_exit_current st ok code = Some (r, st1) \<Longrightarrow> resume fresh r st1 = Some st' \<Longrightarrow> sched_step st st'"
| waits: "\<not> exited st \<Longrightarrow> waitpid st pid nohang = Some (w, st1) \<Longrightarrow>
    resume fresh (case w of Wait_sleeps r \<Rightarrow> r | _ \<Rightarrow> Stays) st1 = Some st' \<Longrightarrow> sched_step st st'"
| blocks: "\<not> exited st \<Longrightarrow> sc_current st \<noteq> sc_idle_task st \<Longrightarrow> upd_task st (sc_current st) (\<lambda>k. k\<lparr>tk_state := TASK_BLOCKED\<rparr>) = Some st' \<Longrightarrow> sched_step st st'"
| wakes: "sched_wake st t = Some st' \<Longrightarrow> sched_step st st'"
| kills: "do_sys_kill st ok pid sig = Some (res, st') \<Longrightarrow> sched_step st st'"
| looks_up: "task_get_by_pid st pid = Some (t, st1) \<Longrightarrow> task_put st1 t = Some st' \<Longrightarrow> sched_step st st'"
| finds: "find_task_by_pid st pid = Some (t, st1) \<Longrightarrow> task_put st1 t = Some st' \<Longrightarrow> sched_step st st'"
| ticks: "pit_irq_c_handler st tick = Some st' \<Longrightarrow> sched_step st st'"

inductive sched_steps :: "sched \<Rightarrow> sched \<Rightarrow> bool" where
  no_step [intro]: "sched_steps st st"
| one_more: "sched_steps st st1 \<Longrightarrow> sched_step st1 st' \<Longrightarrow> sched_steps st st'"

lemma calm_advances:
  assumes "alive st R" and "quiet {} st st'"
  shows "advances st R st'"
  using quiet_progress [of st R "{}" st'] assms quiet_exited [OF assms(2)] by (auto simp: alive_def advances_def quiet_def)

lemma wait_advances:
  assumes i: "sched_inv st R" "sc_current st \<in> R" and "waitpid st pid nohang = Some (w, st1)"
    and r: "resume fresh (case w of Wait_sleeps r \<Rightarrow> r | _ \<Rightarrow> Stays) st1 = Some st'"
  shows "advances st R st'"
proof -
  have "wait_effect st w st1" using waitpid_effect [OF i(1) assms(3)] by simp
  then consider "quiet {} st st1" "\<forall>r. w \<noteq> Wait_sleeps r" | r0 st0 where "w = Wait_sleeps r0" "quiet {sc_current st} st st0" "schedule st0 = Some (r0, st1)"
    by (auto simp: wait_effect_def)
  then show ?thesis
  proof cases
    case 1
    then have "st' = st1" using r by (auto simp: resume_def split: wait_result.splits)
    then show ?thesis using calm_advances [OF _ 1(1)] i by (simp add: alive_def)
  next
    case (2 r0 st0)
    then show ?thesis using quiet_schedule_advances [OF i 2(2,3)] r by simp
  qed
qed

lemma lookup_nothing:
  assumes r: "refs_ok st" and l: "task_get_by_pid st pid = Some (t, st1) \<or> find_task_by_pid st pid = Some (t, st1)" and "task_put st1 t = Some st'"
  shows "st' = st"
proof -
  have "t = NULL \<and> st1 = st \<or> (\<exists>k. task_at st t = Some k \<and> task_get st t = Some st1)"
    using l by (auto simp: task_get_by_pid_def find_task_by_pid_def Let_def bind_eq_Some_conv split: if_splits)
  then show ?thesis using release_same [OF r] assms(3) by (auto simp: task_put_def)
qed

lemma step_advances:
  assumes a: "alive st R" and s: "sched_step st st'"
  shows "advances st R st'"
proof -
  have i: "sched_inv st R" and c: "sc_current st \<in> R \<or> exited st" using a by (simp_all add: alive_def)
  note r = inv_refs [OF i]
  show ?thesis using s
  proof cases
    case (reschedule r st1 fresh)
    then show ?thesis using schedule_advances [OF i _ _ c] by blast
  next
    case (yields r st1 fresh)
    then show ?thesis using yield_advances [OF i _ yields(2,3)] c by blast
  next
    case (checks r st1 fresh)
    then show ?thesis using check_resched_advances [OF i _ checks(2,3)] c by blast
  next
    case (enables r st1 fresh)
    then show ?thesis using preempt_enable_advances [OF i _ enables(2,3)] c by blast
  next
    case disables
    have "quiet {} st st'" using disables(2) by (auto simp: preempt_disable_def mild_def hears_def elim!: quiet_upd split: if_splits)
    then show ?thesis using calm_advances [OF a] by blast
  next
    case (creates t fn srp stack cnode res)
    then show ?thesis using create_advances [OF i _ creates(2,3,4)] c by blast
  next
    case (exits ok code r st1 fresh)
    then show ?thesis using exit_advances [OF i _ exits(2,3)] c by blast
  next
    case (waits pid nohang w st1 fresh)
    then show ?thesis using wait_advances [OF i _ waits(2,3)] c by blast
  next
    case blocks
    have "quiet {sc_current st} st st'" by (rule quiet_upd [OF blocks(3)]) (use blocks(2) in \<open>auto simp: mild_def hears_def\<close>)
    then show ?thesis using quiet_advances [OF i] c blocks(1) by blast
  next
    case (wakes t)
    have "quiet {} st st'" by (rule quiet_upd [OF wakes [unfolded sched_wake_def]]) (auto simp: mild_def hears_def)
    then show ?thesis using calm_advances [OF a] by blast
  next
    case (kills ok pid sig res)
    then show ?thesis using calm_advances [OF a quiet_kill [OF r]] by blast
  next
    case (looks_up pid t st1)
    then have "st' = st" using lookup_nothing [OF r] by blast
    then show ?thesis using calm_advances [OF a] by simp
  next
    case (finds pid t st1)
    then have "st' = st" using lookup_nothing [OF r] by blast
    then show ?thesis using calm_advances [OF a] by simp
  next
    case (ticks tick)
    then show ?thesis using calm_advances [OF a quiet_pit [OF invD(2) [OF i] invD(1) [OF i]]] by blast
  qed
qed

lemma steps_advance:
  assumes "alive st R" and "sched_steps st st'"
  shows "advances st R st'"
  using assms(2,1)
proof (induction rule: sched_steps.induct)
  case (no_step st)
  then show ?case using progress_refl by (auto simp: alive_def advances_def)
next
  case (one_more st st1 st')
  then obtain R1 where p: "progress st R st1 R1" "sc_current st1 \<in> R1 \<or> exited st1" by (auto simp: advances_def)
  then have "alive st1 R1" by (simp add: alive_def progress_def)
  then show ?case using step_advances one_more.hyps(2) advances_trans p(1) by blast
qed

subsection \<open>Boot\<close>

text \<open>The static state before \<open>scheduler_init\<close>, and the memory the allocator returns for the first two tasks.\<close>

definition before_boot :: "sched \<Rightarrow> addr \<Rightarrow> addr \<Rightarrow> bool" where
  "before_boot st idle init \<longleftrightarrow> sc_cpu st = 0 \<and> sc_num_cpus st \<le> 1 \<and> sc_next_pid st = 2 \<and> sc_tasks st = Map.empty \<and>
     idle \<noteq> init \<and> node_of idle \<noteq> NULL \<and> node_of init \<noteq> NULL"

definition idle_born :: "sched \<Rightarrow> addr \<Rightarrow> addr \<Rightarrow> task_struct" where
  "idle_born st idle stack = zero_task\<lparr>tk_rsp := stack + 4096, tk_stack_phys := stack, tk_cr3 := sc_kernel_cr3 st,
     tk_time_slice := 1, tk_next := idle, tk_ref_count := 1\<rparr>"

definition init_born :: "sched \<Rightarrow> addr \<Rightarrow> addr \<Rightarrow> task_struct" where
  "init_born st idle init = zero_task\<lparr>tk_cr3 := sc_kernel_cr3 st, tk_pid := 1, tk_parent := idle, tk_ref_count := 1, tk_next := init\<rparr>"

lemma inv_other:
  assumes "sched_inv st R" and "n \<le> 1"
  shows "sched_inv (st\<lparr>sc_num_cpus := n, sc_init_task := m\<rparr>) R"
proof -
  let ?st = "st\<lparr>sc_num_cpus := n, sc_init_task := m\<rparr>"
  have "queue ?st = queue st" "pid_test_bit ?st = pid_test_bit st" "task_ok ?st = task_ok st"
    by (simp_all add: queue_def ready_tree_def pid_test_bit_def task_ok_def fun_eq_iff)
  then show ?thesis using assms by (simp add: sched_inv_def)
qed

lemma one_pid: "1 < MAX_PID"
  by simp

lemma with_task_register:
  "p < MAX_PID \<Longrightarrow> (with_task st t k p)\<lparr>sc_num_cpus := sc_num_cpus st, sc_init_task := m\<rparr> = (pid_register (new_task st t k) (int p) t)\<lparr>sc_init_task := m\<rparr>"
  by (simp add: with_task_def pid_register_def new_task_def)

lemma scheduler_init_alive:
  assumes b: "before_boot st idle init" and "scheduler_init st idle stack init = Some st'"
  shows "alive st' {idle}"
proof -
  let ?rq0 = "\<lparr>rq_head = NULL, rq_tree = NULL, rq_count = 0\<rparr>"
  let ?st2 = "pid_set_bit (pid_set_bit (st\<lparr>sc_pid_bitmap := \<lambda>_. 0, sc_pid_table := \<lambda>_. NULL, sc_rqs := replicate MAX_CPUS ?rq0\<rparr>) 0) 1"
  let ?k = "idle_born ?st2 idle stack"
  let ?st4 = "set_rq ((pid_register (new_task ?st2 idle ?k) 0 idle)\<lparr>sc_current := idle, sc_idle_task := idle\<rparr>) 0 (?rq0\<lparr>rq_head := idle, rq_count := 1\<rparr>)"
  have n: "idle \<noteq> NULL" using assms(2) by (auto simp: scheduler_init_def split: if_splits)
  have rqs: "sc_rqs ?st4 = (replicate MAX_CPUS ?rq0)[0 := ?rq0\<lparr>rq_head := idle, rq_count := 1\<rparr>]"
    by (simp add: set_rq_def pid_register_def new_task_def pid_set_bit_def)
  have tasks: "sc_tasks ?st4 = [idle \<mapsto> ?k]" using b by (simp add: set_rq_def pid_register_def new_task_def pid_set_bit_def before_boot_def)
  have nodes: "node_of idle \<in> dom (sc_nodes ?st4)" by (simp add: set_rq_def pid_register_def new_task_def)
  have "queue ?st4 0 []" using holds_empty [of "ready_tree ?st4 (sc_rqs ?st4 ! 0)"] rqs by (simp add: queue_def ready_tree_def rb_init_def)
  then obtain s where s: "tree_add ?st4 0 idle = Some (retree ?st4 0 s)" "rb_holds s [(tk_vruntime ?k, node_of idle)]" "dom (rb_nodes s) = dom (sc_nodes ?st4)"
    using tree_add_ok [of ?st4 0 "[]" idle ?k] tasks nodes b n by (auto simp: task_at_def before_boot_def)
  let ?st5 = "retree ?st4 0 s"
  have bits: "pid_test_bit ?st5 q = pid_test_bit ?st2 q" for q by (simp add: pid_test_bit_def set_rq_def pid_register_def new_task_def)
  have bit01: "pid_test_bit ?st5 0" "pid_test_bit ?st5 1" unfolding bits by (simp_all add: pid_set_test)
  have vars: "sc_cpu ?st4 = 0" "sc_num_cpus ?st4 \<le> 1" "sc_next_pid ?st4 = 2" "sc_pid_table ?st4 0 = idle" "sc_current ?st4 = idle" "sc_idle_task ?st4 = idle"
    using b by (simp_all add: set_rq_def pid_register_def new_task_def pid_set_bit_def before_boot_def)
  have k: "tk_pid ?k = 0" "tk_ref_count ?k = 1" "tk_cpu_id ?k = 0" "priority_ok ?k" "tk_state ?k = TASK_RUNNING"
    by (simp_all add: idle_born_def zero_task_def priority_ok_def)
  have ok: "task_ok ?st5 idle ?k" using n b nodes s(3) bit01(1) vars(4) k by (simp add: task_ok_def before_boot_def)
  have q: "queue ?st5 0 [(tk_vruntime ?k, node_of idle)]" using s(2) rqs by (simp add: queue_retree)
  have i5: "sched_inv ?st5 {idle}"
    by (rule sched_invI [OF _ _ _ bit01 q]) (use vars tasks ok k in \<open>auto simp: awake_def split: if_splits\<close>)
  have e: "st' = (if init = NULL then ?st5 else (pid_register (new_task ?st5 init (init_born ?st5 idle init)) 1 init)\<lparr>sc_init_task := init\<rparr>)"
  proof -
    have rq: "get_rq ((pid_register (new_task ?st2 idle ?k) 0 idle)\<lparr>sc_current := idle, sc_idle_task := idle\<rparr>) 0 = Some ?rq0"
      by (simp add: get_rq_def pid_register_def new_task_def pid_set_bit_def)
    show ?thesis using assms(2) n s(1) rq unfolding scheduler_init_def Let_def idle_born_def [symmetric] init_born_def [symmetric]
      by (auto split: if_splits)
  qed
  show ?thesis
  proof (cases "init = NULL")
    case True
    then show ?thesis using e i5 vars by (simp add: alive_def)
  next
    case False
    let ?j = "init_born ?st5 idle init"
    have j: "tk_pid ?j = int 1" "tk_ref_count ?j = 1" "tk_cpu_id ?j = 0" "priority_ok ?j" by (simp_all add: init_born_def zero_task_def priority_ok_def)
    have "progress ?st5 {idle} (with_task ?st5 init ?j 1) {idle}"
      by (rule with_task_progress [OF i5 _ False _ _ bit01(2) _ j]) (use b tasks k in \<open>auto simp: before_boot_def split: if_splits\<close>)
    then have "sched_inv (with_task ?st5 init ?j 1) {idle}" by (simp add: progress_def)
    then have "sched_inv ((with_task ?st5 init ?j 1)\<lparr>sc_num_cpus := sc_num_cpus ?st5, sc_init_task := init\<rparr>) {idle}"
      by (rule inv_other) (use vars(2) in simp)
    then have "sched_inv st' {idle}" unfolding with_task_register [OF one_pid] using e False by simp
    then show ?thesis using e False vars by (simp add: alive_def pid_register_def new_task_def)
  qed
qed

text \<open>The states a kernel can be in after its boot.\<close>

definition sched_reach :: "sched \<Rightarrow> bool" where
  "sched_reach st \<longleftrightarrow> (\<exists>st0 idle stack init st1. before_boot st0 idle init \<and> scheduler_init st0 idle stack init = Some st1 \<and> sched_steps st1 st)"

lemma reach_alive:
  assumes "sched_reach st"
  obtains R where "alive st R"
proof -
  obtain st1 idle where "alive st1 {idle}" "sched_steps st1 st" using assms scheduler_init_alive unfolding sched_reach_def by blast
  then obtain R where "progress st1 {idle} st R" "sc_current st \<in> R \<or> exited st" using steps_advance unfolding advances_def by blast
  then show thesis using that by (auto simp: alive_def progress_def)
qed

lemma lost_stays:
  assumes "alive st R" and "lost st R t" and "sched_steps st st'"
  shows "sc_current st' \<noteq> t"
proof -
  obtain R' where "progress st R st' R'" using steps_advance [OF assms(1,3)] by (auto simp: advances_def)
  then have "lost st' R' t" using assms(2) by (auto simp: progress_def)
  then show ?thesis by (auto simp: lost_def)
qed

subsection \<open>An example run\<close>

text \<open>After boot a task is created at a lower address than the idle task, runs, gets a signal and blocks, so that the idle task runs again;
  then it is woken, and the idle task calls the scheduler.\<close>

lemma exited_code [code]: "exited st \<longleftrightarrow> (case sc_tasks st (sc_current st) of None \<Rightarrow> False | Some k \<Rightarrow> tk_state k = TASK_ZOMBIE)"
  by (auto simp: exited_def split: option.splits)

lemma hears_code [code]: "hears k \<longleftrightarrow> tk_pid k \<noteq> 1 \<and>
    (case tk_sig k of None \<Rightarrow> False | Some s \<Rightarrow> sig_blocked s AND sig_bit SIGCHLD = 0 \<and> sig_handler s SIGCHLD \<noteq> SIG_IGN)"
  by (auto simp: hears_def split: option.splits)

definition static_state :: sched where
  "static_state = \<lparr>sc_current = NULL, sc_init_task = NULL, sc_idle_task = NULL, sc_rqs = [], sc_min_vruntime = 0, sc_need_resched = False, sc_balance = 0,
     sc_tasks = Map.empty, sc_nodes = Map.empty, sc_child_nodes = Map.empty, sc_pid_bitmap = \<lambda>_. 0, sc_next_pid = 2, sc_pid_table = \<lambda>_. NULL,
     sc_num_cpus = 1, sc_cpu = 0, sc_cpu_current = \<lambda>_. NULL, sc_kernel_cr3 = 0\<rparr>"

definition example_run :: "(sched \<times> sched) ub" where
  "example_run =
     do { s1 \<leftarrow> scheduler_init static_state 0x3000 0x5000 0x7000;
          (_, s2) \<leftarrow> (if exited s1 \<or> \<not> Option.is_none (sc_tasks s1 0x1000) then None else create_task s1 0x400000 0x100000 0x1000 0x6000 0x9000);
          (r, s3) \<leftarrow> schedule s2;
          (_, s4) \<leftarrow> do_sys_kill s3 True 2 SIGCHLD;
          s5 \<leftarrow> (if exited s4 \<or> sc_current s4 = sc_idle_task s4 then None else upd_task s4 (sc_current s4) (\<lambda>k. k\<lparr>tk_state := TASK_BLOCKED\<rparr>));
          (r, s6) \<leftarrow> schedule s5;
          s7 \<leftarrow> resume False r s6;
          s8 \<leftarrow> sched_wake s7 0x1000;
          (r, s9) \<leftarrow> schedule s8;
          s10 \<leftarrow> resume True r s9;
          Some (s7, s10) }"

lemma example_run_value:
  "(case example_run of None \<Rightarrow> False | Some (s, _) \<Rightarrow> sc_current s \<noteq> 0x1000 \<and>
     (case sc_tasks s 0x1000 of None \<Rightarrow> False | Some k \<Rightarrow> tk_state k = TASK_BLOCKED \<and> hears k))"
  by code_simp

lemma example_run_steps:
  obtains s k s8 s' where "example_run = Some (s, s')" "sched_reach s" "sc_tasks s 0x1000 = Some k" "tk_state k = TASK_BLOCKED" "0x1000 \<noteq> sc_current s"
    "sched_wake s 0x1000 = Some s8" "sched_steps s8 s'" "sched_steps s s'"
proof -
  obtain s s' k where v: "example_run = Some (s, s')" "sc_current s \<noteq> 0x1000" "sc_tasks s 0x1000 = Some k" "tk_state k = TASK_BLOCKED"
    using example_run_value by (auto split: option.splits prod.splits)
  obtain s1 s2 s3 s4 s5 s6 s8 s9 x2 x4 r3 r6 r9 where
      b: "scheduler_init static_state 0x3000 0x5000 0x7000 = Some s1"
    and c: "\<not> exited s1" "sc_tasks s1 0x1000 = None" "create_task s1 0x400000 0x100000 0x1000 0x6000 0x9000 = Some (x2, s2)"
    and d: "schedule s2 = Some (r3, s3)" and e: "do_sys_kill s3 True 2 SIGCHLD = Some (x4, s4)"
    and f: "\<not> exited s4" "sc_current s4 \<noteq> sc_idle_task s4" "upd_task s4 (sc_current s4) (\<lambda>k. k\<lparr>tk_state := TASK_BLOCKED\<rparr>) = Some s5"
    and g: "schedule s5 = Some (r6, s6)" "resume False r6 s6 = Some s" and w: "sched_wake s 0x1000 = Some s8"
    and l: "schedule s8 = Some (r9, s9)" "resume True r9 s9 = Some s'"
    using v(1) by (auto simp: example_run_def bind_eq_Some_conv Option.is_none_def split: if_split_asm)
  have n: "node_of 0x1000 \<noteq> NULL" by (simp add: node_of_def)
  have d': "resume True r3 s3 = Some s3" by (cases r3) (simp_all add: resume_def)
  note one_more [OF _ creates [OF c(1,2) n c(3)]] one_more [OF _ reschedule [OF d d']] one_more [OF _ kills [OF e]] one_more [OF _ blocks [OF f]]
    one_more [OF _ reschedule [OF g]]
  then have "sched_steps s1 s" using no_step [of s1] by blast
  moreover have "before_boot static_state 0x3000 0x7000" by (simp add: before_boot_def static_state_def node_of_def)
  ultimately have "sched_reach s" using b unfolding sched_reach_def by blast
  moreover have "sched_steps s8 s'" using one_more [OF no_step reschedule [OF l]] .
  moreover have "sched_steps s s'" using one_more [OF one_more [OF no_step wakes [OF w]] reschedule [OF l]] .
  ultimately show thesis using that v w by metis
qed

subsection \<open>Properties\<close>

text \<open>C13: what a call of the scheduler does.  If the least node of the ready tree belongs to another task, or else the idle task is ready, this
  task runs next; the tree is as before, except that a caller that was running has the place of its charged virtual runtime, and
  one that is blocked is out; the minimum virtual runtime does not fall.  Otherwise nothing changes: a running caller goes on, and for
  any other the processor halts.\<close>

theorem schedule_picks_least:
  assumes "schedulable st xs k"
  shows "if least_other st xs \<or> idle_ready st
    then \<exists>st' n. schedule st = Some (Switches (sc_current st), st') \<and> sc_current st' = next_task st xs \<and>
      task_at st' (sc_current st') = Some n \<and> tk_state n = TASK_RUNNING \<and> queue st' (sc_cpu st) (set_aside k (sc_current st) xs) \<and>
      sc_min_vruntime st \<le> sc_min_vruntime st' \<and> (least_other st xs \<longrightarrow> (\<forall>y \<in> set xs. hd xs \<le> y))
    else schedule st = Some (if tk_state k = TASK_RUNNING then Stays else Halts, st)"
proof (cases "least_other st xs \<or> idle_ready st")
  case True
  obtain n where n: "task_at st (next_task st xs) = Some n" "next_task st xs \<noteq> sc_current st" using next_task_other [OF assms True] .
  obtain st1 p s where s: "schedule st = Some (Switches (sc_current st), switched st1 (sc_cpu st) (sc_current st) p (next_task st xs) n)"
      "queue st1 (sc_cpu st) (set_aside k (sc_current st) xs)" "st1 = retree (put_task st (sc_current st) k) (sc_cpu st) s"
    using schedule_switches [OF assms n(1) True] by blast
  let ?st' = "switched st1 (sc_cpu st) (sc_current st) p (next_task st xs) n"
  have "task_at ?st' (next_task st xs) = Some (switched_in n)" using n by (auto simp: switched_def task_at_def split: if_splits)
  moreover have "queue ?st' (sc_cpu st) (set_aside k (sc_current st) xs)" using s(2) by (simp add: queue_def ready_tree_def switched_def)
  moreover have "sc_min_vruntime st \<le> sc_min_vruntime ?st'" using advance_min_ge by (simp add: switched_def s(3) put_task_def)
  moreover have "\<forall>y \<in> set xs. hd xs \<le> y" if "least_other st xs"
  proof -
    have "sorted_wrt (<) xs" using assms holds_ordered(1) by (auto simp: schedulable_def queue_def)
    then show ?thesis using that by (cases xs) (auto simp: least_other_def simp del: less_prod_simp less_eq_prod_simp intro: less_imp_le)
  qed
  ultimately show ?thesis using True s(1) by (auto simp: switched_in_def simp del: less_eq_prod_simp)
qed (use schedule_keeps [OF assms] in auto)

text \<open>The idle task runs; another task has a smaller key.\<close>

definition two_tasks :: sched where
  "two_tasks = \<lparr>sc_current = 0x3000, sc_init_task = NULL, sc_idle_task = 0x3000,
     sc_rqs = [\<lparr>rq_head = 0x3000, rq_tree = 0x3088, rq_count = 2\<rparr>], sc_min_vruntime = 0, sc_need_resched = False, sc_balance = 0,
     sc_tasks = [0x3000 \<mapsto> zero_task\<lparr>tk_next := 0x1000\<rparr>, 0x1000 \<mapsto> zero_task\<lparr>tk_next := 0x3000, tk_state := TASK_READY, tk_pid := 2\<rparr>],
     sc_nodes = [0x3088 \<mapsto> \<lparr>rb_color = RB_BLACK, rb_parent = NULL, rb_left = 0x1088, rb_right = NULL, rb_key = 5\<rparr>,
                 0x1088 \<mapsto> \<lparr>rb_color = RB_RED, rb_parent = 0x3088, rb_left = NULL, rb_right = NULL, rb_key = 3\<rparr>],
     sc_child_nodes = Map.empty, sc_pid_bitmap = \<lambda>_. 7, sc_next_pid = 3, sc_pid_table = (\<lambda>_. NULL)(0 := 0x3000, 2 := 0x1000),
     sc_num_cpus = 1, sc_cpu = 0, sc_cpu_current = \<lambda>_. NULL, sc_kernel_cr3 = 0\<rparr>"

lemma two_tasks_schedulable:
  "schedulable two_tasks [(3, 0x1088), (5, 0x3088)] (zero_task\<lparr>tk_next := 0x1000\<rparr>)" "least_other two_tasks [(3, 0x1088), (5, 0x3088)]"
proof -
  have "rb_holds (ready_tree two_tasks (sc_rqs two_tasks ! 0)) [(3, 0x1088), (5, 0x3088)]" unfolding rb_holds_def
    by (rule exI [of _ "Nd RB_BLACK (Nd RB_RED Lf 0x1088 3 Lf) 0x3088 5 Lf"]) (simp add: at_def two_tasks_def ready_tree_def red_black_def)
  then show "schedulable two_tasks [(3, 0x1088), (5, 0x3088)] (zero_task\<lparr>tk_next := 0x1000\<rparr>)"
    by (simp add: schedulable_def queue_def) (simp add: two_tasks_def task_at_def node_of_def task_of_def zero_task_def priority_ok_def)
  show "least_other two_tasks [(3, 0x1088), (5, 0x3088)]" by (simp add: least_other_def two_tasks_def node_of_def)
qed

theorem schedule_picks_least_witness:
  "\<exists>st'. schedule two_tasks = Some (Switches 0x3000, st') \<and> sc_current st' = 0x1000 \<and> queue st' 0 [(3, 0x1088), (1280, 0x3088)]"
proof -
  have "charged (zero_task\<lparr>tk_next := 0x1000\<rparr>) = 1280" by code_simp
  moreover have "node_of 0x3000 = 0x3088" "sc_current two_tasks = 0x3000" "sc_cpu two_tasks = 0" by (simp_all add: node_of_def two_tasks_def)
  moreover have "next_task two_tasks [(3, 0x1088), (5, 0x3088)] = 0x1000" using two_tasks_schedulable(2) by (simp add: next_task_def task_of_def)
  moreover have "tk_state (zero_task\<lparr>tk_next := 0x1000\<rparr>) = TASK_RUNNING" by (simp add: zero_task_def)
  ultimately show ?thesis using schedule_picks_least [OF two_tasks_schedulable(1)] two_tasks_schedulable(2) by (auto simp: set_aside_def)
qed

text \<open>C20: a task that yields keeps its place.  The call charges the virtual runtime of the task, but the tree stays as it is, so that the same task is
  the least again; and if it is the least and the idle task is not ready, the processor halts, and calls the scheduler
  again and again in the same state.\<close>

theorem yield_keeps_order:
  assumes "schedulable st xs k"
  shows "\<exists>r st'. yield st = Some (r, st') \<and> queue st' (sc_cpu st) xs \<and>
    (\<exists>k'. task_at st' (sc_current st) = Some k' \<and> tk_vruntime k' = charged k) \<and>
    (\<not> least_other st xs \<and> \<not> idle_ready st \<longrightarrow> r = Halts \<and> schedule st' = Some (Halts, st'))"
proof -
  let ?t = "sc_current st" and ?k = "k\<lparr>tk_vruntime := charged k, tk_state := TASK_READY\<rparr>"
  let ?st = "st\<lparr>sc_tasks := (sc_tasks st)(sc_current st \<mapsto> k\<lparr>tk_vruntime := charged k, tk_state := TASK_READY\<rparr>)\<rparr>"
  have k: "task_at st ?t = Some k" "priority_ok k" "?t \<noteq> NULL" using assms by (auto simp: schedulable_def task_at_def split: if_splits)
  have y: "yield st = schedule ?st" using k by (simp add: yield_def charge_ok upd_task_def)
  have q: "queue ?st = queue st" by (simp add: queue_def ready_tree_def fun_eq_iff)
  have s: "schedulable ?st xs ?k" using assms k by (auto simp: schedulable_def q task_at_def priority_ok_def split: if_splits)
  have e: "least_other ?st xs = least_other st xs" "idle_ready ?st = idle_ready st" by (auto simp: least_other_def idle_ready_def task_at_def)
  show ?thesis
  proof (cases "least_other ?st xs \<or> idle_ready ?st")
    case True
    obtain n where n: "task_at ?st (next_task ?st xs) = Some n" "next_task ?st xs \<noteq> ?t" using next_task_other [OF s True] by auto
    obtain st1 p x where st1: "schedule ?st = Some (Switches ?t, switched st1 (sc_cpu st) ?t p (next_task ?st xs) n)"
        "queue st1 (sc_cpu st) (set_aside ?k ?t xs)" "task_at st1 ?t = Some p" "st1 = retree (put_task ?st ?t ?k) (sc_cpu st) x"
      using schedule_switches [OF s n(1) True] by auto
    have "p = ?k" using st1(3) k(3) by (simp add: st1(4) put_task_def task_at_def)
    then have "task_at (switched st1 (sc_cpu st) ?t p (next_task ?st xs) n) ?t = Some (?k\<lparr>tk_fpu_used := False\<rparr>)" using k(3) by (simp add: switched_def task_at_def)
    moreover have "queue (switched st1 (sc_cpu st) ?t p (next_task ?st xs) n) (sc_cpu st) xs"
      using st1(2) by (simp add: set_aside_def) (simp add: queue_def ready_tree_def switched_def)
    ultimately show ?thesis using y st1(1) True e by auto
  next
    case False
    then have h: "schedule ?st = Some (Halts, ?st)" using schedule_keeps [OF s] by simp
    have "queue ?st (sc_cpu st) xs" using s by (simp add: schedulable_def)
    moreover have "task_at ?st ?t = Some ?k" using k(3) by (simp add: task_at_def)
    ultimately show ?thesis using y h by auto
  qed
qed

theorem yield_keeps_order_witness:
  "\<exists>r st'. yield two_tasks = Some (r, st') \<and> queue st' 0 [(3, 0x1088), (5, 0x3088)] \<and> (\<exists>k'. task_at st' 0x3000 = Some k' \<and> tk_vruntime k' = 1280)"
proof -
  have "charged (zero_task\<lparr>tk_next := 0x1000\<rparr>) = 1280" by code_simp
  moreover have "sc_current two_tasks = 0x3000" "sc_cpu two_tasks = 0" by (simp_all add: two_tasks_def)
  ultimately show ?thesis using yield_keeps_order [OF two_tasks_schedulable(1)] by auto
qed

text \<open>C6: a task that blocks does not run again.  In whatever state after boot, a blocked task that the processor has left and that neither blocks nor
  ignores the signal of an exiting child is never the current task again; and no blocked task that is woken by setting its state
  is, whatever happens afterwards.\<close>

theorem blocked_task_never_runs:
  assumes "sched_reach st" and "sc_tasks st t = Some k" "tk_state k = TASK_BLOCKED" "t \<noteq> sc_current st"
  shows "(hears k \<longrightarrow> (\<forall>st'. sched_steps st st' \<longrightarrow> sc_current st' \<noteq> t)) \<and>
    (\<forall>st1 st'. sched_wake st t = Some st1 \<and> sched_steps st1 st' \<longrightarrow> sc_current st' \<noteq> t)"
proof -
  obtain R where a: "alive st R" using reach_alive [OF assms(1)] .
  then have i: "sched_inv st R" by (simp add: alive_def)
  have t: "t \<notin> R" using invD(8) [OF i assms(2-4)] .
  have "sc_current st' \<noteq> t" if "hears k" "sched_steps st st'" for st'
    using lost_stays [OF a _ that(2)] t assms(2-4) that(1) by (auto simp: lost_def)
  moreover have "sc_current st' \<noteq> t" if w: "sched_wake st t = Some st1" "sched_steps st1 st'" for st1 st'
  proof -
    have q: "quiet {} st st1" using w(1) unfolding sched_wake_def by (rule quiet_upd) (auto simp: mild_def hears_def)
    have "alive st1 R" using a quiet_inv [OF i q] quiet_exited [OF q] q by (auto simp: alive_def quiet_def)
    moreover have "lost st1 R t" using w(1) t assms(2-4) by (auto simp: lost_def sched_wake_def upd_task_Some task_at_Some)
    ultimately show ?thesis using lost_stays w(2) by blast
  qed
  ultimately show ?thesis by blast
qed

theorem blocked_task_never_runs_witness: "map_option (\<lambda>(s, s'). sc_current s' \<noteq> 0x1000) example_run = Some True"
proof -
  obtain s k s8 s' where s: "example_run = Some (s, s')" "sched_reach s" "sc_tasks s 0x1000 = Some k" "tk_state k = TASK_BLOCKED" "0x1000 \<noteq> sc_current s"
      "sched_wake s 0x1000 = Some s8" "sched_steps s8 s'" "sched_steps s s'" by (rule example_run_steps)
  then show ?thesis using blocked_task_never_runs [OF s(2-5)] by auto
qed

text \<open>C14: tasks and their numbers.  At every time after boot different tasks have different process numbers, and the lookup of the number of a task that is
  not dead finds this task; but no step, the collection of an exited child included, ever releases a task or a number.\<close>

theorem tasks_keep_their_pid:
  assumes "sched_reach st" and "sched_steps st st'"
  shows "(\<forall>t u k l. sc_tasks st' t = Some k \<and> sc_tasks st' u = Some l \<and> tk_pid k = tk_pid l \<longrightarrow> t = u) \<and>
    (\<forall>t k. sc_tasks st' t = Some k \<and> tk_state k \<noteq> TASK_DEAD \<longrightarrow> (\<exists>st1. task_get_by_pid st' (tk_pid k) = Some (t, st1))) \<and>
    dom (sc_tasks st) \<subseteq> dom (sc_tasks st') \<and> (\<forall>p. pid_test_bit st p \<longrightarrow> pid_test_bit st' p)"
proof -
  obtain R where "alive st R" using reach_alive [OF assms(1)] .
  then obtain R' where p: "progress st R st' R'" using steps_advance [OF _ assms(2)] unfolding advances_def by blast
  then have i: "sched_inv st' R'" by (simp add: progress_def)
  have "t = u" if "sc_tasks st' t = Some k" "sc_tasks st' u = Some l" "tk_pid k = tk_pid l" for t u k l
    using invD(6) [OF i that(1)] invD(6) [OF i that(2)] that(3) by (simp add: task_ok_def)
  moreover have "\<exists>st1. task_get_by_pid st' (tk_pid k) = Some (t, st1)" if t: "sc_tasks st' t = Some k" "tk_state k \<noteq> TASK_DEAD" for t k
    using invD(6,7) [OF i t(1)] t(2) task_get_at [of st' t k] by (auto simp: task_ok_def task_get_by_pid_def)
  ultimately show ?thesis using p unfolding progress_def by blast
qed

theorem tasks_keep_their_pid_witness: "map_option (\<lambda>(s, s'). 0x1000 \<in> dom (sc_tasks s')) example_run = Some True"
proof -
  obtain s k s8 s' where s: "example_run = Some (s, s')" "sched_reach s" "sc_tasks s 0x1000 = Some k" "tk_state k = TASK_BLOCKED" "0x1000 \<noteq> sc_current s"
      "sched_wake s 0x1000 = Some s8" "sched_steps s8 s'" "sched_steps s s'" by (rule example_run_steps)
  then have "0x1000 \<in> dom (sc_tasks s')" using tasks_keep_their_pid [OF s(2,8)] by blast
  then show ?thesis unfolding s(1) by simp
qed

end
