(* ===== verification/Spec2Isabelle.thy ===== *)
theory Spec2Isabelle
  imports Tcp_cong Seccomp Kstring Paging Uaccess Pipe Fdtable Capability Slab_props Journal_disk Sched_props
begin

text \<open>
  A model of the AuroraOS kernel and what can be proved about it.

  AuroraOS is a monolithic x86-64 kernel in C.  A Multiboot or UEFI loader enters \<^verbatim>\<open>kernel/entry.S\<close>; the kernel
  sets up physical memory and its heap (\<^verbatim>\<open>kernel/mem.c\<close>), page tables (\<^verbatim>\<open>kernel/pagetable.c\<close>), the scheduler
  (\<^verbatim>\<open>kernel/sched.c\<close> on \<^verbatim>\<open>kernel/rbtree.c\<close>), block devices and file systems, the network stack and drivers.
  Processes enter it through system calls, which are filtered by \<^verbatim>\<open>kernel/seccomp.c\<close>, copy their arguments with
  \<^verbatim>\<open>kernel/include/userspace.h\<close> and work on descriptors of \<^verbatim>\<open>kernel/file.c\<close>, pipes of \<^verbatim>\<open>kernel/pipe.c\<close> and
  capability descriptors of \<^verbatim>\<open>kernel/capability.c\<close>.

  \<^bold>\<open>Conventions.\<close>  \<open>uint8_t\<close> to \<open>uint64_t\<close> are words of that width, so that arithmetic wraps around as in C;
  \<open>int\<close> results and counters that the code keeps far from overflow are \<open>int\<close> or \<open>nat\<close>, with the bound stated.
  A struct is a record with the fields the code uses, an address is a 64-bit word, and linked structures stay
  linked: the state holds a map from addresses to nodes or bytes.  Type \<open>'a ub\<close> is \<open>'a option\<close>; \<open>None\<close> stands
  for undefined behaviour, a panic, or a loop that does not end.  An error of the code is a negative result or a
  null pointer, as in C.  Loops are structural recursion where the code counts, recursion with a termination
  proof where a measure falls, and \<open>partial_function (option)\<close> where the loop may run forever; theorems about such
  loops show that they return.  Log output, performance counters and the effect of memory barriers are left out.

  \<^bold>\<open>Shared theories.\<close>  \<open>Prelude\<close>: integer types, error numbers, generic lemmas.  \<open>Tasks\<close>: task states.  \<open>Links\<close>:
  singly linked lists in a heap.  \<open>Bytes\<close>: byte buffers and little-endian fields.

  \<^bold>\<open>Physical pages\<close> (\<open>Blocks\<close>, \<open>Buddy\<close>, \<open>Buddy_inv\<close>, \<open>Physmem\<close>, \<open>Physmem_props\<close>; \<^verbatim>\<open>kernel/mem.c\<close>, \<^verbatim>\<open>kernel/entry.S\<close>,
  \<^verbatim>\<open>boot/boot_info.h\<close>).  \<open>Buddy\<close> has the page descriptors with the doubly linked free lists of each order and one
  definition per function, \<open>Physmem\<close> the detection of memory from the Multiboot information and the boot
  information.  \<open>Blocks\<close> is the arithmetic of aligned blocks, \<open>Buddy_inv\<close> the invariant that ties lists, flags and
  orders together.  Shown: blocks handed out never overlap, lie inside the managed page range and are not reserved,
  and the free lists hold exactly the rest; allocation refines the specification ``a free block of the least sufficient order, if there is one''; releasing
  undoes allocating; what happens for sizes that do not match; and that the managed range can extend beyond
  the machine's memory.

  \<^bold>\<open>Kernel heap\<close> (\<open>Slab\<close>, \<open>Slab_inv\<close>, \<open>Slab_ops\<close>, \<open>Slab_props\<close>; \<^verbatim>\<open>kernel/mem.c\<close>).  Free lists of objects inside memory,
  large requests from the page allocator, release with page reclaim.  Shown over all sequences of calls and
  writes by owners: pieces in use do not overlap, new memory of up to 2 MiB is zero, no call touches memory in use, every
  call returns, small requests fail only when pages are exhausted, and everything released returns all pages.

  \<^bold>\<open>User memory\<close> (\<open>Paging\<close>, \<open>Uaccess\<close>; \<^verbatim>\<open>kernel/pagetable.c\<close>, \<^verbatim>\<open>kernel/include/userspace.h\<close>,
  \<^verbatim>\<open>kernel/include/user_access.h\<close>).  The four-level walk on tables in physical memory, the boot identity map, and
  every copy routine.  Shown: a copy to user memory changes only bytes in the checked user range, page by page,
  and what the page check does not look at.

  \<^bold>\<open>String routines\<close> (\<open>Kstring\<close>; \<^verbatim>\<open>kernel/string.c\<close>).  Word loops and byte tails.  Shown: \<open>memcpy\<close>, \<open>strlen\<close>,
  \<open>strcmp\<close> compute what the C standard says, \<open>snprintf\<close> stays in its buffer, printed numbers read back.

  \<^bold>\<open>Descriptors\<close> (\<open>Fdtable\<close>, \<open>Capability\<close>; \<^verbatim>\<open>kernel/file.c\<close>, \<^verbatim>\<open>kernel/vfs.c\<close>, \<^verbatim>\<open>kernel/capability.c\<close>).  Descriptor tables
  with the reference counts of open files, and capability entries with rights, expiry and transfer.  Shown:
  over every sequence of duplications and closes a file object keeps the exact count of its references, as long
  as a 32-bit counter can, and is released by the last close; allocation takes the lowest free slot; rights never
  grow along any derivation.

  \<^bold>\<open>Pipes\<close> (\<open>Pipe\<close>; \<^verbatim>\<open>kernel/pipe.c\<close>).  The ring buffer behind the interface \<open>byte_queue\<close>, and an interleaving
  semantics of readers, writers, wake-ups and closing.  Shown: over every interleaving the bytes read are a
  prefix of the bytes written; as long as no signal interferes nobody sleeps on data or space that is there, and
  everybody who sleeps is on a list that ends; and how a signal wedges the pipe.

  \<^bold>\<open>Seccomp\<close> (\<open>Seccomp\<close>; \<^verbatim>\<open>kernel/seccomp.c\<close>).  The filter program interpreter instruction by instruction.  Shown:
  programs whose jumps move forward always end, which of them read outside their data and which allow the call;
  installed filters cannot be changed; and the loads and jumps that go wrong.

  \<^bold>\<open>TCP congestion control\<close> (\<open>Tcp_cong\<close>; \<^verbatim>\<open>kernel/net/tcp_cong.c\<close>).  Slot table, round-trip estimator, NewReno.
  Shown: the timeout stays within its bounds over every sequence of calls; the recovery and lookup defects.

  \<^bold>\<open>Storage\<close> (\<open>Blockdev\<close>, \<open>Journal\<close>, \<open>Journal_props\<close>, \<open>Journal_disk\<close>; \<^verbatim>\<open>kernel/block_dev.c\<close>, \<^verbatim>\<open>kernel/ramdisk.c\<close>,
  \<^verbatim>\<open>kernel/journal.c\<close>).  Block devices behind the interface \<open>block_driver\<close>, the write-ahead log byte by byte on top of
  it.  Shown on the RAM disk: commits are carried out, what the entries of the log hold is replayed exactly, and how a crash
  between commit record and checkpoint loses the transaction and disables the journal.

  \<^bold>\<open>Ready tree\<close> (\<open>Rbtree\<close>, \<open>Rbtree_zip\<close>, \<open>Rbtree_heap\<close>, \<open>Rbtree_ops\<close>, \<open>Rbtree_del\<close>, \<open>Rbtree_props\<close>; \<^verbatim>\<open>kernel/rbtree.c\<close>,
  \<^verbatim>\<open>kernel/rbtree.h\<close>).  \<open>Rbtree\<close> has the nodes with parent pointers in a heap and every function with its rotations and
  repair loops; \<open>Rbtree_zip\<close> is the functional red-black tree with a path to its root, \<open>Rbtree_heap\<close> ties heap and tree
  together.  Shown: insertion and removal always return, keep the colours balanced, and act on the tree as on
  a sorted list of keys; minimum, successor and search return what they should.  The locale \<open>ready_queue\<close> is this
  contract, interpreted on the code and used for the scheduler.

  \<^bold>\<open>Processes and scheduler\<close> (\<open>Proc\<close>, \<open>Sched\<close>, \<open>Sched_inv\<close>, \<open>Sched_steps\<close>, \<open>Sched_quiet\<close>, \<open>Sched_reach\<close>, \<open>Sched_life\<close>, \<open>Sched_create\<close>,
  \<open>Sched_props\<close>; \<^verbatim>\<open>kernel/sched.c\<close>, \<^verbatim>\<open>kernel/sched.h\<close>, \<^verbatim>\<open>kernel/pit_handler.c\<close>, \<^verbatim>\<open>kernel/signal.c\<close>).  \<open>Proc\<close> has the task structs, process
  numbers, reference counts, children and the sending of signals; \<open>Sched\<close> every function on the run queues.  A call
  that switches ends with the outcome \<open>Switches\<close>, and what the resumed task does next is \<open>schedule_resumed\<close>.  The
  results of \<open>kmalloc\<close> and \<open>alloc_page\<close> are arguments.  The relation \<open>sched_step\<close> composes all operations on a
  machine with one processor; there new task structs are at unused addresses and the idle task does not block.  With
  more processors the idle loops of \<^verbatim>\<open>kernel/smp.c\<close> call \<open>schedule\<close> and steal tasks concurrently: the functions on
  several run queues are defined, but nothing is shown about machines with more than one processor.  Shown:
  which task \<open>schedule\<close> takes and where its caller goes in the tree; over every sequence of steps process numbers are
  unique and lookups find their task; and three defects: blocked tasks that are woken never run again,
  a task that yields keeps its place, tasks and process numbers are never released.

  \<^bold>\<open>Not modelled.\<close>  Devices and interrupt controllers (PCI, NVMe, virtio, USB, keyboard, APIC, ACPI, clocks), the
  start of further processors, context switches in assembly, and the other architectures: their behaviour is the
  hardware's.  Console, windows, logging, debugger and the kernel's shell: output only.  Path lookup, ext2, FAT32, SquashFS
  and the file systems in memory; network protocols other than congestion control, local sockets; system call wrappers;
  delivery of signals to handlers; copying of address spaces and page faults; loading of programs and modules; user
  programs: these are independent parts on top of what is modelled, of which nothing is assumed here.  Locks are
  left out where the model has one processor.
\<close>

end
